(* ===== verification/Prelude.thy ===== *)
theory Prelude
  imports Main "HOL-Library.Word"
begin

text \<open>
  The base of the development: the names of the C types the components use, the exit
  codes of errcode.h, the result type of code that may call exit_cleanup, and the lemmas on
  lists, words and results that several components share.

  A C string is a \<open>string\<close> without its terminating NUL: reading at the end of the
  list is reading the NUL. A signed 32-bit or 64-bit integer is a \<open>word\<close> read with
  \<open>sint\<close>; arithmetic wraps. Data on the wire and in files is a list of \<open>byte\<close>.
\<close>

unbundle bit_operations_syntax

type_synonym byte = "8 word"
type_synonym uint32 = "32 word"
type_synonym int32 = "32 word"
type_synonym int64 = "64 word"

section \<open>Exit codes and results\<close>

text \<open>The exit codes of errcode.h.\<close>

datatype rerr =
    RERR_SYNTAX | RERR_PROTOCOL | RERR_FILESELECT | RERR_UNSUPPORTED | RERR_STARTCLIENT
  | RERR_SOCKETIO | RERR_FILEIO | RERR_STREAMIO | RERR_MESSAGEIO | RERR_IPC
  | RERR_CRASHED | RERR_TERMINATED | RERR_SIGNAL1 | RERR_SIGNAL | RERR_WAITCHILD
  | RERR_MALLOC | RERR_PARTIAL | RERR_VANISHED | RERR_DEL_LIMIT | RERR_TIMEOUT
  | RERR_CONTIMEOUT

fun rerr_code :: "rerr \<Rightarrow> int" where
  "rerr_code RERR_SYNTAX = 1"
| "rerr_code RERR_PROTOCOL = 2"
| "rerr_code RERR_FILESELECT = 3"
| "rerr_code RERR_UNSUPPORTED = 4"
| "rerr_code RERR_STARTCLIENT = 5"
| "rerr_code RERR_SOCKETIO = 10"
| "rerr_code RERR_FILEIO = 11"
| "rerr_code RERR_STREAMIO = 12"
| "rerr_code RERR_MESSAGEIO = 13"
| "rerr_code RERR_IPC = 14"
| "rerr_code RERR_CRASHED = 15"
| "rerr_code RERR_TERMINATED = 16"
| "rerr_code RERR_SIGNAL1 = 19"
| "rerr_code RERR_SIGNAL = 20"
| "rerr_code RERR_WAITCHILD = 21"
| "rerr_code RERR_MALLOC = 22"
| "rerr_code RERR_PARTIAL = 23"
| "rerr_code RERR_VANISHED = 24"
| "rerr_code RERR_DEL_LIMIT = 25"
| "rerr_code RERR_TIMEOUT = 30"
| "rerr_code RERR_CONTIMEOUT = 35"

text \<open>
  Code that may exit returns \<open>rerr + 'a\<close>; \<open>res_bind\<close> runs the rest of the
  function only when the first part returned.
\<close>

type_synonym 'a result = "rerr + 'a"

definition res_bind :: "'a result \<Rightarrow> ('a \<Rightarrow> 'b result) \<Rightarrow> 'b result" where
  "res_bind m k = (case m of Inl e \<Rightarrow> Inl e | Inr a \<Rightarrow> k a)"

lemma res_bind_simps [simp]:
  "res_bind (Inl e) k = Inl e"
  "res_bind (Inr a) k = k a"
  by (simp_all add: res_bind_def)

lemma res_bind_eq_Inr:
  "res_bind m k = Inr b \<longleftrightarrow> (\<exists>a. m = Inr a \<and> k a = Inr b)"
  by (cases m) simp_all

lemma res_bind_eq_Inl:
  "res_bind m k = Inl e \<longleftrightarrow> m = Inl e \<or> (\<exists>a. m = Inr a \<and> k a = Inl e)"
  by (cases m) simp_all

lemma res_bind_split:
  "P (res_bind m k) \<longleftrightarrow> (\<forall>e. m = Inl e \<longrightarrow> P (Inl e)) \<and> (\<forall>a. m = Inr a \<longrightarrow> P (k a))"
  by (cases m) simp_all

section \<open>Lists\<close>

lemma take_Cons_pos: "0 < n \<Longrightarrow> take n (x # xs) = x # take (n - 1) xs"
  by (cases n) simp_all

lemma drop_Cons_pos: "0 < n \<Longrightarrow> drop n (x # xs) = drop (n - 1) xs"
  by (cases n) simp_all

lemma take_append_exact [simp]: "length xs = n \<Longrightarrow> take n (xs @ ys) = xs"
  by simp

lemma drop_append_exact [simp]: "length xs = n \<Longrightarrow> drop n (xs @ ys) = ys"
  by simp

lemma take_drop_take: "m \<le> c \<Longrightarrow> take m xs @ drop m (take c xs) = take c xs"
  by (metis append_take_drop_id min.absorb1 take_take)

lemma take_append_nth: "0 < c \<Longrightarrow> c \<le> length xs \<Longrightarrow> take c xs = take (c - 1) xs @ [xs ! (c - 1)]"
  using take_Suc_conv_app_nth [of "c - 1" xs] by simp

lemma append_take_drop [simp]: "take n xs @ drop n xs @ ys = xs @ ys"
  by (simp flip: append_assoc)

lemma update_after_append: "n = length xs \<Longrightarrow> (xs @ y # ys)[n := v] = xs @ v # ys"
  by (simp add: list_update_append)

lemma replicate_snoc: "0 < n \<Longrightarrow> replicate n z = replicate (n - 1) z @ [z]"
  by (cases n) (simp_all add: replicate_append_same)

lemma list_eq_take_replicate:
  assumes "c \<le> length xs" and "\<And>i. c \<le> i \<Longrightarrow> i < length xs \<Longrightarrow> xs ! i = z"
  shows "xs = take c xs @ replicate (length xs - c) z"
proof (rule nth_equalityI)
  show "length xs = length (take c xs @ replicate (length xs - c) z)"
    using assms(1) by simp
next
  fix i assume "i < length xs"
  then show "xs ! i = (take c xs @ replicate (length xs - c) z) ! i"
    using assms by (cases "i < c") (auto simp: nth_append)
qed

section \<open>Strings\<close>

text \<open>\<open>at p i\<close> is \<open>p[i]\<close>; at the end of the string it is the NUL.\<close>

definition NUL :: char where "NUL = CHR 0x00"

definition at :: "string \<Rightarrow> nat \<Rightarrow> char" where
  "at p i = (if i < length p then p ! i else NUL)"

lemma at_simps [simp]: "at [] i = NUL" "at (c # p) 0 = c" "at (c # p) (Suc i) = at p i"
  by (simp_all add: at_def)

text \<open>The character classes of ctype.h in the C locale.\<close>

definition c_isupper :: "char \<Rightarrow> bool" where "c_isupper c \<longleftrightarrow> 65 \<le> (of_char c :: nat) \<and> (of_char c :: nat) \<le> 90"
definition c_islower :: "char \<Rightarrow> bool" where "c_islower c \<longleftrightarrow> 97 \<le> (of_char c :: nat) \<and> (of_char c :: nat) \<le> 122"
definition c_isdigit :: "char \<Rightarrow> bool" where "c_isdigit c \<longleftrightarrow> 48 \<le> (of_char c :: nat) \<and> (of_char c :: nat) \<le> 57"
definition c_isalpha :: "char \<Rightarrow> bool" where "c_isalpha c \<longleftrightarrow> c_isupper c \<or> c_islower c"
definition c_isalnum :: "char \<Rightarrow> bool" where "c_isalnum c \<longleftrightarrow> c_isalpha c \<or> c_isdigit c"
definition c_isspace :: "char \<Rightarrow> bool" where
  "c_isspace c \<longleftrightarrow> (of_char c :: nat) = 32 \<or> 9 \<le> (of_char c :: nat) \<and> (of_char c :: nat) \<le> 13"
definition c_isblank :: "char \<Rightarrow> bool" where "c_isblank c \<longleftrightarrow> (of_char c :: nat) = 32 \<or> (of_char c :: nat) = 9"
definition c_iscntrl :: "char \<Rightarrow> bool" where "c_iscntrl c \<longleftrightarrow> (of_char c :: nat) < 32 \<or> (of_char c :: nat) = 127"
definition c_isprint :: "char \<Rightarrow> bool" where "c_isprint c \<longleftrightarrow> 32 \<le> (of_char c :: nat) \<and> (of_char c :: nat) < 127"
definition c_isgraph :: "char \<Rightarrow> bool" where "c_isgraph c \<longleftrightarrow> c_isprint c \<and> c \<noteq> CHR '' ''"
definition c_ispunct :: "char \<Rightarrow> bool" where "c_ispunct c \<longleftrightarrow> c_isgraph c \<and> \<not> c_isalnum c"
definition c_isxdigit :: "char \<Rightarrow> bool" where
  "c_isxdigit c \<longleftrightarrow> c_isdigit c \<or> 65 \<le> (of_char c :: nat) \<and> (of_char c :: nat) \<le> 70
     \<or> 97 \<le> (of_char c :: nat) \<and> (of_char c :: nat) \<le> 102"
definition c_tolower :: "char \<Rightarrow> char" where
  "c_tolower c = (if c_isupper c then char_of ((of_char c :: nat) + 32) else c)"

section \<open>Bytes\<close>

text \<open>
  A property of all bytes that the kernel can evaluate is proved by running through the
  256 values.
\<close>

lemma byte_exhaust:
  fixes P :: "byte \<Rightarrow> bool"
  assumes "list_all (\<lambda>n. P (word_of_nat n)) [0..<256]"
  shows "P b"
proof -
  have "unat b < 256"
    using unsigned_less [of b] by simp
  moreover have "\<forall>n\<in>{0..<256}. P (word_of_nat n)"
    using assms by (auto simp: list_all_iff)
  ultimately have "P (word_of_nat (unat b))"
    by (metis atLeastLessThan_iff zero_le)
  then show ?thesis by simp
qed

end
