(* ===== verification/Codec.thy ===== *)
theory Codec
  imports Prelude
begin

text \<open>
  The interface between the two ends of a connection. An encoding is a writer and a reader;
  its law is that the reader, given the writer's bytes and whatever follows them, returns the
  value and exactly what followed. From the law alone: the encoding is injective, no code is a
  proper prefix of another, and a sequence of values written one after the other is read back
  one after the other. A second interface adds the state both ends keep between values.
\<close>

section \<open>Reading a fixed number of values\<close>

text \<open>The loops that read \<open>n\<close> values in a row.\<close>

fun read_seq :: "(byte list \<Rightarrow> ('a \<times> byte list) result) \<Rightarrow> nat \<Rightarrow> byte list \<Rightarrow> ('a list \<times> byte list) result" where
  "read_seq dec 0 s = Inr ([], s)"
| "read_seq dec (Suc n) s = res_bind (dec s) (\<lambda>(x, s). res_bind (read_seq dec n s) (\<lambda>(xs, s). Inr (x # xs, s)))"

fun write_seq_st :: "('st \<Rightarrow> 'a \<Rightarrow> byte list \<times> 'st) \<Rightarrow> 'st \<Rightarrow> 'a list \<Rightarrow> byte list \<times> 'st" where
  "write_seq_st enc st [] = ([], st)"
| "write_seq_st enc st (x # xs) =
     (case enc st x of (b, st) \<Rightarrow> case write_seq_st enc st xs of (bs, st) \<Rightarrow> (b @ bs, st))"

fun read_seq_st :: "('st \<Rightarrow> byte list \<Rightarrow> ('a \<times> byte list \<times> 'st) result) \<Rightarrow> 'st \<Rightarrow> nat \<Rightarrow> byte list \<Rightarrow>
    ('a list \<times> byte list \<times> 'st) result" where
  "read_seq_st dec st 0 s = Inr ([], s, st)"
| "read_seq_st dec st (Suc n) s = res_bind (dec st s) (\<lambda>(x, s, st).
     res_bind (read_seq_st dec st n s) (\<lambda>(xs, s, st). Inr (x # xs, s, st)))"

section \<open>An encoding\<close>

locale codec =
  fixes enc :: "'a \<Rightarrow> byte list"
    and dec :: "byte list \<Rightarrow> ('a \<times> byte list) result"
    and valid :: "'a \<Rightarrow> bool"
  assumes dec_enc: "valid x \<Longrightarrow> dec (enc x @ rest) = Inr (x, rest)"
begin

lemma unique_decoding:
  assumes "valid x" and "valid y" and "enc x @ r = enc y @ t"
  shows "x = y \<and> r = t"
proof -
  have "dec (enc x @ r) = dec (enc y @ t)"
    using assms(3) by (rule arg_cong)
  then show ?thesis
    unfolding dec_enc [OF assms(1)] dec_enc [OF assms(2)] by simp
qed

lemma enc_inject: "valid x \<Longrightarrow> valid y \<Longrightarrow> enc x = enc y \<Longrightarrow> x = y"
  using unique_decoding [of x y "[]" "[]"] by simp

lemma enc_prefix_free: "valid x \<Longrightarrow> valid y \<Longrightarrow> enc y = enc x @ r \<Longrightarrow> r = []"
  using unique_decoding [of x y r "[]"] by simp

lemma read_seq_enc:
  "list_all valid xs \<Longrightarrow> read_seq dec (length xs) (concat (map enc xs) @ rest) = Inr (xs, rest)"
  by (induction xs) (simp_all add: dec_enc)

end

section \<open>An encoding with state\<close>

locale codec_st =
  fixes enc :: "'st \<Rightarrow> 'a \<Rightarrow> byte list \<times> 'st"
    and dec :: "'st \<Rightarrow> byte list \<Rightarrow> ('a \<times> byte list \<times> 'st) result"
    and valid :: "'a \<Rightarrow> bool"
    and inv :: "'st \<Rightarrow> bool"
  assumes dec_enc: "inv st \<Longrightarrow> valid x \<Longrightarrow> enc st x = (b, st') \<Longrightarrow> dec st (b @ rest) = Inr (x, rest, st')"
    and inv_enc: "inv st \<Longrightarrow> valid x \<Longrightarrow> enc st x = (b, st') \<Longrightarrow> inv st'"
begin

lemma inv_write_seq:
  "inv st \<Longrightarrow> list_all valid xs \<Longrightarrow> write_seq_st enc st xs = (bs, st') \<Longrightarrow> inv st'"
  by (induction xs arbitrary: st bs) (auto split: prod.splits dest: inv_enc)

lemma read_seq_write_seq:
  "inv st \<Longrightarrow> list_all valid xs \<Longrightarrow> write_seq_st enc st xs = (bs, st') \<Longrightarrow>
   read_seq_st dec st (length xs) (bs @ rest) = Inr (xs, rest, st')"
proof (induction xs arbitrary: st bs)
  case Nil
  then show ?case by simp
next
  case (Cons x xs)
  from Cons.prems(3) obtain b st1 bs1 where
    x: "enc st x = (b, st1)" and xs: "write_seq_st enc st1 xs = (bs1, st')" and "bs = b @ bs1"
    by (auto split: prod.splits)
  moreover from Cons.prems x have "inv st1" by (auto dest: inv_enc)
  ultimately show ?case
    using Cons.prems Cons.IH [of st1 bs1] dec_enc [of st x b st1 "bs1 @ rest"] by simp
qed

end

text \<open>A stateless encoding is one with state whose state never changes.\<close>

sublocale codec \<subseteq> stateful: codec_st
  "\<lambda>st x. (enc x, st)" "\<lambda>st s. res_bind (dec s) (\<lambda>(x, s). Inr (x, s, st))" valid "\<lambda>_. True"
  by unfold_locales (auto simp: dec_enc)

end
