(* ===== verification/Byteorder.thy ===== *)
theory Byteorder
  imports Codec
begin

text \<open>
  byteorder.h and the fixed-width readers and writers of io.c. A writer returns the bytes it
  hands to write_buf; a reader takes the unread bytes of the stream and returns the value and
  the bytes left, or the exit code when the stream ends early.
\<close>

section \<open>byteorder.h\<close>

definition UVAL :: "byte list \<Rightarrow> nat \<Rightarrow> uint32" where
  "UVAL buf pos = ucast (buf ! pos)"

definition IVALu :: "byte list \<Rightarrow> nat \<Rightarrow> uint32" where
  "IVALu buf pos = UVAL buf pos
     OR push_bit 8 (UVAL buf (pos + 1))
     OR push_bit 16 (UVAL buf (pos + 2))
     OR push_bit 24 (UVAL buf (pos + 3))"

definition SIVALu :: "byte list \<Rightarrow> nat \<Rightarrow> uint32 \<Rightarrow> byte list" where
  "SIVALu buf pos val = buf[pos := ucast val, pos + 1 := ucast (drop_bit 8 val),
     pos + 2 := ucast (drop_bit 16 val), pos + 3 := ucast (drop_bit 24 val)]"

definition IVAL64 :: "byte list \<Rightarrow> nat \<Rightarrow> int64" where
  "IVAL64 buf pos = ucast (IVALu buf pos) OR push_bit 32 (ucast (IVALu buf (pos + 4)))"

definition SIVAL64 :: "byte list \<Rightarrow> nat \<Rightarrow> int64 \<Rightarrow> byte list" where
  "SIVAL64 buf pos val = SIVALu (SIVALu buf pos (ucast val)) (pos + 4) (ucast (drop_bit 32 val))"

section \<open>Reading bytes\<close>

text \<open>
  read_buf on a stream that holds the bytes still to come. Reading past the end is
  whine_about_eof, which exits with RERR_STREAMIO.
\<close>

definition read_buf :: "nat \<Rightarrow> byte list \<Rightarrow> (byte list \<times> byte list) result" where
  "read_buf len s = (if length s < len then Inl RERR_STREAMIO else Inr (take len s, drop len s))"

definition read_byte :: "byte list \<Rightarrow> (byte \<times> byte list) result" where
  "read_byte s = res_bind (read_buf 1 s) (\<lambda>(b, s). Inr (b ! 0, s))"

section \<open>Fixed-width integers\<close>

definition write_shortint :: "16 word \<Rightarrow> byte list" where
  "write_shortint x = [ucast x, ucast (drop_bit 8 x)]"

definition read_shortint :: "byte list \<Rightarrow> (16 word \<times> byte list) result" where
  "read_shortint s = res_bind (read_buf 2 s) (\<lambda>(b, s).
     Inr (ucast (push_bit 8 (UVAL b 1) + UVAL b 0), s))"

definition write_int :: "int32 \<Rightarrow> byte list" where
  "write_int x = SIVALu (replicate 4 0) 0 x"

definition read_int :: "byte list \<Rightarrow> (int32 \<times> byte list) result" where
  "read_int s = res_bind (read_buf 4 s) (\<lambda>(b, s). Inr (IVALu b 0, s))"

definition write_longint :: "int64 \<Rightarrow> byte list" where
  "write_longint x =
     (if sint x \<le> 0x7FFFFFFF \<and> sint x \<ge> 0 then SIVALu (replicate 4 0) 0 (ucast x)
      else replicate 4 0xFF @ SIVALu (SIVALu (replicate 8 0) 0 (ucast x)) 4 (ucast (drop_bit 32 x)))"

definition read_longint :: "byte list \<Rightarrow> (int64 \<times> byte list) result" where
  "read_longint s = res_bind (read_int s) (\<lambda>(num, s).
     if num \<noteq> 0xFFFFFFFF then Inr (scast num, s)
     else res_bind (read_buf 8 s) (\<lambda>(b, s).
       Inr (ucast (IVALu b 0) OR push_bit 32 (ucast (IVALu b 4)), s)))"

section \<open>Lemmas: byte order\<close>

lemma length_SIVALu [simp]: "length (SIVALu buf pos x) = length buf"
  by (simp add: SIVALu_def)

lemma length_SIVAL64 [simp]: "length (SIVAL64 buf pos x) = length buf"
  by (simp add: SIVAL64_def)

lemma bytes_of_uint32:
  fixes x :: uint32
  shows "ucast (ucast x :: byte) OR push_bit 8 (ucast (ucast (drop_bit 8 x) :: byte))
     OR push_bit 16 (ucast (ucast (drop_bit 16 x) :: byte))
     OR push_bit 24 (ucast (ucast (drop_bit 24 x) :: byte)) = x" (is "?l = x")
proof (rule bit_word_eqI)
  fix n assume "n < LENGTH(32)"
  then have "n < 8 \<or> (8 \<le> n \<and> n < 16) \<or> (16 \<le> n \<and> n < 24) \<or> (24 \<le> n \<and> n < 32)"
    by auto
  then show "bit ?l n = bit x n"
    by (elim disjE conjE) (auto simp: bit_simps)
qed

lemma halves_of_int64:
  fixes x :: int64
  shows "ucast (ucast x :: uint32) OR push_bit 32 (ucast (ucast (drop_bit 32 x) :: uint32)) = x"
    (is "?l = x")
proof (rule bit_word_eqI)
  fix n assume "n < LENGTH(64)"
  then have "n < 32 \<or> (32 \<le> n \<and> n < 64)" by auto
  then show "bit ?l n = bit x n"
    by (elim disjE conjE) (auto simp: bit_simps)
qed

lemma IVALu_SIVALu [simp]:
  "pos + 4 \<le> length buf \<Longrightarrow> IVALu (SIVALu buf pos x) pos = x"
  by (simp add: IVALu_def SIVALu_def UVAL_def bytes_of_uint32)

lemma IVALu_cong:
  assumes "\<And>i. i < 4 \<Longrightarrow> a ! (p + i) = b ! (q + i)"
  shows "IVALu a p = IVALu b q"
  using assms [of 0] assms [of 1] assms [of 2] assms [of 3]
  by (simp add: IVALu_def UVAL_def)

lemma IVAL64_cong:
  assumes "\<And>i. i < 8 \<Longrightarrow> a ! (p + i) = b ! (q + i)"
  shows "IVAL64 a p = IVAL64 b q"
proof -
  have "IVALu a p = IVALu b q"
    by (rule IVALu_cong) (simp add: assms)
  moreover have "IVALu a (p + 4) = IVALu b (q + 4)"
    by (rule IVALu_cong) (use assms [of "4 + _"] in \<open>simp add: add.assoc\<close>)
  ultimately show ?thesis by (simp add: IVAL64_def)
qed

lemma IVAL64_SIVAL64 [simp]:
  assumes "pos + 8 \<le> length buf"
  shows "IVAL64 (SIVAL64 buf pos x) pos = x"
proof -
  have "IVALu (SIVAL64 buf pos x) pos = ucast x"
  proof -
    have "IVALu (SIVAL64 buf pos x) pos = IVALu (SIVALu buf pos (ucast x)) pos"
      by (rule IVALu_cong) (simp add: SIVAL64_def SIVALu_def)
    then show ?thesis using assms by simp
  qed
  moreover have "IVALu (SIVAL64 buf pos x) (pos + 4) = ucast (drop_bit 32 x)"
    using assms by (simp add: SIVAL64_def)
  ultimately show ?thesis by (simp add: IVAL64_def halves_of_int64)
qed

section \<open>Lemmas: fixed-width integers\<close>

lemma read_buf_append [simp]: "length b = n \<Longrightarrow> read_buf n (b @ s) = Inr (b, s)"
  by (simp add: read_buf_def)

lemma read_byte_Cons [simp]: "read_byte (c # s) = Inr (c, s)"
  by (simp add: read_byte_def read_buf_def)

lemma length_write_int [simp]: "length (write_int x) = 4"
  by (simp add: write_int_def)

lemma read_int_write_int [simp]: "read_int (write_int x @ s) = Inr (x, s)"
  by (simp add: read_int_def write_int_def)

lemma read_shortint_write_shortint: "read_shortint (write_shortint x @ s) = Inr (x, s)"
proof -
  have "ucast (push_bit 8 (ucast (ucast (drop_bit 8 x) :: byte)) + ucast (ucast x :: byte) :: uint32) = x"
    (is "ucast (?h + ?l) = x")
  proof -
    have "?h + ?l = ?h OR ?l"
      by (rule disjunctive_add) (auto simp: bit_simps)
    moreover have "ucast (?h OR ?l) = x"
    proof (rule bit_word_eqI)
      fix n assume "n < LENGTH(16)"
      then have "n < 8 \<or> (8 \<le> n \<and> n < 16)" by auto
      then show "bit (ucast (?h OR ?l) :: 16 word) n = bit x n"
        by (elim disjE conjE) (auto simp: bit_simps)
    qed
    ultimately show ?thesis by simp
  qed
  then show ?thesis
    by (simp add: read_shortint_def write_shortint_def read_buf_def UVAL_def)
qed

lemma scast_small:
  fixes x :: int64
  assumes "0 \<le> sint x" and "sint x \<le> 0x7FFFFFFF"
  shows "scast (ucast x :: int32) = x" and "(ucast x :: int32) \<noteq> 0xFFFFFFFF"
proof -
  define k where "k = sint x"
  have x: "x = word_of_int k" by (simp add: k_def)
  have kb: "0 \<le> k" "k \<le> 0x7FFFFFFF"
    using assms by (simp_all add: k_def)
  have u: "(ucast x :: int32) = word_of_int k"
    by (simp add: x ucast_down_wi is_down)
  have k: "signed_take_bit 31 k = k" "uint (word_of_int k :: int32) = k"
    using kb by (simp_all add: signed_take_bit_int_eq_self uint_word_of_int)
  show "scast (ucast x :: int32) = x"
    by (simp only: u scast_eq) (simp add: x k signed_of_int)
  show "(ucast x :: int32) \<noteq> 0xFFFFFFFF"
  proof
    assume "(ucast x :: int32) = 0xFFFFFFFF"
    then have "uint (word_of_int k :: int32) = 0xFFFFFFFF" by (simp add: u)
    then show False using k(2) kb(2) by simp
  qed
qed

lemma read_longint_write_longint: "read_longint (write_longint x @ s) = Inr (x, s)"
proof (cases "sint x \<le> 0x7FFFFFFF \<and> sint x \<ge> 0")
  case True
  then have "write_longint x = write_int (ucast x)"
    by (simp add: write_longint_def write_int_def)
  then show ?thesis
    using True scast_small [of x] by (simp add: read_longint_def)
next
  case False
  have "read_int (replicate 4 0xFF @ t) = Inr (0xFFFFFFFF, t)" for t
    by (simp add: read_int_def IVALu_def UVAL_def)
  moreover have "write_longint x = replicate 4 0xFF @ SIVAL64 (replicate 8 0) 0 x"
    using False by (auto simp: write_longint_def SIVAL64_def)
  ultimately show ?thesis
    using IVAL64_SIVAL64 [of 0 "replicate 8 0" x] by (simp add: read_longint_def IVAL64_def)
qed

end
