(* ===== verification/Varint.thy ===== *)
theory Varint
  imports Byteorder
begin

text \<open>
  The variable-width integers of io.c: write_varint and read_varint (32 bits), write_varlong
  and read_varlong (64 bits, with a minimum number of bytes).
\<close>

section \<open>Variable-width integers\<close>

definition int_byte_extra :: "nat list" where
  "int_byte_extra =
    [0, 0, 0, 0, 0, 0, 0, 0, 0, 0, 0, 0, 0, 0, 0, 0,
     0, 0, 0, 0, 0, 0, 0, 0, 0, 0, 0, 0, 0, 0, 0, 0,
     1, 1, 1, 1, 1, 1, 1, 1, 1, 1, 1, 1, 1, 1, 1, 1,
     2, 2, 2, 2, 2, 2, 2, 2, 3, 3, 3, 3, 4, 4, 5, 6]"

text \<open>The loop that drops high zero bytes, down to \<open>lo\<close>.\<close>

fun trim_cnt :: "byte list \<Rightarrow> nat \<Rightarrow> nat \<Rightarrow> nat" where
  "trim_cnt b lo 0 = 0"
| "trim_cnt b lo (Suc cnt) = (if Suc cnt > lo \<and> b ! Suc cnt = 0 then trim_cnt b lo cnt else Suc cnt)"

definition write_varint :: "int32 \<Rightarrow> byte list" where
  "write_varint x =
     (let b = SIVALu (replicate 5 0) 1 x;
          cnt = trim_cnt b 1 4;
          bit = push_bit (7 - cnt + 1) 1 :: byte
      in if b ! cnt \<ge> bit then take (cnt + 1) (b[0 := NOT (bit - 1)])
         else if cnt > 1 then take cnt (b[0 := b ! cnt OR NOT (bit * 2 - 1)])
         else take cnt (b[0 := b ! 1]))"

definition read_varint :: "byte list \<Rightarrow> (int32 \<times> byte list) result" where
  "read_varint s = res_bind (read_byte s) (\<lambda>(ch, s).
     let extra = int_byte_extra ! (unat ch div 4) in
     if extra \<noteq> 0 then
       let bit = push_bit (8 - extra) 1 :: byte in
       if extra \<ge> 5 then Inl RERR_STREAMIO
       else res_bind (read_buf extra s) (\<lambda>(ub, s).
         Inr (IVALu ((ub @ replicate (5 - extra) 0)[extra := ch AND (bit - 1)]) 0, s))
     else Inr (IVALu ((replicate 5 0)[0 := ch]) 0, s))"

definition write_varlong :: "int64 \<Rightarrow> nat \<Rightarrow> byte list" where
  "write_varlong x min_bytes =
     (let b = SIVAL64 (replicate 9 0) 1 x;
          cnt = trim_cnt b min_bytes 8;
          bit = push_bit (7 + min_bytes - cnt) 1 :: byte
      in if b ! cnt \<ge> bit then take (cnt + 1) (b[0 := NOT (bit - 1)])
         else if cnt > min_bytes then take cnt (b[0 := b ! cnt OR NOT (bit * 2 - 1)])
         else take cnt (b[0 := b ! cnt]))"

definition read_varlong :: "nat \<Rightarrow> byte list \<Rightarrow> (int64 \<times> byte list) result" where
  "read_varlong min_bytes s = res_bind (read_buf min_bytes s) (\<lambda>(b2, s).
     let ub = take (min_bytes - 1) (drop 1 b2) @ replicate (9 - (min_bytes - 1)) 0;
         extra = int_byte_extra ! (unat (b2 ! 0) div 4) in
     if extra \<noteq> 0 then
       let bit = push_bit (8 - extra) 1 :: byte in
       if min_bytes + extra > 9 then Inl RERR_STREAMIO
       else res_bind (read_buf extra s) (\<lambda>(e, s).
         Inr (IVAL64 ((take (min_bytes - 1) ub @ e @ drop (min_bytes - 1 + extra) ub)
                        [min_bytes + extra - 1 := b2 ! 0 AND (bit - 1)]) 0, s))
     else Inr (IVAL64 (ub[min_bytes + extra - 1 := b2 ! 0]) 0, s))"

section \<open>Lemmas: variable-width integers\<close>

lemma trim_cnt_props:
  assumes "lo \<le> n" and "trim_cnt b lo n = c"
  shows "lo \<le> c" and "c \<le> n" and "\<And>i. c < i \<Longrightarrow> i \<le> n \<Longrightarrow> b ! i = 0"
proof -
  have "lo \<le> c \<and> c \<le> n \<and> (\<forall>i. c < i \<and> i \<le> n \<longrightarrow> b ! i = 0)"
    using assms
  proof (induction n)
    case 0
    then show ?case by simp
  next
    case (Suc n)
    show ?case
    proof (cases "Suc n > lo \<and> b ! Suc n = 0")
      case True
      with Suc show ?thesis by (auto simp: le_Suc_eq)
    next
      case False
      with Suc show ?thesis by auto
    qed
  qed
  then show "lo \<le> c" and "c \<le> n" and "\<And>i. c < i \<Longrightarrow> i \<le> n \<Longrightarrow> b ! i = 0"
    by auto
qed

text \<open>
  The three shapes of the first byte: how many extra bytes it announces, and the payload bits
  that the reader's mask recovers.
\<close>

abbreviation extra_of :: "byte \<Rightarrow> nat" where
  "extra_of ch \<equiv> int_byte_extra ! (unat ch div 4)"

lemma extra_plain: "ch < 128 \<Longrightarrow> extra_of ch = 0"
proof -
  have "ch < 128 \<longrightarrow> extra_of ch = 0"
    by (rule byte_exhaust [where b = ch]) code_simp
  then show "ch < 128 \<Longrightarrow> extra_of ch = 0" by simp
qed

lemma extra_marker:
  assumes "m \<le> 5"
  shows "extra_of (NOT (push_bit (7 - m) 1 - 1)) = m + 1"
    and "NOT (push_bit (7 - m) 1 - 1) AND (push_bit (7 - m) 1 - 1) = (0 :: byte)"
proof -
  have "list_all (\<lambda>m. extra_of (NOT (push_bit (7 - m) 1 - 1)) = m + 1) [0..<6]"
    by code_simp
  then show "extra_of (NOT (push_bit (7 - m) 1 - 1)) = m + 1"
    using assms by (simp add: list_all_iff)
qed simp

lemma extra_packed_all:
  "list_all (\<lambda>m. list_all (\<lambda>n.
      extra_of (word_of_nat n OR NOT (push_bit (7 - m) 1 * 2 - 1)) = m \<and>
      (word_of_nat n OR NOT (push_bit (7 - m) 1 * 2 - 1)) AND (push_bit (8 - m) 1 - 1) = (word_of_nat n :: byte))
    [0..<2 ^ (7 - m)]) [1..<6]"
  by code_simp

lemma extra_packed:
  assumes "1 \<le> m" and "m \<le> 5" and "v < push_bit (7 - m) 1"
  shows "extra_of (v OR NOT (push_bit (7 - m) 1 * 2 - 1)) = m"
    and "(v OR NOT (push_bit (7 - m) 1 * 2 - 1)) AND (push_bit (8 - m) 1 - 1) = v"
proof -
  have "unat (push_bit (7 - m) 1 :: byte) = 2 ^ (7 - m)"
  proof -
    have "m = 1 \<or> m = 2 \<or> m = 3 \<or> m = 4 \<or> m = 5"
      using assms(1,2) by auto
    then show ?thesis by auto
  qed
  then have "unat v \<in> set [0..<2 ^ (7 - m)]"
    using assms(3) by (simp add: word_less_nat_alt)
  moreover have "m \<in> set [1..<6]"
    using assms(1,2) by auto
  ultimately have "extra_of (word_of_nat (unat v) OR NOT (push_bit (7 - m) 1 * 2 - 1)) = m \<and>
      (word_of_nat (unat v) OR NOT (push_bit (7 - m) 1 * 2 - 1)) AND (push_bit (8 - m) 1 - 1)
        = (word_of_nat (unat v) :: byte)"
    using extra_packed_all unfolding list_all_iff by blast
  then show "extra_of (v OR NOT (push_bit (7 - m) 1 * 2 - 1)) = m"
    and "(v OR NOT (push_bit (7 - m) 1 * 2 - 1)) AND (push_bit (8 - m) 1 - 1) = v"
    by simp_all
qed

text \<open>
  Both writers build the same output from the buffer \<open>b\<close> (the first byte still free,
  then the value's \<open>n\<close> bytes, low byte first) once the count is known.
\<close>

definition var_out :: "byte list \<Rightarrow> nat \<Rightarrow> nat \<Rightarrow> byte list" where
  "var_out b lo cnt =
     (let bit = push_bit (7 - (cnt - lo)) 1 :: byte
      in if b ! cnt \<ge> bit then take (cnt + 1) (b[0 := NOT (bit - 1)])
         else if cnt > lo then take cnt (b[0 := b ! cnt OR NOT (bit * 2 - 1)])
         else take cnt (b[0 := b ! cnt]))"

lemma write_varint_var_out:
  "write_varint x = (let b = SIVALu (replicate 5 0) 1 x in var_out b 1 (trim_cnt b 1 4))"
proof -
  define b where "b = SIVALu (replicate 5 0) 1 x"
  define c where "c = trim_cnt b 1 4"
  have c: "1 \<le> c" "c \<le> 4"
    using trim_cnt_props [of 1 4 b c] by (simp_all add: c_def)
  then have sh: "7 - c + 1 = 7 - (c - 1)" by auto
  show ?thesis
  proof (cases "c > 1")
    case True
    then show ?thesis
      unfolding write_varint_def var_out_def Let_def b_def [symmetric] c_def [symmetric] sh
      by simp
  next
    case False
    with c(1) have "c = 1" by simp
    then show ?thesis
      unfolding write_varint_def var_out_def Let_def b_def [symmetric] c_def [symmetric] sh
      by simp
  qed
qed

lemma write_varlong_var_out:
  assumes "mb \<le> 8"
  shows "write_varlong x mb = (let b = SIVAL64 (replicate 9 0) 1 x in var_out b mb (trim_cnt b mb 8))"
proof -
  define b where "b = SIVAL64 (replicate 9 0) 1 x"
  define c where "c = trim_cnt b mb 8"
  have c: "mb \<le> c" "c \<le> 8"
    using trim_cnt_props [of mb 8 b c] assms by (simp_all add: c_def)
  then have sh: "7 + mb - c = 7 - (c - mb)" by auto
  show ?thesis
    unfolding write_varlong_def var_out_def Let_def b_def [symmetric] c_def [symmetric] sh
    by simp
qed

lemma var_out_cases:
  assumes "length b = n + 1" and "1 \<le> lo" and "lo \<le> n"
  obtains (marker) c where "lo \<le> c" "c \<le> n" "drop 1 b = take c (drop 1 b) @ replicate (n - c) 0"
      "var_out b lo (trim_cnt b lo n) = NOT (push_bit (7 - (c - lo)) 1 - 1) # take c (drop 1 b)"
  | (packed) c where "lo < c" "c \<le> n" "drop 1 b = take c (drop 1 b) @ replicate (n - c) 0"
      "drop 1 b ! (c - 1) < push_bit (7 - (c - lo)) 1"
      "var_out b lo (trim_cnt b lo n) =
         (drop 1 b ! (c - 1) OR NOT (push_bit (7 - (c - lo)) 1 * 2 - 1)) # take (c - 1) (drop 1 b)"
  | (plain) "drop 1 b ! (lo - 1) < 128" "drop 1 b = take lo (drop 1 b) @ replicate (n - lo) 0"
      "var_out b lo (trim_cnt b lo n) = drop 1 b ! (lo - 1) # take (lo - 1) (drop 1 b)"
proof -
  define B where "B = drop 1 b"
  define c where "c = trim_cnt b lo n"
  have lB: "length B = n" using assms(1) by (simp add: B_def)
  have b: "b = b ! 0 # B" using assms(1) by (cases b) (simp_all add: B_def)
  have nth: "b ! Suc i = B ! i" for i by (subst b) simp
  have c: "lo \<le> c" "c \<le> n" "\<And>i. c < i \<Longrightarrow> i \<le> n \<Longrightarrow> b ! i = 0"
    using trim_cnt_props [of lo n b c] assms by (simp_all add: c_def)
  have bc: "b ! c = B ! (c - 1)" using nth [of "c - 1"] c(1) assms(2) by simp
  have "B ! i = 0" if "c \<le> i" "i < n" for i
    using c(3) [of "Suc i"] that by (simp add: nth)
  then have tail: "B = take c B @ replicate (n - c) 0"
    using list_eq_take_replicate [of c B 0] c(2) lB by simp
  have upd: "b[0 := v] = v # B" for v by (subst b) simp
  have w: "var_out b lo c =
      (if B ! (c - 1) \<ge> push_bit (7 - (c - lo)) 1 then NOT (push_bit (7 - (c - lo)) 1 - 1) # take c B
       else if c > lo then (B ! (c - 1) OR NOT (push_bit (7 - (c - lo)) 1 * 2 - 1)) # take (c - 1) B
       else B ! (c - 1) # take (c - 1) B)"
    unfolding var_out_def Let_def upd bc using c(1) assms(2) by (simp add: take_Cons_pos)
  consider "B ! (c - 1) \<ge> push_bit (7 - (c - lo)) 1"
    | "\<not> B ! (c - 1) \<ge> push_bit (7 - (c - lo)) 1" "c > lo"
    | "\<not> B ! (c - 1) \<ge> push_bit (7 - (c - lo)) 1" "c = lo"
    using c(1) by linarith
  then show thesis
  proof cases
    case 1
    then show thesis using marker [of c, folded B_def c_def] c(1,2) tail w by simp
  next
    case 2
    then show thesis using packed [of c, folded B_def c_def] c(1,2) tail w by simp
  next
    case 3
    then show thesis using plain [folded B_def c_def] tail w by simp
  qed
qed


text \<open>
  What the output means to a reader: the first byte announces the bytes that follow, and those
  bytes, then the payload of the first byte, then zeros, are the value's bytes.
\<close>

definition payload :: "byte \<Rightarrow> byte" where
  "payload f = (if extra_of f = 0 then f else f AND (push_bit (8 - extra_of f) 1 - 1))"

lemma var_out_bytes:
  assumes "length b = n + 1" and "1 \<le> lo" and "lo \<le> n" and "n - lo \<le> 5"
  obtains f P where "var_out b lo (trim_cnt b lo n) = f # P" "length P = lo - 1 + extra_of f"
    "lo + extra_of f \<le> n + 1" "P @ payload f # replicate (n + 1 - lo - extra_of f) 0 = drop 1 b @ [0]"
proof -
  define B where "B = drop 1 b"
  have lB: "length B = n" using assms(1) by (simp add: B_def)
  show thesis
    using assms(1-3)
  proof (cases rule: var_out_cases)
    case (marker c)
    note mk = marker [folded B_def]
    let ?f = "NOT (push_bit (7 - (c - lo)) 1 - 1 :: byte)"
    have ex: "extra_of ?f = c - lo + 1"
      using extra_marker(1) [of "c - lo"] mk(1,2) assms by simp
    have "8 - (c - lo + 1) = 7 - (c - lo)" using mk(1,2) assms by simp
    then have pay: "payload ?f = 0" unfolding payload_def ex by simp
    have "take c B @ 0 # replicate (n + 1 - lo - (c - lo + 1)) 0 = B @ [0]"
      using mk(1,2) replicate_snoc [of "Suc (n - c)" 0] by (subst mk(3)) simp
    with mk(1,2) lB assms(2) show thesis
      by (intro that [of ?f "take c B", folded B_def]) (simp_all only: mk(4) ex pay, simp_all)
  next
    case (packed c)
    note mk = packed [folded B_def]
    let ?v = "B ! (c - 1)"
    let ?f = "?v OR NOT (push_bit (7 - (c - lo)) 1 * 2 - 1) :: byte"
    have ex: "extra_of ?f = c - lo" "?f AND (push_bit (8 - (c - lo)) 1 - 1) = ?v"
      using extra_packed [of "c - lo" ?v] mk assms by simp_all
    then have pay: "payload ?f = ?v" using mk(1) unfolding payload_def ex by simp
    have "take (c - 1) B @ ?v # replicate (n + 1 - lo - (c - lo)) 0 = B @ [0]"
      using mk(1,2) lB take_append_nth [of c B] replicate_snoc [of "n + 1 - c" 0]
      by (subst (3) mk(3)) simp
    with mk(1,2) lB assms(2) show thesis
      by (intro that [of ?f "take (c - 1) B", folded B_def]) (simp_all only: mk(5) ex pay, simp_all)
  next
    case plain
    note mk = plain [folded B_def]
    have ex: "extra_of (B ! (lo - 1)) = 0" using mk(1) by (rule extra_plain)
    then have pay: "payload (B ! (lo - 1)) = B ! (lo - 1)" by (simp add: payload_def)
    have "take (lo - 1) B @ B ! (lo - 1) # replicate (n + 1 - lo - 0) 0 = B @ [0]"
      using lB assms take_append_nth [of lo B] replicate_snoc [of "n + 1 - lo" 0]
      by (subst (3) mk(2)) simp
    with lB assms(2,3) show thesis
      by (intro that [of "B ! (lo - 1)" "take (lo - 1) B", folded B_def])
        (simp_all only: mk(3) ex pay, simp_all)
  qed
qed

lemma read_varlong_bytes:
  assumes "1 \<le> mb" "length P = mb - 1 + extra_of f" "mb + extra_of f \<le> 9"
  shows "read_varlong mb (f # P @ s) =
    Inr (IVAL64 (P @ payload f # replicate (9 - mb - extra_of f) 0) 0, s)"
proof -
  have tail: "replicate (9 - (mb - 1) - extra_of f) (0::byte) = 0 # replicate (9 - mb - extra_of f) 0"
    using assms by (simp flip: replicate_Suc add: Suc_diff_le)
  have "read_buf mb (f # P @ s) = Inr (f # take (mb - 1) P, drop (mb - 1) P @ s)"
    using assms by (simp add: read_buf_def take_Cons_pos drop_Cons_pos)
  moreover have "read_buf (extra_of f) (drop (mb - 1) P @ s) = Inr (drop (mb - 1) P, s)"
    using assms by simp
  ultimately show ?thesis
    using assms tail
    by (cases "extra_of f = 0") (simp_all add: read_varlong_def payload_def Let_def update_after_append)
qed

lemma read_varint_bytes:
  assumes "length P = extra_of f" "extra_of f \<le> 4"
  shows "read_varint (f # P @ s) = Inr (IVALu (P @ payload f # replicate (4 - extra_of f) 0) 0, s)"
proof -
  have "replicate (5 - extra_of f) (0::byte) = 0 # replicate (4 - extra_of f) 0"
    using assms by (simp flip: replicate_Suc add: Suc_diff_le)
  then show ?thesis
    using assms
    by (cases "extra_of f = 0") (simp_all add: read_varint_def payload_def Let_def update_after_append)
qed

lemma read_varlong_write_varlong:
  assumes "3 \<le> mb" and "mb \<le> 8"
  shows "read_varlong mb (write_varlong x mb @ s) = Inr (x, s)"
proof -
  define b where "b = SIVAL64 (replicate 9 0) 1 x"
  have lb: "length b = 8 + 1" by (simp add: b_def)
  have "1 \<le> mb" "8 - mb \<le> 5" using assms by auto
  from var_out_bytes [OF lb this(1) assms(2) this(2)] obtain f P where
    out: "var_out b mb (trim_cnt b mb 8) = f # P" and P: "length P = mb - 1 + extra_of f"
      "mb + extra_of f \<le> 8 + 1" "P @ payload f # replicate (8 + 1 - mb - extra_of f) 0 = drop 1 b @ [0]"
    by blast
  have "write_varlong x mb = f # P"
    using assms out by (simp add: write_varlong_var_out b_def Let_def)
  moreover have "IVAL64 (drop 1 b @ [0]) 0 = IVAL64 b 1"
    by (rule IVAL64_cong) (use lb in \<open>simp add: nth_append\<close>)
  ultimately show ?thesis
    using read_varlong_bytes [of mb P f s] P assms by (simp add: b_def)
qed

lemma read_varint_write_varint: "read_varint (write_varint x @ s) = Inr (x, s)"
proof -
  define b where "b = SIVALu (replicate 5 0) 1 x"
  have lb: "length b = 4 + 1" by (simp add: b_def)
  obtain f P where
    out: "var_out b 1 (trim_cnt b 1 4) = f # P" and P: "length P = 1 - 1 + extra_of f"
      "1 + extra_of f \<le> 4 + 1" "P @ payload f # replicate (4 + 1 - 1 - extra_of f) 0 = drop 1 b @ [0]"
    using var_out_bytes [OF lb, of 1] by auto
  have "write_varint x = f # P"
    using out by (simp add: write_varint_var_out b_def Let_def)
  moreover have "IVALu (drop 1 b @ [0]) 0 = IVALu b 1"
    by (rule IVALu_cong) (use lb in \<open>simp add: nth_append\<close>)
  ultimately show ?thesis
    using read_varint_bytes [of P f s] P by (simp add: b_def)
qed

end
