(* ===== verification/Wire.thy ===== *)
theory Wire
  imports Varint
begin

text \<open>
  The remaining encodings of io.c: strings with a length prefix, file-list indexes sent as
  differences, and the header of a checksum list; and the codec interface of every encoding.
\<close>

section \<open>Strings\<close>

text \<open>write_vstring is called with the string's bytes and their number.\<close>

definition write_vstring :: "byte list \<Rightarrow> byte list result" where
  "write_vstring str =
     (let len = length str in
      if len > 0x7F then
        if len > 0x7FFF then Inl RERR_PROTOCOL
        else Inr ([word_of_nat (len div 0x100 + 0x80), word_of_nat len] @ str)
      else Inr (word_of_nat len # str))"

text \<open>read_vstring returns the length and the bytes, or \<open>-1\<close> when they do not fit.\<close>

definition read_vstring :: "nat \<Rightarrow> byte list \<Rightarrow> ((int \<times> byte list) \<times> byte list) result" where
  "read_vstring bufsize s = res_bind (read_byte s) (\<lambda>(c, s).
     res_bind (if c AND 0x80 \<noteq> 0
               then res_bind (read_byte s) (\<lambda>(c2, s). Inr (unat (c AND NOT 0x80) * 0x100 + unat c2, s))
               else Inr (unat c, s)) (\<lambda>(len, s).
     if len \<ge> bufsize then Inr ((-1, []), s)
     else res_bind (read_buf len s) (\<lambda>(buf, s). Inr ((int len, buf), s))))"

lemma vstring_len_byte:
  assumes "n < 128"
  shows "(word_of_nat n :: byte) AND 0x80 = 0" and "unat (word_of_nat n :: byte) = n"
    and "(word_of_nat (n + 128) :: byte) AND 0x80 \<noteq> 0"
    and "unat ((word_of_nat (n + 128) :: byte) AND NOT 0x80) = n"
proof -
  have "list_all (\<lambda>n. (word_of_nat n :: byte) AND 0x80 = 0 \<and> unat (word_of_nat n :: byte) = n \<and>
      (word_of_nat (n + 128) :: byte) AND 0x80 \<noteq> 0 \<and>
      unat ((word_of_nat (n + 128) :: byte) AND NOT 0x80) = n) [0..<128]"
    by code_simp
  with assms show "(word_of_nat n :: byte) AND 0x80 = 0" and "unat (word_of_nat n :: byte) = n"
    and "(word_of_nat (n + 128) :: byte) AND 0x80 \<noteq> 0"
    and "unat ((word_of_nat (n + 128) :: byte) AND NOT 0x80) = n"
    by (auto simp: list_all_iff)
qed

lemma read_vstring_write_vstring:
  assumes "write_vstring str = Inr b" and "length str < bufsize"
  shows "read_vstring bufsize (b @ s) = Inr ((int (length str), str), s)"
proof (cases "length str > 0x7F")
  case True
  with assms(1) have small: "length str \<le> 0x7FFF"
    and b: "b = [word_of_nat (length str div 0x100 + 0x80), word_of_nat (length str)] @ str"
    by (auto simp: write_vstring_def Let_def split: if_splits)
  have hi: "length str div 0x100 < 128" using small by simp
  have lo: "unat (word_of_nat (length str) :: byte) = length str mod 0x100"
    by (simp add: unat_of_nat)
  have "length str div 0x100 * 0x100 + length str mod 0x100 = length str"
    by (rule div_mult_mod_eq)
  then show ?thesis
    using vstring_len_byte [OF hi] lo assms(2) by (simp add: read_vstring_def b)
next
  case False
  then have "b = word_of_nat (length str) # str"
    using assms(1) by (simp add: write_vstring_def Let_def)
  then show ?thesis
    using vstring_len_byte [of "length str"] False assms(2) by (simp add: read_vstring_def)
qed

lemma write_vstring_error: "write_vstring str = Inl e \<longleftrightarrow> length str > 0x7FFF \<and> e = RERR_PROTOCOL"
  by (auto simp: write_vstring_def Let_def)


section \<open>File-list indexes\<close>

text \<open>
  The static variables of write_ndx and of read_ndx: the last index sent or received, of each
  sign. The sender's and the receiver's start equal.
\<close>

record ndx_state =
  prev_positive :: int32
  prev_negative :: int32

definition ndx_init :: ndx_state where
  "ndx_init = \<lparr>prev_positive = -1, prev_negative = 1\<rparr>"

definition NDX_DONE :: int32 where
  "NDX_DONE = -1"

text \<open>The bytes for one difference, after the sign byte.\<close>

definition ndx_bytes :: "int32 \<Rightarrow> int32 \<Rightarrow> byte list" where
  "ndx_bytes ndx diff =
     (if sint diff < 0xFE \<and> sint diff > 0 then [ucast diff]
      else if sint diff < 0 \<or> sint diff > 0x7FFF then
        [0xFE, ucast (drop_bit 24 ndx OR 0x80), ucast ndx, ucast (drop_bit 8 ndx), ucast (drop_bit 16 ndx)]
      else [0xFE, ucast (drop_bit 8 diff), ucast diff])"

definition write_ndx :: "nat \<Rightarrow> bool \<Rightarrow> ndx_state \<Rightarrow> int32 \<Rightarrow> byte list \<times> ndx_state" where
  "write_ndx protocol_version read_batch st ndx =
     (if protocol_version < 30 \<or> read_batch then (write_int ndx, st)
      else if sint ndx \<ge> 0 then
        (ndx_bytes ndx (ndx - prev_positive st), st\<lparr>prev_positive := ndx\<rparr>)
      else if ndx = NDX_DONE then ([0], st)
      else (0xFF # ndx_bytes (- ndx) (- ndx - prev_negative st), st\<lparr>prev_negative := - ndx\<rparr>))"

text \<open>
  The second half of read_ndx: the first difference byte is \<open>c\<close>, the previous index of
  the sign is \<open>prev\<close>.
\<close>

definition read_ndx_num :: "byte \<Rightarrow> int32 \<Rightarrow> byte list \<Rightarrow> (int32 \<times> byte list) result" where
  "read_ndx_num c prev s =
     (if c = 0xFE then res_bind (read_buf 2 s) (\<lambda>(b, s).
        if b ! 0 AND 0x80 \<noteq> 0 then res_bind (read_buf 2 s) (\<lambda>(b2, s).
          Inr (IVALu [b ! 1, b2 ! 0, b2 ! 1, b ! 0 AND NOT 0x80] 0, s))
        else Inr (push_bit 8 (UVAL b 0) + UVAL b 1 + prev, s))
      else Inr (ucast c + prev, s))"

definition read_ndx :: "nat \<Rightarrow> ndx_state \<Rightarrow> byte list \<Rightarrow> (int32 \<times> byte list \<times> ndx_state) result" where
  "read_ndx protocol_version st s =
     (if protocol_version < 30 then res_bind (read_int s) (\<lambda>(n, s). Inr (n, s, st))
      else res_bind (read_byte s) (\<lambda>(c, s).
        if c = 0xFF then res_bind (read_byte s) (\<lambda>(c, s).
          res_bind (read_ndx_num c (prev_negative st) s) (\<lambda>(num, s).
            Inr (- num, s, st\<lparr>prev_negative := num\<rparr>)))
        else if c = 0 then Inr (NDX_DONE, s, st)
        else res_bind (read_ndx_num c (prev_positive st) s) (\<lambda>(num, s).
          Inr (num, s, st\<lparr>prev_positive := num\<rparr>))))"

lemma nonneg_int32:
  fixes d :: int32
  assumes "0 \<le> sint d"
  shows "int (unat d) = sint d" and "\<not> bit d 31"
proof -
  have "\<not> bit d (LENGTH(32) - Suc 0)"
    using assms by (simp only: bit_last_iff not_less)
  then show "\<not> bit d 31" by simp
  define k where "k = sint d"
  have d: "d = word_of_int k" by (simp add: k_def)
  have "0 \<le> k" "k < 2 ^ 31"
    using assms sint_lt [of d] by (simp_all add: k_def)
  then have "uint (word_of_int k :: int32) = k"
    by (simp add: uint_word_of_int)
  then show "int (unat d) = sint d"
    by (simp add: k_def flip: d)
qed

lemma neg_int32:
  fixes d :: int32
  assumes "\<not> 0 \<le> sint d" and "d \<noteq> push_bit 31 1"
  shows "\<not> bit (- d) 31"
proof -
  define k where "k = sint d"
  have d: "d = word_of_int k" by (simp add: k_def)
  have "k \<noteq> - (2 ^ 31)" using assms(2) d by auto
  moreover have "- (2 ^ 31) \<le> k" using sint_ge [of d] by (simp add: k_def)
  ultimately have "- (2 ^ 31) < k" "k < 0" using assms(1) by (simp_all add: k_def)
  then have "sint (word_of_int (- k) :: int32) = - k"
    by (subst sint_sbintrunc') (simp add: signed_take_bit_int_eq_self)
  then have "0 \<le> sint (- d)" using \<open>k < 0\<close> by (simp add: d)
  then show ?thesis by (rule nonneg_int32(2))
qed

lemma ndx_byte_small:
  fixes d :: int32
  assumes "0 < sint d" and "sint d < 0xFE"
  shows "ucast (ucast d :: byte) = d"
    and "(ucast d :: byte) \<noteq> 0xFE" and "(ucast d :: byte) \<noteq> 0xFF" and "(ucast d :: byte) \<noteq> 0"
proof -
  have u: "0 < unat d" "unat d < 0xFE"
    using assms nonneg_int32 [of d] by linarith+
  then have b: "unat (ucast d :: byte) = unat d"
    by (simp add: unsigned_ucast_eq take_bit_eq_mod)
  show "(ucast d :: byte) \<noteq> 0xFE" and "(ucast d :: byte) \<noteq> 0xFF" and "(ucast d :: byte) \<noteq> 0"
    using u b by auto
  show "ucast (ucast d :: byte) = d"
  proof -
    have "unat (ucast (ucast d :: byte) :: int32) = take_bit LENGTH(32) (unat (ucast d :: byte))"
      by (rule unsigned_ucast_eq)
    also have "\<dots> = unat d"
      using u(2) by (simp only: b) (simp add: take_bit_eq_mod)
    finally show ?thesis by (rule unsigned_word_eqI)
  qed
qed

lemma bit_0x80: "bit (0x80 :: int) n \<longleftrightarrow> n = 7"
proof -
  have "(0x80 :: int) = 2 ^ 7" by simp
  then show ?thesis by (simp only: bit_exp_iff) auto
qed

lemma ndx_short:
  fixes d :: int32
  assumes "0 \<le> sint d" and "sint d \<le> 0x7FFF"
  shows "(ucast (drop_bit 8 d) :: byte) AND 0x80 = 0"
    and "push_bit 8 (ucast (ucast (drop_bit 8 d) :: byte)) + ucast (ucast d :: byte) = d" (is "?h + ?l = d")
proof -
  have u: "unat d < 2 ^ 15"
  proof -
    have "int (unat d) < int (2 ^ 15)"
      using assms(2) nonneg_int32(1) [OF assms(1)] by simp
    then show ?thesis by (simp only: of_nat_less_iff)
  qed
  have "unat (take_bit 15 d) = take_bit 15 (unat d)"
    by (rule unsigned_take_bit_eq)
  also have "\<dots> = unat d"
    using u by (simp add: take_bit_nat_eq_self)
  finally have "take_bit 15 d = d" by (rule unsigned_word_eqI)
  then have hi: "\<not> bit d n" if "15 \<le> n" for n
    using that by (metis bit_take_bit_iff not_less)
  show "(ucast (drop_bit 8 d) :: byte) AND 0x80 = 0"
  proof (rule bit_word_eqI)
    fix n
    show "bit ((ucast (drop_bit 8 d) :: byte) AND 0x80) n = bit (0 :: byte) n"
      using hi [of "8 + n"] by (auto simp: bit_simps bit_0x80)
  qed
  have "?h + ?l = ?h OR ?l"
    by (rule disjunctive_add) (auto simp: bit_simps)
  also have "\<dots> = d"
  proof (rule bit_word_eqI)
    fix n assume "n < LENGTH(32)"
    then have "n < 8 \<or> (8 \<le> n \<and> n < 16) \<or> (16 \<le> n \<and> n < 32)" by auto
    then show "bit (?h OR ?l) n = bit d n"
      using hi [of n] by (elim disjE conjE) (auto simp: bit_simps)
  qed
  finally show "?h + ?l = d" .
qed

lemma ndx_long:
  fixes x :: int32
  assumes "\<not> bit x 31"
  shows "(ucast (drop_bit 24 x OR 0x80) :: byte) AND 0x80 \<noteq> 0"
    and "(ucast (drop_bit 24 x OR 0x80) :: byte) AND NOT 0x80 = ucast (drop_bit 24 x)"
proof -
  define y where "y = (ucast (drop_bit 24 x) :: byte)"
  have "\<not> bit y 7" using assms by (simp add: y_def bit_simps)
  moreover have "\<not> bit y 7 \<longrightarrow> (y OR 0x80) AND 0x80 \<noteq> 0 \<and> (y OR 0x80) AND NOT 0x80 = y"
    by (rule byte_exhaust [where b = y]) code_simp
  moreover have "(ucast (drop_bit 24 x OR 0x80) :: byte) = y OR 0x80"
    by (simp add: y_def unsigned_or_eq)
  ultimately show "(ucast (drop_bit 24 x OR 0x80) :: byte) AND 0x80 \<noteq> 0"
    and "(ucast (drop_bit 24 x OR 0x80) :: byte) AND NOT 0x80 = ucast (drop_bit 24 x)"
    by (simp_all flip: y_def)
qed

text \<open>
  One difference, read back: the reader's first byte is the head of the writer's bytes, and
  in the positive branch it is neither of the two escape bytes.
\<close>

lemma read_ndx_num_bytes:
  assumes "\<not> bit ndx 31"
  obtains c t where "ndx_bytes ndx (ndx - prev) = c # t" "c \<noteq> 0xFF" "c \<noteq> 0"
    "\<And>s. read_ndx_num c prev (t @ s) = Inr (ndx, s)"
proof -
  let ?d = "ndx - prev"
  consider (one) "0 < sint ?d" "sint ?d < 0xFE" | (long) "sint ?d < 0 \<or> sint ?d > 0x7FFF"
    | (short) "0 \<le> sint ?d" "sint ?d \<le> 0x7FFF" "\<not> (sint ?d < 0xFE \<and> sint ?d > 0)"
    by linarith
  then show thesis
  proof cases
    case one
    then show thesis
      using ndx_byte_small [OF one]
      by (intro that [of "ucast ?d" "[]"]) (simp_all add: ndx_bytes_def read_ndx_num_def)
  next
    case long
    then show thesis
      using ndx_long [OF assms] bytes_of_uint32 [of ndx]
      by (intro that [of "0xFE" "[ucast (drop_bit 24 ndx OR 0x80), ucast ndx, ucast (drop_bit 8 ndx), ucast (drop_bit 16 ndx)]"])
        (auto simp: ndx_bytes_def read_ndx_num_def read_buf_def IVALu_def UVAL_def)
  next
    case short
    then show thesis
      using ndx_short [OF short(1,2)]
      by (intro that [of "0xFE" "[ucast (drop_bit 8 ?d), ucast ?d]"])
        (auto simp: ndx_bytes_def read_ndx_num_def read_buf_def UVAL_def)
  qed
qed

lemma read_ndx_write_ndx:
  assumes "ndx \<noteq> push_bit 31 1" and "write_ndx pv False st ndx = (b, st')"
  shows "read_ndx pv st (b @ s) = Inr (ndx, s, st')"
proof -
  consider (old) "pv < 30" | (pos) "\<not> pv < 30" "sint ndx \<ge> 0" | (done_) "\<not> pv < 30" "ndx = NDX_DONE"
    | (neg) "\<not> pv < 30" "\<not> sint ndx \<ge> 0" "ndx \<noteq> NDX_DONE"
    by blast
  then show ?thesis
  proof cases
    case old
    then show ?thesis using assms(2) by (auto simp: write_ndx_def read_ndx_def)
  next
    case pos
    obtain c t where n: "ndx_bytes ndx (ndx - prev_positive st) = c # t" and "c \<noteq> 0xFF" "c \<noteq> 0"
      "\<And>s. read_ndx_num c (prev_positive st) (t @ s) = Inr (ndx, s)"
      using read_ndx_num_bytes [OF nonneg_int32(2) [OF pos(2)]] by metis
    moreover have "b = c # t" "st' = st\<lparr>prev_positive := ndx\<rparr>"
      using pos assms(2) by (auto simp: write_ndx_def n)
    ultimately show ?thesis using pos by (simp add: read_ndx_def)
  next
    case done_
    then have "sint ndx = -1" by (simp add: NDX_DONE_def)
    then show ?thesis using done_ assms(2) by (auto simp: write_ndx_def read_ndx_def)
  next
    case neg
    have "\<not> bit (- ndx) 31"
      using neg(2) assms(1) by (rule neg_int32)
    then obtain c t where n: "ndx_bytes (- ndx) (- ndx - prev_negative st) = c # t" and
      "\<And>s. read_ndx_num c (prev_negative st) (t @ s) = Inr (- ndx, s)"
      using read_ndx_num_bytes by metis
    moreover have "b = 0xFF # c # t" "st' = st\<lparr>prev_negative := - ndx\<rparr>"
      using neg assms(2) by (auto simp: write_ndx_def n)
    ultimately show ?thesis using neg by (simp add: read_ndx_def)
  qed
qed


section \<open>Checksum headers\<close>

text \<open>struct sum_buf and struct sum_struct of rsync.h; \<open>sb_same_offset\<close> is SUMFLG_SAME_OFFSET.\<close>

record sum_buf =
  sb_offset :: int
  sb_len :: int
  sb_sum1 :: uint32
  sb_chain :: int
  sb_same_offset :: bool
  sb_sum2 :: "byte list"

record sum_struct =
  s_flength :: int
  s_sums :: "sum_buf list"
  s_count :: int
  s_blength :: int
  s_remainder :: int
  s_s2length :: int

definition MAX_BLOCK_SIZE :: int where "MAX_BLOCK_SIZE = 2 ^ 17"
definition OLD_MAX_BLOCK_SIZE :: int where "OLD_MAX_BLOCK_SIZE = 2 ^ 29"
definition MAX_DIGEST_LEN :: int where "MAX_DIGEST_LEN = 16"

definition null_sum :: sum_struct where
  "null_sum = \<lparr>s_flength = 0, s_sums = [], s_count = 0, s_blength = 0, s_remainder = 0, s_s2length = 0\<rparr>"

definition write_sum_head :: "nat \<Rightarrow> sum_struct option \<Rightarrow> byte list" where
  "write_sum_head protocol_version sum_opt =
     (let sm = (case sum_opt of None \<Rightarrow> null_sum | Some sm \<Rightarrow> sm) in
      write_int (word_of_int (s_count sm)) @ write_int (word_of_int (s_blength sm))
      @ (if protocol_version \<ge> 27 then write_int (word_of_int (s_s2length sm)) else [])
      @ write_int (word_of_int (s_remainder sm)))"

definition read_sum_head :: "nat \<Rightarrow> int \<Rightarrow> sum_struct \<Rightarrow> byte list \<Rightarrow> (sum_struct \<times> byte list) result" where
  "read_sum_head protocol_version csum_length sm s =
     (let max_blength = (if protocol_version < 30 then OLD_MAX_BLOCK_SIZE else MAX_BLOCK_SIZE) in
      res_bind (read_int s) (\<lambda>(n, s). let count = sint n in
      if count < 0 then Inl RERR_PROTOCOL else
      res_bind (read_int s) (\<lambda>(n, s). let blength = sint n in
      if blength < 0 \<or> blength > max_blength then Inl RERR_PROTOCOL else
      res_bind (if protocol_version < 27 then Inr (csum_length, s)
                else res_bind (read_int s) (\<lambda>(n, s). Inr (sint n, s))) (\<lambda>(s2length, s).
      if s2length < 0 \<or> s2length > MAX_DIGEST_LEN then Inl RERR_PROTOCOL else
      res_bind (read_int s) (\<lambda>(n, s). let remainder = sint n in
      if remainder < 0 \<or> remainder > blength then Inl RERR_PROTOCOL else
      Inr (sm\<lparr>s_count := count, s_blength := blength, s_s2length := s2length, s_remainder := remainder\<rparr>, s))))))"

text \<open>What the reader guarantees of a header it accepts.\<close>

definition sum_head_ok :: "nat \<Rightarrow> sum_struct \<Rightarrow> bool" where
  "sum_head_ok protocol_version sm \<longleftrightarrow>
     0 \<le> s_count sm \<and> s_count sm < 2 ^ 31 \<and>
     0 \<le> s_blength sm \<and> s_blength sm \<le> (if protocol_version < 30 then OLD_MAX_BLOCK_SIZE else MAX_BLOCK_SIZE) \<and>
     0 \<le> s_s2length sm \<and> s_s2length sm \<le> MAX_DIGEST_LEN \<and>
     0 \<le> s_remainder sm \<and> s_remainder sm \<le> s_blength sm"

lemma read_sum_head_ok:
  assumes "read_sum_head pv cl sm s = Inr (sm', s')"
  shows "sum_head_ok pv sm'"
proof -
  have "sint n < 2 ^ 31" for n :: int32
    using sint_lt [of n] by simp
  then show ?thesis
    using assms by (auto simp: read_sum_head_def sum_head_ok_def res_bind_eq_Inr Let_def split: if_splits)
qed

lemma sint_word_of_int_small:
  assumes "0 \<le> k" and "k < 2 ^ 31"
  shows "sint (word_of_int k :: int32) = k"
  using assms by (subst sint_sbintrunc') (simp add: signed_take_bit_int_eq_self)

lemma sum_head_fields_fit:
  assumes "sum_head_ok pv sm"
  shows "sint (word_of_int (s_count sm) :: int32) = s_count sm"
    and "sint (word_of_int (s_blength sm) :: int32) = s_blength sm"
    and "sint (word_of_int (s_s2length sm) :: int32) = s_s2length sm"
    and "sint (word_of_int (s_remainder sm) :: int32) = s_remainder sm"
  using assms
  by (auto simp: sum_head_ok_def MAX_BLOCK_SIZE_def OLD_MAX_BLOCK_SIZE_def MAX_DIGEST_LEN_def
      intro!: sint_word_of_int_small split: if_splits)

lemma read_sum_head_write_sum_head:
  assumes "sum_head_ok pv sm" and "pv < 27 \<Longrightarrow> s_s2length sm = cl"
  shows "read_sum_head pv cl sum0 (write_sum_head pv (Some sm) @ s) =
    Inr (sum0\<lparr>s_count := s_count sm, s_blength := s_blength sm, s_s2length := s_s2length sm,
      s_remainder := s_remainder sm\<rparr>, s)"
  using sum_head_fields_fit [OF assms(1)] assms
  by (auto simp: read_sum_head_def write_sum_head_def sum_head_ok_def Let_def)

section \<open>The encodings as codecs\<close>

interpretation shortint: codec write_shortint read_shortint "\<lambda>_. True"
  by unfold_locales (rule read_shortint_write_shortint)

interpretation int32c: codec write_int read_int "\<lambda>_. True"
  by unfold_locales (rule read_int_write_int)

interpretation longint: codec write_longint read_longint "\<lambda>_. True"
  by unfold_locales (rule read_longint_write_longint)

interpretation varint: codec write_varint read_varint "\<lambda>_. True"
  by unfold_locales (rule read_varint_write_varint)

interpretation varlong3: codec "\<lambda>x. write_varlong x 3" "read_varlong 3" "\<lambda>_. True"
  by unfold_locales (simp add: read_varlong_write_varlong)

interpretation varlong4: codec "\<lambda>x. write_varlong x 4" "read_varlong 4" "\<lambda>_. True"
  by unfold_locales (simp add: read_varlong_write_varlong)

interpretation ndx: codec_st "write_ndx pv False" "read_ndx pv" "\<lambda>n. n \<noteq> push_bit 31 1" "\<lambda>_. True" for pv
  by unfold_locales (auto intro: read_ndx_write_ndx)

end
