(* ===== verification/Checksum.thy ===== *)
theory Checksum
  imports Wire
begin

text \<open>
  The weak checksum of checksum.c and the way match.c slides it along a file one byte at a
  time. get_checksum1 is the unrolled loop of the source; \<open>csum_s1\<close> and \<open>csum_s2\<close>
  are the sums it computes.
\<close>

definition CHAR_OFFSET :: uint32 where
  "CHAR_OFFSET = 0"

text \<open>The loop's element: a signed char, converted to the unsigned arithmetic of the sums.\<close>

definition schar :: "byte \<Rightarrow> uint32" where
  "schar b = scast b"

text \<open>
  The two loops of get_checksum1. The first takes four bytes while more than four are left
  (\<open>i < len - 4\<close>), the second takes the rest one by one.
\<close>

fun checksum1_tail :: "byte list \<Rightarrow> uint32 \<Rightarrow> uint32 \<Rightarrow> uint32 \<times> uint32" where
  "checksum1_tail [] s1 s2 = (s1, s2)"
| "checksum1_tail (b # bs) s1 s2 =
     (let s1 = s1 + (schar b + CHAR_OFFSET); s2 = s2 + s1 in checksum1_tail bs s1 s2)"

fun checksum1_loop :: "byte list \<Rightarrow> uint32 \<Rightarrow> uint32 \<Rightarrow> uint32 \<times> uint32" where
  "checksum1_loop (a # b # c # d # e # bs) s1 s2 =
     (let s2 = s2 + (4 * (s1 + schar a) + 3 * schar b + 2 * schar c + schar d + 10 * CHAR_OFFSET);
          s1 = s1 + (schar a + schar b + schar c + schar d + 4 * CHAR_OFFSET)
      in checksum1_loop (e # bs) s1 s2)"
| "checksum1_loop bs s1 s2 = checksum1_tail bs s1 s2"

definition get_checksum1 :: "byte list \<Rightarrow> uint32" where
  "get_checksum1 buf = (case checksum1_loop buf 0 0 of (s1, s2) \<Rightarrow> (s1 AND 0xFFFF) + push_bit 16 s2)"

section \<open>The sums\<close>

primrec csum_s1 :: "byte list \<Rightarrow> uint32" where
  "csum_s1 [] = 0"
| "csum_s1 (b # bs) = schar b + CHAR_OFFSET + csum_s1 bs"

primrec csum_s2 :: "byte list \<Rightarrow> uint32" where
  "csum_s2 [] = 0"
| "csum_s2 (b # bs) = of_nat (length (b # bs)) * (schar b + CHAR_OFFSET) + csum_s2 bs"

lemma checksum1_tail_sums:
  "checksum1_tail bs s1 s2 = (s1 + csum_s1 bs, s2 + of_nat (length bs) * s1 + csum_s2 bs)"
  by (induction bs arbitrary: s1 s2) (simp_all add: Let_def algebra_simps)

lemma checksum1_loop_sums:
  "checksum1_loop bs s1 s2 = (s1 + csum_s1 bs, s2 + of_nat (length bs) * s1 + csum_s2 bs)"
  by (induction bs s1 s2 rule: checksum1_loop.induct)
    (simp_all add: checksum1_tail_sums Let_def algebra_simps CHAR_OFFSET_def)

lemma csum_s1_append: "csum_s1 (xs @ ys) = csum_s1 xs + csum_s1 ys"
  by (induction xs) simp_all

lemma csum_s2_append:
  "csum_s2 (xs @ ys) = csum_s2 xs + of_nat (length ys) * csum_s1 xs + csum_s2 ys"
  by (induction xs) (simp_all add: algebra_simps)

text \<open>The checksum is determined by the two sums modulo \<open>2 ^ 16\<close>.\<close>

definition checksum1_of :: "uint32 \<Rightarrow> uint32 \<Rightarrow> uint32" where
  "checksum1_of s1 s2 = (s1 AND 0xFFFF) OR push_bit 16 s2"

lemma and_0xFFFF: "x AND 0xFFFF = take_bit 16 (x :: uint32)"
proof -
  have "(0xFFFF :: uint32) = mask 16" by (simp add: mask_eq_exp_minus_1)
  then show ?thesis by (simp only: take_bit_eq_mask)
qed

lemma get_checksum1_sums: "get_checksum1 bs = checksum1_of (csum_s1 bs) (csum_s2 bs)"
proof -
  have "(s1 AND 0xFFFF) + push_bit 16 s2 = (s1 AND 0xFFFF) OR push_bit 16 s2" for s1 s2 :: uint32
    by (rule disjunctive_add) (auto simp: and_0xFFFF bit_simps)
  then show ?thesis by (simp add: get_checksum1_def checksum1_loop_sums checksum1_of_def)
qed

text \<open>The low half of a sum; reduction to it is a ring homomorphism.\<close>

definition low16 :: "uint32 \<Rightarrow> 16 word" where
  "low16 x = ucast x"

lemma low16_add: "low16 (a + b) = low16 a + low16 b"
  and low16_diff: "low16 (a - b) = low16 a - low16 b"
proof -
  have h: "low16 (word_of_int x) = word_of_int x" for x
    by (simp add: low16_def ucast_down_wi is_down)
  show "low16 (a + b) = low16 a + low16 b"
    using h [of "uint a + uint b"] h [of "uint a"] h [of "uint b"] by (simp flip: wi_hom_add)
  show "low16 (a - b) = low16 a - low16 b"
    using h [of "uint a - uint b"] h [of "uint a"] h [of "uint b"] by (simp flip: wi_hom_sub)
qed

lemma bit_low16: "bit (low16 x) n \<longleftrightarrow> n < 16 \<and> bit x n"
  by (simp add: low16_def bit_simps)

lemma low16_checksum1_of:
  "low16 (checksum1_of s1 s2 AND 0xFFFF) = low16 s1"
  "low16 (drop_bit 16 (checksum1_of s1 s2)) = low16 s2"
  by (rule bit_word_eqI; auto simp: bit_low16 checksum1_of_def and_0xFFFF bit_simps)+

lemma checksum1_of_cong:
  assumes "low16 s1 = low16 t1" and "low16 s2 = low16 t2"
  shows "checksum1_of s1 s2 = checksum1_of t1 t2"
proof (rule bit_word_eqI)
  fix n
  show "bit (checksum1_of s1 s2) n = bit (checksum1_of t1 t2) n"
    using arg_cong [OF assms(1), of "\<lambda>w. bit w n"] arg_cong [OF assms(2), of "\<lambda>w. bit w (n - 16)"]
    by (auto simp: bit_low16 checksum1_of_def and_0xFFFF bit_simps)
qed

section \<open>Sliding the window\<close>

text \<open>
  The state match.c keeps: \<open>s1\<close> and \<open>s2\<close> agree with the window's sums in their low 16 bits.
\<close>

definition roll_inv :: "byte list \<Rightarrow> uint32 \<Rightarrow> uint32 \<Rightarrow> bool" where
  "roll_inv w s1 s2 \<longleftrightarrow> low16 s1 = low16 (csum_s1 w) \<and> low16 s2 = low16 (csum_s2 w)"

lemma roll_inv_checksum: "roll_inv w s1 s2 \<Longrightarrow> checksum1_of s1 s2 = get_checksum1 w"
  unfolding roll_inv_def get_checksum1_sums by (rule checksum1_of_cong) simp_all

lemma roll_inv_init: "roll_inv w (get_checksum1 w AND 0xFFFF) (drop_bit 16 (get_checksum1 w))"
  by (simp add: roll_inv_def get_checksum1_sums low16_checksum1_of)

text \<open>Dropping the first byte of a window of \<open>k\<close> bytes, and adding a byte at its end.\<close>

definition roll_drop :: "int \<Rightarrow> byte \<Rightarrow> uint32 \<times> uint32 \<Rightarrow> uint32 \<times> uint32" where
  "roll_drop k b = (\<lambda>(s1, s2). (s1 - (schar b + CHAR_OFFSET), s2 - word_of_int k * (schar b + CHAR_OFFSET)))"

definition roll_add :: "byte \<Rightarrow> uint32 \<times> uint32 \<Rightarrow> uint32 \<times> uint32" where
  "roll_add b = (\<lambda>(s1, s2). let s1 = s1 + (schar b + CHAR_OFFSET) in (s1, s2 + s1))"

lemma roll_drop_inv:
  assumes "roll_inv (b # w) s1 s2" and "k = int (length (b # w))" and "roll_drop k b (s1, s2) = (s1', s2')"
  shows "roll_inv w s1' s2'"
proof -
  have "s1' = s1 - (schar b + CHAR_OFFSET)" "s2' = s2 - of_nat (length (b # w)) * (schar b + CHAR_OFFSET)"
    using assms(2,3) by (auto simp: roll_drop_def)
  then show ?thesis
    using assms(1) by (simp add: roll_inv_def low16_add low16_diff)
qed

lemma roll_add_inv:
  assumes "roll_inv w s1 s2" and "roll_add b (s1, s2) = (s1', s2')"
  shows "roll_inv (w @ [b]) s1' s2'"
proof -
  have "s1' = s1 + (schar b + CHAR_OFFSET)" "s2' = s2 + s1'"
    using assms(2) by (auto simp: roll_add_def Let_def)
  then show ?thesis
    using assms(1) by (simp add: roll_inv_def csum_s1_append csum_s2_append low16_add)
qed

end
