(* ===== verification/MapFile.thy ===== *)
theory MapFile
  imports Prelude
begin

text \<open>
  The sliding window over a file of fileio.c (map_file, map_ptr, unmap_file). The kernel calls
  are parameters: \<open>rd pos n\<close> is what read() returns at file position \<open>pos\<close> for a
  request of \<open>n\<close> bytes (\<open>Inl errno\<close>, or the bytes, none at the end of the file),
  \<open>sk pos\<close> what do_lseek() returns. \<open>junk\<close> is the content of memory fresh from
  realloc_array. A returned pointer is modelled by the \<open>len\<close> bytes it points to.
\<close>

record map_struct =
  file_size :: int
  p_offset :: int
  p_fd_offset :: int
  p_buf :: "byte list"
  p_size :: int
  p_len :: int
  def_window_size :: int
  map_status :: int

definition ALIGN_BOUNDARY :: int where "ALIGN_BOUNDARY = 1024"
definition ENODATA :: int where "ENODATA = 61"

definition ALIGNED_OVERSHOOT :: "int \<Rightarrow> int" where
  "ALIGNED_OVERSHOOT oft = oft AND (ALIGN_BOUNDARY - 1)"

definition ALIGNED_LENGTH :: "int \<Rightarrow> int" where
  "ALIGNED_LENGTH len = ((len - 1) OR (ALIGN_BOUNDARY - 1)) + 1"

definition map_file :: "int \<Rightarrow> int \<Rightarrow> int \<Rightarrow> map_struct" where
  "map_file len read_size blk_size =
     (let read_size = (if blk_size \<noteq> 0 \<and> read_size mod blk_size \<noteq> 0
                       then read_size + (blk_size - read_size mod blk_size) else read_size)
      in \<lparr>file_size = len, p_offset = 0, p_fd_offset = 0, p_buf = [], p_size = 0, p_len = 0,
          def_window_size = ALIGNED_LENGTH read_size, map_status = 0\<rparr>)"

type_synonym sys_read = "int \<Rightarrow> int \<Rightarrow> int + byte list"

text \<open>Storing bytes into a buffer (read() and memset() into the middle of it).\<close>

definition store :: "byte list \<Rightarrow> nat \<Rightarrow> byte list \<Rightarrow> byte list" where
  "store p i bs = take i p @ bs @ drop (i + length bs) p"

text \<open>The read loop at the end of map_ptr.\<close>

function map_read_loop :: "sys_read \<Rightarrow> map_struct \<Rightarrow> int \<Rightarrow> int \<Rightarrow> map_struct" where
  "map_read_loop rd m read_offset read_size =
     (if read_size > 0 then
        (case rd (p_fd_offset m) read_size of
           Inl errno \<Rightarrow>
             m\<lparr>map_status := (if map_status m = 0 then errno else map_status m),
                 p_buf := store (p_buf m) (nat read_offset) (replicate (nat read_size) 0)\<rparr>
         | Inr bs \<Rightarrow>
             if bs = [] then
               m\<lparr>map_status := (if map_status m = 0 then ENODATA else map_status m),
                   p_buf := store (p_buf m) (nat read_offset) (replicate (nat read_size) 0)\<rparr>
             else
               map_read_loop rd
                 (m\<lparr>p_fd_offset := p_fd_offset m + int (length bs),
                      p_buf := store (p_buf m) (nat read_offset) bs\<rparr>)
                 (read_offset + int (length bs)) (read_size - int (length bs)))
      else m)"
  by pat_completeness auto
termination
  by (relation "measure (\<lambda>(rd, m, read_offset, read_size). nat read_size)") auto

declare map_read_loop.simps [simp del]

definition realloc_array :: "byte \<Rightarrow> byte list \<Rightarrow> int \<Rightarrow> byte list" where
  "realloc_array junk p n = take (nat n) p @ replicate (nat n - length p) junk"

text \<open>map_ptr in three steps: the desired window, making room and keeping what is still useful of
  the previous window, and the function itself.\<close>

definition map_window_size :: "map_struct \<Rightarrow> int \<Rightarrow> int \<Rightarrow> int" where
  "map_window_size m offset len =
     (let align_fudge = ALIGNED_OVERSHOOT offset;
          window_start = offset - align_fudge;
          window_size = def_window_size m;
          window_size = (if window_start + window_size > file_size m
                         then file_size m - window_start else window_size)
      in if window_size < len + align_fudge then ALIGNED_LENGTH (len + align_fudge) else window_size)"

definition map_prepare :: "byte \<Rightarrow> map_struct \<Rightarrow> int \<Rightarrow> int \<Rightarrow> map_struct \<times> int \<times> int \<times> int" where
  "map_prepare junk m window_start window_size =
     (let m = (if window_size > p_size m
               then m\<lparr>p_buf := realloc_array junk (p_buf m) window_size, p_size := window_size\<rparr>
               else m)
      in if window_start \<ge> p_offset m \<and> window_start < p_offset m + p_len m
            \<and> window_start + window_size \<ge> p_offset m + p_len m
         then
           let read_start = p_offset m + p_len m;
               read_offset = read_start - window_start
           in (m\<lparr>p_buf := store (p_buf m) 0
                   (take (nat read_offset) (drop (nat (p_len m - read_offset)) (p_buf m)))\<rparr>,
               read_start, read_offset, window_size - read_offset)
         else (m, window_start, 0, window_size))"

definition map_ptr :: "sys_read \<Rightarrow> (int \<Rightarrow> int) \<Rightarrow> byte \<Rightarrow> map_struct \<Rightarrow> int \<Rightarrow> int \<Rightarrow>
    (byte list option \<times> map_struct) result" where
  "map_ptr rd sk junk m offset len =
     (if len = 0 then Inr (None, m)
      else if len < 0 then Inl RERR_FILEIO
      else if offset \<ge> p_offset m \<and> offset + len \<le> p_offset m + p_len m then
        Inr (Some (take (nat len) (drop (nat (offset - p_offset m)) (p_buf m))), m)
      else
        let align_fudge = ALIGNED_OVERSHOOT offset;
            window_start = offset - align_fudge;
            window_size = map_window_size m offset len
        in case map_prepare junk m window_start window_size of (m, read_start, read_offset, read_size) \<Rightarrow>
          if read_size \<le> 0 then Inl RERR_FILEIO
          else if p_fd_offset m \<noteq> read_start \<and> sk read_start \<noteq> read_start then Inl RERR_FILEIO
          else
            let m = map_read_loop rd
                  (m\<lparr>p_fd_offset := read_start, p_offset := window_start, p_len := window_size\<rparr>)
                  read_offset read_size
            in Inr (Some (take (nat len) (drop (nat align_fudge) (p_buf m))), m))"

definition unmap_file :: "map_struct \<Rightarrow> int" where
  "unmap_file m = map_status m"

section \<open>Alignment\<close>

lemma ALIGNED_OVERSHOOT_mod: "ALIGNED_OVERSHOOT n = n mod 1024"
proof -
  have "n AND 1023 = take_bit 10 n"
    by (simp add: take_bit_eq_mask mask_eq_exp_minus_1)
  then show ?thesis by (simp add: ALIGNED_OVERSHOOT_def ALIGN_BOUNDARY_def take_bit_eq_mod)
qed

lemma ALIGNED_LENGTH_ge: "n \<le> ALIGNED_LENGTH n"
  using or_greater_eq [of 1023 "n - 1"] by (simp add: ALIGNED_LENGTH_def ALIGN_BOUNDARY_def)

section \<open>What the kernel promises\<close>

text \<open>
  read() on a file with content \<open>F\<close> that does not change: a non-empty prefix of what is
  there, of at most the size asked for; nothing at or past the end.
\<close>

definition reads_file :: "byte list \<Rightarrow> sys_read \<Rightarrow> bool" where
  "reads_file F rd \<longleftrightarrow> (\<forall>pos n. 0 \<le> pos \<longrightarrow> 0 < n \<longrightarrow>
     (\<exists>k. rd pos n = Inr (take k (drop (nat pos) F)) \<and> k \<le> nat n \<and> (nat pos < length F \<longrightarrow> 0 < k)))"

text \<open>The file's bytes, zero past its end.\<close>

definition file_byte :: "byte list \<Rightarrow> int \<Rightarrow> byte" where
  "file_byte F i = (if nat i < length F then F ! nat i else 0)"

definition file_bytes :: "byte list \<Rightarrow> int \<Rightarrow> int \<Rightarrow> byte list" where
  "file_bytes F i n = map (\<lambda>k. file_byte F (i + int k)) [0..<nat n]"

lemma length_file_bytes [simp]: "length (file_bytes F i n) = nat n"
  by (simp add: file_bytes_def)

lemma file_bytes_slice:
  assumes "0 \<le> i" and "i + n \<le> int (length F)"
  shows "file_bytes F i n = take (nat n) (drop (nat i) F)"
proof (rule nth_equalityI)
  show "length (file_bytes F i n) = length (take (nat n) (drop (nat i) F))"
    using assms by auto
next
  fix k assume "k < length (file_bytes F i n)"
  then show "file_bytes F i n ! k = take (nat n) (drop (nat i) F) ! k"
    using assms by (auto simp: file_bytes_def file_byte_def nat_add_distrib)
qed

text \<open>
  The window is right: the first \<open>p_len\<close> bytes of the buffer are the file's bytes at
  \<open>p_offset\<close>.
\<close>

definition map_inv :: "byte list \<Rightarrow> map_struct \<Rightarrow> bool" where
  "map_inv F m \<longleftrightarrow> 0 \<le> p_offset m \<and> 0 \<le> p_len m \<and> p_len m \<le> p_size m \<and> 0 \<le> p_fd_offset m \<and>
     int (length (p_buf m)) = p_size m \<and> take (nat (p_len m)) (p_buf m) = file_bytes F (p_offset m) (p_len m)"

lemma map_inv_map_file: "map_inv F (map_file len read_size blk_size)"
  by (simp add: map_inv_def map_file_def file_bytes_def Let_def)


section \<open>The read loop\<close>

lemma length_store [simp]: "i + length bs \<le> length p \<Longrightarrow> length (store p i bs) = length p"
  by (simp add: store_def)

lemma take_store: "i \<le> length p \<Longrightarrow> take (i + length bs) (store p i bs) = take i p @ bs"
  by (simp add: store_def)

lemma file_bytes_append:
  assumes "0 \<le> a" and "0 \<le> b"
  shows "file_bytes F i (a + b) = file_bytes F i a @ file_bytes F (i + a) b"
proof (rule nth_equalityI)
  show "length (file_bytes F i (a + b)) = length (file_bytes F i a @ file_bytes F (i + a) b)"
    using assms by (simp add: nat_add_distrib)
next
  fix k assume k: "k < length (file_bytes F i (a + b))"
  show "file_bytes F i (a + b) ! k = (file_bytes F i a @ file_bytes F (i + a) b) ! k"
  proof (cases "k < nat a")
    case True
    then show ?thesis using k by (simp add: file_bytes_def nth_append)
  next
    case False
    then have "k - nat a < nat b" "i + a + int (k - nat a) = i + int k"
      using assms k by auto
    then show ?thesis using False k by (simp add: file_bytes_def nth_append)
  qed
qed

lemma file_bytes_past_end:
  assumes "0 \<le> i" and "int (length F) \<le> i"
  shows "file_bytes F i n = replicate (nat n) 0"
proof -
  have "\<not> nat (i + int k) < length F" for k
    using assms by linarith
  then have "file_byte F (i + int k) = 0" for k
    by (simp add: file_byte_def)
  then show ?thesis by (simp add: file_bytes_def map_replicate_const)
qed

lemma take_drop_file_bytes:
  assumes "0 \<le> i"
  shows "take k (drop (nat i) F) = file_bytes F i (int (length (take k (drop (nat i) F))))"
proof (cases "i \<le> int (length F)")
  case True
  then have "i + int (length (take k (drop (nat i) F))) \<le> int (length F)"
    using assms by simp
  then show ?thesis
    using assms by (subst file_bytes_slice) (auto simp: min_def)
next
  case False
  then show ?thesis by (simp add: file_bytes_def)
qed

text \<open>
  What the loop needs: the buffer is right up to \<open>read_offset\<close>, the file position is where
  the next byte comes from, and there is room.
\<close>

definition loop_pre :: "byte list \<Rightarrow> map_struct \<Rightarrow> int \<Rightarrow> int \<Rightarrow> bool" where
  "loop_pre F m ro rs \<longleftrightarrow> 0 \<le> p_offset m \<and> 0 \<le> ro \<and> 0 \<le> rs \<and> ro + rs \<le> int (length (p_buf m)) \<and>
     p_fd_offset m = p_offset m + ro \<and> take (nat ro) (p_buf m) = file_bytes F (p_offset m) ro"

lemma loop_pre_store:
  assumes "loop_pre F m ro rs" and "int (length bs) \<le> rs" and "bs = file_bytes F (p_offset m + ro) (int (length bs))"
  shows "loop_pre F (m\<lparr>p_fd_offset := p_fd_offset m + int (length bs), p_buf := store (p_buf m) (nat ro) bs\<rparr>)
     (ro + int (length bs)) (rs - int (length bs))"
proof -
  have "nat (ro + int (length bs)) = nat ro + length bs"
    using assms(1) by (simp add: loop_pre_def nat_add_distrib)
  moreover have "nat ro + length bs \<le> length (p_buf m)"
    using assms(1,2) by (auto simp: loop_pre_def)
  ultimately show ?thesis
    using assms by (auto simp: loop_pre_def take_store file_bytes_append)
qed

lemma store_zeros:
  assumes "loop_pre F m ro rs" and "int (length F) \<le> p_offset m + ro"
  shows "take (nat (ro + rs)) (store (p_buf m) (nat ro) (replicate (nat rs) 0)) = file_bytes F (p_offset m) (ro + rs)"
    and "length (store (p_buf m) (nat ro) (replicate (nat rs) 0)) = length (p_buf m)"
proof -
  have n: "nat (ro + rs) = nat ro + length (replicate (nat rs) (0 :: byte))"
    "nat ro + length (replicate (nat rs) (0 :: byte)) \<le> length (p_buf m)"
    using assms(1) by (auto simp: loop_pre_def nat_add_distrib)
  then show "length (store (p_buf m) (nat ro) (replicate (nat rs) 0)) = length (p_buf m)"
    by (intro length_store)
  show "take (nat (ro + rs)) (store (p_buf m) (nat ro) (replicate (nat rs) 0)) = file_bytes F (p_offset m) (ro + rs)"
    unfolding n(1) using assms n(2)
    by (subst take_store) (auto simp: loop_pre_def file_bytes_append file_bytes_past_end)
qed

lemma map_read_loop_spec:
  assumes "reads_file F rd" and "loop_pre F m ro rs"
  defines "m' \<equiv> map_read_loop rd m ro rs"
  shows "take (nat (ro + rs)) (p_buf m') = file_bytes F (p_offset m) (ro + rs) \<and>
    length (p_buf m') = length (p_buf m) \<and> p_offset m' = p_offset m \<and> p_len m' = p_len m \<and>
    p_size m' = p_size m \<and> file_size m' = file_size m \<and> def_window_size m' = def_window_size m \<and>
    0 \<le> p_fd_offset m' \<and>
    (p_offset m + ro + rs \<le> int (length F) \<longrightarrow> map_status m' = map_status m)"
  using assms(1,2) unfolding m'_def
proof (induction rd m ro rs rule: map_read_loop.induct)
  case (1 rd m ro rs)
  show ?case
  proof (cases "rs > 0")
    case False
    then have "rs = 0" using "1.prems" by (simp add: loop_pre_def)
    then show ?thesis using "1.prems" by (simp add: map_read_loop.simps loop_pre_def)
  next
    case True
    have fd: "0 \<le> p_fd_offset m" "p_fd_offset m = p_offset m + ro"
      using "1.prems" by (auto simp: loop_pre_def)
    obtain k where k: "rd (p_fd_offset m) rs = Inr (take k (drop (nat (p_fd_offset m)) F))" "k \<le> nat rs"
      "nat (p_fd_offset m) < length F \<longrightarrow> 0 < k"
      using "1.prems"(1) fd(1) True unfolding reads_file_def by blast
    define bs where "bs = take k (drop (nat (p_fd_offset m)) F)"
    have rd: "rd (p_fd_offset m) rs = Inr bs" using k(1) by (simp add: bs_def)
    show ?thesis
    proof (cases "bs = []")
      case empty: True
      then have "length F \<le> nat (p_fd_offset m)" using k(3) by (auto simp: bs_def)
      then have "int (length F) \<le> p_offset m + ro" using fd by linarith
      then show ?thesis
        using empty True rd fd store_zeros [OF "1.prems"(2)] by (simp add: map_read_loop.simps)
    next
      case False
      have len: "int (length bs) \<le> rs" using k(2) True by (simp add: bs_def)
      have "bs = file_bytes F (p_offset m + ro) (int (length bs))"
        using take_drop_file_bytes [OF fd(1), of k F] fd(2) by (simp add: bs_def)
      note pre = loop_pre_store [OF "1.prems"(2) len this]
      have eq: "map_read_loop rd m ro rs = map_read_loop rd
          (m\<lparr>p_fd_offset := p_fd_offset m + int (length bs), p_buf := store (p_buf m) (nat ro) bs\<rparr>)
          (ro + int (length bs)) (rs - int (length bs))"
        using False True rd by (simp add: map_read_loop.simps [of rd m ro rs])
      have "nat ro + length bs \<le> length (p_buf m)"
        using "1.prems" len by (auto simp: loop_pre_def)
      then show ?thesis
        using "1.IH" [OF True rd False "1.prems"(1) pre] unfolding eq by simp
    qed
  qed
qed


section \<open>map_ptr\<close>

lemma file_bytes_sub:
  assumes "0 \<le> k" and "0 \<le> n" and "k + n \<le> w"
  shows "take (nat n) (drop (nat k) (file_bytes F i w)) = file_bytes F (i + k) n"
proof -
  have "file_bytes F i w = file_bytes F i (k + (n + (w - k - n)))" by simp
  also have "\<dots> = file_bytes F i k @ file_bytes F (i + k) n @ file_bytes F (i + k + n) (w - k - n)"
    using assms by (simp only: file_bytes_append)
  finally show ?thesis by simp
qed

lemma take_drop_prefix:
  assumes "k + n \<le> w"
  shows "take n (drop k xs) = take n (drop k (take w xs))"
  using assms by (simp add: drop_take min_def)

lemma map_inv_sub:
  assumes "map_inv F m" and "0 \<le> k" and "0 \<le> n" and "k + n \<le> p_len m"
  shows "take (nat n) (drop (nat k) (p_buf m)) = file_bytes F (p_offset m + k) n"
proof -
  have "take (nat n) (drop (nat k) (p_buf m)) = take (nat n) (drop (nat k) (take (nat (p_len m)) (p_buf m)))"
    using assms(2-4) by (intro take_drop_prefix) (simp add: nat_le_iff)
  then show ?thesis
    using assms by (simp add: map_inv_def file_bytes_sub)
qed

lemma map_window_size_ge: "len + ALIGNED_OVERSHOOT offset \<le> map_window_size m offset len"
  using ALIGNED_LENGTH_ge [of "len + ALIGNED_OVERSHOOT offset"]
  by (simp add: map_window_size_def Let_def)

lemma map_window_size_in_file:
  assumes "offset + len \<le> file_size m" and "len + ALIGNED_OVERSHOOT offset \<le> def_window_size m"
  shows "offset - ALIGNED_OVERSHOOT offset + map_window_size m offset len \<le> file_size m"
  using assms by (simp add: map_window_size_def Let_def)

lemma length_realloc [simp]: "0 \<le> n \<Longrightarrow> length (realloc_array junk p n) = nat n"
  by (simp add: realloc_array_def)

lemma map_inv_realloc:
  assumes "map_inv F m" and "ws > p_size m"
  shows "map_inv F (m\<lparr>p_buf := realloc_array junk (p_buf m) ws, p_size := ws\<rparr>)"
proof -
  have "take (nat (p_len m)) (realloc_array junk (p_buf m) ws) = take (nat (p_len m)) (p_buf m)"
    using assms by (auto simp: map_inv_def realloc_array_def min_def)
  then show ?thesis using assms by (auto simp: map_inv_def)
qed

lemma map_prepare_spec:
  assumes "map_inv F m" and "0 \<le> wstart" and "0 \<le> wsize"
    and "map_prepare junk m wstart wsize = (m', rstart, ro, rs)"
  shows "loop_pre F (m'\<lparr>p_fd_offset := rstart, p_offset := wstart, p_len := wsize\<rparr>) ro rs \<and>
    ro + rs = wsize \<and> wsize \<le> p_size m' \<and> int (length (p_buf m')) = p_size m' \<and> file_size m' = file_size m \<and>
    def_window_size m' = def_window_size m \<and> map_status m' = map_status m \<and>
    (rs = 0 \<longrightarrow> wsize = 0 \<or> (wstart \<ge> p_offset m \<and> wstart + wsize = p_offset m + p_len m))"
proof -
  define m1 where "m1 = (if wsize > p_size m
    then m\<lparr>p_buf := realloc_array junk (p_buf m) wsize, p_size := wsize\<rparr> else m)"
  have m1: "map_inv F m1" "wsize \<le> p_size m1" "p_offset m1 = p_offset m" "p_len m1 = p_len m"
    "file_size m1 = file_size m" "def_window_size m1 = def_window_size m" "map_status m1 = map_status m"
    using assms(1) by (auto simp: m1_def map_inv_realloc)
  have len1: "int (length (p_buf m1)) = p_size m1" using m1(1) by (simp add: map_inv_def)
  show ?thesis
  proof (cases "wstart \<ge> p_offset m1 \<and> wstart < p_offset m1 + p_len m1 \<and> wstart + wsize \<ge> p_offset m1 + p_len m1")
    case True
    define r where "r = p_offset m1 + p_len m1 - wstart"
    define kept where "kept = take (nat r) (drop (nat (p_len m1 - r)) (p_buf m1))"
    have r: "0 < r" "r \<le> p_len m1" "r \<le> wsize" using True by (auto simp: r_def)
    have res: "m' = m1\<lparr>p_buf := store (p_buf m1) 0 kept\<rparr>" "rstart = p_offset m1 + p_len m1" "ro = r" "rs = wsize - r"
      using assms(4) True by (auto simp: map_prepare_def Let_def r_def kept_def simp flip: m1_def)
    have k: "kept = file_bytes F wstart r"
      using map_inv_sub [OF m1(1), of "p_len m1 - r" r] r by (simp add: kept_def r_def)
    have "length kept \<le> length (p_buf m1)" using k r(3) m1(2) len1 by simp
    then show ?thesis
      using res k r m1 len1 assms(2) take_store [of 0 "p_buf m1" kept]
      by (auto simp: loop_pre_def r_def)
  next
    case False
    then have "m' = m1" "rstart = wstart" "ro = 0" "rs = wsize"
      using assms(4) by (auto simp: map_prepare_def Let_def simp flip: m1_def)
    then show ?thesis
      using m1 len1 assms(2,3) by (auto simp: loop_pre_def file_bytes_def)
  qed
qed

lemma map_ptr_spec:
  assumes rd: "reads_file F rd" and sk: "\<And>pos. 0 \<le> pos \<Longrightarrow> sk pos = pos" and inv: "map_inv F m"
    and len: "0 < len" and off: "0 \<le> offset"
  shows "\<exists>m'. map_ptr rd sk junk m offset len = Inr (Some (file_bytes F offset len), m') \<and> map_inv F m' \<and>
    file_size m' = file_size m \<and> def_window_size m' = def_window_size m \<and>
    (file_size m = int (length F) \<longrightarrow> offset + len \<le> int (length F) \<longrightarrow>
     len + ALIGNED_OVERSHOOT offset \<le> def_window_size m \<longrightarrow> map_status m' = map_status m)"
proof (cases "offset \<ge> p_offset m \<and> offset + len \<le> p_offset m + p_len m")
  case True
  then show ?thesis
    using inv len map_inv_sub [OF inv, of "offset - p_offset m" len] by (simp add: map_ptr_def)
next
  case False
  define fudge where "fudge = ALIGNED_OVERSHOOT offset"
  define wsize where "wsize = map_window_size m offset len"
  have f: "0 \<le> fudge" "fudge \<le> offset"
    using off by (auto simp: fudge_def ALIGNED_OVERSHOOT_mod zmod_le_nonneg_dividend)
  have ws: "len + fudge \<le> wsize" unfolding fudge_def wsize_def by (rule map_window_size_ge)
  obtain m1 rstart ro rs where prep: "map_prepare junk m (offset - fudge) wsize = (m1, rstart, ro, rs)"
    by (cases "map_prepare junk m (offset - fudge) wsize") auto
  let ?m2 = "m1\<lparr>p_fd_offset := rstart, p_offset := offset - fudge, p_len := wsize\<rparr>"
  let ?m3 = "map_read_loop rd ?m2 ro rs"
  note P = map_prepare_spec [OF inv _ _ prep]
  have pre: "loop_pre F ?m2 ro rs" "ro + rs = wsize" and rs: "0 < rs" and rstart: "0 \<le> rstart"
    using P f ws len False by (auto simp: loop_pre_def)
  note L = map_read_loop_spec [OF rd pre(1)]
  have eq: "map_ptr rd sk junk m offset len = Inr (Some (take (nat len) (drop (nat fudge) (p_buf ?m3))), ?m3)"
    unfolding map_ptr_def if_not_P [OF False] Let_def fudge_def [symmetric] wsize_def [symmetric] prep
    using len rs sk [OF rstart] by simp
  have inv3: "map_inv F ?m3"
    using L P pre f ws len by (auto simp: map_inv_def)
  have "take (nat len) (drop (nat fudge) (p_buf ?m3)) = file_bytes F offset len"
    using map_inv_sub [OF inv3, of fudge len] L f ws len by simp
  moreover have "map_status ?m3 = map_status m"
    if "file_size m = int (length F)" "offset + len \<le> int (length F)" "len + fudge \<le> def_window_size m"
    using L P pre(2) f ws len map_window_size_in_file [of offset len m] that
    by (simp add: fudge_def wsize_def)
  ultimately show ?thesis
    using eq inv3 L P f ws len by (simp add: fudge_def)
qed

end
