(* ===== verification/Token.thy ===== *)
theory Token
  imports Checksum MapFile
begin

text \<open>
  The uncompressed token stream of token.c. A call of send_token sends the literal bytes
  before a match and then the token: \<open>token\<close> is the number of the matched block, -1 at
  the end of the file, -2 for literal data alone. map_ptr is read as the bytes it returns,
  \<open>file_bytes\<close> (theory MapFile).
\<close>

definition CHUNK_SIZE :: int where
  "CHUNK_SIZE = 32 * 1024"

section \<open>Sending\<close>

function send_chunks :: "byte list \<Rightarrow> int \<Rightarrow> int \<Rightarrow> int \<Rightarrow> byte list" where
  "send_chunks src offset n len =
     (if len < n then
        let n1 = min CHUNK_SIZE (n - len)
        in write_int (word_of_int n1) @ file_bytes src (offset + len) n1
             @ send_chunks src offset n (len + n1)
      else [])"
  by pat_completeness auto
termination
  by (relation "measure (\<lambda>(src, offset, n, len). nat (n - len))") (auto simp: CHUNK_SIZE_def)

declare send_chunks.simps [simp del]

definition simple_send_token :: "byte list \<Rightarrow> int \<Rightarrow> int \<Rightarrow> int \<Rightarrow> byte list" where
  "simple_send_token src token offset n =
     (if n > 0 then send_chunks src offset n 0 else [])
     @ (if token \<noteq> -2 then write_int (word_of_int (- (token + 1))) else [])"

section \<open>Receiving\<close>

text \<open>
  The static variable residue is the number of literal bytes announced and not yet read.
  The result is the return value, the bytes at \<open>*data\<close>, the unread stream and the new residue.
\<close>

definition simple_recv_token :: "nat \<Rightarrow> byte list \<Rightarrow> (int \<times> byte list \<times> byte list \<times> nat) result" where
  "simple_recv_token residue s =
     res_bind (if residue = 0 then res_bind (read_int s) (\<lambda>(i, s). Inr (sint i, s))
               else Inr (int residue, s)) (\<lambda>(i, s).
       if i \<le> 0 then Inr (i, [], s, 0)
       else
         let n = min CHUNK_SIZE i in
         res_bind (read_buf (nat n) s) (\<lambda>(buf, s). Inr (n, buf, s, nat (i - n))))"

text \<open>
  Every call that returns consumes part of the stream, which is why the receiver's loop ends.
\<close>

lemma simple_recv_token_consumes:
  assumes "simple_recv_token residue s = Inr (i, data, s', residue')"
  shows "length s' < length s"
proof -
  have rb: "read_buf n t = Inr (b, t') \<Longrightarrow> length t' + n = length t" for n t b t'
    by (auto simp: read_buf_def split: if_splits)
  show ?thesis
    using assms
    by (auto simp: simple_recv_token_def res_bind_eq_Inr read_int_def Let_def CHUNK_SIZE_def min_def
        split: if_splits dest!: rb)
qed

section \<open>A token stream\<close>

text \<open>What the receiver sees of the stream: literal bytes, or a block number.\<close>

datatype item = Literal "byte list" | Block int

text \<open>
  The loop of receive_data over recv_token, up to and including the end token: the items in
  order and the stream after them.
\<close>

function recv_items :: "nat \<Rightarrow> byte list \<Rightarrow> (item list \<times> byte list) result" where
  "recv_items residue s =
     (case simple_recv_token residue s of
        Inl e \<Rightarrow> Inl e
      | Inr (i, data, s', residue') \<Rightarrow>
          if i = 0 then Inr ([], s')
          else res_bind (recv_items residue' s') (\<lambda>(its, s'').
            Inr ((if i > 0 then Literal data else Block (- (i + 1))) # its, s'')))"
  by pat_completeness auto
termination
  by (relation "measure (\<lambda>(residue, s). length s)") (auto dest: simple_recv_token_consumes)

declare recv_items.simps [simp del]

text \<open>The literal data of a call, cut as the sender cuts it.\<close>

function literal_items :: "byte list \<Rightarrow> int \<Rightarrow> int \<Rightarrow> int \<Rightarrow> item list" where
  "literal_items src offset n len =
     (if len < n then
        let n1 = min CHUNK_SIZE (n - len)
        in Literal (file_bytes src (offset + len) n1) # literal_items src offset n (len + n1)
      else [])"
  by pat_completeness auto
termination
  by (relation "measure (\<lambda>(src, offset, n, len). nat (n - len))") (auto simp: CHUNK_SIZE_def)

declare literal_items.simps [simp del]

lemma recv_chunk:
  assumes "0 < n1" and "n1 \<le> CHUNK_SIZE"
  shows "simple_recv_token 0 (write_int (word_of_int n1) @ file_bytes src off n1 @ s) =
    Inr (n1, file_bytes src off n1, s, 0)"
proof -
  have "sint (word_of_int n1 :: int32) = n1"
    using assms by (intro sint_word_of_int_small) (auto simp: CHUNK_SIZE_def)
  then show ?thesis
    using assms by (simp add: simple_recv_token_def Let_def)
qed

lemma recv_items_chunks:
  "recv_items 0 (send_chunks src offset n len @ s) =
   res_bind (recv_items 0 s) (\<lambda>(its, s'). Inr (literal_items src offset n len @ its, s'))"
proof (induction src offset n len rule: send_chunks.induct)
  case (1 src offset n len)
  show ?case
  proof (cases "len < n")
    case True
    define n1 where "n1 = min CHUNK_SIZE (n - len)"
    have n1: "0 < n1" "n1 \<le> CHUNK_SIZE" using True by (auto simp: n1_def CHUNK_SIZE_def)
    have sc: "send_chunks src offset n len @ s = write_int (word_of_int n1)
        @ file_bytes src (offset + len) n1 @ (send_chunks src offset n (len + n1) @ s)"
      using True by (simp add: send_chunks.simps [of src offset n len] n1_def Let_def)
    have li: "literal_items src offset n len =
        Literal (file_bytes src (offset + len) n1) # literal_items src offset n (len + n1)"
      using True by (simp add: literal_items.simps [of src offset n len] n1_def Let_def)
    have "recv_items 0 (send_chunks src offset n len @ s) =
        res_bind (recv_items 0 (send_chunks src offset n (len + n1) @ s)) (\<lambda>(its, s').
          Inr (Literal (file_bytes src (offset + len) n1) # its, s'))"
      unfolding sc using n1 recv_chunk [OF n1] by (subst recv_items.simps) simp
    also have "\<dots> = res_bind (recv_items 0 s) (\<lambda>(its, s'). Inr (literal_items src offset n len @ its, s'))"
      unfolding "1.IH" [OF True n1_def] li by (cases "recv_items 0 s") auto
    finally show ?thesis .
  next
    case False
    then show ?thesis
      by (cases "recv_items 0 s") (auto simp: send_chunks.simps [of src offset n len] literal_items.simps [of src offset n len])
  qed
qed

text \<open>The items of one call of send_token, and reading them back.\<close>

definition token_items :: "byte list \<Rightarrow> int \<Rightarrow> int \<Rightarrow> int \<Rightarrow> item list" where
  "token_items src token offset n =
     (if n > 0 then literal_items src offset n 0 else []) @ (if token \<ge> 0 then [Block token] else [])"

lemma recv_items_token:
  assumes "token = -2 \<or> (0 \<le> token \<and> token < 2 ^ 31 - 1)"
  shows "recv_items 0 (simple_send_token src token offset n @ s) =
    res_bind (recv_items 0 s) (\<lambda>(its, s'). Inr (token_items src token offset n @ its, s'))"
proof -
  have tok: "recv_items 0 ((if token \<noteq> -2 then write_int (word_of_int (- (token + 1))) else []) @ s) =
      res_bind (recv_items 0 s) (\<lambda>(its, s'). Inr ((if token \<ge> 0 then [Block token] else []) @ its, s'))"
  proof (cases "token = -2")
    case True
    then show ?thesis by (cases "recv_items 0 s") auto
  next
    case False
    then have "sint (word_of_int (- (token + 1)) :: int32) = - (token + 1)"
      using assms by (subst sint_sbintrunc') (simp add: signed_take_bit_int_eq_self)
    then have "simple_recv_token 0 (write_int (word_of_int (- (token + 1))) @ s) = Inr (- (token + 1), [], s, 0)"
      using False assms by (simp add: simple_recv_token_def)
    then show ?thesis
      using False assms by (subst recv_items.simps) simp
  qed
  show ?thesis
  proof (cases "n > 0")
    case True
    then show ?thesis
      unfolding simple_send_token_def token_items_def append_assoc
      by (simp only: if_True recv_items_chunks tok) (cases "recv_items 0 s"; auto)
  next
    case False
    then show ?thesis
      unfolding simple_send_token_def token_items_def append_assoc using tok by simp
  qed
qed

lemma recv_items_end: "recv_items 0 (simple_send_token src (-1) offset n @ s) =
    Inr (if n > 0 then literal_items src offset n 0 else [], s)"
proof -
  have "simple_recv_token 0 (write_int 0 @ s) = Inr (0, [], s, 0)"
    by (simp add: simple_recv_token_def)
  then have "recv_items 0 (write_int 0 @ s) = Inr ([], s)"
    by (subst recv_items.simps) simp
  then show ?thesis
    by (simp add: simple_send_token_def recv_items_chunks)
qed


section \<open>The data an item list stands for\<close>

text \<open>\<open>block i\<close> is the content of block \<open>i\<close> of the basis file.\<close>

fun item_bytes :: "(int \<Rightarrow> byte list) \<Rightarrow> item \<Rightarrow> byte list" where
  "item_bytes block (Literal bs) = bs"
| "item_bytes block (Block i) = block i"

definition items_bytes :: "(int \<Rightarrow> byte list) \<Rightarrow> item list \<Rightarrow> byte list" where
  "items_bytes block its = concat (map (item_bytes block) its)"

lemma items_bytes_simps [simp]:
  "items_bytes block [] = []"
  "items_bytes block (it # its) = item_bytes block it @ items_bytes block its"
  "items_bytes block (xs @ ys) = items_bytes block xs @ items_bytes block ys"
  by (simp_all add: items_bytes_def)

lemma literal_items_bytes:
  "0 \<le> len \<Longrightarrow> items_bytes block (literal_items src offset n len) = file_bytes src (offset + len) (n - len)"
proof (induction src offset n len rule: literal_items.induct)
  case (1 src offset n len)
  show ?case
  proof (cases "len < n")
    case True
    define n1 where "n1 = min CHUNK_SIZE (n - len)"
    have n1: "0 < n1" "n1 \<le> n - len" using True by (auto simp: n1_def CHUNK_SIZE_def)
    have "items_bytes block (literal_items src offset n len) =
        file_bytes src (offset + len) n1 @ file_bytes src (offset + len + n1) (n - len - n1)"
      using "1.IH" [OF True n1_def] "1.prems" True n1
      by (simp add: literal_items.simps [of src offset n len] n1_def [symmetric] Let_def algebra_simps)
    then show ?thesis
      using n1 file_bytes_append [of n1 "n - len - n1" src "offset + len"] by simp
  next
    case False
    then show ?thesis by (simp add: literal_items.simps [of src offset n len] file_bytes_def)
  qed
qed

lemma token_items_bytes:
  "items_bytes block (token_items src token offset n) =
   file_bytes src offset n @ (if token \<ge> 0 then block token else [])"
proof (cases "n > 0")
  case True
  then show ?thesis by (simp add: token_items_def literal_items_bytes)
next
  case False
  then show ?thesis by (simp add: token_items_def file_bytes_def)
qed

end
