(* ===== verification/Receiver.thy ===== *)
theory Receiver
  imports Token
begin

text \<open>
  receive_data of receiver.c: the receiver rebuilds a file from a basis file and the token
  stream. The configuration modelled has no sparse writing and no preallocation. The file
  written is a byte list; \<open>fsum\<close> is the whole-file checksum (sum_init, sum_update and
  sum_end over the bytes fed to it), \<open>wok offset bytes\<close> says whether write_file accepts
  the bytes, \<open>sk\<close> is do_lseek. When the basis file is the file being written
  (rc_same_file), a block is read from its content at that moment.
\<close>

record recv_cfg =
  rc_protocol_version :: nat
  rc_csum_length :: int
  rc_append_mode :: int
  rc_updating :: bool        \<comment> \<open>updating_basis_or_equiv\<close>
  rc_same_file :: bool       \<comment> \<open>fd_r and fd are open on one file\<close>
  rc_inplace_sizing :: bool
  rc_fd_open :: bool         \<comment> \<open>fd is not -1\<close>

text \<open>Writing at a position of a file; a gap before it reads as zeros.\<close>

definition write_at :: "byte list \<Rightarrow> int \<Rightarrow> byte list \<Rightarrow> byte list" where
  "write_at dst offset bs =
     take (nat offset) dst @ replicate (nat offset - length dst) 0 @ bs @ drop (nat offset + length bs) dst"

record recv_state =
  r_offset :: int
  r_dst :: "byte list"
  r_summed :: "byte list"

text \<open>The loop that feeds the part of the basis already present to the checksum (append_mode 2).\<close>

function append_chunks :: "byte list \<Rightarrow> int \<Rightarrow> int \<Rightarrow> int \<Rightarrow> byte list" where
  "append_chunks F flength offset j =
     (if j < flength then file_bytes F offset CHUNK_SIZE @ append_chunks F flength j (j + CHUNK_SIZE)
      else if offset < flength then file_bytes F offset (flength - offset) else [])"
  by pat_completeness auto
termination
  by (relation "measure (\<lambda>(F, flength, offset, j). nat (flength - j))") (auto simp: CHUNK_SIZE_def)

declare append_chunks.simps [simp del]

definition block_len :: "sum_struct \<Rightarrow> int \<Rightarrow> int" where
  "block_len sm i = (if i = s_count sm - 1 \<and> s_remainder sm \<noteq> 0 then s_remainder sm else s_blength sm)"

definition basis_now :: "recv_cfg \<Rightarrow> recv_state \<Rightarrow> byte list \<Rightarrow> byte list" where
  "basis_now cfg st F = (if rc_same_file cfg then r_dst st else F)"

text \<open>One turn of the loop: the token \<open>i\<close> is not 0, \<open>data\<close> is the literal data of a positive one.\<close>

definition recv_step :: "recv_cfg \<Rightarrow> (int \<Rightarrow> byte list \<Rightarrow> bool) \<Rightarrow> sum_struct \<Rightarrow> byte list option \<Rightarrow>
    recv_state \<Rightarrow> int \<Rightarrow> byte list \<Rightarrow> recv_state result" where
  "recv_step cfg wok sm mapbuf st i data =
     (if i > 0 then
        let st = st\<lparr>r_summed := r_summed st @ data\<rparr> in
        if rc_fd_open cfg \<and> \<not> wok (r_offset st) data then Inl RERR_FILEIO
        else Inr (st\<lparr>r_dst := (if rc_fd_open cfg then write_at (r_dst st) (r_offset st) data else r_dst st),
                     r_offset := r_offset st + i\<rparr>)
      else
        let i = - (i + 1);
            offset2 = i * s_blength sm;
            len = block_len sm i;
            st = (case mapbuf of
                    None \<Rightarrow> st
                  | Some F \<Rightarrow> st\<lparr>r_summed := r_summed st @ file_bytes (basis_now cfg st F) offset2 len\<rparr>)
        in if rc_updating cfg \<and> r_offset st = offset2 \<and> rc_fd_open cfg then
             Inr (st\<lparr>r_offset := r_offset st + len\<rparr>)
           else case mapbuf of
               None \<Rightarrow> Inr (st\<lparr>r_offset := r_offset st + len\<rparr>)
             | Some F \<Rightarrow>
                 let m = file_bytes (basis_now cfg st F) offset2 len in
                 if rc_fd_open cfg \<and> \<not> wok (r_offset st) m then Inl RERR_FILEIO
                 else Inr (st\<lparr>r_dst := (if rc_fd_open cfg then write_at (r_dst st) (r_offset st) m else r_dst st),
                              r_offset := r_offset st + len\<rparr>))"

function receive_loop :: "recv_cfg \<Rightarrow> (int \<Rightarrow> byte list \<Rightarrow> bool) \<Rightarrow> sum_struct \<Rightarrow> byte list option \<Rightarrow>
    recv_state \<Rightarrow> nat \<Rightarrow> byte list \<Rightarrow> (recv_state \<times> byte list) result" where
  "receive_loop cfg wok sm mapbuf st residue s =
     (case simple_recv_token residue s of
        Inl e \<Rightarrow> Inl e
      | Inr (i, data, s', residue') \<Rightarrow>
          if i = 0 then Inr (st, s')
          else res_bind (recv_step cfg wok sm mapbuf st i data) (\<lambda>st'.
            receive_loop cfg wok sm mapbuf st' residue' s'))"
  by pat_completeness auto
termination
  by (relation "measure (\<lambda>(cfg, wok, sm, mapbuf, st, residue, s). length s)")
    (auto dest: simple_recv_token_consumes)

declare receive_loop.simps [simp del]

text \<open>
  The whole function. \<open>fd_r\<close> is the basis file, if open; \<open>dst\<close> the content of the file
  written to before the transfer. The result is the return value (whether the checksums
  agree), the file's content, and the unread stream.
\<close>

definition receive_data :: "recv_cfg \<Rightarrow> (int \<Rightarrow> byte list \<Rightarrow> bool) \<Rightarrow> (int \<Rightarrow> int) \<Rightarrow> (byte list \<Rightarrow> byte list) \<Rightarrow>
    byte list option \<Rightarrow> byte list \<Rightarrow> byte list \<Rightarrow> (bool \<times> byte list \<times> byte list) result" where
  "receive_data cfg wok sk fsum fd_r dst s =
     (let size_r = (case fd_r of None \<Rightarrow> 0 | Some F \<Rightarrow> int (length F));
          preallocated_len = (if rc_inplace_sizing cfg then size_r else 0)
      in res_bind (read_sum_head (rc_protocol_version cfg) (rc_csum_length cfg) null_sum s) (\<lambda>(sm, s).
      let mapbuf = (if size_r > 0 then fd_r else None);
          flength = s_count sm * s_blength sm
                    - (if s_remainder sm \<noteq> 0 then s_blength sm - s_remainder sm else 0);
          st = \<lparr>r_offset = 0, r_dst = dst, r_summed = []\<rparr>;
          st = (if rc_append_mode cfg > 0
                then st\<lparr>r_summed := (case mapbuf of
                                       Some F \<Rightarrow> if rc_append_mode cfg = 2 then append_chunks F flength 0 CHUNK_SIZE else []
                                     | None \<Rightarrow> []),
                        r_offset := flength\<rparr>
                else st)
      in if rc_append_mode cfg > 0 \<and> rc_fd_open cfg \<and> sk flength \<noteq> flength then Inl RERR_FILEIO
         else res_bind (receive_loop cfg wok sm mapbuf st 0 s) (\<lambda>(st, s).
           let dst = (if (rc_inplace_sizing cfg \<or> preallocated_len > r_offset st) \<and> rc_fd_open cfg
                      then take (nat (r_offset st)) (r_dst st) else r_dst st);
               file_sum1 = fsum (r_summed st)
           in res_bind (read_buf (length file_sum1) s) (\<lambda>(sender_file_sum, s).
                Inr (\<not> (rc_fd_open cfg \<and> file_sum1 \<noteq> sender_file_sum), dst, s)))))"

text \<open>discard_receive_data: the same with no file on either side.\<close>

definition discard_receive_data :: "recv_cfg \<Rightarrow> (byte list \<Rightarrow> byte list) \<Rightarrow> byte list \<Rightarrow>
    (bool \<times> byte list \<times> byte list) result" where
  "discard_receive_data cfg fsum s =
     receive_data (cfg\<lparr>rc_fd_open := False, rc_inplace_sizing := False\<rparr>) (\<lambda>_ _. True) (\<lambda>x. x) fsum None [] s"

section \<open>The loop as a fold over the items of the stream\<close>

fun item_token :: "item \<Rightarrow> int \<times> byte list" where
  "item_token (Literal bs) = (int (length bs), bs)"
| "item_token (Block i) = (- (i + 1), [])"

fun recv_steps :: "recv_cfg \<Rightarrow> (int \<Rightarrow> byte list \<Rightarrow> bool) \<Rightarrow> sum_struct \<Rightarrow> byte list option \<Rightarrow>
    recv_state \<Rightarrow> item list \<Rightarrow> recv_state result" where
  "recv_steps cfg wok sm mapbuf st [] = Inr st"
| "recv_steps cfg wok sm mapbuf st (it # its) =
     (case item_token it of (i, data) \<Rightarrow>
        res_bind (recv_step cfg wok sm mapbuf st i data) (\<lambda>st'. recv_steps cfg wok sm mapbuf st' its))"

lemma simple_recv_token_length:
  assumes "simple_recv_token residue s = Inr (i, data, s', residue')" and "i > 0"
  shows "int (length data) = i"
  using assms
  by (auto simp: simple_recv_token_def res_bind_eq_Inr read_buf_def Let_def CHUNK_SIZE_def min_def split: if_splits)

lemma receive_loop_items:
  assumes "recv_items residue s = Inr (its, s')"
  shows "receive_loop cfg wok sm mapbuf st residue s =
    res_bind (recv_steps cfg wok sm mapbuf st its) (\<lambda>st'. Inr (st', s'))"
  using assms
proof (induction residue s arbitrary: its st rule: recv_items.induct)
  case (1 residue s)
  obtain i data t residue' where tok: "simple_recv_token residue s = Inr (i, data, t, residue')"
    using "1.prems" by (subst (asm) recv_items.simps) (auto split: sum.splits)
  show ?case
  proof (cases "i = 0")
    case True
    then show ?thesis
      using "1.prems" tok by (simp add: recv_items.simps [of residue s] receive_loop.simps [of cfg wok sm mapbuf st residue s])
  next
    case False
    obtain its' where its': "recv_items residue' t = Inr (its', s')"
      "its = (if i > 0 then Literal data else Block (- (i + 1))) # its'"
      using "1.prems" tok False by (simp add: recv_items.simps [of residue s] res_bind_eq_Inr) blast
    define it where "it = (if i > 0 then Literal data else Block (- (i + 1)))"
    have it: "item_token it = (i, if i > 0 then data else [])"
      using simple_recv_token_length [OF tok] by (simp add: it_def)
    have step: "recv_step cfg wok sm mapbuf st i (if i > 0 then data else []) = recv_step cfg wok sm mapbuf st i data"
      by (simp add: recv_step_def)
    have steps: "recv_steps cfg wok sm mapbuf st its =
        res_bind (recv_step cfg wok sm mapbuf st i data) (\<lambda>st'. recv_steps cfg wok sm mapbuf st' its')"
      unfolding its'(2) it_def [symmetric] by (simp add: it step del: if_split)
    have loop: "receive_loop cfg wok sm mapbuf st residue s =
        res_bind (recv_step cfg wok sm mapbuf st i data) (\<lambda>st'. receive_loop cfg wok sm mapbuf st' residue' t)"
      using tok False by (simp add: receive_loop.simps [of cfg wok sm mapbuf st residue s])
    have IH: "receive_loop cfg wok sm mapbuf st'' residue' t =
        res_bind (recv_steps cfg wok sm mapbuf st'' its') (\<lambda>st'. Inr (st', s'))" for st''
      by (rule "1.IH" [OF tok refl refl refl False its'(1)])
    show ?thesis
      unfolding loop steps IH by (cases "recv_step cfg wok sm mapbuf st i data") simp_all
  qed
qed

section \<open>What the loop writes\<close>

text \<open>
  The content of a block of the basis file, and when a list of items can be applied to it:
  every block named lies inside the basis file, and when that is the file being written, the
  block is not behind the write position, unless it was left in place there (\<open>kept\<close>).
\<close>

definition basis_block :: "sum_struct \<Rightarrow> byte list \<Rightarrow> int \<Rightarrow> byte list" where
  "basis_block sm F i = file_bytes F (i * s_blength sm) (block_len sm i)"

fun items_ok :: "bool \<Rightarrow> sum_struct \<Rightarrow> byte list \<Rightarrow> int \<Rightarrow> int set \<Rightarrow> item list \<Rightarrow> bool" where
  "items_ok same sm F off kept [] \<longleftrightarrow> True"
| "items_ok same sm F off kept (Literal bs # its) \<longleftrightarrow>
     bs \<noteq> [] \<and> items_ok same sm F (off + int (length bs)) kept its"
| "items_ok same sm F off kept (Block i # its) \<longleftrightarrow>
     0 \<le> i \<and> 0 \<le> s_blength sm \<and> 0 \<le> block_len sm i \<and>
     i * s_blength sm + block_len sm i \<le> int (length F) \<and>
     (same \<longrightarrow> off \<le> i * s_blength sm \<or> i \<in> kept) \<and>
     items_ok same sm F (off + block_len sm i) (if off = i * s_blength sm then insert i kept else kept) its"

definition recv_inv :: "recv_cfg \<Rightarrow> sum_struct \<Rightarrow> byte list \<Rightarrow> byte list \<Rightarrow> int set \<Rightarrow> byte list \<Rightarrow> recv_state \<Rightarrow> bool" where
  "recv_inv cfg sm F D kept out st \<longleftrightarrow>
     r_offset st = int (length out) \<and>
     r_dst st = out @ drop (length out) D \<and>
     r_summed st = out \<and>
     (rc_updating cfg \<longrightarrow> D = F) \<and> (rc_same_file cfg \<longrightarrow> rc_updating cfg) \<and>
     (\<forall>i\<in>kept. 0 \<le> i * s_blength sm \<and> i * s_blength sm + block_len sm i \<le> int (length out) \<and>
        file_bytes out (i * s_blength sm) (block_len sm i) = basis_block sm F i)"

lemma write_at_append:
  "write_at (out @ drop (length out) D) (int (length out)) bs =
   (out @ bs) @ drop (length (out @ bs)) D"
  by (simp add: write_at_def add.commute)

lemma file_bytes_appended:
  assumes "0 \<le> i" and "i + n \<le> int (length out)"
  shows "file_bytes (out @ xs) i n = file_bytes out i n"
proof -
  have "file_byte (out @ xs) (i + int k) = file_byte out (i + int k)" if "k < nat n" for k
  proof -
    have "nat (i + int k) < length out" using that assms by linarith
    then show ?thesis by (simp add: file_byte_def nth_append)
  qed
  then show ?thesis by (simp add: file_bytes_def)
qed

lemma file_bytes_beyond:
  assumes "int (length out) \<le> i"
  shows "file_bytes (out @ drop (length out) F) i n = file_bytes F i n"
  using assms by (auto simp: file_bytes_def file_byte_def nth_append)

lemma recv_step_literal:
  assumes "recv_inv cfg sm F D kept out st" and "bs \<noteq> []" and "rc_fd_open cfg"
    and "\<And>off d. wok off d"
  shows "\<exists>st'. recv_step cfg wok sm mapbuf st (int (length bs)) bs = Inr st' \<and>
    recv_inv cfg sm F D kept (out @ bs) st'"
  using assms
  by (auto simp: recv_step_def recv_inv_def write_at_append Let_def file_bytes_appended)

text \<open>The block read is the block of the basis file as it was.\<close>

lemma basis_now_block:
  assumes "recv_inv cfg sm F D kept out st"
    and "rc_same_file cfg \<longrightarrow> int (length out) \<le> i * s_blength sm \<or> i \<in> kept"
  shows "file_bytes (basis_now cfg st F) (i * s_blength sm) (block_len sm i) = basis_block sm F i"
  using assms
  by (auto simp: basis_now_def recv_inv_def basis_block_def file_bytes_beyond file_bytes_appended)

lemma recv_step_block:
  assumes inv: "recv_inv cfg sm F D kept out st"
    and ok: "items_ok (rc_same_file cfg) sm F (int (length out)) kept [Block i]"
    and fd: "rc_fd_open cfg" and wok: "\<And>off d. wok off d"
  shows "\<exists>st'. recv_step cfg wok sm (Some F) st (- (i + 1)) [] = Inr st' \<and>
    recv_inv cfg sm F D (if int (length out) = i * s_blength sm then insert i kept else kept)
      (out @ basis_block sm F i) st'"
proof -
  let ?off = "i * s_blength sm" and ?len = "block_len sm i" and ?b = "basis_block sm F i"
  have i: "0 \<le> i" "0 \<le> ?len" "0 \<le> ?off" "?off + ?len \<le> int (length F)" using ok by auto
  have blk: "file_bytes (basis_now cfg st F) ?off ?len = ?b"
    using basis_now_block [OF inv] ok by simp
  have now: "basis_now cfg (st\<lparr>r_summed := x\<rparr>) F = basis_now cfg st F" for x
    by (simp add: basis_now_def)
  have lenb: "int (length ?b) = ?len" using i by (simp add: basis_block_def)
  have self: "file_bytes (out @ ?b) (int (length out)) ?len = ?b"
    using lenb i by (subst file_bytes_slice) auto
  have kept: "\<forall>j\<in>(if int (length out) = ?off then insert i kept else kept).
      0 \<le> j * s_blength sm \<and> j * s_blength sm + block_len sm j \<le> int (length (out @ ?b)) \<and>
      file_bytes (out @ ?b) (j * s_blength sm) (block_len sm j) = basis_block sm F j"
    using inv lenb self i(2) by (auto simp: recv_inv_def file_bytes_appended)
  show ?thesis
  proof (cases "rc_updating cfg \<and> r_offset st = ?off")
    case True
    then have off: "?off = int (length out)" and D: "D = F" using inv by (auto simp: recv_inv_def)
    have "?b = take (nat ?len) (drop (length out) F)"
      using off i by (simp add: basis_block_def file_bytes_slice)
    then have "?b @ drop (length out + length ?b) D = drop (length out) D"
      using D lenb by (metis add.commute append_take_drop_id drop_drop nat_int)
    then show ?thesis
      using True inv fd blk lenb kept i
      by (auto simp: recv_step_def recv_inv_def Let_def)
  next
    case False
    then show ?thesis
      using inv fd blk now lenb kept wok i
      by (auto simp: recv_step_def recv_inv_def Let_def write_at_append)
  qed
qed

lemma recv_steps_spec:
  assumes "recv_inv cfg sm F D kept out st"
    and "items_ok (rc_same_file cfg) sm F (int (length out)) kept its"
    and "rc_fd_open cfg" and "\<And>off d. wok off d"
    and "mapbuf = Some F \<or> (\<forall>i. Block i \<notin> set its)"
  shows "\<exists>st' kept'. recv_steps cfg wok sm mapbuf st its = Inr st' \<and>
    recv_inv cfg sm F D kept' (out @ items_bytes (basis_block sm F) its) st'"
  using assms(1,2,5)
proof (induction its arbitrary: kept out st)
  case Nil
  then show ?case by auto
next
  case (Cons it its)
  show ?case
  proof (cases it)
    case (Literal bs)
    then obtain st' where "recv_step cfg wok sm mapbuf st (int (length bs)) bs = Inr st'"
      "recv_inv cfg sm F D kept (out @ bs) st'"
      using recv_step_literal [OF Cons.prems(1), of bs wok mapbuf] Cons.prems assms(3,4) by auto
    then show ?thesis
      using Cons.IH [of kept "out @ bs" st'] Cons.prems Literal by auto
  next
    case (Block i)
    let ?kept = "if int (length out) = i * s_blength sm then insert i kept else kept"
    obtain st' where st': "recv_step cfg wok sm (Some F) st (- (i + 1)) [] = Inr st'"
      "recv_inv cfg sm F D ?kept (out @ basis_block sm F i) st'"
      using recv_step_block [OF Cons.prems(1), of i wok] Cons.prems(2) Block assms(3,4) by auto
    have "items_ok (rc_same_file cfg) sm F (int (length (out @ basis_block sm F i))) ?kept its"
      using Cons.prems(2) Block by (simp add: basis_block_def)
    from Cons.IH [OF st'(2) this] show ?thesis
      using st'(1) Block Cons.prems(3) by auto
  qed
qed


text \<open>
  The whole function on a stream that holds a good header, items that apply to the basis
  file, the end token and a checksum: the data written is what the items stand for, and the
  verdict compares the checksum of exactly that data with the one received.
\<close>

lemma receive_data_spec:
  assumes head: "read_sum_head (rc_protocol_version cfg) (rc_csum_length cfg) null_sum s = Inr (sm, s1)"
    and its: "recv_items 0 s1 = Inr (its, file_sum @ rest)"
    and ok: "items_ok (rc_same_file cfg) sm F 0 {} its"
    and upd: "rc_updating cfg \<longrightarrow> dst = F" "rc_same_file cfg \<longrightarrow> rc_updating cfg"
    and empty: "F = [] \<longrightarrow> (\<forall>i. Block i \<notin> set its)"
    and cfg: "rc_fd_open cfg" "rc_append_mode cfg = 0" and wok: "\<And>off d. wok off d"
    and data: "data = items_bytes (basis_block sm F) its"
    and len: "length file_sum = length (fsum data)"
  shows "receive_data cfg wok sk fsum (Some F) dst s =
    Inr (file_sum = fsum data,
         data @ (if rc_inplace_sizing cfg then [] else drop (length data) dst), rest)"
proof -
  let ?mb = "if 0 < int (length F) then Some F else None"
  let ?st = "\<lparr>r_offset = 0, r_dst = dst, r_summed = []\<rparr>"
  have "recv_inv cfg sm F dst {} [] ?st"
    using upd by (simp add: recv_inv_def)
  then obtain st' kept' where st': "recv_steps cfg wok sm ?mb ?st its = Inr st'"
    "recv_inv cfg sm F dst kept' data st'"
    using recv_steps_spec [of cfg sm F dst "{}" "[]" ?st its wok ?mb] ok cfg wok empty data by auto
  have "receive_loop cfg wok sm ?mb ?st 0 s1 = Inr (st', file_sum @ rest)"
    using receive_loop_items [OF its] st'(1) by simp
  moreover have "read_buf (length (fsum data)) (file_sum @ rest) = Inr (file_sum, rest)"
    using len by (simp add: read_buf_def)
  ultimately show ?thesis
    using st'(2) cfg head
    by (auto simp: receive_data_def recv_inv_def Let_def cong: if_cong)
qed

end
