(* ===== verification/Match.thy ===== *)
theory Match
  imports Receiver
begin

text \<open>
  The sender's block search, match.c. A search keeps a hash table over the block sums received
  from the generator and slides a window along the file; every call of send_token is recorded
  in \<open>m_calls\<close> as (token, offset, length), every byte given to sum_update in
  \<open>m_summed\<close>. The strong checksum get_checksum2 is the parameter \<open>csum2\<close>, the
  whole-file checksum the parameter \<open>fsum\<close>; map_ptr is read as the bytes it returns.
  A loop that runs out of fuel, or that never ends, is \<open>None\<close>.
\<close>

section \<open>The hash table\<close>

definition TRADITIONAL_TABLESIZE :: uint32 where
  "TRADITIONAL_TABLESIZE = push_bit 16 1"

definition SUM2HASH2 :: "uint32 \<Rightarrow> uint32 \<Rightarrow> uint32" where
  "SUM2HASH2 s1 s2 = (s1 + s2) AND 0xFFFF"

definition SUM2HASH :: "uint32 \<Rightarrow> uint32" where
  "SUM2HASH sm = SUM2HASH2 (sm AND 0xFFFF) (drop_bit 16 sm)"

definition BIG_SUM2HASH :: "uint32 \<Rightarrow> uint32 \<Rightarrow> uint32" where
  "BIG_SUM2HASH tablesize sm = sm mod tablesize"

definition hash_tablesize :: "int \<Rightarrow> uint32" where
  "hash_tablesize count =
     (let tablesize = word_of_int (count div 8) * 10 + 11
      in if tablesize < TRADITIONAL_TABLESIZE then TRADITIONAL_TABLESIZE else tablesize)"

definition sum_hash :: "uint32 \<Rightarrow> uint32 \<Rightarrow> uint32" where
  "sum_hash tablesize sm =
     (if tablesize = TRADITIONAL_TABLESIZE then SUM2HASH sm else BIG_SUM2HASH tablesize sm)"

definition build_step :: "uint32 \<Rightarrow> sum_buf list \<times> (uint32 \<Rightarrow> int) \<Rightarrow> nat \<Rightarrow> sum_buf list \<times> (uint32 \<Rightarrow> int)" where
  "build_step tablesize = (\<lambda>(sums, hash_table) i.
     let t = sum_hash tablesize (sb_sum1 (sums ! i))
     in (sums[i := (sums ! i)\<lparr>sb_chain := hash_table t\<rparr>], hash_table(t := int i)))"

definition build_hash_table :: "sum_struct \<Rightarrow> sum_buf list \<times> (uint32 \<Rightarrow> int) \<times> uint32" where
  "build_hash_table s =
     (let tablesize = hash_tablesize (s_count s);
          (sums, hash_table) = foldl (build_step tablesize) (s_sums s, \<lambda>_. -1) [0..<nat (s_count s)]
      in (sums, hash_table, tablesize))"

section \<open>Sending what was matched\<close>

record match_state =
  m_last_match :: int
  m_calls :: "(int \<times> int \<times> int) list"
  m_summed :: "byte list"
  m_data_transfer :: int
  m_matched_data :: int
  m_false_alarms :: int
  m_hash_hits :: int
  m_matches :: int

text \<open>A conversion to int32.\<close>

definition cast32 :: "int \<Rightarrow> int" where
  "cast32 x = sint (word_of_int x :: int32)"

function sum_chunks :: "byte list \<Rightarrow> int \<Rightarrow> int \<Rightarrow> int \<Rightarrow> byte list" where
  "sum_chunks src base n j =
     (if j < n then file_bytes src (base + j) (min CHUNK_SIZE (n - j)) @ sum_chunks src base n (j + CHUNK_SIZE)
      else [])"
  by pat_completeness auto
termination
  by (relation "measure (\<lambda>(src, base, n, j). nat (n - j))") (auto simp: CHUNK_SIZE_def)

declare sum_chunks.simps [simp del]

definition matched :: "byte list \<Rightarrow> sum_buf list \<Rightarrow> int \<Rightarrow> int \<Rightarrow> 'a match_state_scheme \<Rightarrow> 'a match_state_scheme" where
  "matched src sums offset i st =
     (let last_match = m_last_match st;
          n = cast32 (offset - last_match);
          len = (if i \<ge> 0 then sb_len (sums ! nat i) else 0)
      in st\<lparr>m_calls := m_calls st @ [(i, last_match, n)],
            m_data_transfer := m_data_transfer st + n,
            m_matched_data := m_matched_data st + len,
            m_summed := m_summed st @ sum_chunks src last_match (n + len) 0,
            m_last_match := offset + len\<rparr>)"

section \<open>The search\<close>

record search_state = match_state +
  h_sums :: "sum_buf list"
  h_table :: "uint32 \<Rightarrow> int"
  h_offset :: int
  h_k :: int
  h_s1 :: uint32
  h_s2 :: uint32
  h_want_i :: int
  h_aligned_offset :: int
  h_aligned_i :: int

text \<open>What does not change during a search.\<close>

record search_cfg =
  c_updating :: bool                       \<comment> \<open>updating_basis_file\<close>
  c_csum2 :: "byte list \<Rightarrow> byte list"
  c_sum :: sum_struct
  c_src :: "byte list"
  c_len :: int
  c_tablesize :: uint32

definition sum2_eq :: "sum_struct \<Rightarrow> byte list \<Rightarrow> byte list \<Rightarrow> bool" where
  "sum2_eq s a b \<longleftrightarrow> take (nat (s_s2length s)) a = take (nat (s_s2length s)) b"

text \<open>\<open>while (aligned_offset < offset)\<close>; with no block length it never ends.\<close>

function align_up :: "int \<Rightarrow> int \<Rightarrow> int \<Rightarrow> int \<Rightarrow> (int \<times> int) option" where
  "align_up blength offset aligned_offset aligned_i =
     (if aligned_offset < offset then
        if blength \<le> 0 then None
        else align_up blength offset (aligned_offset + blength) (aligned_i + 1)
      else Some (aligned_offset, aligned_i))"
  by pat_completeness auto
termination
  by (relation "measure (\<lambda>(blength, offset, aligned_offset, aligned_i). nat (offset - aligned_offset))") auto

declare align_up.simps [simp del]

definition mark_same_offset :: "int \<Rightarrow> search_state \<Rightarrow> search_state" where
  "mark_same_offset i st =
     st\<lparr>h_sums := (h_sums st)[nat i := (h_sums st ! nat i)\<lparr>sb_same_offset := True\<rparr>], h_want_i := i\<rparr>"

text \<open>
  A block \<open>i\<close> has matched the window; when updating in place, prefer the block at the
  same offset, or skip ahead to it over zeros. The result is what \<open>i\<close>, \<open>sum\<close>
  and \<open>sum2\<close> hold at the label check_want_i.
\<close>

definition realign :: "search_cfg \<Rightarrow> search_state \<Rightarrow> int \<Rightarrow> uint32 \<Rightarrow> byte list \<Rightarrow> int \<Rightarrow>
    (int \<times> uint32 \<times> byte list \<times> search_state) option" where
  "realign c st i sm sum2 l =
     (let s = c_sum c; sums = h_sums st; offset = h_offset st in
      if \<not> c_updating c then Some (i, sm, sum2, st)
      else case align_up (s_blength s) offset (h_aligned_offset st) (h_aligned_i st) of
          None \<Rightarrow> None
        | Some (aligned_offset, aligned_i) \<Rightarrow>
            let st = st\<lparr>h_aligned_offset := aligned_offset, h_aligned_i := aligned_i\<rparr>;
                b = sums ! nat aligned_i in
            if (offset = aligned_offset \<or> (sm = 0 \<and> l = s_blength s \<and> aligned_offset + l \<le> c_len c))
               \<and> aligned_i < s_count s
            then
              if i \<noteq> aligned_i \<and> (sm \<noteq> sb_sum1 b \<or> l \<noteq> sb_len b \<or> \<not> sum2_eq s sum2 (sb_sum2 b))
              then Some (i, sm, sum2, st)
              else if offset \<noteq> aligned_offset then
                let map = file_bytes (c_src c) aligned_offset l;
                    sm = get_checksum1 map in
                if sm \<noteq> sb_sum1 b then Some (aligned_i, sm, sum2, st)
                else
                  let sum2 = c_csum2 c map in
                  if \<not> sum2_eq s sum2 (sb_sum2 b) then Some (aligned_i, sm, sum2, st)
                  else Some (aligned_i, sm, sum2, mark_same_offset aligned_i (st\<lparr>h_offset := aligned_offset\<rparr>))
              else Some (aligned_i, sm, sum2, mark_same_offset aligned_i st)
            else Some (i, sm, sum2, st))"

definition choose_want :: "search_cfg \<Rightarrow> search_state \<Rightarrow> int \<Rightarrow> uint32 \<Rightarrow> byte list \<Rightarrow> int" where
  "choose_want c st i sm sum2 =
     (let want_i = h_want_i st; w = h_sums st ! nat want_i in
      if i \<noteq> want_i \<and> want_i < s_count (c_sum c)
         \<and> (\<not> c_updating c \<or> sb_offset w \<ge> h_offset st \<or> sb_same_offset w)
         \<and> sm = sb_sum1 w \<and> sum2_eq (c_sum c) sum2 (sb_sum2 w)
      then want_i else i)"

definition reset_window :: "search_cfg \<Rightarrow> int \<Rightarrow> search_state \<Rightarrow> search_state" where
  "reset_window c offset st =
     (let k = min (s_blength (c_sum c)) (c_len c - offset);
          sm = get_checksum1 (file_bytes (c_src c) offset k)
      in st\<lparr>h_offset := offset, h_k := k, h_s1 := sm AND 0xFFFF, h_s2 := drop_bit 16 sm\<rparr>)"

definition take_match :: "search_cfg \<Rightarrow> search_state \<Rightarrow> int \<Rightarrow> uint32 \<Rightarrow> byte list \<Rightarrow> int \<Rightarrow> search_state option" where
  "take_match c st i sm sum2 l =
     (case realign c st i sm sum2 l of
        None \<Rightarrow> None
      | Some (i, sm, sum2, st) \<Rightarrow>
          let i = choose_want c st i sm sum2;
              st = matched (c_src c) (h_sums st) (h_offset st) i (st\<lparr>h_want_i := i + 1\<rparr>);
              st = reset_window c (h_offset st + sb_len (h_sums st ! nat i) - 1) st
          in Some (st\<lparr>m_matches := m_matches st + 1\<rparr>))"

text \<open>The pointer prev: the head of a chain, or the chain field of a block.\<close>

datatype prev = PrevHash uint32 | PrevChain int

fun set_prev :: "prev \<Rightarrow> int \<Rightarrow> search_state \<Rightarrow> search_state" where
  "set_prev (PrevHash t) v st = st\<lparr>h_table := (h_table st)(t := v)\<rparr>"
| "set_prev (PrevChain j) v st =
     st\<lparr>h_sums := (h_sums st)[nat j := (h_sums st ! nat j)\<lparr>sb_chain := v\<rparr>]\<rparr>"

text \<open>The inner loop. \<open>csum\<close> is sum2 once done_csum2 is set.\<close>

fun chain_loop :: "search_cfg \<Rightarrow> uint32 \<Rightarrow> nat \<Rightarrow> prev \<Rightarrow> int \<Rightarrow> byte list option \<Rightarrow> search_state \<Rightarrow>
    search_state option" where
  "chain_loop c sm 0 prev i csum st = None"
| "chain_loop c sm (Suc fuel) prev i csum st =
     (let s = c_sum c; b = h_sums st ! nat i;
          next = (\<lambda>prev csum st. let i = sb_chain (h_sums st ! nat i) in
                    if i \<ge> 0 then chain_loop c sm fuel prev i csum st else Some st) in
      if c_updating c \<and> sb_offset b < h_offset st \<and> \<not> sb_same_offset b
      then next prev csum (set_prev prev (sb_chain b) st)
      else if sm \<noteq> sb_sum1 b then next (PrevChain i) csum st
      else
        let l = min (s_blength s) (c_len c - h_offset st) in
        if l \<noteq> sb_len b then next (PrevChain i) csum st
        else
          let sum2 = (case csum of None \<Rightarrow> c_csum2 c (file_bytes (c_src c) (h_offset st) l) | Some v \<Rightarrow> v) in
          if \<not> sum2_eq s sum2 (sb_sum2 b)
          then next (PrevChain i) (Some sum2) (st\<lparr>m_false_alarms := m_false_alarms st + 1\<rparr>)
          else take_match c st i sm sum2 l)"

text \<open>The end of one turn of the outer loop, from the label null_hash.\<close>

definition slide :: "search_cfg \<Rightarrow> int \<Rightarrow> search_state \<Rightarrow> search_state" where
  "slide c end st =
     (let s = c_sum c; src = c_src c; offset = h_offset st; k = h_k st;
          backup = (let b = cast32 (offset - m_last_match st) in if b < 0 then 0 else b);
          more = offset + k < c_len c;
          (s1, s2) = roll_drop k (file_byte src offset) (h_s1 st, h_s2 st);
          (s1, s2, k) = (if more then case roll_add (file_byte src (offset + k)) (s1, s2) of (s1, s2) \<Rightarrow> (s1, s2, k)
                         else (s1, s2, k - 1));
          st = st\<lparr>h_s1 := s1, h_s2 := s2, h_k := k\<rparr>;
          st = (if backup \<ge> s_blength s + CHUNK_SIZE \<and> end - offset > CHUNK_SIZE
                then matched src (h_sums st) (offset - s_blength s) (-2) st else st)
      in st\<lparr>h_offset := offset + 1\<rparr>)"

definition search_step :: "search_cfg \<Rightarrow> int \<Rightarrow> search_state \<Rightarrow> search_state option" where
  "search_step c end st =
     (let sm = (h_s1 st AND 0xFFFF) OR push_bit 16 (h_s2 st);
          hash_entry = (if c_tablesize c = TRADITIONAL_TABLESIZE then SUM2HASH2 (h_s1 st) (h_s2 st)
                        else BIG_SUM2HASH (c_tablesize c) sm);
          i = h_table st hash_entry in
      if i < 0 then Some (slide c end st)
      else map_option (slide c end)
        (chain_loop c sm (nat (s_count (c_sum c))) (PrevHash hash_entry) i None
           (st\<lparr>m_hash_hits := m_hash_hits st + 1\<rparr>)))"

fun search_loop :: "search_cfg \<Rightarrow> int \<Rightarrow> nat \<Rightarrow> search_state \<Rightarrow> search_state option" where
  "search_loop c end 0 st = None"
| "search_loop c end (Suc fuel) st =
     (case search_step c end st of
        None \<Rightarrow> None
      | Some st \<Rightarrow> if h_offset st < end then search_loop c end fuel st else Some st)"

definition hash_search :: "search_cfg \<Rightarrow> sum_buf list \<Rightarrow> (uint32 \<Rightarrow> int) \<Rightarrow> match_state \<Rightarrow> match_state option" where
  "hash_search c sums hash_table ms =
     (let s = c_sum c; len = c_len c;
          st = match_state.extend ms (search_state.fields sums hash_table 0 0 0 0 0 0 0);
          st = reset_window c 0 st;
          end = len + 1 - sb_len (sums ! nat (s_count s - 1))
      in map_option (\<lambda>st. match_state.truncate (matched (c_src c) (h_sums st) len (-1) st))
           (search_loop c end (nat len + 1) st))"

section \<open>match_sums\<close>

text \<open>Sending a file without block matches, in pieces.\<close>

function literal_loop :: "byte list \<Rightarrow> int \<Rightarrow> int \<Rightarrow> match_state \<Rightarrow> match_state" where
  "literal_loop src len j st =
     (if j < len then literal_loop src len (j + CHUNK_SIZE) (matched src [] j (-2) st) else st)"
  by pat_completeness auto
termination
  by (relation "measure (\<lambda>(src, len, j, st). nat (len - j))") (auto simp: CHUNK_SIZE_def)

declare literal_loop.simps [simp del]

definition send_file_sum :: "int \<Rightarrow> byte list \<Rightarrow> byte list" where
  "send_file_sum status file_sum =
     (if status \<noteq> 0 then
        (let bad = replicate (length file_sum) 0 in
         if list_all (\<lambda>b. b = 0) file_sum then bad[length file_sum - 1 := 1] else bad)
      else file_sum)"

definition match_sums :: "bool \<Rightarrow> (byte list \<Rightarrow> byte list) \<Rightarrow> (byte list \<Rightarrow> byte list) \<Rightarrow> int \<Rightarrow> int \<Rightarrow>
    sum_struct \<Rightarrow> byte list \<Rightarrow> int \<Rightarrow> (match_state \<times> byte list) option" where
  "match_sums updating csum2 fsum append_mode status s src len =
     (let st = \<lparr>m_last_match = 0, m_calls = [], m_summed = [], m_data_transfer = 0, m_matched_data = 0,
                m_false_alarms = 0, m_hash_hits = 0, m_matches = 0\<rparr>;
          (st, s) = (if append_mode > 0 then
                       (st\<lparr>m_summed := (if append_mode = 2 then append_chunks src (s_flength s) 0 CHUNK_SIZE else []),
                           m_last_match := s_flength s\<rparr>, s\<lparr>s_count := 0\<rparr>)
                     else (st, s));
          st = (if len > 0 \<and> s_count s > 0 then
                  (case build_hash_table s of (sums, hash_table, tablesize) \<Rightarrow>
                     hash_search \<lparr>c_updating = updating, c_csum2 = csum2, c_sum = s, c_src = src, c_len = len,
                                  c_tablesize = tablesize\<rparr> sums hash_table st)
                else Some (matched src [] len (-1) (literal_loop src len (m_last_match st + CHUNK_SIZE) st)))
      in map_option (\<lambda>st. (st, send_file_sum status (fsum (m_summed st)))) st)"

end
