(* ===== verification/Match_Correct.thy ===== *)
theory Match_Correct
  imports Match
begin

text \<open>
  The search of match.c is correct: it ends, what it sends stands for the source file, the
  checksum is fed the source file, the table accesses are in range and the narrowing
  conversions to int32 lose nothing. When updating in place, no block is used after it has
  been overwritten.
\<close>

section \<open>Conversions and pieces\<close>

lemma cast32_id: "- (2 ^ 31) \<le> x \<Longrightarrow> x < 2 ^ 31 \<Longrightarrow> cast32 x = x"
  unfolding cast32_def by (subst sint_sbintrunc') (simp add: signed_take_bit_int_eq_self)

lemma sum_chunks_bytes: "0 \<le> j \<Longrightarrow> sum_chunks src base n j = file_bytes src (base + j) (n - j)"
proof (induction src base n j rule: sum_chunks.induct)
  case (1 src base n j)
  show ?case
  proof (cases "j < n")
    case True
    define n1 where "n1 = min CHUNK_SIZE (n - j)"
    have n1: "0 < n1" "n1 \<le> n - j" using True by (auto simp: n1_def CHUNK_SIZE_def)
    have c: "0 < CHUNK_SIZE" by (simp add: CHUNK_SIZE_def)
    have "sum_chunks src base n j = file_bytes src (base + j) n1 @ file_bytes src (base + (j + CHUNK_SIZE)) (n - (j + CHUNK_SIZE))"
      using "1.IH" [OF True] "1.prems" True c by (simp add: sum_chunks.simps [of src base n j] n1_def)
    also have "file_bytes src (base + (j + CHUNK_SIZE)) (n - (j + CHUNK_SIZE)) = file_bytes src (base + j + n1) (n - j - n1)"
      by (cases "CHUNK_SIZE \<le> n - j") (auto simp: n1_def min_def algebra_simps file_bytes_def)
    finally show ?thesis
      using n1 file_bytes_append [of n1 "n - j - n1" src "base + j"] by simp
  next
    case False
    then show ?thesis by (simp add: sum_chunks.simps [of src base n j] file_bytes_def)
  qed
qed

lemma take_file_bytes:
  assumes "0 \<le> a" and "0 \<le> n" and "a + n \<le> int (length F)"
  shows "take (nat a) F @ file_bytes F a n = take (nat (a + n)) F"
  using assms by (simp add: file_bytes_slice nat_add_distrib take_add)

section \<open>The hash table\<close>

lemma TRADITIONAL_TABLESIZE_eq: "TRADITIONAL_TABLESIZE = 65536"
  by (simp add: TRADITIONAL_TABLESIZE_def push_bit_eq_mult)

lemma hash_tablesize_pos: "0 < hash_tablesize count"
proof (cases "word_of_int (count div 8) * 10 + 11 < TRADITIONAL_TABLESIZE")
  case True
  then show ?thesis by (simp add: hash_tablesize_def Let_def TRADITIONAL_TABLESIZE_eq)
next
  case False
  then have "TRADITIONAL_TABLESIZE \<le> word_of_int (count div 8) * 10 + 11" by (simp add: not_less)
  moreover have "0 < TRADITIONAL_TABLESIZE" by (simp add: TRADITIONAL_TABLESIZE_eq)
  ultimately show ?thesis
    using False unfolding hash_tablesize_def Let_def by (auto intro: order.strict_trans2)
qed

lemma and_0xFFFF_low16: "x AND 0xFFFF = (ucast (low16 x) :: uint32)"
  by (rule bit_word_eqI) (auto simp: and_0xFFFF bit_simps bit_low16)

lemma SUM2HASH2_low16: "SUM2HASH2 s1 s2 = ucast (low16 s1 + low16 s2)"
  by (simp add: SUM2HASH2_def and_0xFFFF_low16 low16_add)

lemma SUM2HASH2_range: "SUM2HASH2 s1 s2 < TRADITIONAL_TABLESIZE"
proof -
  have "unat (low16 s1 + low16 s2) < 65536"
    using unsigned_less [of "low16 s1 + low16 s2"] by simp
  then have "unat (SUM2HASH2 s1 s2) < unat (65536 :: uint32)"
    by (simp add: SUM2HASH2_low16 unsigned_ucast_eq take_bit_nat_eq_self)
  then show ?thesis unfolding TRADITIONAL_TABLESIZE_eq by (simp add: word_less_nat_alt)
qed

lemma sum_hash_range: "sum_hash (hash_tablesize count) sm < hash_tablesize count"
  using hash_tablesize_pos [of count] SUM2HASH2_range
  by (auto simp: sum_hash_def SUM2HASH_def BIG_SUM2HASH_def word_mod_less_divisor)

text \<open>The entry looked up for a window is the one its checksum was stored under.\<close>

lemma SUM2HASH_checksum1_of: "SUM2HASH (checksum1_of s1 s2) = SUM2HASH2 s1 s2"
  by (simp add: SUM2HASH_def SUM2HASH2_low16 low16_checksum1_of)

text \<open>
  Chains: every table entry is -1 or a block, the successor of a block is an earlier block
  or -1.
\<close>

definition chains_ok :: "sum_buf list \<Rightarrow> (uint32 \<Rightarrow> int) \<Rightarrow> bool" where
  "chains_ok sums tbl \<longleftrightarrow> (\<forall>t. tbl t < int (length sums)) \<and> (\<forall>i<length sums. sb_chain (sums ! i) < int i)"

text \<open>What the search never changes of a block.\<close>

definition fixed_part :: "sum_buf \<Rightarrow> int \<times> int \<times> uint32 \<times> byte list" where
  "fixed_part b = (sb_offset b, sb_len b, sb_sum1 b, sb_sum2 b)"

lemma map_update_same: "f v = f (xs ! i) \<Longrightarrow> map f (xs[i := v]) = map f xs"
  by (metis list_update_id map_update)

lemma fixed_part_update [simp]:
  "map fixed_part (sums[i := (sums ! i)\<lparr>sb_chain := v\<rparr>]) = map fixed_part sums"
  "map fixed_part (sums[i := (sums ! i)\<lparr>sb_same_offset := f\<rparr>]) = map fixed_part sums"
  by (rule map_update_same; simp add: fixed_part_def)+

lemma build_fold:
  assumes "n \<le> length sums" and "foldl (build_step ts) (sums, \<lambda>_. -1) [0..<n] = (sums', tbl)"
  shows "map fixed_part sums' = map fixed_part sums \<and> (\<forall>t. tbl t < int n) \<and>
    (\<forall>i<n. sb_chain (sums' ! i) < int i) \<and> (\<forall>i<length sums. sb_same_offset (sums' ! i) = sb_same_offset (sums ! i))"
  using assms
proof (induction n arbitrary: sums' tbl)
  case 0
  then show ?case by auto
next
  case (Suc n)
  obtain sums1 tbl1 where f: "foldl (build_step ts) (sums, \<lambda>_. -1) [0..<n] = (sums1, tbl1)"
    by (cases "foldl (build_step ts) (sums, \<lambda>_. -1) [0..<n]")
  note IH = Suc.IH [OF _ f]
  have len: "length sums1 = length sums"
    using IH Suc.prems(1) by (metis Suc_leD length_map)
  define t where "t = sum_hash ts (sb_sum1 (sums1 ! n))"
  have new: "sums' = sums1[n := (sums1 ! n)\<lparr>sb_chain := tbl1 t\<rparr>]" "tbl = tbl1(t := int n)"
    using Suc.prems(2) f by (auto simp: build_step_def t_def Let_def)
  have "tbl1 t < int n + 1" for t
    using IH Suc.prems(1) by (meson Suc_leD less_trans zless_add1_eq)
  then show ?case
    unfolding new using IH Suc.prems(1) len
    by (auto simp: nth_list_update less_Suc_eq add.commute)
qed

lemma build_hash_table_ok:
  assumes "build_hash_table s = (sums, tbl, ts)" and "s_count s = int (length (s_sums s))"
  shows "chains_ok sums tbl" "map fixed_part sums = map fixed_part (s_sums s)"
    "ts = hash_tablesize (s_count s)"
    "\<And>i. i < length (s_sums s) \<Longrightarrow> sb_same_offset (sums ! i) = sb_same_offset (s_sums s ! i)"
proof -
  obtain sums' tbl' where f: "foldl (build_step (hash_tablesize (s_count s))) (s_sums s, \<lambda>_. -1) [0..<length (s_sums s)] = (sums', tbl')"
    by (cases "foldl (build_step (hash_tablesize (s_count s))) (s_sums s, \<lambda>_. -1) [0..<length (s_sums s)]")
  have e: "sums = sums'" "tbl = tbl'" and ts: "ts = hash_tablesize (s_count s)"
    using assms f by (auto simp: build_hash_table_def Let_def)
  note B = build_fold [OF le_refl f]
  have "length sums' = length (s_sums s)" using B by (metis length_map)
  then show "chains_ok sums tbl" "map fixed_part sums = map fixed_part (s_sums s)" "ts = hash_tablesize (s_count s)"
    "\<And>i. i < length (s_sums s) \<Longrightarrow> sb_same_offset (sums ! i) = sb_same_offset (s_sums s ! i)"
    using B ts unfolding e chains_ok_def by auto
qed

section \<open>What has been sent\<close>

definition sent_items :: "byte list \<Rightarrow> (int \<times> int \<times> int) list \<Rightarrow> item list" where
  "sent_items src calls = concat (map (\<lambda>(i, offset, n). token_items src i offset n) calls)"

lemma sent_items_simps [simp]:
  "sent_items src [] = []"
  "sent_items src (cs @ [(i, offset, n)]) = sent_items src cs @ token_items src i offset n"
  by (simp_all add: sent_items_def)

text \<open>The blocks left in place by the receiver after a list of items.\<close>

fun kept_after :: "sum_struct \<Rightarrow> int \<Rightarrow> int set \<Rightarrow> item list \<Rightarrow> int set" where
  "kept_after s off kept [] = kept"
| "kept_after s off kept (Literal bs # its) = kept_after s (off + int (length bs)) kept its"
| "kept_after s off kept (Block i # its) =
     kept_after s (off + block_len s i) (if off = i * s_blength s then insert i kept else kept) its"

lemma items_ok_append:
  "items_ok same s F off kept (xs @ ys) \<longleftrightarrow> items_ok same s F off kept xs \<and>
     items_ok same s F (off + int (length (items_bytes (basis_block s F) xs))) (kept_after s off kept xs) ys"
  by (induction same s F off kept xs rule: items_ok.induct)
    (auto simp: basis_block_def algebra_simps)

lemma kept_after_append:
  "items_ok same s F off kept xs \<Longrightarrow> kept_after s off kept (xs @ ys) =
     kept_after s (off + int (length (items_bytes (basis_block s F) xs))) (kept_after s off kept xs) ys"
  by (induction same s F off kept xs rule: items_ok.induct)
    (auto simp: basis_block_def algebra_simps)

lemma literal_items_ok:
  "items_ok same s F off kept (literal_items src offset n len) \<and>
   kept_after s off kept (literal_items src offset n len) = kept"
proof (induction src offset n len arbitrary: off rule: literal_items.induct)
  case (1 src offset n len)
  show ?case
  proof (cases "len < n")
    case True
    define n1 where "n1 = min CHUNK_SIZE (n - len)"
    have n1: "0 < n1" using True by (auto simp: n1_def CHUNK_SIZE_def)
    then have "file_bytes src (offset + len) n1 \<noteq> []"
      using length_file_bytes [of src "offset + len" n1] by (metis length_0_conv nat_eq_iff2 not_le order_less_irrefl zero_less_nat_eq)
    then show ?thesis
      using "1.IH" [OF True n1_def] True
      by (simp add: literal_items.simps [of src offset n len] n1_def [symmetric] Let_def)
  next
    case False
    then show ?thesis by (simp add: literal_items.simps [of src offset n len])
  qed
qed

section \<open>The setting of a search\<close>

text \<open>The sums are those of the blocks of the basis file \<open>F\<close>.\<close>

definition sums_ok :: "sum_struct \<Rightarrow> byte list \<Rightarrow> (byte list \<Rightarrow> byte list) \<Rightarrow> bool" where
  "sums_ok s F csum2 \<longleftrightarrow>
     0 < s_blength s \<and> s_blength s \<le> OLD_MAX_BLOCK_SIZE \<and> s_sums s \<noteq> [] \<and>
     s_count s = int (length (s_sums s)) \<and> s_count s < 2 ^ 31 \<and>
     (\<forall>i<length (s_sums s). let b = s_sums s ! i in
        sb_offset b = int i * s_blength s \<and> sb_len b = block_len s (int i) \<and>
        0 < sb_len b \<and> sb_len b \<le> s_blength s \<and> sb_offset b + sb_len b \<le> int (length F) \<and>
        sb_sum1 b = get_checksum1 (basis_block s F (int i)) \<and>
        sum2_eq s (sb_sum2 b) (csum2 (basis_block s F (int i))))"

text \<open>
  No piece of the source file has the checksums of a block without being that block. When
  updating in place, the strong checksum alone has to tell them apart, and all windows of
  weak checksum 0 are alike (the code takes them for zeros).
\<close>

definition collision_free :: "bool \<Rightarrow> sum_struct \<Rightarrow> byte list \<Rightarrow> (byte list \<Rightarrow> byte list) \<Rightarrow> byte list \<Rightarrow> bool" where
  "collision_free updating s F csum2 src \<longleftrightarrow>
     (\<forall>i<length (s_sums s). \<forall>off l. 0 \<le> off \<and> 0 < l \<and> off + l \<le> int (length src) \<and>
        sum2_eq s (csum2 (file_bytes src off l)) (csum2 (basis_block s F (int i))) \<and>
        (updating \<or> get_checksum1 (file_bytes src off l) = get_checksum1 (basis_block s F (int i))) \<longrightarrow>
        file_bytes src off l = basis_block s F (int i))"

definition zero_windows_alike :: "sum_struct \<Rightarrow> byte list \<Rightarrow> bool" where
  "zero_windows_alike s src \<longleftrightarrow>
     (\<forall>a b. 0 \<le> a \<and> a + s_blength s \<le> int (length src) \<and> 0 \<le> b \<and> b + s_blength s \<le> int (length src) \<and>
        get_checksum1 (file_bytes src a (s_blength s)) = 0 \<and> get_checksum1 (file_bytes src b (s_blength s)) = 0 \<longrightarrow>
        file_bytes src a (s_blength s) = file_bytes src b (s_blength s))"

definition search_ok :: "search_cfg \<Rightarrow> byte list \<Rightarrow> bool" where
  "search_ok c F \<longleftrightarrow>
     sums_ok (c_sum c) F (c_csum2 c) \<and> c_len c = int (length (c_src c)) \<and> 0 < c_len c \<and>
     collision_free (c_updating c) (c_sum c) F (c_csum2 c) (c_src c) \<and>
     (c_updating c \<longrightarrow> zero_windows_alike (c_sum c) (c_src c))"

text \<open>The invariant of the output: \<open>marks\<close> are blocks known to be left in place.\<close>

definition out_inv :: "search_cfg \<Rightarrow> byte list \<Rightarrow> int set \<Rightarrow> 'a match_state_scheme \<Rightarrow> bool" where
  "out_inv c F marks st \<longleftrightarrow>
     (let its = sent_items (c_src c) (m_calls st); sent = take (nat (m_last_match st)) (c_src c) in
      0 \<le> m_last_match st \<and> m_last_match st \<le> int (length (c_src c)) \<and>
      items_bytes (basis_block (c_sum c) F) its = sent \<and> m_summed st = sent \<and>
      items_ok (c_updating c) (c_sum c) F 0 {} its \<and> marks \<subseteq> kept_after (c_sum c) 0 {} its \<and>
      list_all (\<lambda>(i, _, _). i = -2 \<or> 0 \<le> i \<and> i < s_count (c_sum c)) (m_calls st))"

lemma out_inv_literal:
  assumes inv: "out_inv c F marks st"
    and o: "m_last_match st \<le> offset" "offset \<le> int (length (c_src c))" "offset - m_last_match st < 2 ^ 31"
  shows "out_inv c F marks (matched (c_src c) sums offset (-2) st)"
proof -
  let ?n = "offset - m_last_match st"
  have n: "cast32 ?n = ?n" using o by (simp add: cast32_id)
  have "take (nat (m_last_match st)) (c_src c) @ file_bytes (c_src c) (m_last_match st) ?n = take (nat offset) (c_src c)"
    using take_file_bytes [of "m_last_match st" ?n "c_src c"] inv o by (simp add: out_inv_def Let_def)
  moreover have "token_items src (-2) a n = (if n > 0 then literal_items src a n 0 else [])" for src a n
    by (simp add: token_items_def)
  ultimately show ?thesis
    using inv o n literal_items_ok
    by (auto simp: out_inv_def matched_def Let_def literal_items_bytes sum_chunks_bytes items_ok_append kept_after_append)
qed

lemma out_inv_block:
  assumes inv: "out_inv c F marks st"
    and o: "m_last_match st \<le> offset" "offset - m_last_match st < 2 ^ 31"
    and i: "0 \<le> i" "i < s_count (c_sum c)" and bl: "0 \<le> s_blength (c_sum c)"
    and len: "len = sb_len (sums ! nat i)" "len = block_len (c_sum c) i" "0 \<le> len"
    and fit: "offset + len \<le> int (length (c_src c))" "i * s_blength (c_sum c) + len \<le> int (length F)"
    and data: "file_bytes (c_src c) offset len = basis_block (c_sum c) F i"
    and here: "c_updating c \<longrightarrow> offset \<le> i * s_blength (c_sum c) \<or> i \<in> marks"
  shows "out_inv c F (if offset = i * s_blength (c_sum c) then insert i marks else marks)
    (matched (c_src c) sums offset i st)"
proof -
  let ?s = "c_sum c" and ?src = "c_src c"
  let ?n = "offset - m_last_match st" and ?its = "sent_items (c_src c) (m_calls st)"
  have last: "0 \<le> m_last_match st" using inv by (simp add: out_inv_def Let_def)
  have n: "cast32 ?n = ?n" using o by (simp add: cast32_id)
  let ?lits = "if ?n > 0 then literal_items ?src (m_last_match st) ?n 0 else []"
  have tok: "token_items ?src i (m_last_match st) ?n = ?lits @ [Block i]"
    using i by (simp add: token_items_def)
  have t1: "take (nat (m_last_match st)) ?src @ file_bytes ?src (m_last_match st) ?n = take (nat offset) ?src"
    using take_file_bytes [of "m_last_match st" ?n ?src] last o fit len by simp
  have t2: "take (nat offset) ?src @ file_bytes ?src offset len = take (nat (offset + len)) ?src"
    using take_file_bytes [of offset len ?src] last o fit len by simp
  have t3: "take (nat (m_last_match st)) ?src @ file_bytes ?src (m_last_match st) (?n + len) = take (nat (offset + len)) ?src"
    using take_file_bytes [of "m_last_match st" "?n + len" ?src] last o fit len by simp
  have bytes: "items_bytes (basis_block ?s F) (?its @ ?lits) = take (nat offset) ?src"
    using inv t1 o by (auto simp: out_inv_def Let_def literal_items_bytes)
  have ok: "items_ok (c_updating c) ?s F 0 {} (?its @ ?lits)"
      "marks \<subseteq> kept_after ?s 0 {} (?its @ ?lits)"
    using inv literal_items_ok by (auto simp: out_inv_def Let_def items_ok_append kept_after_append)
  have off: "int (length (items_bytes (basis_block ?s F) (?its @ ?lits))) = offset"
    unfolding bytes using last o fit len by simp
  have "items_ok (c_updating c) ?s F 0 {} ((?its @ ?lits) @ [Block i])"
    unfolding items_ok_append [of _ _ _ _ _ "?its @ ?lits"] off using ok i bl len fit here by auto
  moreover have "(if offset = i * s_blength ?s then insert i marks else marks) \<subseteq> kept_after ?s 0 {} ((?its @ ?lits) @ [Block i])"
    unfolding kept_after_append [OF ok(1)] off using ok(2) by auto
  moreover have "items_bytes (basis_block ?s F) ((?its @ ?lits) @ [Block i]) = take (nat (offset + len)) ?src"
    unfolding items_bytes_simps(3) [of _ "?its @ ?lits"] bytes using t2 data by simp
  ultimately show ?thesis
    using inv i fit last o len n t3 tok
    by (simp add: out_inv_def matched_def Let_def sum_chunks_bytes del: items_bytes_simps)
qed

section \<open>The invariant of the search\<close>

definition marked :: "search_state \<Rightarrow> int set" where
  "marked st = {int i |i. i < length (h_sums st) \<and> sb_same_offset (h_sums st ! i)}"

definition core_inv :: "search_cfg \<Rightarrow> search_state \<Rightarrow> bool" where
  "core_inv c st \<longleftrightarrow>
     chains_ok (h_sums st) (h_table st) \<and>
     map fixed_part (h_sums st) = map fixed_part (s_sums (c_sum c)) \<and>
     0 \<le> h_want_i st \<and> 0 \<le> h_aligned_i st \<and>
     h_aligned_offset st = h_aligned_i st * s_blength (c_sum c) \<and>
     h_aligned_offset st < h_offset st + s_blength (c_sum c) \<and>
     0 \<le> h_offset st \<and> h_offset st < c_len c"

definition window_inv :: "search_cfg \<Rightarrow> search_state \<Rightarrow> bool" where
  "window_inv c st \<longleftrightarrow>
     h_k st = min (s_blength (c_sum c)) (c_len c - h_offset st) \<and>
     roll_inv (file_bytes (c_src c) (h_offset st) (h_k st)) (h_s1 st) (h_s2 st)"

lemma length_sums: "core_inv c st \<Longrightarrow> length (h_sums st) = length (s_sums (c_sum c))"
  unfolding core_inv_def by (metis length_map)

text \<open>A block as the search sees it.\<close>

lemma block_facts:
  assumes "search_ok c F" and "core_inv c st" and "0 \<le> i" and "i < s_count (c_sum c)"
    and "b = h_sums st ! nat i"
  shows "sb_offset b = i * s_blength (c_sum c)" "sb_len b = block_len (c_sum c) i"
    "0 < block_len (c_sum c) i" "block_len (c_sum c) i \<le> s_blength (c_sum c)"
    "i * s_blength (c_sum c) + block_len (c_sum c) i \<le> int (length F)"
    "sb_sum1 b = get_checksum1 (basis_block (c_sum c) F i)"
    "sum2_eq (c_sum c) (sb_sum2 b) (c_csum2 c (basis_block (c_sum c) F i))"
    "nat i < length (h_sums st)"
proof -
  let ?s = "c_sum c"
  have n: "nat i < length (s_sums ?s)" "int (nat i) = i"
    using assms(1,3,4) by (auto simp: search_ok_def sums_ok_def)
  have "fixed_part b = fixed_part (s_sums ?s ! nat i)"
    using assms(2,5) n length_sums [OF assms(2)] unfolding core_inv_def by (metis nth_map)
  then have "sb_offset b = sb_offset (s_sums ?s ! nat i)" "sb_len b = sb_len (s_sums ?s ! nat i)"
      "sb_sum1 b = sb_sum1 (s_sums ?s ! nat i)" "sb_sum2 b = sb_sum2 (s_sums ?s ! nat i)"
    by (simp_all add: fixed_part_def)
  moreover have "sb_offset (s_sums ?s ! nat i) = int (nat i) * s_blength ?s \<and>
      sb_len (s_sums ?s ! nat i) = block_len ?s (int (nat i)) \<and>
      0 < sb_len (s_sums ?s ! nat i) \<and> sb_len (s_sums ?s ! nat i) \<le> s_blength ?s \<and>
      sb_offset (s_sums ?s ! nat i) + sb_len (s_sums ?s ! nat i) \<le> int (length F) \<and>
      sb_sum1 (s_sums ?s ! nat i) = get_checksum1 (basis_block ?s F (int (nat i))) \<and>
      sum2_eq ?s (sb_sum2 (s_sums ?s ! nat i)) (c_csum2 c (basis_block ?s F (int (nat i))))"
    using assms(1) n(1) unfolding search_ok_def sums_ok_def Let_def by blast
  ultimately show "sb_offset b = i * s_blength ?s" "sb_len b = block_len ?s i"
    "0 < block_len ?s i" "block_len ?s i \<le> s_blength ?s"
    "i * s_blength ?s + block_len ?s i \<le> int (length F)"
    "sb_sum1 b = get_checksum1 (basis_block ?s F i)"
    "sum2_eq ?s (sb_sum2 b) (c_csum2 c (basis_block ?s F i))" "nat i < length (h_sums st)"
    using n length_sums [OF assms(2)] by auto
qed

text \<open>A window whose checksums are those of a block is that block.\<close>

lemma window_is_block:
  assumes ok: "search_ok c F" and core: "core_inv c st" and i: "0 \<le> i" "i < s_count (c_sum c)"
    and w: "0 \<le> off" "0 < l" "off + l \<le> int (length (c_src c))"
    and s2: "sum2_eq (c_sum c) (c_csum2 c (file_bytes (c_src c) off l)) (sb_sum2 (h_sums st ! nat i))"
    and s1: "c_updating c \<or> get_checksum1 (file_bytes (c_src c) off l) = sb_sum1 (h_sums st ! nat i)"
  shows "file_bytes (c_src c) off l = basis_block (c_sum c) F i" and "l = block_len (c_sum c) i"
proof -
  note B = block_facts [OF ok core i refl]
  have n: "nat i < length (s_sums (c_sum c))" "int (nat i) = i"
    using B(8) i length_sums [OF core] by auto
  have "sum2_eq (c_sum c) (c_csum2 c (file_bytes (c_src c) off l)) (c_csum2 c (basis_block (c_sum c) F i))"
    using s2 B(7) by (simp add: sum2_eq_def)
  moreover have "\<forall>i<length (s_sums (c_sum c)). \<forall>off l. 0 \<le> off \<and> 0 < l \<and> off + l \<le> int (length (c_src c)) \<and>
        sum2_eq (c_sum c) (c_csum2 c (file_bytes (c_src c) off l)) (c_csum2 c (basis_block (c_sum c) F (int i))) \<and>
        (c_updating c \<or> get_checksum1 (file_bytes (c_src c) off l) = get_checksum1 (basis_block (c_sum c) F (int i))) \<longrightarrow>
        file_bytes (c_src c) off l = basis_block (c_sum c) F (int i)"
    using ok by (simp add: search_ok_def collision_free_def)
  ultimately show eq: "file_bytes (c_src c) off l = basis_block (c_sum c) F i"
    using n w s1 B(6) by metis
  have "length (file_bytes (c_src c) off l) = length (basis_block (c_sum c) F i)"
    using eq by simp
  then show "l = block_len (c_sum c) i"
    using w B(3) by (simp add: basis_block_def)
qed

lemma align_up_spec:
  assumes "0 < bl" and "ao = ai * bl" and "0 \<le> ai" and "ao < off + bl"
  shows "\<exists>ai'. align_up bl off ao ai = Some (ai' * bl, ai') \<and> 0 \<le> ai' \<and> off \<le> ai' * bl \<and> ai' * bl < off + bl"
  using assms
proof (induction bl off ao ai rule: align_up.induct)
  case (1 bl off ao ai)
  show ?case
  proof (cases "ao < off")
    case True
    then have "\<exists>ai'. align_up bl off (ao + bl) (ai + 1) = Some (ai' * bl, ai') \<and> 0 \<le> ai' \<and> off \<le> ai' * bl \<and> ai' * bl < off + bl"
      using "1.IH" [OF True] "1.prems" by (simp add: algebra_simps)
    then show ?thesis
      using True "1.prems"(1) by (simp add: align_up.simps [of bl off ao ai])
  next
    case False
    then show ?thesis
      using "1.prems" by (intro exI [of _ ai], subst align_up.simps) simp
  qed
qed

lemma sb_chain_mark [simp]:
  "sb_chain (sums[i := (sums ! i)\<lparr>sb_same_offset := f\<rparr>] ! j) = sb_chain (sums ! j)"
  by (cases "i = j"; cases "i < length sums") (simp_all add: list_update_beyond)

lemma core_inv_mark:
  assumes "core_inv c st" and "0 \<le> i"
  shows "core_inv c (mark_same_offset i st)"
  using assms by (auto simp: core_inv_def mark_same_offset_def chains_ok_def)

lemma marked_mark: "0 \<le> i \<Longrightarrow> nat i < length (h_sums st) \<Longrightarrow> marked (mark_same_offset i st) = insert i (marked st)"
  by (auto simp: marked_def mark_same_offset_def nth_list_update split: if_splits)

lemma in_marked: "0 \<le> i \<Longrightarrow> nat i < length (h_sums st) \<Longrightarrow> i \<in> marked st \<longleftrightarrow> sb_same_offset (h_sums st ! nat i)"
  by (auto simp: marked_def elim!: nonneg_int_cases)

lemma mark_same_offset_sel [simp]:
  "h_offset (mark_same_offset i st) = h_offset st" "h_want_i (mark_same_offset i st) = i"
  "m_last_match (mark_same_offset i st) = m_last_match st"
  "out_inv c F M (mark_same_offset i st) = out_inv c F M st"
  by (simp_all add: mark_same_offset_def out_inv_def)

lemma search_update_sel [simp]:
  "marked (st\<lparr>h_aligned_offset := a, h_aligned_i := b\<rparr>) = marked st"
  "out_inv c F M (st\<lparr>h_aligned_offset := a, h_aligned_i := b\<rparr>) = out_inv c F M st"
  "marked (st\<lparr>h_offset := a\<rparr>) = marked st"
  "out_inv c F M (st\<lparr>h_offset := a\<rparr>) = out_inv c F M st"
  by (simp_all add: marked_def out_inv_def)

lemma realign_spec:
  assumes ok: "search_ok c F" and core: "core_inv c st" and i: "0 \<le> i" "i < s_count (c_sum c)"
    and b: "b = h_sums st ! nat i" and l: "l = min (s_blength (c_sum c)) (c_len c - h_offset st)" "l = sb_len b"
    and d: "d = file_bytes (c_src c) (h_offset st) l"
    and s1: "sm = get_checksum1 d" "sm = sb_sum1 b"
    and s2: "sum2 = c_csum2 c d" "sum2_eq (c_sum c) sum2 (sb_sum2 b)"
    and here: "c_updating c \<longrightarrow> h_offset st \<le> sb_offset b \<or> sb_same_offset b"
  shows "\<exists>i' sm' st' off l'. realign c st i sm sum2 l = Some (i', sm', c_csum2 c (file_bytes (c_src c) off l'), st') \<and>
    off = h_offset st' \<and> l' = block_len (c_sum c) i' \<and>
    core_inv c st' \<and> m_last_match st' = m_last_match st \<and> (\<forall>M. out_inv c F M st' = out_inv c F M st) \<and>
    0 \<le> i' \<and> i' < s_count (c_sum c) \<and> h_offset st \<le> off \<and> off < h_offset st + s_blength (c_sum c) \<and>
    off + l' \<le> int (length (c_src c)) \<and>
    file_bytes (c_src c) off l' = basis_block (c_sum c) F i' \<and>
    (\<not> c_updating c \<longrightarrow> sm' = get_checksum1 (basis_block (c_sum c) F i')) \<and>
    (c_updating c \<longrightarrow> off \<le> i' * s_blength (c_sum c) \<or> i' \<in> marked st) \<and>
    (marked st' = marked st \<or> h_want_i st' = i' \<and> off = i' * s_blength (c_sum c) \<and> marked st' = insert i' (marked st))"
  (is "\<exists>i' sm' st' off l'. ?P i' sm' st' off l'")
proof -
  let ?s = "c_sum c" and ?src = "c_src c" and ?off = "h_offset st"
  note B = block_facts [OF ok core i b]
  have len: "c_len c = int (length ?src)" and bl: "0 < s_blength ?s"
    using ok by (auto simp: search_ok_def sums_ok_def)
  have off: "0 \<le> ?off" "?off + l \<le> int (length ?src)" "0 < l"
    using core l len bl by (auto simp: core_inv_def)
  have d_blk: "d = basis_block ?s F i" and l_blk: "l = block_len ?s i"
    using window_is_block [OF ok core i off(1,3,2)] s1 s2 d b by auto
  have here': "c_updating c \<longrightarrow> ?off \<le> i * s_blength ?s \<or> i \<in> marked st"
    using here B(1,8) i b in_marked by auto
  have same: "?P i sm st' ?off l" if "realign c st i sm sum2 l = Some (i, sm, sum2, st')"
    "st' = st \<or> (\<exists>ai. st' = st\<lparr>h_aligned_offset := ai * s_blength ?s, h_aligned_i := ai\<rparr> \<and> 0 \<le> ai \<and>
       ai * s_blength ?s < ?off + s_blength ?s)" for st'
    using that core i off d d_blk l_blk here' bl s1 s2
    by (auto simp: core_inv_def out_inv_def marked_def)
  show ?thesis
  proof (cases "c_updating c")
    case False
    then have "?P i sm st ?off l" by (intro same) (simp_all add: realign_def Let_def)
    then show ?thesis by (intro exI)
  next
    case True
    obtain ai where ai: "align_up (s_blength ?s) ?off (h_aligned_offset st) (h_aligned_i st) = Some (ai * s_blength ?s, ai)"
      "0 \<le> ai" "?off \<le> ai * s_blength ?s" "ai * s_blength ?s < ?off + s_blength ?s"
      using align_up_spec [OF bl, of "h_aligned_offset st" "h_aligned_i st" ?off] core by (auto simp: core_inv_def)
    let ?st = "st\<lparr>h_aligned_offset := ai * s_blength ?s, h_aligned_i := ai\<rparr>"
    let ?b = "h_sums st ! nat ai" and ?map = "file_bytes ?src (ai * s_blength ?s) l"
    let ?c1 = "(?off = ai * s_blength ?s \<or> (sm = 0 \<and> l = s_blength ?s \<and> ai * s_blength ?s + l \<le> c_len c)) \<and> ai < s_count ?s"
    let ?c2 = "i \<noteq> ai \<and> (sm \<noteq> sb_sum1 ?b \<or> l \<noteq> sb_len ?b \<or> \<not> sum2_eq ?s sum2 (sb_sum2 ?b))"
    have core': "core_inv c ?st" using core ai(2,4) by (simp add: core_inv_def)
    show ?thesis
    proof (cases "?c1 \<and> \<not> ?c2")
      case False
      then have "realign c st i sm sum2 l = Some (i, sm, sum2, ?st)"
        using True ai(1) by (auto simp: realign_def Let_def)
      then have "?P i sm ?st ?off l" using ai by (intro same) auto
      then show ?thesis by (intro exI)
    next
      case c12: True
      then have ais: "ai < s_count ?s" and aib: "sm = sb_sum1 ?b" "l = sb_len ?b" "sum2_eq ?s sum2 (sb_sum2 ?b)"
        using b l(2) s1(2) s2(2) by auto
      note A = block_facts [OF ok core ai(2) ais refl]
      have d_ai: "d = basis_block ?s F ai" "l = block_len ?s ai"
        using window_is_block [OF ok core ai(2) ais off(1,3,2)] aib s2 d True by auto
      show ?thesis
      proof (cases "?off = ai * s_blength ?s")
        case eq: True
        have r: "realign c st i sm sum2 l = Some (ai, sm, sum2, mark_same_offset ai ?st)"
          using True ai(1) c12 eq by (auto simp: realign_def Let_def)
        have "marked (mark_same_offset ai ?st) = insert ai (marked st)"
          using marked_mark [OF ai(2), of ?st] A(8) by simp
        moreover have "file_bytes ?src ?off l = basis_block ?s F ai" "sum2 = c_csum2 c (file_bytes ?src ?off l)"
          using d_ai(1) d s2(1) by simp_all
        ultimately have "?P ai sm (mark_same_offset ai ?st) ?off l"
          using r core_inv_mark [OF core' ai(2)] ai(2,3,4) ais d_ai(2) off eq True bl
          by (simp only: mark_same_offset_sel search_update_sel) simp
        then show ?thesis by (intro exI)
      next
        case neq: False
        then have z: "sm = 0" "l = s_blength ?s" "ai * s_blength ?s + l \<le> int (length ?src)"
          using c12 len by auto
        show ?thesis
        proof (cases "get_checksum1 ?map = sb_sum1 ?b")
          case False
          then have r: "realign c st i sm sum2 l = Some (ai, get_checksum1 ?map, sum2, ?st)"
            using True ai(1) c12 neq by (auto simp: realign_def Let_def)
          have "?P ai (get_checksum1 ?map) ?st ?off l"
            using r core' ai ais d_ai d s2(1) off True bl by simp
          then show ?thesis by (intro exI)
        next
          case weak: True
          have "?map = d"
            using ok True z weak aib s1 off d ai(2) bl
            by (auto simp: search_ok_def zero_windows_alike_def)
          then have s2m: "sum2_eq ?s (c_csum2 c ?map) (sb_sum2 ?b)" using aib s2 by simp
          let ?st2 = "mark_same_offset ai (?st\<lparr>h_offset := ai * s_blength ?s\<rparr>)"
          have r: "realign c st i sm sum2 l = Some (ai, get_checksum1 ?map, c_csum2 c ?map, ?st2)"
            using True ai(1) c12 neq weak s2m by (auto simp: realign_def Let_def)
          have "core_inv c (?st\<lparr>h_offset := ai * s_blength ?s\<rparr>)"
            using core' z off(3) len bl ai(2) by (simp add: core_inv_def)
          from core_inv_mark [OF this ai(2)] have cm: "core_inv c ?st2" .
          have "marked ?st2 = insert ai (marked st)"
            using marked_mark [OF ai(2), of "?st\<lparr>h_offset := ai * s_blength ?s\<rparr>"] A(8) by simp
          then have "?P ai (get_checksum1 ?map) ?st2 (ai * s_blength ?s) l"
            using r cm ai ais d_ai \<open>?map = d\<close> z True by simp
          then show ?thesis by (intro exI)
        qed
      qed
    qed
  qed
qed

text \<open>The hint want_i only replaces a block by one with the same content.\<close>

lemma choose_want_spec:
  assumes ok: "search_ok c F" and core: "core_inv c st" and i: "0 \<le> i" "i < s_count (c_sum c)"
    and d: "file_bytes (c_src c) (h_offset st) (block_len (c_sum c) i) = basis_block (c_sum c) F i"
    and fit: "h_offset st + block_len (c_sum c) i \<le> int (length (c_src c))"
    and s1: "\<not> c_updating c \<longrightarrow> sm = get_checksum1 (basis_block (c_sum c) F i)"
    and s2: "sum2 = c_csum2 c (file_bytes (c_src c) (h_offset st) (block_len (c_sum c) i))"
    and j: "j = choose_want c st i sm sum2"
  shows "0 \<le> j" "j < s_count (c_sum c)" "block_len (c_sum c) j = block_len (c_sum c) i"
    "basis_block (c_sum c) F j = basis_block (c_sum c) F i"
    "j = i \<or> j = h_want_i st \<and> (c_updating c \<longrightarrow> h_offset st \<le> j * s_blength (c_sum c) \<or> j \<in> marked st)"
proof -
  have w: "0 \<le> h_want_i st" using core by (simp add: core_inv_def)
  have off: "0 \<le> h_offset st" using core by (simp add: core_inv_def)
  have len: "0 < block_len (c_sum c) i" by (rule block_facts(3) [OF ok core i refl])
  have "0 \<le> j \<and> j < s_count (c_sum c) \<and> block_len (c_sum c) j = block_len (c_sum c) i \<and>
      basis_block (c_sum c) F j = basis_block (c_sum c) F i \<and>
      (j = i \<or> j = h_want_i st \<and> (c_updating c \<longrightarrow> h_offset st \<le> j * s_blength (c_sum c) \<or> j \<in> marked st))"
  proof (cases "j = i")
    case True
    then show ?thesis using i by simp
  next
    case False
    let ?w = "h_sums st ! nat j"
    have c: "j = h_want_i st" "j < s_count (c_sum c)" "sm = sb_sum1 ?w" "sum2_eq (c_sum c) sum2 (sb_sum2 ?w)"
        "\<not> c_updating c \<or> sb_offset ?w \<ge> h_offset st \<or> sb_same_offset ?w"
      using j False by (auto simp: choose_want_def Let_def split: if_splits)
    note B = block_facts [OF ok core _ c(2) refl]
    have "file_bytes (c_src c) (h_offset st) (block_len (c_sum c) i) = basis_block (c_sum c) F j"
      and "block_len (c_sum c) i = block_len (c_sum c) j"
      using window_is_block [OF ok core _ c(2) off len fit] c w s1 s2 d by auto
    then show ?thesis
      using c w d B(1,8) in_marked by auto
  qed
  then show "0 \<le> j" "j < s_count (c_sum c)" "block_len (c_sum c) j = block_len (c_sum c) i"
    "basis_block (c_sum c) F j = basis_block (c_sum c) F i"
    "j = i \<or> j = h_want_i st \<and> (c_updating c \<longrightarrow> h_offset st \<le> j * s_blength (c_sum c) \<or> j \<in> marked st)"
    by auto
qed

lemma matched_sel [simp]:
  "h_sums (matched src sums offset i st) = h_sums st" "h_table (matched src sums offset i st) = h_table st"
  "h_offset (matched src sums offset i st) = h_offset st" "h_k (matched src sums offset i st) = h_k st"
  "h_s1 (matched src sums offset i st) = h_s1 st" "h_s2 (matched src sums offset i st) = h_s2 st"
  "h_want_i (matched src sums offset i st) = h_want_i st"
  "h_aligned_offset (matched src sums offset i st) = h_aligned_offset st"
  "h_aligned_i (matched src sums offset i st) = h_aligned_i st"
  "m_last_match (matched src sums offset i st) = offset + (if i \<ge> 0 then sb_len (sums ! nat i) else 0)"
  by (simp_all add: matched_def Let_def)

lemma reset_window_spec:
  assumes "core_inv c st" and "h_offset st \<le> off" and "off < c_len c"
  shows "core_inv c (reset_window c off st)" "window_inv c (reset_window c off st)"
    "h_offset (reset_window c off st) = off" "m_last_match (reset_window c off st) = m_last_match st"
    "marked (reset_window c off st) = marked st" "out_inv c F M (reset_window c off st) = out_inv c F M st"
    "core_inv c (reset_window c off st\<lparr>m_matches := n\<rparr>)" "window_inv c (reset_window c off st\<lparr>m_matches := n\<rparr>)"
    "marked (reset_window c off st\<lparr>m_matches := n\<rparr>) = marked st"
    "out_inv c F M (reset_window c off st\<lparr>m_matches := n\<rparr>) = out_inv c F M st"
  using assms roll_inv_init
  by (auto simp: reset_window_def core_inv_def window_inv_def out_inv_def marked_def Let_def)

lemma take_match_spec:
  assumes ok: "search_ok c F" and core: "core_inv c st" and i: "0 \<le> i" "i < s_count (c_sum c)"
    and b: "b = h_sums st ! nat i" and l: "l = min (s_blength (c_sum c)) (c_len c - h_offset st)" "l = sb_len b"
    and d: "d = file_bytes (c_src c) (h_offset st) l"
    and s1: "sm = get_checksum1 d" "sm = sb_sum1 b"
    and s2: "sum2 = c_csum2 c d" "sum2_eq (c_sum c) sum2 (sb_sum2 b)"
    and here: "c_updating c \<longrightarrow> h_offset st \<le> sb_offset b \<or> sb_same_offset b"
    and out: "out_inv c F (marked st) st" and last: "m_last_match st \<le> h_offset st"
    and gap: "h_offset st - m_last_match st + s_blength (c_sum c) < 2 ^ 31"
  shows "\<exists>st'. take_match c st i sm sum2 l = Some st' \<and> core_inv c st' \<and> window_inv c st' \<and>
    out_inv c F (marked st') st' \<and> m_last_match st' = h_offset st' + 1 \<and> h_offset st \<le> h_offset st'"
proof -
  let ?s = "c_sum c"
  obtain i1 sm1 st1 off l1 where R: "realign c st i sm sum2 l = Some (i1, sm1, c_csum2 c (file_bytes (c_src c) off l1), st1)"
    and e: "off = h_offset st1" "l1 = block_len ?s i1" and core1: "core_inv c st1"
    and m1: "m_last_match st1 = m_last_match st" "\<forall>M. out_inv c F M st1 = out_inv c F M st"
    and i1: "0 \<le> i1" "i1 < s_count ?s" and off: "h_offset st \<le> off" "off < h_offset st + s_blength ?s"
    and fit: "off + l1 \<le> int (length (c_src c))" and d1: "file_bytes (c_src c) off l1 = basis_block ?s F i1"
    and w1: "\<not> c_updating c \<longrightarrow> sm1 = get_checksum1 (basis_block ?s F i1)"
    and h1: "c_updating c \<longrightarrow> off \<le> i1 * s_blength ?s \<or> i1 \<in> marked st"
    and mk: "marked st1 = marked st \<or> h_want_i st1 = i1 \<and> off = i1 * s_blength ?s \<and> marked st1 = insert i1 (marked st)"
    using realign_spec [OF ok core i b l d s1 s2 here] by (elim exE conjE) (rule that)
  define j where "j = choose_want c st1 i1 sm1 (c_csum2 c (file_bytes (c_src c) off l1))"
  note J = choose_want_spec [OF ok core1 i1 d1 [unfolded e] fit [unfolded e] w1 refl j_def [unfolded e]]
  note B = block_facts [OF ok core1 J(1,2) refl]
  let ?st2 = "matched (c_src c) (h_sums st1) off j (st1\<lparr>h_want_i := j + 1\<rparr>)"
  have len: "c_len c = int (length (c_src c))" and bl: "0 < s_blength ?s" using ok by (auto simp: search_ok_def sums_ok_def)
  have mk1: "marked st1 \<subseteq> (if off = j * s_blength ?s then insert j (marked st) else marked st)"
    and hj: "c_updating c \<longrightarrow> off \<le> j * s_blength ?s \<or> j \<in> marked st"
    using mk J(5) h1 e by auto
  have "out_inv c F (if off = j * s_blength ?s then insert j (marked st) else marked st) ?st2"
    using out m1 last off gap J B(2,3,5) fit d1 hj e bl
    by (intro out_inv_block [where len = "block_len ?s j"]) (simp_all add: out_inv_def)
  then have out2: "out_inv c F (marked st1) ?st2"
    using mk1 by (auto simp: out_inv_def Let_def)
  let ?off' = "off + sb_len (h_sums st1 ! nat j) - 1"
  have core2: "core_inv c ?st2" "h_offset ?st2 \<le> ?off'" "?off' < c_len c" "marked ?st2 = marked st1"
    using core1 J(1) B(2,3) J(3) fit len e by (auto simp: core_inv_def marked_def)
  note W = reset_window_spec [OF core2(1,2,3)]
  have "take_match c st i sm sum2 l = Some (reset_window c ?off' ?st2\<lparr>m_matches := m_matches (reset_window c ?off' ?st2) + 1\<rparr>)"
    unfolding take_match_def R by (simp add: j_def e Let_def)
  then show ?thesis
    using W core2(4) out2 off B(2,3) J(1) e by simp
qed

section \<open>The loops\<close>

definition search_inv :: "search_cfg \<Rightarrow> byte list \<Rightarrow> search_state \<Rightarrow> bool" where
  "search_inv c F st \<longleftrightarrow> core_inv c st \<and> window_inv c st \<and> out_inv c F (marked st) st"

fun prev_ok :: "prev \<Rightarrow> int \<Rightarrow> bool" where
  "prev_ok (PrevHash t) i \<longleftrightarrow> True"
| "prev_ok (PrevChain j) i \<longleftrightarrow> i < j"

lemma marked_chain [simp]:
  "marked (st\<lparr>h_sums := (h_sums st)[n := (h_sums st ! n)\<lparr>sb_chain := v\<rparr>]\<rparr>) = marked st"
proof -
  have "sb_same_offset ((h_sums st)[n := (h_sums st ! n)\<lparr>sb_chain := v\<rparr>] ! i) = sb_same_offset (h_sums st ! i)" for i
    by (cases "n = i"; cases "n < length (h_sums st)") (simp_all add: list_update_beyond)
  then show ?thesis by (simp add: marked_def)
qed

lemma set_prev_spec:
  assumes inv: "search_inv c F st" and p: "prev_ok prev i" and i: "0 \<le> i" "nat i < length (h_sums st)" and v: "v < i"
  shows "search_inv c F (set_prev prev v st)" "h_offset (set_prev prev v st) = h_offset st"
    "m_last_match (set_prev prev v st) = m_last_match st"
    "sb_chain (h_sums (set_prev prev v st) ! nat i) = sb_chain (h_sums st ! nat i)"
    "h_k (set_prev prev v st) = h_k st"
proof -
  have "search_inv c F (set_prev prev v st) \<and> h_offset (set_prev prev v st) = h_offset st \<and>
    m_last_match (set_prev prev v st) = m_last_match st \<and>
    sb_chain (h_sums (set_prev prev v st) ! nat i) = sb_chain (h_sums st ! nat i) \<and> h_k (set_prev prev v st) = h_k st"
  proof (cases prev)
    case (PrevHash t)
    then show ?thesis
      using inv i v by (auto simp: search_inv_def core_inv_def window_inv_def chains_ok_def out_inv_def marked_def)
  next
    case (PrevChain j)
    have "sb_chain ((h_sums st)[nat j := (h_sums st ! nat j)\<lparr>sb_chain := v\<rparr>] ! n) < int n" if "n < length (h_sums st)" for n
      using that inv p PrevChain v i by (cases "n = nat j") (auto simp: search_inv_def core_inv_def chains_ok_def)
    moreover have "out_inv c F M (st\<lparr>h_sums := x\<rparr>) = out_inv c F M st" for M x
      by (simp add: out_inv_def)
    ultimately show ?thesis
      using inv p i PrevChain by (auto simp: search_inv_def core_inv_def window_inv_def chains_ok_def)
  qed
  then show "search_inv c F (set_prev prev v st)" "h_offset (set_prev prev v st) = h_offset st"
    "m_last_match (set_prev prev v st) = m_last_match st"
    "sb_chain (h_sums (set_prev prev v st) ! nat i) = sb_chain (h_sums st ! nat i)"
    "h_k (set_prev prev v st) = h_k st"
    by auto
qed

text \<open>The relation between the states before and after a walk along a chain.\<close>

definition chain_result :: "search_cfg \<Rightarrow> byte list \<Rightarrow> search_state \<Rightarrow> search_state \<Rightarrow> bool" where
  "chain_result c F st st' \<longleftrightarrow> search_inv c F st' \<and> h_offset st \<le> h_offset st' \<and>
     (m_last_match st' = h_offset st' + 1 \<or> m_last_match st' = m_last_match st \<and> h_offset st' = h_offset st)"

lemma search_inv_counters [simp]:
  "search_inv c F (st\<lparr>m_false_alarms := n\<rparr>) = search_inv c F st"
  "search_inv c F (st\<lparr>m_hash_hits := n\<rparr>) = search_inv c F st"
  by (simp_all add: search_inv_def core_inv_def window_inv_def out_inv_def marked_def)

lemma chain_loop_spec:
  assumes ok: "search_ok c F" and inv: "search_inv c F st"
    and last: "m_last_match st \<le> h_offset st"
    and gap: "h_offset st - m_last_match st + s_blength (c_sum c) < 2 ^ 31"
    and i: "0 \<le> i" "i < s_count (c_sum c)" and p: "prev_ok prev i" and fuel: "nat i < fuel"
    and l: "l = min (s_blength (c_sum c)) (c_len c - h_offset st)" and d: "d = file_bytes (c_src c) (h_offset st) l"
    and sm: "sm = get_checksum1 d" and csum: "csum = None \<or> csum = Some (c_csum2 c d)"
  shows "\<exists>st'. chain_loop c sm fuel prev i csum st = Some st' \<and> chain_result c F st st'"
  using inv last gap i p fuel l d csum
proof (induction fuel arbitrary: prev i csum st)
  case 0
  then show ?case by simp
next
  case (Suc fuel)
  let ?b = "h_sums st ! nat i"
  have core: "core_inv c st" using Suc.prems(1) by (simp add: search_inv_def)
  note B = block_facts [OF ok core Suc.prems(4,5) refl]
  have chain: "sb_chain ?b < i"
    using core B(8) Suc.prems(4) by (auto simp: core_inv_def chains_ok_def dest!: spec [of _ "nat i"])
  have nxt: "\<exists>st'. (let i = sb_chain (h_sums st1 ! nat i) in
        if i \<ge> 0 then chain_loop c sm fuel prev1 i csum1 st1 else Some st1) = Some st' \<and> chain_result c F st st'"
    if st1: "search_inv c F st1" "h_offset st1 = h_offset st" "m_last_match st1 = m_last_match st"
      "sb_chain (h_sums st1 ! nat i) = sb_chain ?b" and p1: "prev1 = prev \<or> prev1 = PrevChain i"
      and c1: "csum1 = None \<or> csum1 = Some (c_csum2 c d)" for st1 prev1 csum1
  proof (cases "sb_chain ?b \<ge> 0")
    case True
    have "prev_ok prev1 (sb_chain ?b)"
      using p1 Suc.prems(6) chain by (cases prev) auto
    moreover have "nat (sb_chain ?b) < fuel" using chain True Suc.prems(7) by linarith
    ultimately obtain st' where "chain_loop c sm fuel prev1 (sb_chain ?b) csum1 st1 = Some st'" "chain_result c F st1 st'"
      using Suc.IH [of st1 "sb_chain ?b" prev1 csum1] st1 Suc.prems True chain c1 by auto
    then show ?thesis
      using st1 True by (simp add: Let_def chain_result_def)
  next
    case False
    then show ?thesis using st1 by (simp add: Let_def chain_result_def)
  qed
  show ?case
  proof (cases "c_updating c \<and> sb_offset ?b < h_offset st \<and> \<not> sb_same_offset ?b")
    case True
    note S = set_prev_spec [OF Suc.prems(1,6,4) B(8) chain]
    show ?thesis
      using nxt [OF S(1,2,3,4), of prev csum] Suc.prems(10) True by (simp add: Let_def)
  next
    case usable: False
    define sum2 where "sum2 = (case csum of None \<Rightarrow> c_csum2 c d | Some v \<Rightarrow> v)"
    have sum2: "sum2 = c_csum2 c d" using Suc.prems(10) by (auto simp: sum2_def)
    show ?thesis
    proof (cases "sm = sb_sum1 ?b \<and> l = sb_len ?b")
      case False
      then show ?thesis
        using nxt [of st "PrevChain i" csum] Suc.prems(1,8,10) usable by (auto simp: Let_def)
    next
      case s1: True
      show ?thesis
      proof (cases "sum2_eq (c_sum c) sum2 (sb_sum2 ?b)")
        case False
        then show ?thesis
          using nxt [of "st\<lparr>m_false_alarms := m_false_alarms st + 1\<rparr>" "PrevChain i" "Some sum2"]
            Suc.prems(1,8,9) usable s1 sum2
          by (auto simp: Let_def sum2_def)
      next
        case True
        have here: "c_updating c \<longrightarrow> h_offset st \<le> sb_offset ?b \<or> sb_same_offset ?b" using usable by auto
        have out: "out_inv c F (marked st) st" using Suc.prems(1) by (simp add: search_inv_def)
        have "chain_loop c sm (Suc fuel) prev i csum st = take_match c st i sm sum2 l"
          unfolding chain_loop.simps Let_def if_not_P [OF usable] Suc.prems(8) [symmetric] Suc.prems(9) [symmetric]
            sum2_def [symmetric]
          using s1 True by simp
        then show ?thesis
          using take_match_spec [OF ok core Suc.prems(4,5) refl Suc.prems(8) _ Suc.prems(9) sm _ sum2 True here out Suc.prems(2,3)] s1
          by (auto simp: chain_result_def search_inv_def)
      qed
    qed
  qed
qed

end
