(* ===== verification/Search_Loop.thy ===== *)
theory Search_Loop
  imports Match_Correct
begin

text \<open>
  The outer loop of hash_search and match_sums: the window slides one byte per turn, literal
  data never piles up beyond what an int32 holds, and what is sent stands for the whole file.
\<close>

section \<open>Sliding the window\<close>

lemma file_bytes_Cons: "0 < k \<Longrightarrow> 0 \<le> off \<Longrightarrow> file_bytes F off k = file_byte F off # file_bytes F (off + 1) (k - 1)"
  using file_bytes_append [of 1 "k - 1" F off] by (simp add: file_bytes_def)

lemma file_bytes_snoc: "0 < k \<Longrightarrow> file_bytes F off k = file_bytes F off (k - 1) @ [file_byte F (off + k - 1)]"
  using file_bytes_append [of "k - 1" 1 F off] by (simp add: file_bytes_def algebra_simps)

text \<open>The window part of \<open>slide\<close>.\<close>

definition slide_window :: "search_cfg \<Rightarrow> search_state \<Rightarrow> uint32 \<times> uint32 \<times> int" where
  "slide_window c st =
     (let offset = h_offset st; k = h_k st;
          (s1, s2) = roll_drop k (file_byte (c_src c) offset) (h_s1 st, h_s2 st)
      in if offset + k < c_len c
         then case roll_add (file_byte (c_src c) (offset + k)) (s1, s2) of (s1, s2) \<Rightarrow> (s1, s2, k)
         else (s1, s2, k - 1))"

lemma slide_window_inv:
  assumes win: "window_inv c st" and off: "0 \<le> h_offset st" "h_offset st < c_len c" and bl: "0 < s_blength (c_sum c)"
    and s: "slide_window c st = (s1, s2, k)"
  shows "k = min (s_blength (c_sum c)) (c_len c - (h_offset st + 1))"
    and "roll_inv (file_bytes (c_src c) (h_offset st + 1) k) s1 s2"
proof -
  let ?off = "h_offset st" and ?k = "h_k st" and ?src = "c_src c"
  have k: "?k = min (s_blength (c_sum c)) (c_len c - ?off)" "0 < ?k"
    using win off bl by (auto simp: window_inv_def)
  obtain t1 t2 where t: "roll_drop ?k (file_byte ?src ?off) (h_s1 st, h_s2 st) = (t1, t2)"
    by fastforce
  have "roll_inv (file_byte ?src ?off # file_bytes ?src (?off + 1) (?k - 1)) (h_s1 st) (h_s2 st)"
    using win unfolding window_inv_def file_bytes_Cons [OF k(2) off(1)] by blast
  then have drop: "roll_inv (file_bytes ?src (?off + 1) (?k - 1)) t1 t2"
    by (rule roll_drop_inv [OF _ _ t]) (use k(2) in simp)
  have "k = min (s_blength (c_sum c)) (c_len c - (?off + 1)) \<and> roll_inv (file_bytes ?src (?off + 1) k) s1 s2"
  proof (cases "?off + ?k < c_len c")
    case True
    then have a: "roll_add (file_byte ?src (?off + ?k)) (t1, t2) = (s1, s2)" and "k = ?k"
      using s t by (auto simp: slide_window_def Let_def split: prod.splits)
    from roll_add_inv [OF drop a] have "roll_inv (file_bytes ?src (?off + 1) k) s1 s2"
      using file_bytes_snoc [of ?k ?src "?off + 1"] k(2) \<open>k = ?k\<close> by (simp add: algebra_simps)
    then show ?thesis using True k \<open>k = ?k\<close> by (auto simp: min_def split: if_splits)
  next
    case False
    then show ?thesis using s t drop k by (auto simp: slide_window_def Let_def min_def split: if_splits)
  qed
  then show "k = min (s_blength (c_sum c)) (c_len c - (?off + 1))" "roll_inv (file_bytes ?src (?off + 1) k) s1 s2"
    by auto
qed

lemma slide_alt:
  "slide c end st =
     (case slide_window c st of (s1, s2, k) \<Rightarrow>
        let offset = h_offset st; b = cast32 (offset - m_last_match st);
            st = st\<lparr>h_s1 := s1, h_s2 := s2, h_k := k\<rparr>;
            st = (if (if b < 0 then 0 else b) \<ge> s_blength (c_sum c) + CHUNK_SIZE \<and> end - offset > CHUNK_SIZE
                  then matched (c_src c) (h_sums st) (offset - s_blength (c_sum c)) (-2) st else st)
        in st\<lparr>h_offset := offset + 1\<rparr>)"
  by (auto simp: slide_def slide_window_def Let_def split: prod.splits)

section \<open>The bound on pending literal data\<close>

definition gap_ok :: "search_cfg \<Rightarrow> int \<Rightarrow> search_state \<Rightarrow> bool" where
  "gap_ok c end st \<longleftrightarrow> h_offset st - m_last_match st \<le>
     s_blength (c_sum c) + CHUNK_SIZE + max 0 (CHUNK_SIZE + 1 - (end - h_offset st))"

definition end_ok :: "search_cfg \<Rightarrow> int \<Rightarrow> bool" where
  "end_ok c end \<longleftrightarrow> c_len c + 1 - s_blength (c_sum c) \<le> end \<and> end \<le> c_len c"

lemma gap_small:
  assumes "search_ok c F" and "end_ok c end" and "gap_ok c end st" and "h_offset st \<le> c_len c"
  shows "h_offset st - m_last_match st + s_blength (c_sum c) < 2 ^ 31"
  using assms by (auto simp: search_ok_def sums_ok_def end_ok_def gap_ok_def CHUNK_SIZE_def OLD_MAX_BLOCK_SIZE_def max_def split: if_splits)

lemma slide_spec:
  assumes ok: "search_ok c F" and e: "end_ok c end" and inv: "search_inv c F st"
    and last: "m_last_match st = h_offset st + 1 \<or> m_last_match st \<le> h_offset st \<and> gap_ok c end st"
    and st': "st' = slide c end st"
  shows "h_offset st' = h_offset st + 1" "out_inv c F (marked st') st'" "m_last_match st' \<le> h_offset st'"
    "gap_ok c end st'" "h_offset st' < c_len c \<longrightarrow> search_inv c F st'"
proof -
  let ?bl = "s_blength (c_sum c)" and ?off = "h_offset st"
  obtain s1 s2 k where w: "slide_window c st = (s1, s2, k)" by (cases "slide_window c st")
  let ?st1 = "st\<lparr>h_s1 := s1, h_s2 := s2, h_k := k\<rparr>"
  have bl: "0 < ?bl" and len: "c_len c = int (length (c_src c))" using ok by (auto simp: search_ok_def sums_ok_def)
  have core: "core_inv c st" and win: "window_inv c st" and out: "out_inv c F (marked st) st"
    using inv by (auto simp: search_inv_def)
  have off: "0 \<le> ?off" "?off < c_len c" using core by (auto simp: core_inv_def)
  note W = slide_window_inv [OF win off bl w]
  define early where "early \<longleftrightarrow> (let b = cast32 (?off - m_last_match st) in
      (if b < 0 then 0 else b) \<ge> ?bl + CHUNK_SIZE \<and> end - ?off > CHUNK_SIZE)"
  have cast: "cast32 (?off - m_last_match st) = ?off - m_last_match st"
  proof (rule cast32_id)
    show "- (2 ^ 31) \<le> ?off - m_last_match st" using last by auto
    show "?off - m_last_match st < 2 ^ 31" using last gap_small [OF ok e] off bl by fastforce
  qed
  have early: "early \<longleftrightarrow> ?off - m_last_match st \<ge> ?bl + CHUNK_SIZE \<and> end - ?off > CHUNK_SIZE"
    using bl by (auto simp: early_def cast Let_def CHUNK_SIZE_def)
  have st'_eq: "st' = (if early then matched (c_src c) (h_sums st) (?off - ?bl) (-2) ?st1 else ?st1)\<lparr>h_offset := ?off + 1\<rparr>"
    unfolding st' slide_alt w early_def by (simp add: Let_def)
  have "out_inv c F (marked st) (matched (c_src c) (h_sums st) (?off - ?bl) (-2) ?st1)" if early
  proof (rule out_inv_literal)
    show "out_inv c F (marked st) ?st1" using out by (simp add: out_inv_def)
    show "m_last_match ?st1 \<le> ?off - ?bl" "?off - ?bl \<le> int (length (c_src c))"
      using that off len bl by (auto simp: early CHUNK_SIZE_def)
    have "?off - m_last_match st + ?bl < 2 ^ 31"
      using that last gap_small [OF ok e, of st] off bl by (auto simp: early CHUNK_SIZE_def)
    then show "?off - ?bl - m_last_match ?st1 < 2 ^ 31" using bl by simp
  qed
  moreover have mk: "marked st' = marked st" by (simp add: st'_eq marked_def)
  ultimately show out': "out_inv c F (marked st') st'"
    using out unfolding mk st'_eq by (auto simp: out_inv_def)
  show off': "h_offset st' = ?off + 1" by (simp add: st'_eq)
  show "m_last_match st' \<le> h_offset st'" using last bl by (auto simp: st'_eq early)
  show "gap_ok c end st'"
    using last bl by (auto simp: st'_eq early gap_ok_def CHUNK_SIZE_def max_def)
  show "h_offset st' < c_len c \<longrightarrow> search_inv c F st'"
    using core W out' off' bl by (auto simp: search_inv_def st'_eq core_inv_def window_inv_def)
qed

section \<open>The search\<close>

lemma search_step_spec:
  assumes ok: "search_ok c F" and e: "end_ok c end" and inv: "search_inv c F st"
    and last: "m_last_match st \<le> h_offset st" and gap: "gap_ok c end st"
  shows "\<exists>st'. search_step c end st = Some st' \<and> h_offset st < h_offset st' \<and> h_offset st' \<le> c_len c \<and>
    out_inv c F (marked st') st' \<and> m_last_match st' \<le> h_offset st' \<and> gap_ok c end st' \<and>
    (h_offset st' < c_len c \<longrightarrow> search_inv c F st')"
proof -
  define sm where "sm = (h_s1 st AND 0xFFFF) OR push_bit 16 (h_s2 st)"
  define t where "t = (if c_tablesize c = TRADITIONAL_TABLESIZE then SUM2HASH2 (h_s1 st) (h_s2 st)
      else BIG_SUM2HASH (c_tablesize c) sm)"
  have core: "core_inv c st" and win: "window_inv c st" using inv by (auto simp: search_inv_def)
  have i: "h_table st t < s_count (c_sum c)"
    using core length_sums [OF core] ok by (auto simp: core_inv_def chains_ok_def search_ok_def sums_ok_def)
  have sm: "sm = get_checksum1 (file_bytes (c_src c) (h_offset st) (min (s_blength (c_sum c)) (c_len c - h_offset st)))"
    using win roll_inv_checksum unfolding window_inv_def sm_def by (metis checksum1_of_def)
  have step: "search_step c end st = (if h_table st t < 0 then Some (slide c end st)
      else map_option (slide c end) (chain_loop c sm (nat (s_count (c_sum c))) (PrevHash t) (h_table st t) None
        (st\<lparr>m_hash_hits := m_hash_hits st + 1\<rparr>)))"
    by (simp add: search_step_def sm_def t_def Let_def)
  have "\<exists>st1. search_step c end st = Some (slide c end st1) \<and> chain_result c F st st1"
  proof (cases "h_table st t < 0")
    case True
    then show ?thesis using step inv by (auto simp: chain_result_def)
  next
    case False
    let ?st = "st\<lparr>m_hash_hits := m_hash_hits st + 1\<rparr>"
    have "h_offset ?st \<le> c_len c" "gap_ok c end ?st" using core gap by (auto simp: core_inv_def gap_ok_def)
    then have "\<exists>st1. chain_loop c sm (nat (s_count (c_sum c))) (PrevHash t) (h_table st t) None ?st = Some st1 \<and> chain_result c F ?st st1"
      using inv last False i sm gap_small [OF ok e, of ?st]
      by (intro chain_loop_spec [OF ok _ _ _ _ i _ _ refl refl]) simp_all
    then show ?thesis using step False by (auto simp: chain_result_def)
  qed
  then obtain st1 where st1: "search_step c end st = Some (slide c end st1)" "chain_result c F st st1" by blast
  have "m_last_match st1 = h_offset st1 + 1 \<or> m_last_match st1 \<le> h_offset st1 \<and> gap_ok c end st1"
    using st1(2) last gap by (auto simp: chain_result_def gap_ok_def)
  note S = slide_spec [OF ok e _ this refl]
  have inv1: "search_inv c F st1" "h_offset st \<le> h_offset st1" "h_offset st1 < c_len c"
    using st1(2) by (auto simp: chain_result_def search_inv_def core_inv_def)
  show ?thesis
    using S [OF inv1(1)] inv1(2,3) st1(1) by (intro exI [of _ "slide c end st1"]) auto
qed

lemma search_loop_spec:
  assumes ok: "search_ok c F" and e: "end_ok c end" and inv: "search_inv c F st"
    and last: "m_last_match st \<le> h_offset st" and gap: "gap_ok c end st" and fuel: "nat (c_len c - h_offset st) < fuel"
  shows "\<exists>st'. search_loop c end fuel st = Some st' \<and> out_inv c F (marked st') st' \<and>
    m_last_match st' \<le> h_offset st' \<and> end \<le> h_offset st' \<and> h_offset st' \<le> c_len c \<and> gap_ok c end st'"
  using inv last gap fuel
proof (induction fuel arbitrary: st)
  case 0
  then show ?case by simp
next
  case (Suc fuel)
  obtain st' where st': "search_step c end st = Some st'" "h_offset st < h_offset st'" "h_offset st' \<le> c_len c"
    "out_inv c F (marked st') st'" "m_last_match st' \<le> h_offset st'" "gap_ok c end st'"
    "h_offset st' < c_len c \<longrightarrow> search_inv c F st'"
    using search_step_spec [OF ok e Suc.prems(1,2,3)] by blast
  show ?case
  proof (cases "h_offset st' < end")
    case True
    then have "search_inv c F st'" using st'(7) e by (simp add: end_ok_def)
    moreover have "nat (c_len c - h_offset st') < fuel"
      using Suc.prems(4) st'(2,3) by linarith
    ultimately show ?thesis using Suc.IH [of st'] st' True by simp
  next
    case False
    then show ?thesis using st' by auto
  qed
qed

section \<open>A complete transmission\<close>

text \<open>
  What a finished search has sent: tokens that the receiver can apply to the basis file, that
  stand for the source file and end with the end token; and what the checksum was fed.
\<close>

definition sent_all :: "bool \<Rightarrow> sum_struct \<Rightarrow> byte list \<Rightarrow> byte list \<Rightarrow> match_state \<Rightarrow> bool" where
  "sent_all updating s F src ms \<longleftrightarrow>
     (\<exists>calls off n. m_calls ms = calls @ [(-1, off, n)] \<and>
        list_all (\<lambda>(i, _, _). i = -2 \<or> 0 \<le> i \<and> i < s_count s) calls) \<and>
     items_bytes (basis_block s F) (sent_items src (m_calls ms)) = src \<and>
     items_ok updating s F 0 {} (sent_items src (m_calls ms)) \<and>
     m_summed ms = src"

lemma truncate_sel [simp]:
  "m_calls (match_state.truncate st) = m_calls st" "m_summed (match_state.truncate st) = m_summed st"
  by (simp_all add: match_state.truncate_def)

lemma sent_all_end:
  assumes inv: "out_inv c F marks st" and len: "len = int (length (c_src c))" and n: "len - m_last_match st < 2 ^ 31"
  shows "sent_all (c_updating c) (c_sum c) F (c_src c) (match_state.truncate (matched (c_src c) sums len (-1) st))"
proof -
  let ?n = "len - m_last_match st"
  have last: "0 \<le> m_last_match st" "m_last_match st \<le> len" using inv len by (auto simp: out_inv_def Let_def)
  have c: "cast32 ?n = ?n" using n last by (simp add: cast32_id)
  have "take (nat (m_last_match st)) (c_src c) @ file_bytes (c_src c) (m_last_match st) ?n = c_src c"
    using take_file_bytes [of "m_last_match st" ?n "c_src c"] last len by simp
  moreover have "token_items src (-1) a n = (if n > 0 then literal_items src a n 0 else [])" for src a n
    by (simp add: token_items_def)
  ultimately show ?thesis
    using inv c len last literal_items_ok
    by (auto simp: sent_all_def out_inv_def matched_def Let_def literal_items_bytes sum_chunks_bytes items_ok_append)
qed

lemma hash_search_spec:
  assumes ok: "search_ok c F" and ch: "chains_ok sums tbl"
    and fixed: "map fixed_part sums = map fixed_part (s_sums (c_sum c))"
    and unmarked: "\<And>i. i < length sums \<Longrightarrow> \<not> sb_same_offset (sums ! i)"
    and ms: "m_last_match ms = 0" "m_calls ms = []" "m_summed ms = []"
  shows "\<exists>ms'. hash_search c sums tbl ms = Some ms' \<and> sent_all (c_updating c) (c_sum c) F (c_src c) ms'"
proof -
  let ?init = "match_state.extend ms (search_state.fields sums tbl 0 0 0 0 0 0 0) :: search_state"
  let ?st = "reset_window c 0 ?init"
  let ?stop = "c_len c + 1 - sb_len (sums ! nat (s_count (c_sum c) - 1))"
  have len: "0 < c_len c" "c_len c = int (length (c_src c))" and bl: "0 < s_blength (c_sum c)"
    and cnt: "0 \<le> s_count (c_sum c) - 1"
    using ok by (auto simp: search_ok_def sums_ok_def Suc_le_eq)
  have sel: "h_sums ?init = sums" "h_table ?init = tbl" "h_offset ?init = 0" "h_want_i ?init = 0"
    "h_aligned_offset ?init = 0" "h_aligned_i ?init = 0" "m_last_match ?init = 0" "m_calls ?init = []" "m_summed ?init = []"
    using ms by (simp_all add: match_state.extend_def search_state.fields_def)
  have core0: "core_inv c ?init" using ch fixed len bl by (simp add: core_inv_def sel)
  have "marked ?init = {}" using unmarked by (auto simp: marked_def sel)
  moreover have "out_inv c F {} ?init" by (simp add: out_inv_def sel)
  ultimately have inv: "search_inv c F ?st" "m_last_match ?st = 0" "h_offset ?st = 0"
    using reset_window_spec [OF core0, of 0] len sel by (auto simp: search_inv_def)
  have "sb_len (sums ! nat (s_count (c_sum c) - 1)) = block_len (c_sum c) (s_count (c_sum c) - 1)"
    and "0 < block_len (c_sum c) (s_count (c_sum c) - 1)" "block_len (c_sum c) (s_count (c_sum c) - 1) \<le> s_blength (c_sum c)"
    using block_facts [OF ok core0 cnt _ refl] sel by auto
  then have e: "end_ok c ?stop" by (simp add: end_ok_def)
  have gap: "gap_ok c ?stop ?st" using inv bl by (simp add: gap_ok_def CHUNK_SIZE_def)
  obtain st' where st': "search_loop c ?stop (nat (c_len c) + 1) ?st = Some st'" "out_inv c F (marked st') st'"
    "?stop \<le> h_offset st'" "h_offset st' \<le> c_len c" "gap_ok c ?stop st'"
    using search_loop_spec [OF ok e inv(1) _ gap, of "nat (c_len c) + 1"] inv by auto
  have "c_len c - m_last_match st' < 2 ^ 31"
    using gap_small [OF ok e st'(5,4)] st'(3) e by (simp add: end_ok_def)
  from sent_all_end [OF st'(2) len(2) this] show ?thesis
    using st'(1) by (simp add: hash_search_def Let_def)
qed

section \<open>Sending without matches\<close>

definition literal_inv :: "byte list \<Rightarrow> int \<Rightarrow> byte list \<Rightarrow> match_state \<Rightarrow> bool" where
  "literal_inv src start pre st \<longleftrightarrow>
     start \<le> m_last_match st \<and> m_last_match st \<le> int (length src) \<and>
     (\<forall>blk. items_bytes blk (sent_items src (m_calls st)) = file_bytes src start (m_last_match st - start)) \<and>
     (\<forall>same s F off. items_ok same s F off {} (sent_items src (m_calls st))) \<and>
     (\<forall>i. Block i \<notin> set (sent_items src (m_calls st))) \<and>
     m_summed st = pre @ file_bytes src start (m_last_match st - start)"

lemma literal_items_no_block: "Block i \<notin> set (literal_items src offset n len)"
  by (induction src offset n len rule: literal_items.induct)
    (subst literal_items.simps, simp add: Let_def)

lemma literal_inv_matched:
  assumes inv: "literal_inv src start pre st" and tok: "tok < 0"
    and o: "m_last_match st \<le> offset" "offset \<le> int (length src)" "offset - m_last_match st < 2 ^ 31"
  shows "literal_inv src start pre (matched src [] offset tok st)"
proof -
  let ?n = "offset - m_last_match st"
  have n: "cast32 ?n = ?n" using o by (simp add: cast32_id)
  have "file_bytes src start (m_last_match st - start) @ file_bytes src (m_last_match st) ?n = file_bytes src start (offset - start)"
    using file_bytes_append [of "m_last_match st - start" ?n src start] inv o by (simp add: literal_inv_def)
  moreover have "token_items src tok a n = (if n > 0 then literal_items src a n 0 else [])" for a n
    using tok by (simp add: token_items_def)
  ultimately show ?thesis
    using inv o n literal_items_ok literal_items_no_block tok
    by (auto simp: literal_inv_def matched_def Let_def literal_items_bytes sum_chunks_bytes items_ok_append file_bytes_def)
qed

lemma literal_loop_spec:
  assumes "literal_inv src start pre st" and "j = m_last_match st + CHUNK_SIZE" and "len = int (length src)"
    and "list_all (\<lambda>t. fst t = -2) (m_calls st)"
  shows "literal_inv src start pre (literal_loop src len j st) \<and>
    len - m_last_match (literal_loop src len j st) \<le> CHUNK_SIZE \<and>
    list_all (\<lambda>t. fst t = -2) (m_calls (literal_loop src len j st))"
  using assms
proof (induction src len j st rule: literal_loop.induct)
  case (1 src len j st)
  show ?case
  proof (cases "j < len")
    case True
    let ?st = "matched src [] j (-2) st"
    have "literal_inv src start pre ?st"
      using "1.prems" True by (intro literal_inv_matched) (auto simp: CHUNK_SIZE_def)
    moreover have "m_last_match ?st = j" "list_all (\<lambda>t. fst t = -2) (m_calls ?st)"
      using "1.prems" by (auto simp: matched_def Let_def)
    ultimately show ?thesis
      using "1.IH" [OF True] "1.prems"(3) True
      unfolding literal_loop.simps [of src len j st] if_P [OF True] by simp
  next
    case False
    then show ?thesis
      using "1.prems" unfolding literal_loop.simps [of src len j st] if_not_P [OF False] by auto
  qed
qed

definition start_state :: "int \<Rightarrow> byte list \<Rightarrow> match_state" where
  "start_state lastm summed =
     \<lparr>m_last_match = lastm, m_calls = [], m_summed = summed, m_data_transfer = 0, m_matched_data = 0,
      m_false_alarms = 0, m_hash_hits = 0, m_matches = 0\<rparr>"

lemma literal_send_spec:
  assumes "0 \<le> start" and "start \<le> int (length src)" and "len = int (length src)"
    and "ms = matched src [] len (-1) (literal_loop src len (start + CHUNK_SIZE) (start_state start pre))"
  shows "\<exists>calls off n. m_calls ms = calls @ [(-1, off, n)] \<and> list_all (\<lambda>t. fst t = -2) calls"
    and "literal_inv src start pre ms" and "m_last_match ms = len"
proof -
  let ?st = "literal_loop src len (start + CHUNK_SIZE) (start_state start pre)"
  have "literal_inv src start pre (start_state start pre)"
    using assms(1,2) by (simp add: literal_inv_def start_state_def file_bytes_def)
  then have L: "literal_inv src start pre ?st" "len - m_last_match ?st \<le> CHUNK_SIZE"
      "list_all (\<lambda>t. fst t = -2) (m_calls ?st)"
    using literal_loop_spec [of src start pre "start_state start pre" "start + CHUNK_SIZE" len] assms(3)
    by (simp_all add: start_state_def)
  show "literal_inv src start pre ms"
    unfolding assms(4) using L assms(3)
    by (intro literal_inv_matched) (auto simp: literal_inv_def CHUNK_SIZE_def)
  show "\<exists>calls off n. m_calls ms = calls @ [(-1, off, n)] \<and> list_all (\<lambda>t. fst t = -2) calls"
    using L(3) unfolding assms(4) matched_def Let_def by simp
  show "m_last_match ms = len" by (simp add: assms(4) matched_def Let_def)
qed

section \<open>match_sums\<close>

text \<open>The sums handed to match_sums: none, or those of the basis file, not yet marked.\<close>

definition sender_sums_ok :: "bool \<Rightarrow> sum_struct \<Rightarrow> byte list \<Rightarrow> (byte list \<Rightarrow> byte list) \<Rightarrow> byte list \<Rightarrow> bool" where
  "sender_sums_ok updating s F csum2 src \<longleftrightarrow>
     s_count s = 0 \<or>
     sums_ok s F csum2 \<and> list_all (\<lambda>b. \<not> sb_same_offset b) (s_sums s) \<and>
     collision_free updating s F csum2 src \<and> (updating \<longrightarrow> zero_windows_alike s src)"

lemma match_sums_spec:
  assumes ok: "sender_sums_ok updating s F csum2 src" and len: "len = int (length src)"
  shows "\<exists>ms. match_sums updating csum2 fsum 0 status s src len = Some (ms, send_file_sum status (fsum src)) \<and>
    sent_all updating s F src ms \<and> (s_count s = 0 \<longrightarrow> (\<forall>i. Block i \<notin> set (sent_items src (m_calls ms))))"
proof (cases "len > 0 \<and> s_count s > 0")
  case True
  obtain sums tbl ts where b: "build_hash_table s = (sums, tbl, ts)" by (cases "build_hash_table s")
  let ?c = "\<lparr>c_updating = updating, c_csum2 = csum2, c_sum = s, c_src = src, c_len = len, c_tablesize = ts\<rparr>"
  have so: "search_ok ?c F" "s_count s = int (length (s_sums s))"
    using ok True len by (auto simp: sender_sums_ok_def search_ok_def sums_ok_def)
  note B = build_hash_table_ok [OF b so(2)]
  have "length sums = length (s_sums s)" using B(2) by (metis length_map)
  then have "\<not> sb_same_offset (sums ! i)" if "i < length sums" for i
    using that B(4) ok True by (auto simp: sender_sums_ok_def list_all_length)
  then obtain ms where ms: "hash_search ?c sums tbl (start_state 0 []) = Some ms" "sent_all updating s F src ms"
    using hash_search_spec [OF so(1) B(1), of "start_state 0 []"] B(2) by (auto simp: start_state_def)
  then have "m_summed ms = src" by (simp add: sent_all_def)
  then show ?thesis
    using True b ms by (auto simp: match_sums_def Let_def start_state_def)
next
  case False
  let ?ms = "matched src [] len (-1) (literal_loop src len (0 + CHUNK_SIZE) (start_state 0 []))"
  note L = literal_send_spec [of 0 src len ?ms "[]", OF _ _ len refl]
  have c: "len = 0 \<or> s_count s = 0 \<or> s_count s < 0" using False len by auto
  have cnt: "0 \<le> s_count s" using ok by (auto simp: sender_sums_ok_def sums_ok_def)
  have "file_bytes src 0 len = src" using len by (simp add: file_bytes_slice)
  then have "sent_all updating s F src ?ms" "m_summed ?ms = src" "\<forall>i. Block i \<notin> set (sent_items src (m_calls ?ms))"
    using L by (auto simp: sent_all_def literal_inv_def list_all_iff) fastforce+
  then show ?thesis
    using False by (auto simp: match_sums_def Let_def start_state_def)
qed

end
