(* ===== verification/Generator.thy ===== *)
theory Generator
  imports Search_Loop
begin

text \<open>
  The sums the generator makes of the basis file (generator.c: sum_sizes_sqroot,
  generate_and_send_sums) and the sender reads (sender.c: receive_sums).
\<close>

definition BLOCK_SIZE :: int where "BLOCK_SIZE = 700"
definition SUM_LENGTH :: int where "SUM_LENGTH = 16"
definition BLOCKSUM_BIAS :: int where "BLOCKSUM_BIAS = 10"

section \<open>Block and checksum sizes\<close>

text \<open>\<open>for (c = 1, l = len, cnt = 0; l >>= 2; c <<= 1, cnt++) {}\<close>, with the value of c.\<close>

function sqroot_bit :: "int \<Rightarrow> int \<Rightarrow> int" where
  "sqroot_bit l c = (if l \<le> 0 then c else if l div 4 \<noteq> 0 then sqroot_bit (l div 4) (cast32 (2 * c)) else c)"
  by pat_completeness auto
termination
  by (relation "measure (\<lambda>(l, c). nat l)") auto

declare sqroot_bit.simps [simp del]

text \<open>The do loop that sets the bits of blength from \<open>c\<close> down to 8.\<close>

function sqroot_loop :: "int \<Rightarrow> int \<Rightarrow> int \<Rightarrow> int" where
  "sqroot_loop len blength c =
     (let blength = blength OR c;
          blength = (if len < blength * blength then blength AND NOT c else blength);
          c = c div 2
      in if c \<ge> 8 then sqroot_loop len blength c else blength)"
  by pat_completeness auto
termination
  by (relation "measure (\<lambda>(len, blength, c). nat c)") auto

declare sqroot_loop.simps [simp del]

definition block_length :: "nat \<Rightarrow> int \<Rightarrow> int \<Rightarrow> int" where
  "block_length protocol_version block_size len =
     (if block_size \<noteq> 0 then block_size
      else if len \<le> BLOCK_SIZE * BLOCK_SIZE then BLOCK_SIZE
      else
        let max_blength = (if protocol_version < 30 then OLD_MAX_BLOCK_SIZE else MAX_BLOCK_SIZE);
            c = sqroot_bit len 1
        in if c < 0 \<or> c \<ge> max_blength then max_blength
           else max (sqroot_loop len 0 c) BLOCK_SIZE)"

function add_len_bits :: "int \<Rightarrow> int \<Rightarrow> int" where
  "add_len_bits l b = (if l \<le> 0 then b else if l div 2 \<noteq> 0 then add_len_bits (l div 2) (b + 2) else b)"
  by pat_completeness auto
termination
  by (relation "measure (\<lambda>(l, b). nat l)") auto

declare add_len_bits.simps [simp del]

function drop_block_bits :: "int \<Rightarrow> int \<Rightarrow> int" where
  "drop_block_bits c b =
     (if c \<le> 0 then b else if c div 2 \<noteq> 0 \<and> b \<noteq> 0 then drop_block_bits (c div 2) (b - 1) else b)"
  by pat_completeness auto
termination
  by (relation "measure (\<lambda>(c, b). nat c)") auto

declare drop_block_bits.simps [simp del]

text \<open>Division of C, which truncates.\<close>

definition c_div :: "int \<Rightarrow> int \<Rightarrow> int" where
  "c_div a b = (if a < 0 then - ((- a) div b) else a div b)"

definition sum2_length :: "nat \<Rightarrow> int \<Rightarrow> int \<Rightarrow> int \<Rightarrow> int" where
  "sum2_length protocol_version csum_length blength len =
     (if protocol_version < 27 then csum_length
      else if csum_length = SUM_LENGTH then SUM_LENGTH
      else
        let b = drop_block_bits blength (add_len_bits len BLOCKSUM_BIAS);
            s2length = c_div (b + 1 - 32 + 7) 8
        in min (max s2length csum_length) SUM_LENGTH)"

definition sum_sizes_sqroot :: "nat \<Rightarrow> int \<Rightarrow> int \<Rightarrow> int \<Rightarrow> sum_struct" where
  "sum_sizes_sqroot protocol_version csum_length block_size len =
     (if len < 0 then null_sum\<lparr>s_count := -1\<rparr>
      else
        let blength = block_length protocol_version block_size len;
            remainder = len mod blength;
            l = len div blength + (if remainder \<noteq> 0 then 1 else 0);
            count = cast32 l
        in \<lparr>s_flength = len, s_sums = [], s_count = (if count \<noteq> l then -1 else count), s_blength = blength,
            s_remainder = remainder, s_s2length = sum2_length protocol_version csum_length blength len\<rparr>)"

section \<open>Sending and receiving the sums\<close>

text \<open>
  The loop of generate_and_send_sums; the result is what goes to f_out and what goes to the
  backup copy f_copy.
\<close>

fun sums_loop :: "(byte list \<Rightarrow> byte list) \<Rightarrow> int \<Rightarrow> bool \<Rightarrow> sum_struct \<Rightarrow> byte list \<Rightarrow> nat \<Rightarrow> int \<Rightarrow> int \<Rightarrow>
    byte list \<times> byte list" where
  "sums_loop csum2 append_mode f_copy s F 0 offset len = ([], [])"
| "sums_loop csum2 append_mode f_copy s F (Suc n) offset len =
     (let n1 = min len (s_blength s);
          map = file_bytes F offset n1;
          (out, copy) = sums_loop csum2 append_mode f_copy s F n (offset + n1) (len - n1)
      in if f_copy \<and> append_mode > 0 then (out, map @ copy)
         else (write_int (get_checksum1 map) @ take (nat (s_s2length s)) (csum2 map) @ out,
               if f_copy then map @ copy else copy))"

definition generate_and_send_sums :: "nat \<Rightarrow> int \<Rightarrow> int \<Rightarrow> (byte list \<Rightarrow> byte list) \<Rightarrow> int \<Rightarrow> bool \<Rightarrow>
    byte list \<Rightarrow> int \<Rightarrow> (byte list \<times> byte list) option" where
  "generate_and_send_sums protocol_version csum_length block_size csum2 append_mode f_copy F len =
     (let s = sum_sizes_sqroot protocol_version csum_length block_size len in
      if s_count s < 0 then None
      else
        let head = write_sum_head protocol_version (Some s) in
        if append_mode > 0 \<and> \<not> f_copy then Some (head, [])
        else case sums_loop csum2 append_mode f_copy s F (nat (s_count s)) 0 len of
               (out, copy) \<Rightarrow> Some (head @ out, copy))"

text \<open>The loop of receive_sums reads the entries for blocks \<open>i\<close>, ..., count - 1.\<close>

fun receive_sums_loop :: "sum_struct \<Rightarrow> nat \<Rightarrow> int \<Rightarrow> int \<Rightarrow> byte list \<Rightarrow> (sum_buf list \<times> int \<times> byte list) result" where
  "receive_sums_loop s 0 i offset str = Inr ([], offset, str)"
| "receive_sums_loop s (Suc n) i offset str =
     res_bind (read_int str) (\<lambda>(sum1, str).
     res_bind (read_buf (nat (s_s2length s)) str) (\<lambda>(sum2, str).
       let len = (if i = s_count s - 1 \<and> s_remainder s \<noteq> 0 then s_remainder s else s_blength s);
           b = \<lparr>sb_offset = offset, sb_len = len, sb_sum1 = sum1, sb_chain = 0, sb_same_offset = False, sb_sum2 = sum2\<rparr>
       in res_bind (receive_sums_loop s n (i + 1) (offset + len) str) (\<lambda>(bs, offset, str).
            Inr (b # bs, offset, str))))"

definition receive_sums :: "nat \<Rightarrow> int \<Rightarrow> int \<Rightarrow> byte list \<Rightarrow> (sum_struct \<times> byte list) result" where
  "receive_sums protocol_version csum_length append_mode str =
     res_bind (read_sum_head protocol_version csum_length null_sum str) (\<lambda>(s, str).
       let s = s\<lparr>s_sums := []\<rparr> in
       if append_mode > 0 then
         Inr (s\<lparr>s_flength := s_count s * s_blength s
                  - (if s_remainder s \<noteq> 0 then s_blength s - s_remainder s else 0)\<rparr>, str)
       else if s_count s = 0 then Inr (s, str)
       else res_bind (receive_sums_loop s (nat (s_count s)) 0 0 str) (\<lambda>(bs, offset, str).
              Inr (s\<lparr>s_sums := bs, s_flength := offset\<rparr>, str)))"

section \<open>The block size is a rounded square root\<close>

lemma bit_of_multiple:
  fixes a :: int
  assumes "2 ^ (k + 1) dvd a"
  shows "a OR 2 ^ k = a + 2 ^ k" and "(a + 2 ^ k) AND NOT (2 ^ k) = a"
proof -
  define x where "x = a div 2 ^ (k + 1)"
  have "a = push_bit (k + 1) x"
    using assms unfolding push_bit_eq_mult x_def by (rule dvd_div_mult_self [symmetric])
  then have b: "bit a n \<Longrightarrow> k < n" for n
    by (simp only: bit_push_bit_iff) simp
  show or: "a OR 2 ^ k = a + 2 ^ k"
    using b by (intro disjunctive_add [symmetric]) (auto simp: bit_exp_iff)
  show "(a + 2 ^ k) AND NOT (2 ^ k) = a"
    unfolding or [symmetric] by (rule bit_eqI) (use b in \<open>auto simp: bit_simps\<close>)
qed

lemma sqroot_loop_spec:
  assumes "c = 2 ^ k" and "3 \<le> k" and "2 * c dvd b" and "0 \<le> b" and "b * b \<le> len" and "len < (b + 2 * c) * (b + 2 * c)"
    and "r = sqroot_loop len b c"
  shows "0 \<le> r \<and> r * r \<le> len \<and> len < (r + 8) * (r + 8) \<and> 8 dvd r"
  using assms
proof (induction k arbitrary: b c)
  case 0
  then show ?case by simp
next
  case (Suc k)
  have B: "b OR c = b + c" "(b + c) AND NOT c = b"
    using bit_of_multiple [of "Suc k" b] Suc.prems(1,3) by simp_all
  define b' where "b' = (if len < (b + c) * (b + c) then b else b + c)"
  have c2: "c div 2 = 2 ^ k" "c = 2 * 2 ^ k" "0 < c" using Suc.prems(1) by auto
  have dvd: "c dvd b" using Suc.prems(3) by (meson dvd_mult_right dvd_trans)
  have b': "c dvd b'" "0 \<le> b'" "b' * b' \<le> len" "len < (b' + c) * (b' + c)"
    using Suc.prems(4,5,6) dvd c2(3) by (auto simp: b'_def algebra_simps)
  have r: "r = (if c div 2 \<ge> 8 then sqroot_loop len b' (c div 2) else b')"
    using Suc.prems(7) by (simp add: sqroot_loop.simps [of len b c] B b'_def Let_def)
  show ?case
  proof (cases "k \<ge> 3")
    case True
    then have "(2 :: int) ^ 3 \<le> 2 ^ k" by (intro power_increasing) auto
    then have "c div 2 \<ge> 8" using c2 by simp
    then show ?thesis
      using Suc.IH [OF c2(1) True, of b'] b' r c2 by simp
  next
    case False
    then have "k = 2" using Suc.prems(2) by simp
    then have "c = 8" "c div 2 < 8" using c2 by simp_all
    then show ?thesis using b' r by simp
  qed
qed


text \<open>The first loop finds the largest power of two whose square is not larger than \<open>l\<close>.\<close>

lemma sqroot_bit_spec:
  assumes "1 \<le> l" and "l < 4 ^ 31" and "c = 2 ^ k" and "4 ^ k * l < 4 ^ 31"
  shows "\<exists>m. sqroot_bit l c = 2 ^ (k + m) \<and> 4 ^ m \<le> l \<and> l < 4 ^ (m + 1)"
  using assms
proof (induction l c arbitrary: k rule: sqroot_bit.induct)
  case (1 l c)
  show ?case
  proof (cases "l div 4 = 0")
    case True
    then show ?thesis
      using "1.prems" by (intro exI [of _ 0], subst sqroot_bit.simps) auto
  next
    case False
    then have l: "1 \<le> l div 4" "\<not> l \<le> 0" using "1.prems"(1) by auto
    have "(4 :: int) ^ k * 4 < 4 ^ 31"
    proof -
      have "(4 :: int) ^ k * 4 \<le> 4 ^ k * l" using l by (intro mult_left_mono) auto
      then show ?thesis using "1.prems"(4) by (rule order.strict_trans1)
    qed
    then have "(4 :: int) ^ (k + 1) < 4 ^ 31" by (simp only: power_add power_one_right)
    then have k: "k + 1 < 31" by (metis less_le one_less_numeral_iff power_strict_increasing_iff semiring_norm(76) not_le power_increasing_iff)
    then have "(2 :: int) ^ (k + 1) < 2 ^ 31" by (intro power_strict_increasing) auto
    then have c: "cast32 (2 * c) = 2 ^ (k + 1)"
      using "1.prems"(3) cast32_id [of "2 ^ (k + 1)"] by (simp add: order.trans [of _ 0])
    have "4 ^ (k + 1) * (l div 4) \<le> 4 ^ k * l"
    proof -
      have "4 ^ k * (4 * (l div 4)) \<le> 4 ^ k * l" by (intro mult_left_mono) auto
      then show ?thesis by (simp add: mult.assoc)
    qed
    then obtain m where m: "sqroot_bit (l div 4) (cast32 (2 * c)) = 2 ^ (k + 1 + m)" "4 ^ m \<le> l div 4" "l div 4 < 4 ^ (m + 1)"
      using "1.IH" [OF l(2) False l(1) _ c] "1.prems"(2,4) l by fastforce
    then show ?thesis
      using False l by (intro exI [of _ "m + 1"]) (auto simp: sqroot_bit.simps [of l c])
  qed
qed

lemma block_length_sqroot:
  assumes "BLOCK_SIZE * BLOCK_SIZE < len" and "len < 2 ^ 62" and "b = block_length pv 0 len"
  shows "b * b \<le> len" and "len < (b + 8) * (b + 8) \<or> b = (if pv < 30 then OLD_MAX_BLOCK_SIZE else MAX_BLOCK_SIZE)"
proof -
  have len: "1 \<le> len" "len < 4 ^ 31" "490000 < len" using assms(1,2) by (simp_all add: BLOCK_SIZE_def)
  obtain m where m: "sqroot_bit len 1 = 2 ^ m" "4 ^ m \<le> len" "len < 4 ^ (m + 1)"
    using sqroot_bit_spec [OF len(1,2), of 1 0] len by auto
  let ?max = "if pv < 30 then OLD_MAX_BLOCK_SIZE else MAX_BLOCK_SIZE"
  have sq: "(2 :: int) ^ m * 2 ^ m = 4 ^ m" by (simp flip: power_mult_distrib)
  have "b * b \<le> len \<and> (len < (b + 8) * (b + 8) \<or> b = ?max)"
  proof (cases "2 ^ m \<ge> ?max")
    case True
    then have b: "b = ?max" using assms(1,3) m(1) by (simp add: block_length_def Let_def)
    have "?max * ?max \<le> 2 ^ m * 2 ^ m"
      using True by (intro mult_mono) (auto simp: OLD_MAX_BLOCK_SIZE_def MAX_BLOCK_SIZE_def)
    then show ?thesis using b m(2) sq by simp
  next
    case False
    have "\<not> m < 9"
    proof
      assume "m < 9"
      then have "(4 :: int) ^ (m + 1) \<le> 4 ^ 9" by (intro power_increasing) auto
      then show False using m(3) len(3) by simp
    qed
    then have m9: "3 \<le> m" by simp
    have sq2: "(0 + 2 * (2 :: int) ^ m) * (0 + 2 * 2 ^ m) = 4 ^ (m + 1)" using sq by simp
    define r where "r = sqroot_loop len 0 (2 ^ m)"
    have r: "0 \<le> r" "r * r \<le> len" "len < (r + 8) * (r + 8)"
      using sqroot_loop_spec [OF refl m9, of 0 len r] m len sq2 by (auto simp: r_def)
    have "700 - 8 < r"
    proof (rule ccontr)
      assume "\<not> 700 - 8 < r"
      then have "(r + 8) * (r + 8) \<le> 700 * 700" using r(1) by (intro mult_mono) auto
      then show False using r(3) len(3) by simp
    qed
    moreover have "8 dvd r" using sqroot_loop_spec [OF refl m9, of 0 len r] m len sq2 by (auto simp: r_def)
    ultimately have r696: "696 \<le> r" by presburger
    have b: "b = max r BLOCK_SIZE" using assms(1,3) m(1) False by (simp add: block_length_def Let_def r_def)
    have "b \<le> r + 4" "r \<le> b" using b r696 by (auto simp: BLOCK_SIZE_def)
    then have "(r + 8) * (r + 8) \<le> (b + 8) * (b + 8)" using r(1) by (intro mult_mono) auto
    moreover have "b * b \<le> len" using b r(2) assms(1) by (auto simp: max_def)
    ultimately show ?thesis using r(3) by simp
  qed
  then show "b * b \<le> len" "len < (b + 8) * (b + 8) \<or> b = ?max" by auto
qed

section \<open>The sizes fit the header\<close>

lemma sqroot_loop_bounds:
  assumes "c = 2 ^ k" and "3 \<le> k" and "2 * c dvd b" and "0 \<le> b"
  shows "b \<le> sqroot_loop len b c \<and> sqroot_loop len b c < b + 2 * c"
  using assms
proof (induction k arbitrary: b c)
  case 0
  then show ?case by simp
next
  case (Suc k)
  have B: "b OR c = b + c" "(b + c) AND NOT c = b"
    using bit_of_multiple [of "Suc k" b] Suc.prems(1,3) by simp_all
  define b' where "b' = (if len < (b + c) * (b + c) then b else b + c)"
  have c2: "c div 2 = 2 ^ k" "c = 2 * 2 ^ k" "0 < c" using Suc.prems(1) by auto
  have dvd: "2 * 2 ^ k dvd b'" "0 \<le> b'"
    using Suc.prems(3,4) c2 by (auto simp: b'_def dest: dvd_mult_right)
  have r: "sqroot_loop len b c = (if c div 2 \<ge> 8 then sqroot_loop len b' (c div 2) else b')"
    by (simp add: sqroot_loop.simps [of len b c] B b'_def Let_def)
  show ?case
  proof (cases "k \<ge> 3")
    case True
    have "b' \<le> sqroot_loop len b' (2 ^ k) \<and> sqroot_loop len b' (2 ^ k) < b' + c"
      using Suc.IH [OF refl True dvd] c2 by simp
    then show ?thesis using r c2 by (auto simp: b'_def)
  next
    case False
    then have "k = 2" using Suc.prems(2) by simp
    then show ?thesis using r c2 by (auto simp: b'_def)
  qed
qed

lemma block_length_bounds:
  assumes "0 \<le> len" and "len < 2 ^ 62" and "0 \<le> bs" and "bs \<le> (if pv < 30 then OLD_MAX_BLOCK_SIZE else MAX_BLOCK_SIZE)"
  shows "0 < block_length pv bs len" and "block_length pv bs len \<le> (if pv < 30 then OLD_MAX_BLOCK_SIZE else MAX_BLOCK_SIZE)"
proof -
  let ?max = "if pv < 30 then OLD_MAX_BLOCK_SIZE else MAX_BLOCK_SIZE"
  have max: "BLOCK_SIZE \<le> ?max" "?max = 2 ^ (if pv < 30 then 29 else 17)"
    by (auto simp: BLOCK_SIZE_def OLD_MAX_BLOCK_SIZE_def MAX_BLOCK_SIZE_def)
  have "0 < block_length pv bs len \<and> block_length pv bs len \<le> ?max"
  proof (cases "bs \<noteq> 0 \<or> len \<le> BLOCK_SIZE * BLOCK_SIZE")
    case True
    then show ?thesis using assms max by (auto simp: block_length_def BLOCK_SIZE_def)
  next
    case False
    then have len: "1 \<le> len" "len < 4 ^ 31" "490000 < len" using assms(1,2) by (auto simp: BLOCK_SIZE_def)
    obtain m where m: "sqroot_bit len 1 = 2 ^ m" "4 ^ m \<le> len" "len < 4 ^ (m + 1)"
      using sqroot_bit_spec [OF len(1,2), of 1 0] len by auto
    have "\<not> m < 9"
    proof
      assume "m < 9"
      then have "(4 :: int) ^ (m + 1) \<le> 4 ^ 9" by (intro power_increasing) auto
      then show False using m(3) len(3) by simp
    qed
    then have r: "sqroot_loop len 0 (2 ^ m) < 2 * 2 ^ m" using sqroot_loop_bounds [OF refl, of m 0 len] by auto
    have "2 * 2 ^ m \<le> ?max" if "(2 :: int) ^ m < ?max"
    proof -
      have "m < (if pv < 30 then 29 else 17)"
        using that unfolding max(2) by (meson one_less_numeral_iff power_strict_increasing_iff semiring_norm(76))
      then have "(2 :: int) ^ (m + 1) \<le> 2 ^ (if pv < 30 then 29 else 17)" by (intro power_increasing) auto
      then show ?thesis unfolding max(2) by simp
    qed
    then show ?thesis
      using False m(1) r max by (auto simp: block_length_def Let_def BLOCK_SIZE_def)
  qed
  then show "0 < block_length pv bs len" "block_length pv bs len \<le> ?max" by auto
qed

lemma sum_sizes_ok:
  assumes "0 \<le> len" and "len < 2 ^ 62" and "0 \<le> bs" and "bs \<le> (if pv < 30 then OLD_MAX_BLOCK_SIZE else MAX_BLOCK_SIZE)"
    and "0 \<le> csl" and "csl \<le> SUM_LENGTH" and "s = sum_sizes_sqroot pv csl bs len" and "0 \<le> s_count s"
  shows "sum_head_ok pv s" "0 < s_blength s" "pv < 27 \<longrightarrow> s_s2length s = csl"
    "s_remainder s < s_blength s" "s_sums s = []"
    "len = s_count s * s_blength s - (if s_remainder s \<noteq> 0 then s_blength s - s_remainder s else 0)"
proof -
  note B = block_length_bounds [OF assms(1-4)]
  let ?b = "block_length pv bs len"
  have s2: "0 \<le> sum2_length pv csl b len \<and> sum2_length pv csl b len \<le> MAX_DIGEST_LEN" for b
    using assms(5,6) by (auto simp: sum2_length_def Let_def SUM_LENGTH_def MAX_DIGEST_LEN_def)
  have s: "s_blength s = ?b" "s_remainder s = len mod ?b" "s_s2length s = sum2_length pv csl ?b len" "s_sums s = []"
    "s_count s = len div ?b + (if len mod ?b \<noteq> 0 then 1 else 0)"
    using assms(1,7,8) by (auto simp: sum_sizes_sqroot_def Let_def split: if_splits)
  have cnt: "s_count s < 2 ^ 31"
  proof -
    have "cast32 x < 2 ^ 31" for x using sint_lt [of "word_of_int x :: int32"] by (simp add: cast32_def)
    moreover have "s_count s = -1 \<or> s_count s = cast32 (len div ?b + (if len mod ?b \<noteq> 0 then 1 else 0))"
      using assms(1,7) by (auto simp: sum_sizes_sqroot_def Let_def)
    ultimately show ?thesis by (metis assms(8) neg_0_le_iff_le not_one_le_zero)
  qed
  show "sum_head_ok pv s"
    using B s2 s assms(8) cnt by (simp add: sum_head_ok_def less_imp_le)
  show "0 < s_blength s" "pv < 27 \<longrightarrow> s_s2length s = csl" "s_remainder s < s_blength s" "s_sums s = []"
    using B s by (auto simp: sum2_length_def)
  show "len = s_count s * s_blength s - (if s_remainder s \<noteq> 0 then s_blength s - s_remainder s else 0)"
    using s by (auto simp: algebra_simps)
qed

section \<open>The sums that arrive\<close>

text \<open>The blocks that cover a file of \<open>len\<close> bytes.\<close>

definition covers :: "sum_struct \<Rightarrow> int \<Rightarrow> bool" where
  "covers s len \<longleftrightarrow> 0 < s_blength s \<and> 0 \<le> s_count s \<and> 0 \<le> s_remainder s \<and> s_remainder s < s_blength s \<and>
     len = s_count s * s_blength s - (if s_remainder s \<noteq> 0 then s_blength s - s_remainder s else 0) \<and> 0 \<le> len"

lemma covers_block:
  assumes "covers s len" and "0 \<le> i" and "i < s_count s"
  shows "min (len - i * s_blength s) (s_blength s) = block_len s i" "0 < block_len s i" "block_len s i \<le> s_blength s"
    "i * s_blength s + block_len s i \<le> len"
    "i + 1 < s_count s \<Longrightarrow> block_len s i = s_blength s"
proof -
  let ?b = "s_blength s"
  have b: "0 < ?b" using assms(1) by (simp add: covers_def)
  show full: "i + 1 < s_count s \<Longrightarrow> block_len s i = ?b" by (simp add: block_len_def)
  have inner: "(i + 2) * ?b \<le> s_count s * ?b" if "i + 1 < s_count s"
    using that b by (intro mult_right_mono) auto
  have "min (len - i * ?b) ?b = block_len s i \<and> 0 < block_len s i \<and> block_len s i \<le> ?b \<and> i * ?b + block_len s i \<le> len"
  proof (cases "i + 1 < s_count s")
    case True
    then show ?thesis
      using full [OF True] inner [OF True] assms(1) by (auto simp: covers_def algebra_simps split: if_splits)
  next
    case False
    then have i: "i = s_count s - 1" using assms(3) by simp
    then have "s_count s * ?b = (i + 1) * ?b" by simp
    then have "s_count s * ?b = i * ?b + ?b" by (simp add: distrib_right)
    then show ?thesis
      using assms(1) i by (auto simp: covers_def block_len_def)
  qed
  then show "min (len - i * ?b) ?b = block_len s i" "0 < block_len s i" "block_len s i \<le> ?b" "i * ?b + block_len s i \<le> len"
    by auto
qed

text \<open>What arrives for a block.\<close>

definition received_block :: "(byte list \<Rightarrow> byte list) \<Rightarrow> sum_struct \<Rightarrow> byte list \<Rightarrow> int \<Rightarrow> sum_buf" where
  "received_block csum2 s F i =
     \<lparr>sb_offset = i * s_blength s, sb_len = block_len s i, sb_sum1 = get_checksum1 (basis_block s F i), sb_chain = 0,
      sb_same_offset = False, sb_sum2 = take (nat (s_s2length s)) (csum2 (basis_block s F i))\<rparr>"

lemma receive_sums_loop_spec:
  assumes cov: "covers s (int (length F))" and csum: "\<And>d. s_s2length s \<le> int (length (csum2 d))"
    and i: "0 \<le> i" "i + int n = s_count s"
    and out: "sums_loop csum2 0 False s F n (i * s_blength s) (int (length F) - i * s_blength s) = (out, copy)"
  shows "\<exists>offset. receive_sums_loop s n i (i * s_blength s) (out @ rest) =
    Inr (map (received_block csum2 s F) (map (\<lambda>j. i + int j) [0..<n]), offset, rest)"
  using i out
proof (induction n arbitrary: i out copy)
  case 0
  then show ?case by simp
next
  case (Suc n)
  let ?off = "i * s_blength s" and ?blk = "basis_block s F i"
  have i: "i < s_count s" using Suc.prems(2) by simp
  note C = covers_block [OF cov Suc.prems(1) i]
  obtain out1 copy1 where r: "sums_loop csum2 0 False s F n (?off + block_len s i) (int (length F) - ?off - block_len s i) = (out1, copy1)"
    by fastforce
  have out: "out = write_int (get_checksum1 ?blk) @ take (nat (s_s2length s)) (csum2 ?blk) @ out1"
    using Suc.prems(3) C(1) r by (simp add: basis_block_def Let_def)
  have rb: "read_buf (nat (s_s2length s)) (take (nat (s_s2length s)) (csum2 ?blk) @ x) = Inr (take (nat (s_s2length s)) (csum2 ?blk), x)" for x
    using csum [of ?blk] by (simp add: read_buf_def)
  have "\<exists>offset. receive_sums_loop s n (i + 1) (?off + block_len s i) (out1 @ rest) =
      Inr (map (received_block csum2 s F) (map (\<lambda>j. i + 1 + int j) [0..<n]), offset, rest)"
  proof (cases "i + 1 < s_count s")
    case True
    then have e1: "?off + block_len s i = (i + 1) * s_blength s" using C(5) by (simp add: algebra_simps)
    then have e2: "int (length F) - ?off - block_len s i = int (length F) - (i + 1) * s_blength s" by linarith
    show ?thesis using Suc.IH [of "i + 1" out1 copy1] Suc.prems(1,2) r unfolding e1 e2 by simp
  next
    case False
    then have "n = 0" using Suc.prems(2) by simp
    then show ?thesis using r by simp
  qed
  then obtain offset where rec: "receive_sums_loop s n (i + 1) (?off + block_len s i) (out1 @ rest) =
      Inr (map (received_block csum2 s F) (map (\<lambda>j. i + 1 + int j) [0..<n]), offset, rest)" ..
  have step: "receive_sums_loop s (Suc n) i ?off (out @ rest) =
      res_bind (receive_sums_loop s n (i + 1) (?off + block_len s i) (out1 @ rest)) (\<lambda>(bs, offset, str).
        Inr (received_block csum2 s F i # bs, offset, str))"
    using rb by (simp add: out received_block_def block_len_def Let_def)
  have "[0..<Suc n] = 0 # map Suc [0..<n]"
    by (simp add: map_Suc_upt upt_conv_Cons del: upt_Suc)
  then have "map (\<lambda>j. i + int j) [0..<Suc n] = i # map (\<lambda>j. i + 1 + int j) [0..<n]"
    by (simp add: comp_def algebra_simps del: upt_Suc)
  then show ?case using step rec by simp
qed

lemma sums_ok_received:
  assumes "covers s (int (length F))" and "sum_head_ok pv s" and "s_count s \<noteq> 0"
  shows "sums_ok (s\<lparr>s_sums := map (received_block csum2 s F) (map int [0..<nat (s_count s)]), s_flength := offset\<rparr>) F csum2"
    (is "sums_ok ?s F csum2")
proof -
  have blk: "block_len ?s i = block_len s i" "basis_block ?s F i = basis_block s F i" for i
    by (simp_all add: block_len_def basis_block_def)
  have "s_blength s \<le> OLD_MAX_BLOCK_SIZE" "0 < s_blength s" "0 < s_count s" "s_count s < 2 ^ 31"
    using assms by (auto simp: sum_head_ok_def covers_def OLD_MAX_BLOCK_SIZE_def MAX_BLOCK_SIZE_def split: if_splits)
  then show ?thesis
    unfolding sums_ok_def Let_def blk using covers_block(2,3,4) [OF assms(1)]
    by (simp add: received_block_def sum2_eq_def)
qed

text \<open>
  The sender receives the sums of exactly the blocks of the basis file, in the form the search
  relies on.
\<close>

lemma receive_sums_generated:
  assumes F: "int (length F) < 2 ^ 62" and bs: "0 \<le> bs" "bs \<le> (if pv < 30 then OLD_MAX_BLOCK_SIZE else MAX_BLOCK_SIZE)"
    and csl: "0 \<le> csl" "csl \<le> SUM_LENGTH" and csum: "\<And>d. length (csum2 d) = nat SUM_LENGTH"
    and gen: "generate_and_send_sums pv csl bs csum2 0 False F (int (length F)) = Some (out, copy)"
  shows "\<exists>s. receive_sums pv csl 0 (out @ rest) = Inr (s, rest) \<and> sum_head_ok pv s \<and> covers s (int (length F)) \<and>
    (pv < 27 \<longrightarrow> s_s2length s = csl) \<and> (s_count s = 0 \<longleftrightarrow> F = []) \<and>
    (s_count s \<noteq> 0 \<longrightarrow> sums_ok s F csum2 \<and> list_all (\<lambda>b. \<not> sb_same_offset b) (s_sums s))"
proof -
  define g where "g = sum_sizes_sqroot pv csl bs (int (length F))"
  have g0: "0 \<le> s_count g" using gen by (auto simp: generate_and_send_sums_def g_def Let_def split: if_splits)
  note G = sum_sizes_ok [OF _ F bs csl g_def g0, simplified]
  have cov: "covers g (int (length F))" using G g0 by (auto simp: covers_def sum_head_ok_def)
  obtain sout where out: "out = write_sum_head pv (Some g) @ sout"
    "sums_loop csum2 0 False g F (nat (s_count g)) 0 (int (length F)) = (sout, copy)"
    using gen g0 by (auto simp: generate_and_send_sums_def g_def [symmetric] Let_def split: if_splits prod.splits)
  define h where "h = null_sum\<lparr>s_count := s_count g, s_blength := s_blength g, s_s2length := s_s2length g, s_remainder := s_remainder g\<rparr>"
  have head: "read_sum_head pv csl null_sum (out @ rest) = Inr (h, sout @ rest)"
    using read_sum_head_write_sum_head [OF G(1), of csl null_sum "sout @ rest"] G(3) by (simp add: out h_def)
  have h: "s_count h = s_count g" "s_blength h = s_blength g" "s_s2length h = s_s2length g" "s_remainder h = s_remainder g"
    by (simp_all add: h_def)
  have hs: "sum_head_ok pv (h\<lparr>s_sums := x, s_flength := y\<rparr>)" "covers (h\<lparr>s_sums := x, s_flength := y\<rparr>) (int (length F))" for x y
    using G(1) cov by (simp_all add: sum_head_ok_def covers_def h)
  have cnt: "s_count g = 0 \<longleftrightarrow> F = []"
  proof
    assume "F = []"
    then show "s_count g = 0" using covers_block(2,4) [OF cov, of 0] g0 by fastforce
  qed (use cov in \<open>auto simp: covers_def split: if_splits\<close>)
  show ?thesis
  proof (cases "s_count g = 0")
    case True
    then have "sout = []" using out(2) by simp
    then show ?thesis
      using head h True hs [where x = "[]" and y = "s_flength h"] G(3) cnt by (simp add: receive_sums_def Let_def)
  next
    case False
    define h0 where "h0 = h\<lparr>s_sums := []\<rparr>"
    have lp: "sums_loop csum2 0 False x F n off len = sums_loop csum2 0 False y F n off len"
      if "s_blength x = s_blength y" "s_s2length x = s_s2length y" for x y n off len
      using that by (induction n arbitrary: off len) (simp_all add: Let_def)
    have "covers h0 (int (length F))" "sums_loop csum2 0 False h0 F (nat (s_count g)) (0 * s_blength h0) (int (length F) - 0 * s_blength h0) = (sout, copy)"
      using hs(2) [where x = "[]" and y = "s_flength h"] out(2) lp [of h0 g] by (simp_all add: h0_def h)
    moreover have "s_s2length h0 \<le> int (length (csum2 d))" for d
      using G(1) csum by (simp add: h0_def h sum_head_ok_def SUM_LENGTH_def MAX_DIGEST_LEN_def)
    ultimately obtain offset where rl: "receive_sums_loop h0 (nat (s_count g)) 0 0 (sout @ rest) =
        Inr (map (received_block csum2 h0 F) (map int [0..<nat (s_count g)]), offset, rest)"
      using receive_sums_loop_spec [of h0 F csum2 0 "nat (s_count g)" sout copy rest] g0 by (auto simp: h0_def h)
    let ?sums = "map (received_block csum2 h0 F) (map int [0..<nat (s_count g)])"
    let ?s = "h0\<lparr>s_sums := ?sums, s_flength := offset\<rparr>"
    have rs: "receive_sums pv csl 0 (out @ rest) = Inr (?s, rest)"
      using head False rl h by (simp add: receive_sums_def Let_def h0_def [symmetric]) (simp add: h0_def h)
    have s0: "sum_head_ok pv h0" "covers h0 (int (length F))" "s_count h0 = s_count g"
      using hs [where x = "[]" and y = "s_flength h"] by (simp_all add: h0_def h)
    have s: "sum_head_ok pv ?s" "covers ?s (int (length F))" using hs by (simp_all add: h0_def)
    have "sums_ok ?s F csum2"
      using sums_ok_received [OF s0(2,1)] False s0(3) by simp
    then show ?thesis
      using rs s G(3) cnt by (auto simp: h0_def h received_block_def list_all_iff)
  qed
qed

end
