(* ===== verification/FileTransfer.thy ===== *)
theory FileTransfer
  imports Generator
begin

text \<open>
  One file of a transfer, from end to end: the generator sends the sums of its basis file, the
  sender answers with tokens and a checksum, the receiver rebuilds the file.
\<close>

definition token_stream :: "byte list \<Rightarrow> (int \<times> int \<times> int) list \<Rightarrow> byte list" where
  "token_stream src calls = concat (map (\<lambda>(i, offset, n). simple_send_token src i offset n) calls)"

text \<open>What send_files writes for the data of one file.\<close>

definition send_file_data :: "nat \<Rightarrow> bool \<Rightarrow> (byte list \<Rightarrow> byte list) \<Rightarrow> (byte list \<Rightarrow> byte list) \<Rightarrow> int \<Rightarrow> int \<Rightarrow>
    sum_struct \<Rightarrow> byte list \<Rightarrow> byte list option" where
  "send_file_data protocol_version updating csum2 fsum append_mode status s src =
     map_option (\<lambda>(ms, file_sum). write_sum_head protocol_version (Some s) @ token_stream src (m_calls ms) @ file_sum)
       (match_sums updating csum2 fsum append_mode status s src (int (length src)))"

lemma recv_items_stream:
  assumes "list_all (\<lambda>(i, _, _). i = -2 \<or> 0 \<le> i \<and> i < 2 ^ 31 - 1) calls"
  shows "recv_items 0 (token_stream src calls @ str) =
    res_bind (recv_items 0 str) (\<lambda>(its, str'). Inr (sent_items src calls @ its, str'))"
  using assms
proof (induction calls)
  case Nil
  show ?case by (cases "recv_items 0 str") (auto simp: token_stream_def)
next
  case (Cons t calls)
  obtain i off n where t: "t = (i, off, n)" by (cases t)
  have "recv_items 0 (token_stream src (t # calls) @ str) =
      recv_items 0 (simple_send_token src i off n @ (token_stream src calls @ str))"
    by (simp add: t token_stream_def)
  also have "\<dots> = res_bind (recv_items 0 (token_stream src calls @ str)) (\<lambda>(its, str'). Inr (token_items src i off n @ its, str'))"
    using Cons.prems t by (intro recv_items_token) auto
  finally show ?case
    using Cons by (cases "recv_items 0 str") (auto simp: t sent_items_def)
qed

lemma recv_items_complete:
  assumes "sent_all upd s F src ms" and "s_count s < 2 ^ 31"
  shows "recv_items 0 (token_stream src (m_calls ms) @ str) = Inr (sent_items src (m_calls ms), str)"
proof -
  obtain calls off n where c: "m_calls ms = calls @ [(-1, off, n)]"
    "list_all (\<lambda>(i, _, _). i = -2 \<or> 0 \<le> i \<and> i < s_count s) calls"
    using assms(1) by (auto simp: sent_all_def)
  have "token_stream src (m_calls ms) @ str = token_stream src calls @ (simple_send_token src (-1) off n @ str)"
    by (simp add: c token_stream_def)
  moreover have "list_all (\<lambda>(i, _, _). i = -2 \<or> 0 \<le> i \<and> i < 2 ^ 31 - 1) calls"
    using c(2) assms(2) by (auto simp: list_all_iff split: prod.splits)
  ultimately show ?thesis
    using recv_items_stream recv_items_end [of src off n str] by (simp add: c sent_items_def token_items_def)
qed

lemma items_ok_weaken: "items_ok True s F off kept its \<Longrightarrow> items_ok same s F off kept its"
  by (induction same s F off kept its rule: items_ok.induct) auto

lemma items_ok_cong:
  assumes "s_count s = s_count t" "s_blength s = s_blength t" "s_remainder s = s_remainder t"
  shows "items_ok same s F off kept its = items_ok same t F off kept its" "basis_block s F = basis_block t F"
proof -
  have b: "block_len s i = block_len t i" for i using assms by (simp add: block_len_def)
  show "items_ok same s F off kept its = items_ok same t F off kept its"
  proof (induction its arbitrary: off kept)
    case (Cons it its)
    then show ?case by (cases it) (simp_all add: b assms)
  qed simp
  show "basis_block s F = basis_block t F" by (simp add: basis_block_def b assms fun_eq_iff)
qed

text \<open>
  The sender's stream applied to the basis file gives the source file, and the checksums agree.
\<close>

lemma transfer_correct:
  assumes head: "sum_head_ok pv s" "pv < 27 \<longrightarrow> s_s2length s = csl"
    and ok: "sender_sums_ok upd s F csum2 src" and empty: "F = [] \<longrightarrow> s_count s = 0"
    and cfg: "rc_protocol_version cfg = pv" "rc_csum_length cfg = csl" "rc_append_mode cfg = 0" "rc_fd_open cfg"
    and upd: "rc_same_file cfg \<longrightarrow> rc_updating cfg \<and> upd" "rc_updating cfg \<longrightarrow> dst = F"
      "\<not> rc_inplace_sizing cfg \<longrightarrow> length dst \<le> length src"
    and wok: "\<And>off d. wok off d"
  shows "\<exists>str. send_file_data pv upd csum2 fsum 0 0 s src = Some str \<and>
    receive_data cfg wok sk fsum (Some F) dst (str @ rest) = Inr (True, src, rest)"
proof -
  obtain ms where ms: "match_sums upd csum2 fsum 0 0 s src (int (length src)) = Some (ms, fsum src)"
    "sent_all upd s F src ms" "s_count s = 0 \<longrightarrow> (\<forall>i. Block i \<notin> set (sent_items src (m_calls ms)))"
    using match_sums_spec [OF ok refl, of fsum 0] by (auto simp: send_file_sum_def)
  let ?str = "write_sum_head pv (Some s) @ token_stream src (m_calls ms) @ fsum src"
  let ?h = "null_sum\<lparr>s_count := s_count s, s_blength := s_blength s, s_s2length := s_s2length s, s_remainder := s_remainder s\<rparr>"
  have cnt: "s_count s < 2 ^ 31" using head(1) by (simp add: sum_head_ok_def)
  have "read_sum_head pv csl null_sum (?str @ rest) = Inr (?h, (token_stream src (m_calls ms) @ fsum src) @ rest)"
    using read_sum_head_write_sum_head [OF head(1)] head(2) by simp
  then have h: "read_sum_head (rc_protocol_version cfg) (rc_csum_length cfg) null_sum (?str @ rest) =
      Inr (?h, (token_stream src (m_calls ms) @ fsum src) @ rest)"
    using cfg(1,2) by simp
  have its: "recv_items 0 ((token_stream src (m_calls ms) @ fsum src) @ rest) = Inr (sent_items src (m_calls ms), fsum src @ rest)"
    using recv_items_complete [OF ms(2) cnt, of "fsum src @ rest"] by simp
  have i1: "items_ok upd s F 0 {} (sent_items src (m_calls ms))" and i2: "items_bytes (basis_block s F) (sent_items src (m_calls ms)) = src"
    using ms(2) by (auto simp: sent_all_def)
  have "items_ok (rc_same_file cfg) ?h F 0 {} (sent_items src (m_calls ms))"
    using i1 upd(1) items_ok_weaken items_ok_cong(1) [of s ?h] by (cases "rc_same_file cfg"; cases upd) auto
  moreover have "src = items_bytes (basis_block ?h F) (sent_items src (m_calls ms))"
    using i2 items_ok_cong(2) [of s ?h F] by simp
  ultimately have "receive_data cfg wok sk fsum (Some F) dst (?str @ rest) =
      Inr (fsum src = fsum src, src @ (if rc_inplace_sizing cfg then [] else drop (length src) dst), rest)"
    using ms(3) empty upd cfg wok by (intro receive_data_spec [OF h its]) auto
  then show ?thesis
    using ms(1) upd(3) by (simp add: send_file_data_def)
qed

end
