(* ===== verification/FileWrite.thy ===== *)
theory FileWrite
  imports Receiver
begin

text \<open>
  The writing half of fileio.c: buffered writing, sparse writing and skipping matched data.
  A file has a content and a position. write(2) may be interrupted, fail, or write less than
  asked: \<open>f_script\<close> lists what the next calls do; when it is used up every call writes
  everything. lseek(2), ftruncate(2) and fallocate(2) succeed.
\<close>

datatype wres = WIntr | WFail | WCount nat

record wfile =
  f_content :: "byte list"
  f_pos :: int
  f_script :: "wres list"
  sparse_seek :: int
  sparse_past_write :: int
  wf_writeBuf :: "byte list"
  wf_writeBufCnt :: nat

definition SPARSE_WRITE_SIZE :: nat where "SPARSE_WRITE_SIZE = 1024"
definition WRITE_SIZE :: nat where "WRITE_SIZE = 32 * 1024"
definition wf_writeBufSize :: nat where "wf_writeBufSize = WRITE_SIZE * 8"

text \<open>write(f, bp, n): the result is the return value, or \<open>WIntr\<close>/\<open>WFail\<close>.\<close>

definition put_bytes :: "byte list \<Rightarrow> wfile \<Rightarrow> wfile" where
  "put_bytes bs st = (if bs = [] then st
     else st\<lparr>f_content := write_at (f_content st) (f_pos st) bs, f_pos := f_pos st + int (length bs)\<rparr>)"

definition sys_write :: "nat \<Rightarrow> byte list \<Rightarrow> wfile \<Rightarrow> wres \<times> wfile" where
  "sys_write n bp st =
     (case f_script st of
        [] \<Rightarrow> (WCount n, put_bytes (take n bp) st)
      | WCount k # r \<Rightarrow> (WCount (min k n), put_bytes (take (min k n) bp) (st\<lparr>f_script := r\<rparr>))
      | x # r \<Rightarrow> (x, st\<lparr>f_script := r\<rparr>))"

definition seek_cur :: "int \<Rightarrow> wfile \<Rightarrow> wfile" where
  "seek_cur d st = st\<lparr>f_pos := f_pos st + d\<rparr>"

definition do_ftruncate :: "int \<Rightarrow> wfile \<Rightarrow> wfile" where
  "do_ftruncate sz st =
     st\<lparr>f_content := take (nat sz) (f_content st) @ replicate (nat sz - length (f_content st)) 0\<rparr>"

text \<open>do_punch_hole (syscall.c) with fallocate: zero a range inside the file, then seek over it.\<close>

definition do_punch_hole :: "int \<Rightarrow> int \<Rightarrow> wfile \<Rightarrow> int \<times> wfile" where
  "do_punch_hole pos len st =
     (let c = f_content st;
          n = min (nat len) (length c - nat pos);
          st = st\<lparr>f_content := take (nat pos) c @ replicate n 0 @ drop (nat pos + n) c\<rparr>;
          st = seek_cur len st
      in if f_pos st \<noteq> pos + len then (-1, st) else (0, st))"

definition sparse_end :: "int \<Rightarrow> wfile \<Rightarrow> int \<times> wfile" where
  "sparse_end sz st =
     (let st = st\<lparr>sparse_past_write := 0\<rparr> in
      if sparse_seek st = 0 then (0, st)
      else (0, (do_ftruncate sz st)\<lparr>sparse_seek := 0\<rparr>))"

lemma sys_write_script: "sys_write n bp st = (r, st') \<Longrightarrow>
   f_script st' = tl (f_script st) \<and> sparse_seek st' = sparse_seek st \<and> sparse_past_write st' = sparse_past_write st \<and>
   wf_writeBuf st' = wf_writeBuf st \<and> wf_writeBufCnt st' = wf_writeBufCnt st \<and>
   (f_script st = [] \<longrightarrow> r = WCount n)"
  by (auto simp: sys_write_def put_bytes_def split: list.splits wres.splits if_splits)

text \<open>The write loop of write_sparse; \<open>Inl\<close> is an early return.\<close>

function sparse_write_loop :: "nat \<Rightarrow> byte list \<Rightarrow> wfile \<Rightarrow> (int + nat) \<times> wfile" where
  "sparse_write_loop n bp st =
     (case sys_write n bp st of
        (WIntr, st') \<Rightarrow> sparse_write_loop n bp st'
      | (WFail, st') \<Rightarrow> (Inl (-1), st'\<lparr>sparse_seek := 0\<rparr>)
      | (WCount k, st') \<Rightarrow> if k = 0 then (Inl 0, st'\<lparr>sparse_seek := 0\<rparr>) else (Inr k, st'))"
  by pat_completeness auto
termination
proof (relation "measure (\<lambda>(n, bp, st). length (f_script st))", goal_cases)
  case (2 n bp st x st')
  then show ?case using sys_write_script [OF 2(1) [symmetric]] by (cases "f_script st") auto
qed simp

declare sparse_write_loop.simps [simp del]

definition leading_zeros :: "byte list \<Rightarrow> nat" where
  "leading_zeros buf = length (takeWhile (\<lambda>b. b = 0) buf)"

definition write_sparse :: "int \<Rightarrow> bool \<Rightarrow> int \<Rightarrow> byte list \<Rightarrow> wfile \<Rightarrow> int \<times> wfile" where
  "write_sparse preallocated_len use_seek offset buf st =
     (let len = length buf;
          l1 = leading_zeros buf;
          l2 = leading_zeros (rev (drop l1 buf));
          st = st\<lparr>sparse_seek := sparse_seek st + int l1\<rparr> in
      if l1 = len then (int len, st)
      else
        case (if sparse_seek st \<noteq> 0 then
                if sparse_past_write st \<ge> preallocated_len then (0, seek_cur (sparse_seek st) st)
                else case do_punch_hole (sparse_past_write st) (sparse_seek st) st of
                       (r, st) \<Rightarrow> if r < 0 then (-1, st\<lparr>sparse_seek := 0\<rparr>) else (0, st)
              else (0, st)) of
          (r, st) \<Rightarrow>
            if r < (0 :: int) then (-1, st)
            else
              let st = st\<lparr>sparse_seek := int l2, sparse_past_write := offset + int len - int l2\<rparr> in
              if use_seek then (int len, seek_cur (int len - (int l1 + int l2)) st)
              else case sparse_write_loop (len - (l1 + l2)) (drop l1 buf) st of
                  (Inl r, st) \<Rightarrow> (r, st)
                | (Inr k, st) \<Rightarrow>
                    if k \<noteq> len - (l1 + l2) then (int l1 + int k, st\<lparr>sparse_seek := 0\<rparr>)
                    else (int len, st))"

text \<open>flush_write_file; \<open>bp\<close> is the pointer into the buffer.\<close>

function flush_loop :: "byte list \<Rightarrow> int \<Rightarrow> wfile \<Rightarrow> int \<times> wfile" where
  "flush_loop bp ret st =
     (if wf_writeBufCnt st > 0 then
        case sys_write (wf_writeBufCnt st) bp st of
          (WIntr, st') \<Rightarrow> flush_loop bp (-1) st'
        | (WFail, st') \<Rightarrow> (-1, st')
        | (WCount k, st') \<Rightarrow> flush_loop (drop k bp) (int k) (st'\<lparr>wf_writeBufCnt := wf_writeBufCnt st - k\<rparr>)
      else (ret, st))"
  by pat_completeness auto
termination
proof (relation "measure (\<lambda>(bp, ret, st). wf_writeBufCnt st + length (f_script st))", goal_cases)
  case (2 bp ret st x st')
  then show ?case using sys_write_script [OF 2(2) [symmetric]] by (cases "f_script st") auto
next
  case (3 bp ret st x st' k)
  then show ?case using sys_write_script [OF 3(2) [symmetric]] by (cases "f_script st") auto
qed simp

declare flush_loop.simps [simp del]

definition flush_write_file :: "wfile \<Rightarrow> int \<times> wfile" where
  "flush_write_file st = flush_loop (wf_writeBuf st) 0 st"

lemma flush_loop_cnt:
  assumes "flush_loop bp ret st = (r, st')" and "0 \<le> r"
  shows "wf_writeBufCnt st' = 0"
  using assms
proof (induction bp ret st rule: flush_loop.induct)
  case (1 bp ret st)
  show ?case
  proof (cases "wf_writeBufCnt st > 0")
    case True
    obtain x st1 where w: "sys_write (wf_writeBufCnt st) bp st = (x, st1)" by fastforce
    show ?thesis
      using "1.IH"(1) [OF True w [symmetric]] "1.IH"(2) [OF True w [symmetric]] "1.prems" True w
      by (cases x) (simp_all add: flush_loop.simps [of bp ret st])
  next
    case False
    then show ?thesis using "1.prems" by (simp add: flush_loop.simps [of bp ret st])
  qed
qed

text \<open>
  write_file. \<open>ret\<close> is what has been taken so far.
\<close>

function write_file_loop :: "bool \<Rightarrow> int \<Rightarrow> bool \<Rightarrow> int \<Rightarrow> byte list \<Rightarrow> int \<Rightarrow> wfile \<Rightarrow> int \<times> wfile" where
  "write_file_loop sparse_files preallocated_len use_seek offset buf ret st =
     (if buf = [] then (ret, st)
      else if sparse_files then
        case write_sparse preallocated_len use_seek offset (take SPARSE_WRITE_SIZE buf) st of
          (r1, st) \<Rightarrow>
            if r1 \<le> 0 then (if ret > 0 then ret else r1, st)
            else write_file_loop sparse_files preallocated_len use_seek (offset + r1) (drop (nat r1) buf) (ret + r1) st
      else
        let r1 = min (length buf) (wf_writeBufSize - wf_writeBufCnt st);
            st = st\<lparr>wf_writeBuf := store (wf_writeBuf st) (wf_writeBufCnt st) (take r1 buf),
                    wf_writeBufCnt := wf_writeBufCnt st + r1\<rparr> in
        case (if wf_writeBufCnt st = wf_writeBufSize then (True, flush_write_file st) else (False, 0, st)) of
          (full, fr, st) \<Rightarrow>
            if fr < 0 then (-1, st)
            else if full \<and> r1 = 0 then
              write_file_loop sparse_files preallocated_len use_seek offset buf ret st
            else if r1 = 0 then (if ret > 0 then ret else 0, st)
            else write_file_loop sparse_files preallocated_len use_seek offset (drop r1 buf) (ret + int r1) st)"
  by pat_completeness auto
termination
proof (relation "measure (\<lambda>(sp, pl, us, off, buf, ret, st). 2 * length buf + (if wf_writeBufCnt st = wf_writeBufSize then 1 else 0))",
    goal_cases)
  case (3 sp pl us off buf ret st r1 st1 full x fr st2)
  have "wf_writeBufCnt st2 = 0"
    using 3 flush_loop_cnt [of "wf_writeBuf st1" 0 st1 fr st2] by (auto simp: flush_write_file_def split: if_splits)
  moreover have "wf_writeBufCnt st = wf_writeBufSize"
    using 3 by (auto split: if_splits)
  ultimately show ?case by (simp add: wf_writeBufSize_def WRITE_SIZE_def)
next
  case (2 sp pl us off buf ret st r1 st2)
  then have "length (drop (nat r1) buf) < length buf" by (cases buf) auto
  then show ?case by auto
next
  case (4 sp pl us off buf ret st r1 st1 full x fr st2)
  then have "length (drop r1 buf) < length buf" by (cases buf) auto
  then show ?case by auto
qed simp

declare write_file_loop.simps [simp del]

definition write_file :: "bool \<Rightarrow> int \<Rightarrow> bool \<Rightarrow> int \<Rightarrow> byte list \<Rightarrow> wfile \<Rightarrow> int \<times> wfile" where
  "write_file sparse_files preallocated_len use_seek offset buf st =
     write_file_loop sparse_files preallocated_len use_seek offset buf 0 st"

definition skip_matched :: "bool \<Rightarrow> int \<Rightarrow> int \<Rightarrow> byte list \<Rightarrow> wfile \<Rightarrow> int \<times> wfile" where
  "skip_matched sparse_files preallocated_len offset buf st =
     (if sparse_files then
        case write_file sparse_files preallocated_len True offset buf st of
          (r, st) \<Rightarrow> if r \<noteq> int (length buf) then (-1, st) else (0, st)
      else case flush_write_file st of
        (r, st) \<Rightarrow>
          if r < 0 then (-1, st)
          else let st = seek_cur (int (length buf)) st in
               if f_pos st \<noteq> offset + int (length buf) then (-1, st) else (0, st))"

section \<open>Buffered writing\<close>

text \<open>Overwriting part of a file; writing nothing changes nothing.\<close>

definition patch :: "byte list \<Rightarrow> int \<Rightarrow> byte list \<Rightarrow> byte list" where
  "patch c pos bs = (if bs = [] then c else write_at c pos bs)"

lemma patch_append:
  assumes "0 \<le> pos"
  shows "patch (patch c pos xs) (pos + int (length xs)) ys = patch c pos (xs @ ys)"
proof -
  define p where "p = take (nat pos) c @ replicate (nat pos - length c) 0"
  have p: "length p = nat pos" by (simp add: p_def)
  have w: "write_at c pos bs = p @ bs @ drop (nat pos + length bs) c" for bs by (simp add: write_at_def p_def)
  have n: "nat (pos + int (length xs)) = nat pos + length xs" using assms by simp
  have "write_at (write_at c pos xs) (pos + int (length xs)) ys = write_at c pos (xs @ ys)"
    unfolding w write_at_def [of "p @ _"] n by (simp add: p add.commute add.left_commute)
  then show ?thesis by (simp add: patch_def)
qed

lemma put_bytes_patch:
  "f_content (put_bytes bs st) = patch (f_content st) (f_pos st) bs" "f_pos (put_bytes bs st) = f_pos st + int (length bs)"
  by (simp_all add: put_bytes_def patch_def)

text \<open>A call of write(2) that returns puts that many bytes at the file position.\<close>

lemma sys_write_count:
  assumes "sys_write n bp st = (WCount k, st')" and "n \<le> length bp"
  shows "k \<le> n" "f_content st' = patch (f_content st) (f_pos st) (take k bp)" "f_pos st' = f_pos st + int k"
  using assms by (auto simp: sys_write_def put_bytes_patch split: list.splits wres.splits)

lemma sys_write_intr: "sys_write n bp st = (WIntr, st') \<Longrightarrow> f_content st' = f_content st \<and> f_pos st' = f_pos st"
  by (auto simp: sys_write_def split: list.splits wres.splits)

definition buf_inv :: "wfile \<Rightarrow> bool" where
  "buf_inv st \<longleftrightarrow> wf_writeBufCnt st \<le> wf_writeBufSize \<and> wf_writeBufCnt st \<le> length (wf_writeBuf st) \<and> 0 \<le> f_pos st"

text \<open>The file as it will be once the buffer is flushed.\<close>

definition vcontent :: "wfile \<Rightarrow> byte list" where
  "vcontent st = patch (f_content st) (f_pos st) (take (wf_writeBufCnt st) (wf_writeBuf st))"

definition vpos :: "wfile \<Rightarrow> int" where
  "vpos st = f_pos st + int (wf_writeBufCnt st)"

lemma flush_loop_spec:
  assumes "flush_loop bp ret st = (r, st')" and "0 \<le> r" and "wf_writeBufCnt st \<le> length bp" and "0 \<le> f_pos st"
  shows "f_content st' = patch (f_content st) (f_pos st) (take (wf_writeBufCnt st) bp) \<and>
    f_pos st' = f_pos st + int (wf_writeBufCnt st) \<and> wf_writeBuf st' = wf_writeBuf st"
  using assms
proof (induction bp ret st rule: flush_loop.induct)
  case (1 bp ret st)
  show ?case
  proof (cases "wf_writeBufCnt st > 0")
    case True
    obtain x st1 where w: "sys_write (wf_writeBufCnt st) bp st = (x, st1)" by fastforce
    note W = sys_write_script [OF w]
    show ?thesis
    proof (cases x)
      case WIntr
      then have "flush_loop bp (-1) st1 = (r, st')"
        using "1.prems"(1) True w by (simp add: flush_loop.simps [of bp ret st])
      then show ?thesis
        using "1.IH"(1) [OF True w [symmetric] WIntr] "1.prems" W sys_write_intr [of _ bp st st1] w WIntr by simp
    next
      case WFail
      then show ?thesis using "1.prems" True w by (simp add: flush_loop.simps [of bp ret st])
    next
      case (WCount k)
      note K = sys_write_count [OF w [unfolded WCount] "1.prems"(3)]
      let ?st = "st1\<lparr>wf_writeBufCnt := wf_writeBufCnt st - k\<rparr>"
      have "flush_loop (drop k bp) (int k) ?st = (r, st')"
        using "1.prems"(1) True w WCount by (simp add: flush_loop.simps [of bp ret st])
      then have "f_content st' = patch (f_content st1) (f_pos st1) (take (wf_writeBufCnt st - k) (drop k bp)) \<and>
          f_pos st' = f_pos st1 + int (wf_writeBufCnt st - k) \<and> wf_writeBuf st' = wf_writeBuf st1"
        using "1.IH"(2) [OF True w [symmetric] WCount] "1.prems" K by auto
      moreover have "take k bp @ take (wf_writeBufCnt st - k) (drop k bp) = take (wf_writeBufCnt st) bp"
        using K(1) by (metis add_diff_inverse_nat not_le take_add)
      ultimately show ?thesis
        using K W "1.prems"(3,4) patch_append [of "f_pos st" "f_content st" "take k bp" "take (wf_writeBufCnt st - k) (drop k bp)"]
        by (simp add: min_absorb2 of_nat_diff)
    qed
  next
    case False
    then show ?thesis using "1.prems" by (simp add: flush_loop.simps [of bp ret st] patch_def)
  qed
qed

lemma flush_write_file_spec:
  assumes "flush_write_file st = (r, st')" and "0 \<le> r" and "buf_inv st"
  shows "f_content st' = vcontent st" "f_pos st' = vpos st" "wf_writeBufCnt st' = 0" "buf_inv st'"
    "vcontent st' = vcontent st" "vpos st' = vpos st"
proof -
  have "f_content st' = vcontent st \<and> f_pos st' = vpos st \<and> wf_writeBuf st' = wf_writeBuf st"
    using flush_loop_spec [of "wf_writeBuf st" 0 st r st'] assms
    by (simp add: flush_write_file_def buf_inv_def vcontent_def vpos_def)
  moreover have "wf_writeBufCnt st' = 0"
    using flush_loop_cnt assms(1,2) by (simp add: flush_write_file_def)
  ultimately show "f_content st' = vcontent st" "f_pos st' = vpos st" "wf_writeBufCnt st' = 0" "buf_inv st'"
      "vcontent st' = vcontent st" "vpos st' = vpos st"
    using assms(3) by (auto simp: buf_inv_def vcontent_def vpos_def patch_def)
qed

lemma buffer_fill:
  assumes "buf_inv st" and "r1 = min (length buf) (wf_writeBufSize - wf_writeBufCnt st)"
    and "st1 = st\<lparr>wf_writeBuf := store (wf_writeBuf st) (wf_writeBufCnt st) (take r1 buf), wf_writeBufCnt := wf_writeBufCnt st + r1\<rparr>"
  shows "buf_inv st1" "vcontent st1 = patch (vcontent st) (vpos st) (take r1 buf)" "vpos st1 = vpos st + int r1"
proof -
  have r1: "r1 \<le> length buf" "wf_writeBufCnt st + r1 \<le> wf_writeBufSize" using assms(1,2) by (auto simp: buf_inv_def)
  have t: "take (wf_writeBufCnt st + r1) (store (wf_writeBuf st) (wf_writeBufCnt st) (take r1 buf)) =
      take (wf_writeBufCnt st) (wf_writeBuf st) @ take r1 buf"
    using take_store [of "wf_writeBufCnt st" "wf_writeBuf st" "take r1 buf"] assms(1) r1 by (simp add: buf_inv_def min_absorb2)
  have l: "wf_writeBufCnt st + r1 \<le> length (store (wf_writeBuf st) (wf_writeBufCnt st) (take r1 buf))"
    using assms(1) r1 by (auto simp: store_def buf_inv_def)
  show "buf_inv st1" using assms(1,3) r1 l by (simp add: buf_inv_def)
  show "vpos st1 = vpos st + int r1" by (simp add: assms(3) vpos_def)
  show "vcontent st1 = patch (vcontent st) (vpos st) (take r1 buf)"
    using patch_append [of "f_pos st" "f_content st" "take (wf_writeBufCnt st) (wf_writeBuf st)" "take r1 buf"] assms(1) t
    by (simp add: assms(3) vcontent_def vpos_def buf_inv_def min_absorb2)
qed

lemma write_file_loop_buffered:
  assumes "write_file_loop False pl us offset buf ret st = (ret + int (length buf), st')" and "0 \<le> ret" and "buf_inv st"
  shows "buf_inv st' \<and> vcontent st' = patch (vcontent st) (vpos st) buf \<and> vpos st' = vpos st + int (length buf)"
  using assms
proof (induction False pl us offset buf ret st rule: write_file_loop.induct)
  case (1 pl us offset buf ret st)
  show ?case
  proof (cases "buf = []")
    case True
    then show ?thesis using "1.prems" by (subst (asm) write_file_loop.simps) (simp add: patch_def)
  next
    case False
    define r1 where "r1 = min (length buf) (wf_writeBufSize - wf_writeBufCnt st)"
    define st1 where "st1 = st\<lparr>wf_writeBuf := store (wf_writeBuf st) (wf_writeBufCnt st) (take r1 buf), wf_writeBufCnt := wf_writeBufCnt st + r1\<rparr>"
    note B = buffer_fill [OF "1.prems"(3) r1_def st1_def]
    obtain full fr st2 where f: "(if wf_writeBufCnt st1 = wf_writeBufSize then (True, flush_write_file st1) else (False, 0, st1)) = (full, fr, st2)"
      by (metis prod_cases3)
    have loop: "write_file_loop False pl us offset buf ret st =
        (if fr < 0 then (-1, st2)
         else if full \<and> r1 = 0 then write_file_loop False pl us offset buf ret st2
         else if r1 = 0 then (if ret > 0 then ret else 0, st2)
         else write_file_loop False pl us offset (drop r1 buf) (ret + int r1) st2)"
      using False f unfolding write_file_loop.simps [of False pl us offset buf ret st] r1_def [symmetric] Let_def st1_def [symmetric]
      by (simp del: flush_write_file_def)
    have fr: "0 \<le> fr"
    proof (rule ccontr)
      assume "\<not> 0 \<le> fr"
      then have "fst (write_file_loop False pl us offset buf ret st) = -1" unfolding loop by simp
      then show False using "1.prems"(1,2) by simp
    qed
    have F: "buf_inv st2" "vcontent st2 = vcontent st1" "vpos st2 = vpos st1"
      "wf_writeBufCnt st1 = wf_writeBufSize \<Longrightarrow> full"
    proof -
      consider "full" "flush_write_file st1 = (fr, st2)" | "wf_writeBufCnt st1 \<noteq> wf_writeBufSize" "st2 = st1"
        using f by (cases "wf_writeBufCnt st1 = wf_writeBufSize") auto
      then show "buf_inv st2" "vcontent st2 = vcontent st1" "vpos st2 = vpos st1"
          "wf_writeBufCnt st1 = wf_writeBufSize \<Longrightarrow> full"
        using fr B(1) flush_write_file_spec(4,5,6) by (cases; simp)+
    qed
    show ?thesis
    proof (cases "r1 = 0")
      case True
      then have "wf_writeBufCnt st1 = wf_writeBufSize" using False "1.prems"(3)
        by (auto simp: st1_def r1_def buf_inv_def min_def split: if_splits)
      then have "full" by (rule F(4))
      then show ?thesis
        using "1.hyps"(2) [OF False _ r1_def st1_def f [symmetric] refl] "1.prems" fr True loop F B
        by (simp add: patch_def)
    next
      case nz: False
      have r1: "r1 \<le> length buf" by (simp add: r1_def)
      then have "write_file_loop False pl us offset (drop r1 buf) (ret + int r1) st2 = (ret + int r1 + int (length (drop r1 buf)), st')"
        using "1.prems"(1) loop fr nz by simp
      then have "buf_inv st' \<and> vcontent st' = patch (vcontent st2) (vpos st2) (drop r1 buf) \<and> vpos st' = vpos st2 + int (length (drop r1 buf))"
        using "1.hyps"(3) [OF False _ r1_def st1_def f [symmetric] refl] fr nz "1.prems"(2) F(1) by simp
      moreover have "0 \<le> vpos st" using "1.prems"(3) by (simp add: vpos_def buf_inv_def)
      ultimately show ?thesis
        using patch_append [of "vpos st" "vcontent st" "take r1 buf" "drop r1 buf"] F B r1 by (simp add: min_absorb2)
    qed
  qed
qed

text \<open>Flushing succeeds when no call of write(2) fails.\<close>

definition no_failure :: "wfile \<Rightarrow> bool" where
  "no_failure st \<longleftrightarrow> WFail \<notin> set (f_script st)"

lemma sys_write_no_failure: "no_failure st \<Longrightarrow> sys_write n bp st = (r, st') \<Longrightarrow> r \<noteq> WFail \<and> no_failure st'"
  by (auto simp: no_failure_def sys_write_def put_bytes_def split: list.splits wres.splits if_splits)

lemma flush_loop_succeeds:
  assumes "no_failure st" and "0 \<le> ret \<or> 0 < wf_writeBufCnt st"
  shows "0 \<le> fst (flush_loop bp ret st) \<and> no_failure (snd (flush_loop bp ret st))"
  using assms
proof (induction bp ret st rule: flush_loop.induct)
  case (1 bp ret st)
  show ?case
  proof (cases "wf_writeBufCnt st > 0")
    case True
    obtain x st1 where w: "sys_write (wf_writeBufCnt st) bp st = (x, st1)" by fastforce
    have "x \<noteq> WFail" "no_failure st1" using sys_write_no_failure [OF "1.prems"(1) w] by auto
    moreover have "no_failure (st1\<lparr>wf_writeBufCnt := m\<rparr>) = no_failure st1" for m by (simp add: no_failure_def)
    ultimately show ?thesis
      using "1.IH"(1) [OF True w [symmetric]] "1.IH"(2) [OF True w [symmetric]] True w sys_write_script [OF w]
      by (cases x) (simp_all add: flush_loop.simps [of bp ret st])
  next
    case False
    then show ?thesis using "1.prems" by (simp add: flush_loop.simps [of bp ret st])
  qed
qed

section \<open>Sparse writing\<close>

text \<open>
  The file as it will be after sparse_end: what is written, then the zeros not yet written.
\<close>

definition sparse_inv :: "int \<Rightarrow> wfile \<Rightarrow> bool" where
  "sparse_inv offset st \<longleftrightarrow> 0 \<le> sparse_seek st \<and> 0 \<le> sparse_past_write st \<and>
     f_pos st = int (length (f_content st)) \<and> f_pos st + sparse_seek st = offset"

definition sparse_content :: "wfile \<Rightarrow> byte list" where
  "sparse_content st = f_content st @ replicate (nat (sparse_seek st)) 0"

lemma takeWhile_all: "length (takeWhile P xs) = length xs \<Longrightarrow> x \<in> set xs \<Longrightarrow> P x"
  by (induction xs) (auto split: if_splits)

lemma zeros_at_both_ends:
  assumes "l1 = leading_zeros buf" and "l2 = leading_zeros (rev (drop l1 buf))"
  shows "take l1 buf = replicate l1 0" "drop (length buf - l2) buf = replicate l2 0" "l1 \<le> length buf"
    "l1 < length buf \<Longrightarrow> l1 + l2 < length buf" "l1 + l2 \<le> length buf"
proof -
  have tw: "take (leading_zeros xs) xs = replicate (leading_zeros xs) 0" for xs
    unfolding leading_zeros_def by (induction xs) auto
  have le: "leading_zeros xs \<le> length xs" for xs by (simp add: leading_zeros_def length_takeWhile_le)
  show t1: "take l1 buf = replicate l1 0" and l1: "l1 \<le> length buf" using tw le assms(1) by auto
  have l2: "l2 \<le> length buf - l1" using le [of "rev (drop l1 buf)"] assms(2) by simp
  then show "l1 + l2 \<le> length buf" using l1 by simp
  have "rev (drop (length (drop l1 buf) - l2) (drop l1 buf)) = replicate l2 0"
    using tw [of "rev (drop l1 buf)"] assms(2) by (simp add: take_rev)
  then have "drop (length (drop l1 buf) - l2) (drop l1 buf) = replicate l2 0"
    by (metis rev_replicate rev_rev_ident)
  then show "drop (length buf - l2) buf = replicate l2 0"
    using l1 l2 by (simp add: add.commute)
  show "l1 + l2 < length buf" if "l1 < length buf"
  proof (rule ccontr)
    assume "\<not> l1 + l2 < length buf"
    then have "l2 = length (drop l1 buf)" using l2 that by simp
    then have "\<forall>b\<in>set (rev (drop l1 buf)). b = 0"
      using assms(2) takeWhile_all [of "\<lambda>b. b = 0" "rev (drop l1 buf)"] by (simp add: leading_zeros_def)
    moreover have "buf ! l1 \<noteq> 0"
      using nth_length_takeWhile [of "\<lambda>b. b = 0" buf] that assms(1) by (simp add: leading_zeros_def)
    ultimately show False using that by (metis drop_eq_Nil hd_drop_conv_nth hd_in_set not_le set_rev)
  qed
qed

lemma sparse_write_loop_spec:
  assumes "sparse_write_loop n bp st = (Inr k, st')" and "n \<le> length bp"
  shows "0 < k \<and> k \<le> n \<and> f_content st' = patch (f_content st) (f_pos st) (take k bp) \<and> f_pos st' = f_pos st + int k \<and>
    sparse_seek st' = sparse_seek st \<and> sparse_past_write st' = sparse_past_write st"
  using assms
proof (induction n bp st rule: sparse_write_loop.induct)
  case (1 n bp st)
  obtain x st1 where w: "sys_write n bp st = (x, st1)" by fastforce
  show ?case
  proof (cases x)
    case WIntr
    then show ?thesis
      using "1.IH" [OF w [symmetric]] "1.prems" w sys_write_script [OF w] sys_write_intr [of n bp st st1]
      by (simp add: sparse_write_loop.simps [of n bp st])
  next
    case WFail
    then show ?thesis using "1.prems" w by (simp add: sparse_write_loop.simps [of n bp st])
  next
    case (WCount j)
    then show ?thesis
      using "1.prems" w sys_write_count [of n bp st j st1] sys_write_script [OF w]
      by (auto simp: sparse_write_loop.simps [of n bp st] split: if_splits)
  qed
qed

lemma write_sparse_spec:
  assumes inv: "sparse_inv offset st" and w: "write_sparse 0 False offset buf st = (r, st')" and r: "0 < r" and off: "0 \<le> offset"
  shows "r \<le> int (length buf) \<and> sparse_inv (offset + r) st' \<and> sparse_content st' = sparse_content st @ take (nat r) buf"
proof -
  define l1 where "l1 = leading_zeros buf"
  define l2 where "l2 = leading_zeros (rev (drop l1 buf))"
  note Z = zeros_at_both_ends [OF l1_def l2_def]
  let ?len = "length buf"
  have I: "0 \<le> sparse_seek st" "0 \<le> sparse_past_write st" "f_pos st = int (length (f_content st))" "f_pos st + sparse_seek st = offset"
    using inv by (auto simp: sparse_inv_def)
  show ?thesis
  proof (cases "l1 = ?len")
    case True
    then have "r = int ?len" "st' = st\<lparr>sparse_seek := sparse_seek st + int l1\<rparr>"
      using w by (auto simp: write_sparse_def l1_def Let_def)
    then show ?thesis
      using I Z(1) True by (simp add: sparse_inv_def sparse_content_def nat_add_distrib replicate_add)
  next
    case False
    then have lt: "l1 + l2 < ?len" using Z(3,4) by simp
    define n where "n = ?len - (l1 + l2)"
    define st1 where "st1 = st\<lparr>f_pos := offset + int l1, sparse_seek := int l2, sparse_past_write := offset + int ?len - int l2\<rparr>"
    have w2: "write_sparse 0 False offset buf st = (case sparse_write_loop n (drop l1 buf) st1 of
        (Inl r, st) \<Rightarrow> (r, st)
      | (Inr k, st) \<Rightarrow> if k \<noteq> n then (int l1 + int k, st\<lparr>sparse_seek := 0\<rparr>) else (int ?len, st))"
    proof -
      let ?st = "st\<lparr>sparse_seek := sparse_seek st + int l1\<rparr>"
      have "(if sparse_seek ?st \<noteq> 0 then if sparse_past_write ?st \<ge> 0 then (0 :: int, seek_cur (sparse_seek ?st) ?st)
            else case do_punch_hole (sparse_past_write ?st) (sparse_seek ?st) ?st of
                   (r, st) \<Rightarrow> if r < 0 then (-1, st\<lparr>sparse_seek := 0\<rparr>) else (0, st)
          else (0, ?st)) = (0, st\<lparr>f_pos := offset + int l1, sparse_seek := sparse_seek st + int l1\<rparr>)"
        using I by (auto simp: seek_cur_def)
      then show ?thesis
        using False unfolding write_sparse_def l1_def [symmetric] l2_def [symmetric] Let_def n_def [symmetric]
        by (simp add: st1_def)
    qed
    have inl: "r \<le> 0" if "sparse_write_loop n (drop l1 buf) st1 = (Inl r, st2)" for r st2
      using that by (induction n "drop l1 buf" st1 rule: sparse_write_loop.induct)
        (subst (asm) (2) sparse_write_loop.simps, auto split: prod.splits wres.splits if_splits)
    then obtain k st2 where k: "sparse_write_loop n (drop l1 buf) st1 = (Inr k, st2)"
      using w w2 r by (auto split: prod.splits sum.splits)
    have n: "n \<le> length (drop l1 buf)" by (simp add: n_def)
    note K = sparse_write_loop_spec [OF k n]
    have pos: "write_at (f_content st) (offset + int l1) bs = f_content st @ replicate (nat (sparse_seek st) + l1) 0 @ bs"
      if "bs \<noteq> []" for bs
    proof -
      have "nat (offset + int l1) = length (f_content st) + (nat (sparse_seek st) + l1)" using I by simp
      then show ?thesis by (simp add: write_at_def)
    qed
    have ne: "take k (drop l1 buf) \<noteq> []" using K n lt by (auto simp: n_def)
    have c2: "f_content st2 = f_content st @ replicate (nat (sparse_seek st)) 0 @ take (l1 + k) buf"
      using K pos [OF ne] ne Z(1) by (simp add: st1_def patch_def replicate_add take_add)
    have "l1 + k \<le> length buf" using K lt by (auto simp: n_def)
    then have l: "length (take (l1 + k) buf) = l1 + k" by simp
    have K': "f_pos st2 = offset + int (l1 + k)" "sparse_seek st2 = int l2" "sparse_past_write st2 = offset + int ?len - int l2" "l1 + k \<le> ?len - l2"
      using K lt by (auto simp: st1_def n_def)
    have len2: "int (length (f_content st2)) = offset + int (l1 + k)" using c2 l I by simp
    show ?thesis
    proof (cases "k = n")
      case True
      then have e: "r = int ?len" "st' = st2" using w w2 k by auto
      have "take (l1 + n) buf @ replicate l2 0 = buf"
        using Z(2) lt append_take_drop_id [of "?len - l2" buf] by (simp add: n_def add.commute)
      then show ?thesis
        using e K' len2 c2 I lt True by (simp add: sparse_inv_def sparse_content_def n_def)
    next
      case False
      then have e: "r = int l1 + int k" "st' = st2\<lparr>sparse_seek := 0\<rparr>" using w w2 k by auto
      then show ?thesis
        using K' len2 c2 I lt by (simp add: sparse_inv_def sparse_content_def nat_add_distrib)
    qed
  qed
qed

lemma write_file_loop_sparse:
  assumes "write_file_loop True 0 False offset buf ret st = (ret + int (length buf), st')" and "0 \<le> ret"
    and "sparse_inv offset st" and "0 \<le> offset"
  shows "sparse_inv (offset + int (length buf)) st' \<and> sparse_content st' = sparse_content st @ buf"
  using assms
proof (induction True "0 :: int" False offset buf ret st rule: write_file_loop.induct)
  case (1 offset buf ret st)
  show ?case
  proof (cases "buf = []")
    case True
    then show ?thesis using "1.prems" by (subst (asm) write_file_loop.simps) simp
  next
    case False
    obtain r1 st1 where w: "write_sparse 0 False offset (take SPARSE_WRITE_SIZE buf) st = (r1, st1)" by fastforce
    have loop: "write_file_loop True 0 False offset buf ret st =
        (if r1 \<le> 0 then (if ret > 0 then ret else r1, st1)
         else write_file_loop True 0 False (offset + r1) (drop (nat r1) buf) (ret + r1) st1)"
      using False w by (simp add: write_file_loop.simps [of True 0 False offset buf ret st])
    have len: "0 < length buf" using False by simp
    have r1: "0 < r1"
    proof (rule ccontr)
      assume "\<not> 0 < r1"
      then have "fst (write_file_loop True 0 False offset buf ret st) \<le> ret" using "1.prems"(2) unfolding loop by auto
      then show False using "1.prems"(1) len by simp
    qed
    note S = write_sparse_spec [OF "1.prems"(3) w r1 "1.prems"(4)]
    have le: "nat r1 \<le> length buf" "nat r1 \<le> SPARSE_WRITE_SIZE" using S r1 by auto
    have "write_file_loop True 0 False (offset + r1) (drop (nat r1) buf) (ret + r1) st1 = (ret + r1 + int (length (drop (nat r1) buf)), st')"
      using "1.prems"(1) loop r1 le by simp
    then have "sparse_inv (offset + r1 + int (length (drop (nat r1) buf))) st' \<and>
        sparse_content st' = sparse_content st1 @ drop (nat r1) buf"
      using "1.hyps"(1) [OF False _ w [symmetric]] r1 S "1.prems"(2,4) by simp
    then show ?thesis
      using S le r1 by (simp add: min_absorb1 of_nat_diff)
  qed
qed

text \<open>A file written by a sequence of calls and closed by sparse_end.\<close>

fun write_all :: "bool \<Rightarrow> int \<Rightarrow> byte list list \<Rightarrow> wfile \<Rightarrow> (int \<times> wfile) option" where
  "write_all sparse offset [] st = Some (offset, st)"
| "write_all sparse offset (d # ds) st =
     (case write_file sparse 0 False offset d st of
        (r, st) \<Rightarrow> if r = int (length d) then write_all sparse (offset + r) ds st else None)"

lemma write_all_sparse:
  "write_all True offset ds st = Some (offset', st') \<Longrightarrow> sparse_inv offset st \<Longrightarrow> 0 \<le> offset \<Longrightarrow>
   sparse_inv offset' st' \<and> sparse_content st' = sparse_content st @ concat ds"
proof (induction ds arbitrary: offset st)
  case Nil
  then show ?case by simp
next
  case (Cons d ds)
  obtain r st1 where w: "write_file True 0 False offset d st = (r, st1)" by fastforce
  then have r: "r = int (length d)" "write_all True (offset + r) ds st1 = Some (offset', st')"
    using Cons.prems(1) by (auto split: if_splits)
  then have "sparse_inv (offset + r) st1 \<and> sparse_content st1 = sparse_content st @ d"
    using write_file_loop_sparse [of offset d 0 st st1] w Cons.prems(2,3) by (simp add: write_file_def)
  then show ?case
    using Cons.IH [OF r(2)] Cons.prems(3) r(1) by simp
qed

lemma write_all_buffered:
  "write_all False offset ds st = Some (offset', st') \<Longrightarrow> buf_inv st \<Longrightarrow>
   buf_inv st' \<and> vcontent st' = patch (vcontent st) (vpos st) (concat ds) \<and> vpos st' = vpos st + int (length (concat ds))"
proof (induction ds arbitrary: offset st)
  case Nil
  then show ?case by (simp add: patch_def)
next
  case (Cons d ds)
  obtain r st1 where w: "write_file False 0 False offset d st = (r, st1)" by fastforce
  then have r: "r = int (length d)" "write_all False (offset + r) ds st1 = Some (offset', st')"
    using Cons.prems(1) by (auto split: if_splits)
  then have B: "buf_inv st1 \<and> vcontent st1 = patch (vcontent st) (vpos st) d \<and> vpos st1 = vpos st + int (length d)"
    using write_file_loop_buffered [of 0 False offset d 0 st st1] w Cons.prems(2) by (simp add: write_file_def)
  then show ?case
    using Cons.IH [OF r(2)] patch_append [of "vpos st" "vcontent st" d "concat ds"] Cons.prems(2)
    by (simp add: vpos_def buf_inv_def)
qed

text \<open>With no failing call, buffered writing takes everything.\<close>

lemma write_file_loop_succeeds:
  assumes "no_failure st" and "wf_writeBufCnt st \<le> wf_writeBufSize" and "0 \<le> ret"
  shows "fst (write_file_loop False pl us offset buf ret st) = ret + int (length buf)"
  using assms
proof (induction False pl us offset buf ret st rule: write_file_loop.induct)
  case (1 pl us offset buf ret st)
  show ?case
  proof (cases "buf = []")
    case True
    then show ?thesis by (subst write_file_loop.simps) simp
  next
    case False
    define r1 where "r1 = min (length buf) (wf_writeBufSize - wf_writeBufCnt st)"
    define st1 where "st1 = st\<lparr>wf_writeBuf := store (wf_writeBuf st) (wf_writeBufCnt st) (take r1 buf), wf_writeBufCnt := wf_writeBufCnt st + r1\<rparr>"
    obtain full fr st2 where f: "(if wf_writeBufCnt st1 = wf_writeBufSize then (True, flush_write_file st1) else (False, 0, st1)) = (full, fr, st2)"
      by (metis prod_cases3)
    have loop: "write_file_loop False pl us offset buf ret st =
        (if fr < 0 then (-1, st2)
         else if full \<and> r1 = 0 then write_file_loop False pl us offset buf ret st2
         else if r1 = 0 then (if ret > 0 then ret else 0, st2)
         else write_file_loop False pl us offset (drop r1 buf) (ret + int r1) st2)"
      using False f unfolding write_file_loop.simps [of False pl us offset buf ret st] r1_def [symmetric] Let_def st1_def [symmetric]
      by (simp del: flush_write_file_def)
    have r1: "r1 \<le> length buf" by (simp add: r1_def)
    have nf: "no_failure st1" using "1.prems"(1) by (simp add: no_failure_def st1_def)
    have F: "0 \<le> fr" "no_failure st2" "wf_writeBufCnt st2 \<le> wf_writeBufSize" "wf_writeBufCnt st1 = wf_writeBufSize \<Longrightarrow> full"
    proof -
      consider "full" "flush_write_file st1 = (fr, st2)" | "wf_writeBufCnt st1 \<noteq> wf_writeBufSize" "st2 = st1" "fr = 0"
        using f by (cases "wf_writeBufCnt st1 = wf_writeBufSize") auto
      then show "0 \<le> fr" "no_failure st2" "wf_writeBufCnt st2 \<le> wf_writeBufSize" "wf_writeBufCnt st1 = wf_writeBufSize \<Longrightarrow> full"
        using flush_loop_succeeds [OF nf, of 0 "wf_writeBuf st1"] flush_loop_cnt [of "wf_writeBuf st1" 0 st1 fr st2] "1.prems"(2) nf
        by (cases; simp add: flush_write_file_def; simp add: st1_def r1_def)+
    qed
    show ?thesis
    proof (cases "r1 = 0")
      case True
      then have "wf_writeBufCnt st1 = wf_writeBufSize" using False "1.prems"(2)
        by (auto simp: st1_def r1_def min_def split: if_splits)
      then have "full" by (rule F(4))
      then show ?thesis
        using "1.hyps"(2) [OF False _ r1_def st1_def f [symmetric] refl] F True loop "1.prems"(3) by simp
    next
      case nz: False
      then show ?thesis
        using "1.hyps"(3) [OF False _ r1_def st1_def f [symmetric] refl] F loop "1.prems"(3) r1 by simp
    qed
  qed
qed

end
