(* ===== verification/Paths.thy ===== *)
theory Paths
  imports Prelude
begin

text \<open>
  The path functions of util.c that decide what a name given by the other side can reach:
  sanitize_path and unsafe_symlink.
\<close>

section \<open>Components\<close>

text \<open>The components of a path as the kernel sees them: what is between slashes, if not empty.\<close>

fun split_slash :: "string \<Rightarrow> string list" where
  "split_slash [] = [[]]"
| "split_slash (c # p) = (if c = CHR ''/'' then [] # split_slash p
     else case split_slash p of [] \<Rightarrow> [[c]] | x # xs \<Rightarrow> (c # x) # xs)"

definition path_comps :: "string \<Rightarrow> string list" where
  "path_comps p = filter (\<lambda>c. c \<noteq> []) (split_slash p)"

definition render :: "string list \<Rightarrow> string" where
  "render cs = concat (map (\<lambda>c. c @ ''/'') cs)"

lemma render_simps [simp]:
  "render [] = []" "render (c # cs) = c @ ''/'' @ render cs" "render (xs @ ys) = render xs @ render ys"
  by (simp_all add: render_def)

lemma split_slash_nonempty [simp]: "split_slash p \<noteq> []"
  by (induction p) (auto split: list.splits)

lemma split_slash_plain: "CHR ''/'' \<notin> set c \<Longrightarrow> split_slash c = [c]"
  by (induction c) auto

lemma split_slash_append: "CHR ''/'' \<notin> set c \<Longrightarrow> split_slash (c @ CHR ''/'' # p) = c # split_slash p"
  by (induction c) auto

lemma path_comps_render:
  "(\<And>c. c \<in> set cs \<Longrightarrow> c \<noteq> [] \<and> CHR ''/'' \<notin> set c) \<Longrightarrow> path_comps (render cs @ p) = cs @ path_comps p"
  by (induction cs) (auto simp: path_comps_def split_slash_append)

lemma path_comps_plain: "CHR ''/'' \<notin> set c \<Longrightarrow> path_comps c = (if c = [] then [] else [c])"
  by (simp add: path_comps_def split_slash_plain)

text \<open>
  Walking a path from a directory \<open>d\<close> levels below some root, without leaving the root.
\<close>

fun stays_inside :: "int \<Rightarrow> string list \<Rightarrow> bool" where
  "stays_inside d [] \<longleftrightarrow> 0 \<le> d"
| "stays_inside d (c # cs) \<longleftrightarrow> 0 \<le> d \<and>
     stays_inside (if c = ''.'' then d else if c = ''..'' then d - 1 else d + 1) cs"

section \<open>sanitize\_path\<close>

fun skip_dot_dirs :: "string \<Rightarrow> string" where
  "skip_dot_dirs (a # b # p) = (if a = CHR ''.'' \<and> b = CHR ''/'' then skip_dot_dirs p else a # b # p)"
| "skip_dot_dirs p = p"

text \<open>\<open>while (*p && (*sanp++ = *p++) != '/')\<close>\<close>

fun copy_component :: "string \<Rightarrow> string \<times> string" where
  "copy_component [] = ([], [])"
| "copy_component (c # p) = (if c = CHR ''/'' then ([c], p)
     else case copy_component p of (a, b) \<Rightarrow> (c # a, b))"

text \<open>\<open>while (sanp > start && sanp[-1] != '/') sanp--\<close>, after \<open>--sanp\<close>.\<close>

function back_loop :: "nat \<Rightarrow> string \<Rightarrow> string" where
  "back_loop start out = (if length out > start \<and> last out \<noteq> CHR ''/'' then back_loop start (butlast out) else out)"
  by pat_completeness auto
termination
  by (relation "measure (\<lambda>(start, out). length out)") auto

declare back_loop.simps [simp del]

definition back_up :: "nat \<Rightarrow> string \<Rightarrow> string" where
  "back_up start out = back_loop start (butlast out)"

definition is_dot_dot :: "string \<Rightarrow> bool" where
  "is_dot_dot p \<longleftrightarrow> at p 0 = CHR ''.'' \<and> at p 1 = CHR ''.'' \<and> (at p 2 = CHR ''/'' \<or> at p 2 = NUL)"

lemma copy_component_append: "copy_component p = (a, b) \<Longrightarrow> p = a @ b \<and> (p \<noteq> [] \<longrightarrow> a \<noteq> [])"
  by (induction p arbitrary: a b) (auto split: if_splits prod.splits)

lemma copy_component_length: "copy_component p = (a, b) \<Longrightarrow> p \<noteq> [] \<Longrightarrow> length b < length p"
  using copy_component_append [of p a b] by auto

function sanitize_loop :: "bool \<Rightarrow> string \<Rightarrow> string \<Rightarrow> nat \<Rightarrow> int \<Rightarrow> string" where
  "sanitize_loop drop_dot_dirs p out start depth =
     (if p = [] then out
      else if at p 0 = CHR ''/'' then sanitize_loop drop_dot_dirs (drop 1 p) out start depth
      else if drop_dot_dirs \<and> at p 0 = CHR ''.'' \<and> (at p 1 = CHR ''/'' \<or> at p 1 = NUL)
      then sanitize_loop drop_dot_dirs (drop 1 p) out start depth
      else if is_dot_dot p \<and> (depth \<le> 0 \<or> length out \<noteq> start)
      then sanitize_loop drop_dot_dirs (drop 2 p) (if length out \<noteq> start then back_up start out else out) start depth
      else
        let (start, depth) = (if is_dot_dot p then (length out + 3, depth - 1) else (start, depth));
            (c, p) = copy_component p
        in sanitize_loop drop_dot_dirs p (out @ c) start depth)"
  by pat_completeness auto
termination
  by (relation "measure (\<lambda>(dd, p, out, start, depth). length p)")
    (auto dest!: copy_component_length [OF sym])

declare sanitize_loop.simps [simp del]

text \<open>MAXPATHLEN of Linux (sys/param.h).\<close>

definition MAXPATHLEN :: nat where "MAXPATHLEN = 4096"

text \<open>
  \<open>buf\<close>: the caller gave a buffer of MAXPATHLEN bytes, otherwise one is allocated. The
  result is the prefix taken from the root directory and the rest.
\<close>

definition sanitize_path :: "bool \<Rightarrow> bool \<Rightarrow> string \<Rightarrow> bool \<Rightarrow> string \<Rightarrow> string option \<Rightarrow> int \<Rightarrow> (string \<times> string) option" where
  "sanitize_path relative_paths keep_dot_dirs module_dir buf p rootdir depth =
     (let drop_dot_dirs = (\<not> relative_paths \<or> \<not> keep_dot_dirs);
          plen = length p;
          (root, depth, p) = (if at p 0 = CHR ''/'' then
                                (case rootdir of None \<Rightarrow> module_dir | Some r \<Rightarrow> r, 0, drop 1 p)
                              else ([], depth, p)) in
      if buf \<and> length root + plen + 1 \<ge> MAXPATHLEN then None
      else
        let root = (if length root > 1 then root @ ''/'' else root);
            p = (if drop_dot_dirs then skip_dot_dirs p else p);
            out = sanitize_loop drop_dot_dirs p [] 0 depth
        in Some (root, if root @ out = [] then ''.'' else out))"

text \<open>The shape of the output between components: some \<open>..\<close>, then names.\<close>

definition name_ok :: "string \<Rightarrow> bool" where
  "name_ok c \<longleftrightarrow> c \<noteq> [] \<and> CHR ''/'' \<notin> set c \<and> c \<noteq> ''..''"

definition sanitized :: "int \<Rightarrow> string \<Rightarrow> bool" where
  "sanitized depth p \<longleftrightarrow> (\<exists>k cs. path_comps p = replicate k ''..'' @ cs \<and> int k \<le> max 0 depth \<and> ''..'' \<notin> set cs)"

lemma copy_component_split:
  assumes "copy_component p = (a, b)" and "p \<noteq> []" and "at p 0 \<noteq> CHR ''/''"
  shows "\<exists>c. c \<noteq> [] \<and> CHR ''/'' \<notin> set c \<and> (a = c @ ''/'' \<and> p = c @ ''/'' @ b \<or> a = c \<and> p = c \<and> b = [])"
  using assms
proof (induction p arbitrary: a b)
  case Nil
  then show ?case by simp
next
  case (Cons x p)
  show ?case
  proof (cases "p = [] \<or> at p 0 = CHR ''/''")
    case True
    then show ?thesis using Cons.prems by (cases p) (auto intro!: exI [of _ "[x]"])
  next
    case False
    obtain a' where a': "copy_component p = (a', b)" "a = x # a'"
      using Cons.prems by (auto split: prod.splits)
    then obtain c where "c \<noteq> [] \<and> CHR ''/'' \<notin> set c \<and> (a' = c @ ''/'' \<and> p = c @ ''/'' @ b \<or> a' = c \<and> p = c \<and> b = [])"
      using Cons.IH [OF a'(1)] False by blast
    then show ?thesis using a' Cons.prems(3) by (intro exI [of _ "x # c"]) auto
  qed
qed

lemma back_loop_name:
  assumes "CHR ''/'' \<notin> set c"
  shows "back_loop (length pre) ((pre @ xs) @ c) = back_loop (length pre) (pre @ xs)"
  using assms
proof (induction c rule: rev_induct)
  case (snoc x c)
  then show ?case
    by (subst back_loop.simps) (auto simp flip: append_assoc)
qed simp

lemma back_up_render:
  assumes "name_ok c"
  shows "back_up (length (render ups)) (render (ups @ cs @ [c])) = render (ups @ cs)"
proof -
  have "butlast (render (ups @ cs @ [c])) = (render ups @ render cs) @ c"
    by (simp add: butlast_append)
  moreover have "back_loop (length (render ups)) (render ups @ render cs) = render ups @ render cs"
    by (cases cs rule: rev_cases) (simp_all add: back_loop.simps [of _ "_ @ _"] back_loop.simps)
  ultimately show ?thesis
    using back_loop_name [of c "render ups" "render cs"] assms by (simp add: back_up_def name_ok_def)
qed

text \<open>The invariant of the loop.\<close>

definition sanitize_inv :: "int \<Rightarrow> string \<Rightarrow> nat \<Rightarrow> int \<Rightarrow> bool" where
  "sanitize_inv depth0 out start depth \<longleftrightarrow>
     (\<exists>k cs. out = render (replicate k ''..'' @ cs) \<and> start = length (render (replicate k ''..'')) \<and>
        depth = depth0 - int k \<and> int k \<le> max 0 depth0 \<and> (\<forall>c\<in>set cs. name_ok c))"

lemma sanitized_render:
  assumes "\<forall>c\<in>set cs. name_ok c" and "int k \<le> max 0 depth0" and "p = [] \<or> name_ok p"
  shows "sanitized depth0 (render (replicate k ''..'' @ cs) @ p)"
proof -
  have "path_comps (render (replicate k ''..'' @ cs) @ p) = (replicate k ''..'' @ cs) @ path_comps p"
  proof (rule path_comps_render)
    fix c assume "c \<in> set (replicate k ''..'' @ cs)"
    then have "c = ''..'' \<or> name_ok c" using assms(1) by auto
    then show "c \<noteq> [] \<and> CHR ''/'' \<notin> set c" by (auto simp: name_ok_def)
  qed
  moreover have "path_comps p = (if p = [] then [] else [p])"
    using assms(3) by (intro path_comps_plain) (auto simp: name_ok_def)
  ultimately show ?thesis
    unfolding sanitized_def using assms by (intro exI [of _ k] exI [of _ "cs @ path_comps p"]) (auto simp: name_ok_def)
qed

lemma render_eq_Nil [simp]: "render cs = [] \<longleftrightarrow> cs = []"
  by (cases cs) auto

lemma render_ne_start: "length (render (replicate k ''..'' @ cs)) = length (render (replicate k ''..'')) \<longleftrightarrow> cs = []"
  by (cases cs) auto

lemma at_append: "at (xs @ ys) i = (if i < length xs then xs ! i else at ys (i - length xs))"
  by (auto simp: at_def nth_append)

lemma is_dot_dot_component:
  assumes "CHR ''/'' \<notin> set c" and "NUL \<notin> set c" and "p = c @ ''/'' @ b \<or> p = c"
  shows "is_dot_dot p \<longleftrightarrow> c = ''..''"
proof
  assume d: "is_dot_dot p"
  consider "c = []" | x where "c = [x]" | x y where "c = [x, y]" | x y z w where "c = x # y # z # w"
    by (metis neq_Nil_conv)
  then show "c = ''..''"
    by cases (use d assms in \<open>auto simp: is_dot_dot_def NUL_def numeral_2_eq_2\<close>)
qed (use assms in \<open>auto simp: is_dot_dot_def numeral_2_eq_2\<close>)

lemma sanitize_loop_sanitized:
  assumes "sanitize_inv depth0 out start depth" and "NUL \<notin> set p"
  shows "sanitized depth0 (sanitize_loop dd p out start depth)"
  using assms
proof (induction dd p out start depth rule: sanitize_loop.induct)
  case (1 dd p out start depth)
  obtain k cs where inv: "out = render (replicate k ''..'' @ cs)" "start = length (render (replicate k ''..''))"
    "depth = depth0 - int k" "int k \<le> max 0 depth0" "\<forall>c\<in>set cs. name_ok c"
    using "1.prems"(1) by (auto simp: sanitize_inv_def)
  have nul: "NUL \<notin> set (drop n p)" for n using "1.prems"(2) by (meson in_set_dropD)
  consider (stop) "p = []" | (slash) "p \<noteq> []" "at p 0 = CHR ''/''"
    | (dot) "p \<noteq> []" "at p 0 \<noteq> CHR ''/''" "dd \<and> at p 0 = CHR ''.'' \<and> (at p 1 = CHR ''/'' \<or> at p 1 = NUL)"
    | (up) "p \<noteq> []" "at p 0 \<noteq> CHR ''/''" "\<not> (dd \<and> at p 0 = CHR ''.'' \<and> (at p 1 = CHR ''/'' \<or> at p 1 = NUL))"
        "is_dot_dot p \<and> (depth \<le> 0 \<or> length out \<noteq> start)"
    | (copy) "p \<noteq> []" "at p 0 \<noteq> CHR ''/''" "\<not> (dd \<and> at p 0 = CHR ''.'' \<and> (at p 1 = CHR ''/'' \<or> at p 1 = NUL))"
        "\<not> (is_dot_dot p \<and> (depth \<le> 0 \<or> length out \<noteq> start))"
    by blast
  then show ?case
  proof cases
    case stop
    then have "sanitize_loop dd p out start depth = out" by (subst sanitize_loop.simps) simp
    then show ?thesis using sanitized_render [OF inv(5,4), of "[]"] inv(1) by simp
  next
    case slash
    then have "sanitize_loop dd p out start depth = sanitize_loop dd (drop 1 p) out start depth"
      by (simp add: sanitize_loop.simps [of dd p out start depth])
    then show ?thesis using "1.IH"(1) [OF slash "1.prems"(1) nul] by simp
  next
    case dot
    then have "sanitize_loop dd p out start depth = sanitize_loop dd (drop 1 p) out start depth"
      by (subst sanitize_loop.simps) simp
    then show ?thesis using "1.IH"(2) [OF dot "1.prems"(1) nul] by simp
  next
    case up
    let ?out = "if length out \<noteq> start then back_up start out else out"
    have e: "sanitize_loop dd p out start depth = sanitize_loop dd (drop 2 p) ?out start depth"
      using up by (subst sanitize_loop.simps) auto
    have "sanitize_inv depth0 ?out start depth"
    proof (cases "length out = start")
      case True
      then show ?thesis using "1.prems"(1) by simp
    next
      case False
      then obtain cs' c where "cs = cs' @ [c]" using inv(1,2) by (cases cs rule: rev_cases) auto
      then have "back_up start out = render (replicate k ''..'' @ cs')" "\<forall>c\<in>set cs'. name_ok c"
        using back_up_render [of c "replicate k ''..''" cs'] inv by auto
      then show ?thesis using False inv(2,3,4) by (auto simp: sanitize_inv_def)
    qed
    then show ?thesis using "1.IH"(3) [OF up _ nul] e by simp
  next
    case copy
    obtain a b where ab: "copy_component p = (a, b)" by fastforce
    obtain c where c: "c \<noteq> []" "CHR ''/'' \<notin> set c" "a = c @ ''/'' \<and> p = c @ ''/'' @ b \<or> a = c \<and> p = c \<and> b = []"
      using copy_component_split [OF ab copy(1,2)] by blast
    have "NUL \<notin> set c" using c(3) "1.prems"(2) by auto
    then have dd: "is_dot_dot p \<longleftrightarrow> c = ''..''" using is_dot_dot_component c by blast
    define start' where "start' = (if is_dot_dot p then length out + 3 else start)"
    define depth' where "depth' = (if is_dot_dot p then depth - 1 else depth)"
    have e: "sanitize_loop dd p out start depth = sanitize_loop dd b (out @ a) start' depth'"
      using copy ab by (subst sanitize_loop.simps) (auto simp: start'_def depth'_def)
    have nb: "NUL \<notin> set b" using c(3) "1.prems"(2) by auto
    have IH: "sanitize_inv depth0 (out @ a) start' depth' \<Longrightarrow> sanitized depth0 (sanitize_loop dd p out start depth)"
    proof -
      assume i: "sanitize_inv depth0 (out @ a) start' depth'"
      have "(start', depth') = (if is_dot_dot p then (length out + 3, depth - 1) else (start, depth))"
        by (simp add: start'_def depth'_def)
      from "1.IH"(4) [OF copy this refl ab [symmetric] refl i nb] show ?thesis unfolding e .
    qed
    have ups: "cs = [] \<and> 0 < depth" if "is_dot_dot p"
      using that copy(4) inv(1,2) by (auto simp: render_ne_start)
    show ?thesis
    proof (cases "a = c @ ''/''")
      case True
      show ?thesis
      proof (rule IH, cases "is_dot_dot p")
        case d: True
        have "replicate (Suc k) ''..'' = replicate k ''..'' @ [''..'']" by (simp add: replicate_append_same)
        then have "out @ a = render (replicate (Suc k) ''..'' @ [])"
          using d ups inv(1) True dd by (simp del: replicate_Suc)
        moreover have "start' = length (render (replicate (Suc k) ''..''))"
          using d ups inv(1,2) by (simp add: start'_def)
        ultimately show "sanitize_inv depth0 (out @ a) start' depth'"
          unfolding sanitize_inv_def using d ups inv(3)
          by (intro exI [of _ "Suc k"] exI [of _ "[]"]) (auto simp: depth'_def simp del: replicate_Suc)
      next
        case d: False
        then have "name_ok c" using c dd by (simp add: name_ok_def)
        then show "sanitize_inv depth0 (out @ a) start' depth'"
          unfolding sanitize_inv_def using d inv True
          by (intro exI [of _ k] exI [of _ "cs @ [c]"]) (auto simp: start'_def depth'_def)
      qed
    next
      case False
      then have fin: "a = c" "b = []" using c(3) by auto
      then have "sanitize_loop dd p out start depth = out @ c" using e by (simp add: sanitize_loop.simps [of dd "[]"])
      moreover have "sanitized depth0 (out @ c)"
      proof (cases "is_dot_dot p")
        case True
        then have "c = ''..''" "cs = []" "int (Suc k) \<le> max 0 depth0" using dd ups inv(3) by auto
        moreover have "path_comps (render (replicate k ''..'') @ ''..'') = replicate k ''..'' @ [''..'']"
          by (subst path_comps_render) (auto simp: path_comps_plain)
        ultimately show ?thesis
          unfolding sanitized_def using inv(1) by (intro exI [of _ "Suc k"] exI [of _ "[]"]) (auto simp: replicate_append_same)
      next
        case False
        then show ?thesis using sanitized_render [OF inv(5,4), of c] inv(1) c dd by (simp add: name_ok_def)
      qed
      ultimately show ?thesis by simp
    qed
  qed
qed

lemma skip_dot_dirs_subset: "set (skip_dot_dirs p) \<subseteq> set p"
  by (induction p rule: skip_dot_dirs.induct) auto

text \<open>
  What sanitize\_path returns climbs at most \<open>depth\<close> levels, at its start; for an
  absolute path, which is taken relative to the root directory, it does not climb at all.
\<close>

lemma sanitize_path_sanitized:
  assumes "sanitize_path rel keep md buf p rootdir depth = Some (root, out)" and "NUL \<notin> set p"
  shows "sanitized (if at p 0 = CHR ''/'' then 0 else depth) out"
proof -
  let ?d = "if at p 0 = CHR ''/'' then 0 else depth" and ?q = "if at p 0 = CHR ''/'' then drop 1 p else p"
  define q where "q = (if \<not> rel \<or> \<not> keep then skip_dot_dirs ?q else ?q)"
  define o1 where "o1 = sanitize_loop (\<not> rel \<or> \<not> keep) q [] 0 ?d"
  have out: "out = o1 \<or> out = ''.''"
    using assms(1) by (auto simp: sanitize_path_def o1_def q_def Let_def split: if_splits)
  have "set ?q \<subseteq> set p" by (auto dest: in_set_dropD)
  then have "NUL \<notin> set q" using assms(2) skip_dot_dirs_subset [of ?q] by (auto simp: q_def split: if_splits)
  moreover have "sanitize_inv ?d [] 0 ?d"
    unfolding sanitize_inv_def by (intro exI [of _ 0] exI [of _ "[]"]) simp
  ultimately have "sanitized ?d o1" unfolding o1_def by (rule sanitize_loop_sanitized [rotated])
  moreover have "sanitized ?d ''.''"
    unfolding sanitized_def by (intro exI [of _ 0] exI [of _ "[''.'']"]) (simp add: path_comps_def)
  ultimately show ?thesis using out by blast
qed

text \<open>Such a path cannot leave a directory \<open>depth\<close> levels above the starting point.\<close>

lemma stays_inside_names: "0 \<le> d \<Longrightarrow> ''..'' \<notin> set cs \<Longrightarrow> stays_inside d cs"
  by (induction cs arbitrary: d) auto

lemma stays_inside_ups: "int k \<le> d \<Longrightarrow> ''..'' \<notin> set cs \<Longrightarrow> stays_inside d (replicate k ''..'' @ cs)"
  by (induction k arbitrary: d) (auto simp: stays_inside_names)

lemma sanitized_stays_inside: "sanitized d p \<Longrightarrow> 0 \<le> d \<Longrightarrow> stays_inside d (path_comps p)"
  unfolding sanitized_def using stays_inside_ups by fastforce

section \<open>unsafe\_symlink\<close>

text \<open>
  One round of \<open>(slash = strchr(name, '/')) != 0; name = slash+1\<close> with the loop over
  further slashes: the next \<open>name\<close>.
\<close>

definition next_name :: "string \<Rightarrow> string option" where
  "next_name name =
     (if CHR ''/'' \<in> set name
      then Some (dropWhile (\<lambda>c. c = CHR ''/'') (dropWhile (\<lambda>c. c \<noteq> CHR ''/'') name)) else None)"

lemma next_name_length: "next_name name = Some name' \<Longrightarrow> length name' < length name"
proof -
  assume "next_name name = Some name'"
  then have h: "CHR ''/'' \<in> set name" "name' = dropWhile (\<lambda>c. c = CHR ''/'') (dropWhile (\<lambda>c. c \<noteq> CHR ''/'') name)"
    by (auto simp: next_name_def split: if_splits)
  then obtain a b where "name = a @ CHR ''/'' # b" "CHR ''/'' \<notin> set a" by (metis split_list_first)
  then have "dropWhile (\<lambda>c. c \<noteq> CHR ''/'') name = CHR ''/'' # b" by (induction a arbitrary: name) auto
  then show ?thesis
    using h \<open>name = a @ CHR ''/'' # b\<close> length_dropWhile_le [of "\<lambda>c. c = CHR ''/''" b] by simp
qed

definition dot_segment :: "string \<Rightarrow> bool" where
  "dot_segment name \<longleftrightarrow> at name 0 = CHR ''.'' \<and>
     (at name 1 = CHR ''/'' \<or> (at name 1 = CHR ''.'' \<and> at name 2 = CHR ''/''))"

definition ends_dot_dot :: "string \<Rightarrow> bool" where
  "ends_dot_dot name \<longleftrightarrow> at name 0 = CHR ''.'' \<and> at name 1 = CHR ''.'' \<and> at name 2 = NUL"

function src_margin :: "string \<Rightarrow> int \<Rightarrow> int" where
  "src_margin name depth =
     (case next_name name of
        Some name' \<Rightarrow> src_margin name' (if dot_segment name then if at name 1 = CHR ''.'' then 0 else depth else depth + 1)
      | None \<Rightarrow> if ends_dot_dot name then 0 else depth)"
  by pat_completeness auto
termination
  by (relation "measure (\<lambda>(name, depth). length name)") (auto dest: next_name_length)

declare src_margin.simps [simp del]

function dest_escapes :: "string \<Rightarrow> int \<Rightarrow> bool" where
  "dest_escapes name depth =
     (case next_name name of
        Some name' \<Rightarrow>
          if dot_segment name then
            if at name 1 = CHR ''.'' then if depth - 1 < 0 then True else dest_escapes name' (depth - 1)
            else dest_escapes name' depth
          else dest_escapes name' (depth + 1)
      | None \<Rightarrow> (if ends_dot_dot name then depth - 1 else depth) < 0)"
  by pat_completeness auto
termination
  by (relation "measure (\<lambda>(name, depth). length name)") (auto dest: next_name_length)

declare dest_escapes.simps [simp del]

definition unsafe_symlink :: "string \<Rightarrow> string \<Rightarrow> bool" where
  "unsafe_symlink dest src \<longleftrightarrow>
     at dest 0 = NUL \<or> at dest 0 = CHR ''/'' \<or> dest_escapes dest (src_margin src 0)"

text \<open>The rounds of both loops are the components of the path.\<close>

lemma path_comps_slashes: "path_comps (dropWhile (\<lambda>c. c = CHR ''/'') p) = path_comps p"
  by (induction p) (auto simp: path_comps_def)

lemma at_dropWhile_slash: "at (dropWhile (\<lambda>c. c = CHR ''/'') p) 0 \<noteq> CHR ''/''"
  by (induction p) (auto simp: NUL_def)

lemma next_name_comps:
  assumes "next_name name = Some name'" and "at name 0 \<noteq> CHR ''/''" and "NUL \<notin> set name"
  shows "\<exists>c. path_comps name = c # path_comps name' \<and> c \<noteq> [] \<and> (dot_segment name \<longleftrightarrow> c = ''.'' \<or> c = ''..'') \<and>
    (c = ''.'' \<longrightarrow> at name 1 \<noteq> CHR ''.'') \<and> (c = ''..'' \<longrightarrow> at name 1 = CHR ''.'') \<and> at name' 0 \<noteq> CHR ''/'' \<and> NUL \<notin> set name'"
proof -
  have h: "CHR ''/'' \<in> set name" "name' = dropWhile (\<lambda>c. c = CHR ''/'') (dropWhile (\<lambda>c. c \<noteq> CHR ''/'') name)"
    using assms(1) by (auto simp: next_name_def split: if_splits)
  then obtain c b where n: "name = c @ CHR ''/'' # b" "CHR ''/'' \<notin> set c" by (metis split_list_first)
  then have dw: "dropWhile (\<lambda>c. c \<noteq> CHR ''/'') name = CHR ''/'' # b" by (induction c arbitrary: name) auto
  have ne: "c \<noteq> []" using assms(2) n by auto
  have "path_comps name = c # path_comps name'"
    using n ne path_comps_slashes [of b] dw h(2) by (simp add: path_comps_def split_slash_append)
  moreover have "dot_segment name \<longleftrightarrow> c = ''.'' \<or> c = ''..''"
  proof -
    consider "c = []" | x where "c = [x]" | x y where "c = [x, y]" | x y z w where "c = x # y # z # w"
      by (metis neq_Nil_conv)
    then show ?thesis by cases (use n ne in \<open>auto simp: dot_segment_def numeral_2_eq_2\<close>)
  qed
  moreover have "at name' 0 \<noteq> CHR ''/''"
    using h(2) dw at_dropWhile_slash by simp
  moreover have "NUL \<notin> set name'"
    using h(2) assms(3) by (meson set_dropWhileD)
  ultimately show ?thesis using ne n by (intro exI [of _ c]) auto
qed

lemma last_name_comps:
  assumes "next_name name = None" and "NUL \<notin> set name"
  shows "path_comps name = (if name = [] then [] else [name])" "ends_dot_dot name \<longleftrightarrow> name = ''..''"
proof -
  have n: "CHR ''/'' \<notin> set name" using assms(1) by (auto simp: next_name_def split: if_splits)
  then show "path_comps name = (if name = [] then [] else [name])" by (rule path_comps_plain)
  consider "name = []" | x where "name = [x]" | x y where "name = [x, y]" | x y z w where "name = x # y # z # w"
    by (metis neq_Nil_conv)
  then show "ends_dot_dot name \<longleftrightarrow> name = ''..''"
    by cases (use assms(2) in \<open>auto simp: ends_dot_dot_def NUL_def numeral_2_eq_2\<close>)
qed

lemma dest_escapes_stays:
  assumes "at name 0 \<noteq> CHR ''/''" and "NUL \<notin> set name" and "0 \<le> depth"
  shows "dest_escapes name depth \<longleftrightarrow> \<not> stays_inside depth (path_comps name)"
  using assms
proof (induction name depth rule: dest_escapes.induct)
  case (1 name depth)
  show ?case
  proof (cases "next_name name")
    case None
    note L = last_name_comps [OF None "1.prems"(2)]
    show ?thesis
      using None L "1.prems"(3) by (subst dest_escapes.simps) auto
  next
    case (Some name')
    obtain c where C: "path_comps name = c # path_comps name'" "dot_segment name \<longleftrightarrow> c = ''.'' \<or> c = ''..''"
      "c = ''.'' \<longrightarrow> at name 1 \<noteq> CHR ''.''" "c = ''..'' \<longrightarrow> at name 1 = CHR ''.''" "at name' 0 \<noteq> CHR ''/''" "NUL \<notin> set name'"
      using next_name_comps [OF Some "1.prems"(1,2)] by blast
    have neg: "\<not> stays_inside d cs" if "d < 0" for d cs using that by (cases cs) auto
    consider "c = ''.''" | "c = ''..''" | "c \<noteq> ''.''" "c \<noteq> ''..''" by blast
    then show ?thesis
    proof cases
      case 1
      then have d: "dot_segment name" "at name 1 \<noteq> CHR ''.''" using C(2,3) by auto
      then have "dest_escapes name depth = dest_escapes name' depth"
        using Some by (simp add: dest_escapes.simps [of name depth])
      then show ?thesis using "1.IH"(2) [OF Some d C(5,6) "1.prems"(3)] C(1) 1 "1.prems"(3) by simp
    next
      case 2
      then have d: "dot_segment name" "at name 1 = CHR ''.''" using C(2,4) by auto
      then have "dest_escapes name depth = (if depth - 1 < 0 then True else dest_escapes name' (depth - 1))"
        using Some by (simp add: dest_escapes.simps [of name depth])
      then show ?thesis
        using "1.IH"(1) [OF Some d _ C(5,6)] C(1) 2 "1.prems"(3) neg by (cases "depth - 1 < 0") auto
    next
      case 3
      then have d: "\<not> dot_segment name" using C(2) by auto
      then have "dest_escapes name depth = dest_escapes name' (depth + 1)"
        using Some by (simp add: dest_escapes.simps [of name depth])
      then show ?thesis using "1.IH"(3) [OF Some d C(5,6)] C(1) 3 "1.prems"(3) by simp
    qed
  qed
qed

text \<open>The depth of the directory that holds \<open>src\<close>, for a path without \<open>..\<close>.\<close>

lemma src_margin_depth:
  assumes "at name 0 \<noteq> CHR ''/''" and "NUL \<notin> set name" and "''..'' \<notin> set (path_comps name)" and "0 \<le> depth"
  shows "0 \<le> src_margin name depth \<and>
    src_margin name depth \<le> depth + int (length (filter (\<lambda>c. c \<noteq> ''.'') (path_comps name)))"
  using assms
proof (induction name depth rule: src_margin.induct)
  case (1 name depth)
  show ?case
  proof (cases "next_name name")
    case None
    then show ?thesis using last_name_comps [OF None "1.prems"(2)] "1.prems"(4) by (subst (1 2) src_margin.simps) auto
  next
    case (Some name')
    obtain c where C: "path_comps name = c # path_comps name'" "dot_segment name \<longleftrightarrow> c = ''.'' \<or> c = ''..''"
      "c = ''.'' \<longrightarrow> at name 1 \<noteq> CHR ''.''" "c = ''..'' \<longrightarrow> at name 1 = CHR ''.''" "at name' 0 \<noteq> CHR ''/''" "NUL \<notin> set name'"
      using next_name_comps [OF Some "1.prems"(1,2)] by blast
    show ?thesis
      using "1.IH" [OF Some C(5,6)] C "1.prems"(3,4) Some by (subst (1 2) src_margin.simps) auto
  qed
qed

lemma last_dropWhile_ne: "dropWhile P xs \<noteq> [] \<Longrightarrow> last (dropWhile P xs) = last xs"
  by (metis last_append takeWhile_dropWhile_id)

lemma next_name_last:
  assumes "next_name name = Some name'" and "last name \<noteq> CHR ''/''"
  shows "name' \<noteq> []" and "last name' \<noteq> CHR ''/''"
proof -
  let ?d = "dropWhile (\<lambda>c. c \<noteq> CHR ''/'') name"
  have h: "CHR ''/'' \<in> set name" "name' = dropWhile (\<lambda>c. c = CHR ''/'') ?d"
    using assms(1) by (auto simp: next_name_def split: if_splits)
  have d: "?d \<noteq> []" using h(1) by auto
  then have l: "last ?d = last name" by (rule last_dropWhile_ne)
  show ne: "name' \<noteq> []"
    using h(2) d l assms(2) last_in_set [of ?d] by auto
  show "last name' \<noteq> CHR ''/''"
    using last_dropWhile_ne [of "\<lambda>c. c = CHR ''/''" ?d] h(2) ne l assms(2) by simp
qed

lemma path_comps_nonempty:
  assumes "name \<noteq> []" and "at name 0 \<noteq> CHR ''/''" and "NUL \<notin> set name"
  shows "path_comps name \<noteq> []"
  using assms last_name_comps [of name] next_name_comps [of name] by (cases "next_name name") fastforce+

lemma src_margin_dirs:
  assumes "name \<noteq> []" and "at name 0 \<noteq> CHR ''/''" and "last name \<noteq> CHR ''/''" and "NUL \<notin> set name"
    and "''..'' \<notin> set (path_comps name)"
  shows "src_margin name depth = depth + int (length (filter (\<lambda>c. c \<noteq> ''.'') (butlast (path_comps name))))"
  using assms
proof (induction name depth rule: src_margin.induct)
  case (1 name depth)
  show ?case
  proof (cases "next_name name")
    case None
    then show ?thesis using last_name_comps [OF None "1.prems"(4)] "1.prems"(1,5) by (subst src_margin.simps) auto
  next
    case (Some name')
    obtain c where C: "path_comps name = c # path_comps name'" "dot_segment name \<longleftrightarrow> c = ''.'' \<or> c = ''..''"
      "c = ''.'' \<longrightarrow> at name 1 \<noteq> CHR ''.''" "at name' 0 \<noteq> CHR ''/''" "NUL \<notin> set name'"
      using next_name_comps [OF Some "1.prems"(2,4)] by blast
    note L = next_name_last [OF Some "1.prems"(3)]
    show ?thesis
      using "1.IH" [OF Some L(1) C(4) L(2) C(5)] C path_comps_nonempty [OF L(1) C(4,5)] "1.prems"(5) Some
      by (subst src_margin.simps) auto
  qed
qed

end
