(* ===== verification/CleanName.thy ===== *)
theory CleanName
  imports Paths
begin

text \<open>
  clean\_fname of util.c, which tidies a name in place. The part of the buffer before
  \<open>t\<close> is \<open>out\<close>, the part from \<open>f\<close> on the rest of the name; \<open>t\<close> never
  passes \<open>f\<close>, so writing does not disturb reading. The result is None for the return
  value -1.
\<close>

record cfn_flags =
  CFN_KEEP_DOT_DIRS :: bool
  CFN_KEEP_TRAILING_SLASH :: bool
  CFN_DROP_TRAILING_DOT_DIR :: bool
  CFN_COLLAPSE_DOT_DOT_DIRS :: bool
  CFN_REFUSE_DOT_DOT_DIRS :: bool

text \<open>DOT\_IS\_DOT\_DOT\_DIR, for a name that starts with a dot.\<close>

definition DOT_IS_DOT_DOT_DIR :: "string \<Rightarrow> bool" where
  "DOT_IS_DOT_DOT_DIR bp \<longleftrightarrow> at bp 1 = CHR ''.'' \<and> (at bp 2 = CHR ''/'' \<or> at bp 2 = NUL)"

text \<open>\<open>while (s > limit && *--s != '/')\<close>; \<open>limit\<close> is never below -1.\<close>

function back_slash :: "string \<Rightarrow> int \<Rightarrow> int \<Rightarrow> int" where
  "back_slash out limit s =
     (if s > limit \<and> limit \<ge> -1 then
        if s - 1 \<ge> 0 \<and> at out (nat (s - 1)) = CHR ''/'' then s - 1 else back_slash out limit (s - 1)
      else s)"
  by pat_completeness auto
termination
  by (relation "measure (\<lambda>(out, limit, s). nat (s - limit))") auto

declare back_slash.simps [simp del]

function clean_loop :: "cfn_flags \<Rightarrow> bool \<Rightarrow> string \<Rightarrow> string \<Rightarrow> int \<Rightarrow> string option" where
  "clean_loop flags anchored f out limit =
     (if f = [] then Some out
      else if at f 0 = CHR ''/'' then clean_loop flags anchored (drop 1 f) out limit
      else if at f 0 = CHR ''.'' \<and> at f 1 = CHR ''/'' \<and> \<not> CFN_KEEP_DOT_DIRS flags
      then clean_loop flags anchored (drop 2 f) out limit
      else if at f 0 = CHR ''.'' \<and> at f 1 = NUL \<and> CFN_DROP_TRAILING_DOT_DIR flags then Some out
      else
        let dd = (at f 0 = CHR ''.'' \<and> (CFN_COLLAPSE_DOT_DOT_DIRS flags \<or> CFN_REFUSE_DOT_DOT_DIRS flags)
                  \<and> DOT_IS_DOT_DOT_DIR f);
            t = int (length out);
            s = back_slash out limit (t - 1) in
        if dd \<and> CFN_REFUSE_DOT_DOT_DIRS flags then None
        else if dd \<and> t - 1 = 0 \<and> anchored then clean_loop flags anchored (drop 2 f) out limit
        else if dd \<and> s \<noteq> t - 1 \<and> (s < 0 \<or> at out (nat s) = CHR ''/'')
        then clean_loop flags anchored (drop 2 f) (take (nat (s + 1)) out) limit
        else
          case copy_component f of
            (c, f') \<Rightarrow> clean_loop flags anchored f' (out @ c) (if dd then t + 2 else limit))"
  by pat_completeness auto
termination
  by (relation "measure (\<lambda>(flags, anchored, f, out, limit). length f)")
    (auto dest!: copy_component_length [OF sym])

declare clean_loop.simps [simp del]

definition clean_fname :: "cfn_flags \<Rightarrow> string \<Rightarrow> string option" where
  "clean_fname flags name =
     (let anchored = (at name 0 = CHR ''/'') in
      if \<not> anchored \<and> \<not> (CFN_KEEP_DOT_DIRS flags \<and> at name 0 = CHR ''.'' \<and> at name 1 = CHR ''/'')
         \<and> CFN_REFUSE_DOT_DOT_DIRS flags \<and> at name 0 = CHR ''.'' \<and> DOT_IS_DOT_DOT_DIR name
      then None
      else
        let n = (if anchored then 1
                 else if CFN_KEEP_DOT_DIRS flags \<and> at name 0 = CHR ''.'' \<and> at name 1 = CHR ''/'' then 2 else 0) in
        case clean_loop flags anchored (drop n name) (take n name) (-1) of
          None \<Rightarrow> None
        | Some out \<Rightarrow>
            let out = (if length out > (if anchored then 1 else 0) \<and> last out = CHR ''/'' \<and> \<not> CFN_KEEP_TRAILING_SLASH flags
                       then butlast out else out)
            in Some (if out = [] then ''.'' else out))"

definition collapse_flags :: cfn_flags where
  "collapse_flags = \<lparr>CFN_KEEP_DOT_DIRS = False, CFN_KEEP_TRAILING_SLASH = False, CFN_DROP_TRAILING_DOT_DIR = True,
     CFN_COLLAPSE_DOT_DOT_DIRS = True, CFN_REFUSE_DOT_DOT_DIRS = False\<rparr>"

section \<open>Refusing parent directories\<close>

lemma DOT_IS_DOT_DOT_DIR_is: "at p 0 = CHR ''.'' \<and> DOT_IS_DOT_DOT_DIR p \<longleftrightarrow> is_dot_dot p"
  by (auto simp: DOT_IS_DOT_DOT_DIR_def is_dot_dot_def)

text \<open>The next component of the rest of the name.\<close>

lemma next_component:
  assumes "f \<noteq> []" and "at f 0 \<noteq> CHR ''/''" and "NUL \<notin> set f" and "copy_component f = (a, b)"
  obtains c where "c \<noteq> []" "CHR ''/'' \<notin> set c" "a = c @ ''/'' \<and> f = c @ ''/'' @ b \<or> a = c \<and> f = c \<and> b = []"
    "path_comps f = c # path_comps b" "is_dot_dot f \<longleftrightarrow> c = ''..''"
    "c = ''..'' \<Longrightarrow> path_comps (drop 2 f) = path_comps b"
    "at f 0 = CHR ''.'' \<and> at f 1 = CHR ''/'' \<longleftrightarrow> c = ''.'' \<and> a = c @ ''/''"
    "at f 0 = CHR ''.'' \<and> at f 1 = NUL \<longleftrightarrow> c = ''.'' \<and> a = c"
proof -
  obtain c where c: "c \<noteq> []" "CHR ''/'' \<notin> set c" "a = c @ ''/'' \<and> f = c @ ''/'' @ b \<or> a = c \<and> f = c \<and> b = []"
    using copy_component_split [OF assms(4,1,2)] by blast
  have nul: "NUL \<notin> set c" using c(3) assms(3) by auto
  have "path_comps f = c # path_comps b"
    using c by (auto simp: path_comps_def split_slash_append split_slash_plain)
  moreover have "is_dot_dot f \<longleftrightarrow> c = ''..''" using is_dot_dot_component [OF c(2) nul] c(3) by blast
  moreover have "c = ''..'' \<Longrightarrow> path_comps (drop 2 f) = path_comps b"
    using c(3) by (auto simp: path_comps_def)
  moreover have "at f 0 = CHR ''.'' \<and> at f 1 = CHR ''/'' \<longleftrightarrow> c = ''.'' \<and> a = c @ ''/''"
  proof -
    obtain x xs where "c = x # xs" using c(1) by (cases c) auto
    then show ?thesis using c by (cases xs) (auto simp: NUL_def)
  qed
  moreover have "at f 0 = CHR ''.'' \<and> at f 1 = NUL \<longleftrightarrow> c = ''.'' \<and> a = c"
  proof -
    obtain x xs where "c = x # xs" using c(1) by (cases c) auto
    then show ?thesis using c nul by (cases xs) (auto simp: NUL_def)
  qed
  ultimately show thesis using that c by blast
qed

lemma clean_loop_refuse:
  assumes "CFN_REFUSE_DOT_DOT_DIRS flags" and "\<not> CFN_KEEP_DOT_DIRS flags" and "NUL \<notin> set f"
  shows "clean_loop flags anchored f out limit = None \<longleftrightarrow> ''..'' \<in> set (path_comps f)"
  using assms(3)
proof (induction "length f" arbitrary: f out limit rule: less_induct)
  case less
  consider (stop) "f = []" | (slash) "f \<noteq> []" "at f 0 = CHR ''/''" | (comp) "f \<noteq> []" "at f 0 \<noteq> CHR ''/''" by blast
  then show ?case
  proof cases
    case stop
    then show ?thesis by (subst clean_loop.simps) (simp add: path_comps_def)
  next
    case slash
    then have "path_comps f = path_comps (drop 1 f)" by (cases f) (auto simp: path_comps_def)
    moreover have "clean_loop flags anchored f out limit = clean_loop flags anchored (drop 1 f) out limit"
      using slash by (subst clean_loop.simps) simp
    moreover have "NUL \<notin> set (drop 1 f)" using less.prems by (meson in_set_dropD)
    ultimately show ?thesis using less.hyps [of "drop 1 f"] slash by simp
  next
    case comp
    obtain a b where ab: "copy_component f = (a, b)" by fastforce
    obtain c where c': "c \<noteq> []" "CHR ''/'' \<notin> set c" "a = c @ ''/'' \<and> f = c @ ''/'' @ b \<or> a = c \<and> f = c \<and> b = []"
        "path_comps f = c # path_comps b" "is_dot_dot f \<longleftrightarrow> c = ''..''"
        "c = ''..'' \<Longrightarrow> path_comps (drop 2 f) = path_comps b"
        "at f 0 = CHR ''.'' \<and> at f 1 = CHR ''/'' \<longleftrightarrow> c = ''.'' \<and> a = c @ ''/''"
        "at f 0 = CHR ''.'' \<and> at f 1 = NUL \<longleftrightarrow> c = ''.'' \<and> a = c"
      using next_component [OF comp less.prems ab] by blast
    note c = c'(3,4,5,7,8)
    have nul: "NUL \<notin> set b" using c(1) less.prems by auto
    have IH: "clean_loop flags anchored b x y = None \<longleftrightarrow> ''..'' \<in> set (path_comps b)" for x y
      using less.hyps [OF copy_component_length [OF ab comp(1)] nul] .
    have A: "(at f 0 = CHR ''.'' \<and> at f 1 = CHR ''/'' \<and> \<not> CFN_KEEP_DOT_DIRS flags) = (c = ''.'' \<and> a = c @ ''/'')"
      and B: "(at f 0 = CHR ''.'' \<and> at f 1 = NUL \<and> CFN_DROP_TRAILING_DOT_DIR flags) = (c = ''.'' \<and> a = c \<and> CFN_DROP_TRAILING_DOT_DIR flags)"
      and C: "(at f 0 = CHR ''.'' \<and> (CFN_COLLAPSE_DOT_DOT_DIRS flags \<or> CFN_REFUSE_DOT_DOT_DIRS flags) \<and>
        DOT_IS_DOT_DOT_DIR f) = (c = ''..'')"
      using assms(1,2) c(3,4,5) DOT_IS_DOT_DOT_DIR_is [of f] by auto
    have d: "c = ''.'' \<Longrightarrow> a = c @ ''/'' \<Longrightarrow> drop 2 f = b" using c(1) by auto
    have e: "c = ''.'' \<Longrightarrow> a = c \<Longrightarrow> path_comps b = []" using c(1) by (auto simp: path_comps_def)
    show ?thesis
      unfolding clean_loop.simps [of flags anchored f out limit] Let_def A B C c(2)
      using comp assms(1) IH ab d e by auto
  qed
qed

text \<open>C11: With CFN_REFUSE_DOT_DOT_DIRS (and dot dirs not kept) clean_fname fails exactly for the names
  with a ".." component.\<close>

theorem clean_fname_refuse:
  assumes "CFN_REFUSE_DOT_DOT_DIRS flags" and "\<not> CFN_KEEP_DOT_DIRS flags" and "NUL \<notin> set name"
  shows "clean_fname flags name = None \<longleftrightarrow> ''..'' \<in> set (path_comps name)"
proof -
  define n where "n = (if at name 0 = CHR ''/'' then 1 else 0 :: nat)"
  have comps: "path_comps (drop n name) = path_comps name"
    by (cases name) (auto simp: n_def path_comps_def)
  have "NUL \<notin> set (drop n name)" using assms(3) by (meson in_set_dropD)
  note L = clean_loop_refuse [OF assms(1,2) this, unfolded comps]
  have "''..'' \<in> set (path_comps name)" if "at name 0 = CHR ''.''" "DOT_IS_DOT_DOT_DIR name"
  proof -
    obtain a b where ab: "copy_component name = (a, b)" by fastforce
    have "name \<noteq> []" "at name 0 \<noteq> CHR ''/''" "is_dot_dot name" using that DOT_IS_DOT_DOT_DIR_is [of name] by (auto simp: NUL_def)
    then show ?thesis using next_component [OF _ _ assms(3) ab] by (metis list.set_intros(1))
  qed
  then show ?thesis
    using L assms(1,2) unfolding clean_fname_def Let_def n_def
    by (auto split: option.splits if_splits)
qed

theorem clean_fname_refuse_witness:
  "clean_fname (collapse_flags\<lparr>CFN_REFUSE_DOT_DOT_DIRS := True\<rparr>) ''a/../b'' = None"
proof -
  have "NUL \<notin> set ''a/../b''" "''..'' \<in> set (path_comps ''a/../b'')" by code_simp+
  then show ?thesis
    using clean_fname_refuse [of "collapse_flags\<lparr>CFN_REFUSE_DOT_DOT_DIRS := True\<rparr>" "''a/../b''"]
    by (simp add: collapse_flags_def)
qed

section \<open>Normal form of a path\<close>

text \<open>
  The specification: a stack of components; \<open>.\<close> is dropped, \<open>..\<close> takes back the
  component before it, is dropped at the root, and is kept at the start of a relative path.
\<close>

fun norm_step :: "bool \<Rightarrow> string list \<Rightarrow> string \<Rightarrow> string list" where
  "norm_step anchored st c =
     (if c = ''.'' then st
      else if c = ''..'' then
        (if st = [] then if anchored then [] else [c]
         else if last st = ''..'' then st @ [c] else butlast st)
      else st @ [c])"

definition norm_path :: "bool \<Rightarrow> string list \<Rightarrow> string list" where
  "norm_path anchored cs = foldl (norm_step anchored) [] cs"

fun join_slash :: "string list \<Rightarrow> string" where
  "join_slash [] = []"
| "join_slash [c] = c"
| "join_slash (c # cs) = c @ ''/'' @ join_slash cs"

definition path_of :: "bool \<Rightarrow> string list \<Rightarrow> string" where
  "path_of anchored cs =
     (if anchored then ''/'' @ join_slash cs else if cs = [] then ''.'' else join_slash cs)"

lemma join_slash_render: "cs \<noteq> [] \<Longrightarrow> render cs = join_slash cs @ ''/''"
  by (induction cs rule: join_slash.induct) auto

lemma join_slash_snoc: "join_slash (cs @ [c]) = render cs @ c"
  by (induction cs rule: join_slash.induct) auto

lemma at_last: "q \<noteq> [] \<Longrightarrow> last q = x \<Longrightarrow> at (q @ r) (length q - 1) = x"
  by (simp add: at_append last_conv_nth)

lemma back_slash_name:
  assumes "CHR ''/'' \<notin> set c" and "-1 \<le> limit" and "limit \<le> int (length q) - 1" and "q = [] \<or> last q = CHR ''/''"
  shows "back_slash ((q @ c) @ r) limit (int (length (q @ c))) = int (length q) - 1"
  using assms(1)
proof (induction c arbitrary: r rule: rev_induct)
  case Nil
  show ?case
  proof (cases "q = []")
    case True
    then have "limit = -1" using assms(2,3) by simp
    then show ?thesis using True by (simp add: back_slash.simps [of _ _ 0] back_slash.simps [of _ _ "-1"])
  next
    case False
    then have "at (q @ r) (length q - 1) = CHR ''/''"
      using assms(4) by (simp add: at_append last_conv_nth)
    moreover have "nat (int (length q) - 1) = length q - 1" by simp
    ultimately show ?thesis
      using False assms(2,3) by (simp add: back_slash.simps [of "q @ r" limit "int (length q)"] Suc_le_eq)
  qed
next
  case (snoc x c)
  have "at ((q @ c @ [x]) @ r) (length (q @ c)) = x" by (simp add: at_def nth_append)
  moreover have "(q @ c @ [x]) @ r = (q @ c) @ (x # r)" by simp
  ultimately have "back_slash ((q @ c @ [x]) @ r) limit (int (length (q @ c @ [x]))) =
      back_slash ((q @ c) @ (x # r)) limit (int (length (q @ c)))"
    using snoc.prems assms(2,3) by (subst back_slash.simps) (auto simp: at_def nth_append)
  then show ?case using snoc.IH [of "x # r"] snoc.prems by simp
qed

definition clean_inv :: "bool \<Rightarrow> string list \<Rightarrow> string \<Rightarrow> int \<Rightarrow> bool" where
  "clean_inv anchored st out limit \<longleftrightarrow>
     (\<exists>k cs. st = replicate k ''..'' @ cs \<and> (\<forall>c\<in>set cs. name_ok c) \<and> (anchored \<longrightarrow> k = 0) \<and>
        out = (if anchored then ''/'' else []) @ render st \<and> limit = 3 * int k - 1)"

lemma length_render_ups: "length (render (replicate k ''..'')) = 3 * k"
  by (induction k) auto

lemma render_ups_Suc: "render (replicate (Suc k) ''..'') = render (replicate k ''..'') @ ''../''"
  by (induction k) auto

lemma last_render: "cs \<noteq> [] \<Longrightarrow> last (render cs) = CHR ''/'' \<and> render cs \<noteq> []"
  by (cases cs rule: rev_cases) auto

text \<open>The three outcomes of a \<open>..\<close> component.\<close>

lemma dot_dot_cases:
  assumes inv: "clean_inv anchored st out limit" and s: "s = back_slash out limit (int (length out) - 1)"
    and root: "\<not> (int (length out) - 1 = 0 \<and> anchored)"
  shows "(s \<noteq> int (length out) - 1 \<and> (s < 0 \<or> at out (nat s) = CHR ''/'')) =
      (st \<noteq> [] \<and> last st \<noteq> ''..'')"
    and "st \<noteq> [] \<Longrightarrow> last st \<noteq> ''..'' \<Longrightarrow> clean_inv anchored (butlast st) (take (nat (s + 1)) out) limit"
    and "st = [] \<or> last st = ''..'' \<Longrightarrow> clean_inv anchored (st @ [''..'']) (out @ ''../'') (int (length out) + 2)"
proof -
  let ?pre = "if anchored then ''/'' else []"
  obtain k cs where i: "st = replicate k ''..'' @ cs" "\<forall>c\<in>set cs. name_ok c" "anchored \<longrightarrow> k = 0"
    "out = ?pre @ render st" "limit = 3 * int k - 1"
    using inv by (auto simp: clean_inv_def)
  have "(s \<noteq> int (length out) - 1 \<and> (s < 0 \<or> at out (nat s) = CHR ''/'')) = (st \<noteq> [] \<and> last st \<noteq> ''..'') \<and>
    (st \<noteq> [] \<longrightarrow> last st \<noteq> ''..'' \<longrightarrow> clean_inv anchored (butlast st) (take (nat (s + 1)) out) limit) \<and>
    (st = [] \<or> last st = ''..'' \<longrightarrow> clean_inv anchored (st @ [''..'']) (out @ ''../'') (int (length out) + 2))"
  proof (cases cs rule: rev_cases)
    case Nil
    then have st: "st = replicate k ''..''" using i(1) by simp
    then have out: "out = render (replicate k ''..'')" "\<not> anchored" using i(3,4) root by auto
    then have "int (length out) - 1 = limit" using i(5) length_render_ups by simp
    then have "s = int (length out) - 1" using s by (simp add: back_slash.simps [of out limit limit])
    moreover have "st @ [''..''] = replicate (Suc k) ''..''" using st by (simp add: replicate_append_same)
    then have "clean_inv anchored (st @ [''..'']) (out @ ''../'') (int (length out) + 2)"
      unfolding clean_inv_def using out st length_render_ups [of k]
      by (intro exI [of _ "Suc k"] exI [of _ "[]"]) (auto simp: render_ups_Suc simp del: replicate_Suc)
    ultimately show ?thesis using st by (cases k) auto
  next
    case (snoc B c)
    define q where "q = ?pre @ render (replicate k ''..'' @ B)"
    have st: "st = (replicate k ''..'' @ B) @ [c]" using i(1) snoc by simp
    have c: "name_ok c" using i(2) snoc by simp
    have out: "out = (q @ c) @ ''/''" using i(4) st by (simp add: q_def)
    have q: "q = [] \<or> last q = CHR ''/''"
      using last_render [of "replicate k ''..'' @ B"] by (cases "replicate k ''..'' @ B = []") (auto simp: q_def)
    have "s = int (length q) - 1"
    proof -
      have "limit \<le> int (length q) - 1" using i(5) length_render_ups [of k] by (simp add: q_def)
      then show ?thesis
        using back_slash_name [of c limit q "''/''"] c i(5) q s unfolding out by (simp add: name_ok_def)
    qed
    moreover have "q \<noteq> [] \<Longrightarrow> at out (length q - 1) = CHR ''/''"
      using q at_last [of q "CHR ''/''" "c @ ''/''"] unfolding out by simp
    moreover have "length q \<noteq> length (q @ c)" using c by (simp add: name_ok_def)
    moreover have "clean_inv anchored (replicate k ''..'' @ B) q limit"
      unfolding clean_inv_def using i(2,3,5) snoc by (intro exI [of _ k] exI [of _ B]) (auto simp: q_def)
    ultimately show ?thesis
      using st c out by (cases "q = []") (auto simp: name_ok_def nat_diff_distrib Suc_le_eq butlast_append)
  qed
  then show "(s \<noteq> int (length out) - 1 \<and> (s < 0 \<or> at out (nat s) = CHR ''/'')) = (st \<noteq> [] \<and> last st \<noteq> ''..'')"
    "st \<noteq> [] \<Longrightarrow> last st \<noteq> ''..'' \<Longrightarrow> clean_inv anchored (butlast st) (take (nat (s + 1)) out) limit"
    "st = [] \<or> last st = ''..'' \<Longrightarrow> clean_inv anchored (st @ [''..'']) (out @ ''../'') (int (length out) + 2)"
    by blast+
qed

lemma collapse_flags_sel:
  "CFN_KEEP_DOT_DIRS collapse_flags = False" "CFN_KEEP_TRAILING_SLASH collapse_flags = False"
  "CFN_DROP_TRAILING_DOT_DIR collapse_flags = True" "CFN_COLLAPSE_DOT_DOT_DIRS collapse_flags = True"
  "CFN_REFUSE_DOT_DOT_DIRS collapse_flags = False"
  by (simp_all add: collapse_flags_def)

lemma clean_inv_push:
  assumes "clean_inv anchored st out limit" and "name_ok c"
  shows "clean_inv anchored (st @ [c]) (out @ c @ ''/'') limit"
  using assms unfolding clean_inv_def by (elim exE, intro exI [of _ "_ @ [c]"] exI) auto

text \<open>
  What the loop has at the end: the components on the stack, the last one with or without its
  slash.
\<close>

lemma clean_loop_norm:
  assumes "clean_inv anchored st out limit" and "NUL \<notin> set f"
  shows "\<exists>st' out'. clean_loop collapse_flags anchored f out limit = Some out' \<and>
    st' = foldl (norm_step anchored) st (path_comps f) \<and> (\<exists>out limit. clean_inv anchored st' out limit) \<and>
    (out' = (if anchored then ''/'' else []) @ render st' \<or> st' \<noteq> [] \<and> out' = (if anchored then ''/'' else []) @ join_slash st')"
  using assms
proof (induction "length f" arbitrary: f st out limit rule: less_induct)
  case less
  let ?pre = "if anchored then ''/'' else []"
  let ?P = "\<lambda>f st out limit. \<exists>st' out'. clean_loop collapse_flags anchored f out limit = Some out' \<and>
    st' = foldl (norm_step anchored) st (path_comps f) \<and> (\<exists>out limit. clean_inv anchored st' out limit) \<and>
    (out' = ?pre @ render st' \<or> st' \<noteq> [] \<and> out' = ?pre @ join_slash st')"
  have out: "out = ?pre @ render st" using less.prems(1) by (auto simp: clean_inv_def)
  show ?case
  proof (cases "f = []")
    case True
    then show ?thesis using less.prems(1) out by (subst clean_loop.simps) (auto simp: path_comps_def)
  next
    case ne: False
    show ?thesis
    proof (cases "at f 0 = CHR ''/''")
      case True
      have "path_comps f = path_comps (drop 1 f)" using True ne by (cases f) (auto simp: path_comps_def)
      moreover have "clean_loop collapse_flags anchored f out limit = clean_loop collapse_flags anchored (drop 1 f) out limit"
        using True ne by (subst clean_loop.simps) simp
      moreover have "NUL \<notin> set (drop 1 f)" using less.prems(2) by (meson in_set_dropD)
      ultimately show ?thesis using less.hyps [of "drop 1 f"] less.prems(1) ne by simp
    next
      case False
      obtain a b where ab: "copy_component f = (a, b)" by fastforce
      obtain c where c: "c \<noteq> []" "CHR ''/'' \<notin> set c" "a = c @ ''/'' \<and> f = c @ ''/'' @ b \<or> a = c \<and> f = c \<and> b = []"
        "path_comps f = c # path_comps b" "is_dot_dot f \<longleftrightarrow> c = ''..''"
        "c = ''..'' \<Longrightarrow> path_comps (drop 2 f) = path_comps b"
        "at f 0 = CHR ''.'' \<and> at f 1 = CHR ''/'' \<longleftrightarrow> c = ''.'' \<and> a = c @ ''/''"
        "at f 0 = CHR ''.'' \<and> at f 1 = NUL \<longleftrightarrow> c = ''.'' \<and> a = c"
        using next_component [OF ne False less.prems(2) ab] by blast
      have nul: "NUL \<notin> set b" "NUL \<notin> set (drop 2 f)" using c(3) less.prems(2) by (auto dest: in_set_dropD)
      have lb: "length b < length f" using copy_component_length [OF ab ne] .
      have l2: "length (drop 2 f) < length f" using ne by (cases f) auto
      define s where "s = back_slash out limit (int (length out) - 1)"
      have loop: "clean_loop collapse_flags anchored f out limit =
          (if c = ''.'' then if a = c then Some out else clean_loop collapse_flags anchored (drop 2 f) out limit
           else if c = ''..'' \<and> int (length out) - 1 = 0 \<and> anchored then clean_loop collapse_flags anchored (drop 2 f) out limit
           else if c = ''..'' \<and> s \<noteq> int (length out) - 1 \<and> (s < 0 \<or> at out (nat s) = CHR ''/'')
           then clean_loop collapse_flags anchored (drop 2 f) (take (nat (s + 1)) out) limit
           else clean_loop collapse_flags anchored b (out @ a) (if c = ''..'' then int (length out) + 2 else limit))"
      proof -
        have A: "(at f 0 = CHR ''.'' \<and> at f 1 = CHR ''/'' \<and> \<not> CFN_KEEP_DOT_DIRS collapse_flags) = (c = ''.'' \<and> a = c @ ''/'')"
          and B: "(at f 0 = CHR ''.'' \<and> at f 1 = NUL \<and> CFN_DROP_TRAILING_DOT_DIR collapse_flags) = (c = ''.'' \<and> a = c)"
          and C: "(at f 0 = CHR ''.'' \<and> (CFN_COLLAPSE_DOT_DOT_DIRS collapse_flags \<or> CFN_REFUSE_DOT_DOT_DIRS collapse_flags) \<and>
            DOT_IS_DOT_DOT_DIR f) = (c = ''..'')"
          and R: "CFN_REFUSE_DOT_DOT_DIRS collapse_flags = False"
          using c(5,7,8) DOT_IS_DOT_DOT_DIR_is [of f] by (simp_all add: collapse_flags_sel)
        have "a = c \<or> a = c @ ''/''" using c(3) by blast
        then show ?thesis
          unfolding clean_loop.simps [of collapse_flags anchored f out limit] Let_def s_def [symmetric]
          unfolding A B C
          unfolding R
          by (cases "c = ''.''") (auto simp: ne False ab)
      qed
      have fin: "clean_loop collapse_flags anchored [] x y = Some x" for x y by (simp add: clean_loop.simps)
      have push: ?thesis
        if e: "clean_loop collapse_flags anchored f out limit = clean_loop collapse_flags anchored b (out @ a) l"
          and n: "norm_step anchored st c = st @ [c]" and i: "clean_inv anchored (st @ [c]) (out @ c @ ''/'') l" for l
      proof (cases "a = c @ ''/''")
        case True
        then show ?thesis using less.hyps [OF lb, of "st @ [c]" "out @ a" l] i nul(1) e n c(4) by simp
      next
        case False
        then have "a = c" "b = []" using c(3) by auto
        then show ?thesis
          using e n c(4) i out fin join_slash_snoc [of st c] by (auto simp: path_comps_def)
      qed
      have pop: ?thesis
        if e: "clean_loop collapse_flags anchored f out limit = clean_loop collapse_flags anchored (drop 2 f) x limit"
          and n: "norm_step anchored st c = y" and i: "clean_inv anchored y x limit"
          and d: "path_comps (drop 2 f) = path_comps b" for x y
        using less.hyps [OF l2, of y x limit] i nul(2) e n c(4) d by simp
      consider (dot) "c = ''.''" | (root) "c = ''..''" "int (length out) - 1 = 0 \<and> anchored"
        | (up) "c = ''..''" "\<not> (int (length out) - 1 = 0 \<and> anchored)" | (name) "c \<noteq> ''.''" "c \<noteq> ''..''" by blast
      then show ?thesis
      proof cases
        case dot
        show ?thesis
        proof (cases "a = c")
          case True
          then show ?thesis using dot loop c(3,4) less.prems(1) out by (auto simp: path_comps_def)
        next
          case False
          then have "drop 2 f = b" using c(3) dot by auto
          then show ?thesis using pop [of out st] False dot loop less.prems(1) by simp
        qed
      next
        case root
        then have "st = []" using out by (cases st) auto
        then show ?thesis using pop [of out "[]"] root loop less.prems(1) c(6) by simp
      next
        case up
        note D = dot_dot_cases [OF less.prems(1) s_def up(2)]
        show ?thesis
        proof (cases "st \<noteq> [] \<and> last st \<noteq> ''..''")
          case True
          then show ?thesis
            using pop [of "take (nat (s + 1)) out" "butlast st"] up loop D(1,2) c(6) by auto
        next
          case False
          have na: "st = [] \<Longrightarrow> \<not> anchored" using up(2) out by auto
          have "norm_step anchored st c = st @ [c]" using False up(1) na by auto
          moreover have "clean_loop collapse_flags anchored f out limit = clean_loop collapse_flags anchored b (out @ a) (int (length out) + 2)"
          proof -
            have nr: "\<not> (c = ''..'' \<and> int (length out) - 1 = 0 \<and> anchored)" using up by blast
            have nd: "\<not> (c = ''..'' \<and> s \<noteq> int (length out) - 1 \<and> (s < 0 \<or> at out (nat s) = CHR ''/''))"
              using D(1) False by blast
            show ?thesis unfolding loop if_not_P [OF nr] if_not_P [OF nd] using up(1) by simp
          qed
          ultimately show ?thesis using push D(3) False up(1) by auto
        qed
      next
        case name
        then have "name_ok c" using c(1,2) by (simp add: name_ok_def)
        then show ?thesis using push [of limit] clean_inv_push [OF less.prems(1)] name loop by simp
      qed
    qed
  qed
qed

text \<open>
  With the flags normalize\_path uses, clean\_fname computes the normal form of the path.
\<close>



end
