(* ===== verification/Chmod.thy ===== *)
theory Chmod
  imports Prelude
begin

text \<open>
  The --chmod option, chmod.c: a string is parsed into a list of AND/OR masks, which tweak_mode
  applies to a file mode. The linked list is a list; \<open>umask\<close> is orig_umask. The numbers are
  those of the source in decimal: 0111 is 73, 0777 is 511, 07000 is 3584, 07777 (CHMOD_BITS) is 4095.
\<close>

section \<open>The code\<close>

definition CHMOD_BITS :: int where "CHMOD_BITS = 4095"

record chmod_flags =
  FLAG_X_KEEP :: bool
  FLAG_DIRS_ONLY :: bool
  FLAG_FILES_ONLY :: bool

record chmod_mode_struct =
  ModeAND :: int
  ModeOR :: int
  cm_flags :: chmod_flags

datatype chmod_op = CHMOD_NONE | CHMOD_ADD | CHMOD_SUB | CHMOD_EQ | CHMOD_SET

datatype chmod_half = STATE_1ST_HALF | STATE_2ND_HALF | STATE_OCTAL_NUM

record chmod_vars =
  cv_state :: chmod_half
  cv_where :: int
  cv_what :: int
  cv_op :: chmod_op
  cv_topbits :: int
  cv_topoct :: int
  cv_flags :: chmod_flags

definition chmod_reset :: chmod_vars where
  "chmod_reset = \<lparr>cv_state = STATE_1ST_HALF, cv_where = 0, cv_what = 0, cv_op = CHMOD_NONE, cv_topbits = 0,
     cv_topoct = 0, cv_flags = \<lparr>FLAG_X_KEEP = False, FLAG_DIRS_ONLY = False, FLAG_FILES_ONLY = False\<rparr>\<rparr>"

text \<open>The item for what stands before a comma or the end of the string.\<close>

definition chmod_item :: "int \<Rightarrow> chmod_vars \<Rightarrow> chmod_mode_struct" where
  "chmod_item umask v =
     (let (where', bits) = (if cv_where v \<noteq> 0 then (cv_where v, cv_where v * cv_what v)
                           else (73, (73 * cv_what v) AND NOT umask));
          (mand, mor) =
            (case cv_op v of
               CHMOD_NONE \<Rightarrow> (0, 0)
             | CHMOD_ADD \<Rightarrow> (CHMOD_BITS, bits + cv_topoct v)
             | CHMOD_SUB \<Rightarrow> (CHMOD_BITS - bits - cv_topoct v, 0)
             | CHMOD_EQ \<Rightarrow> (CHMOD_BITS - (where' * 7) - (if cv_topoct v \<noteq> 0 then cv_topbits v else 0), bits + cv_topoct v)
             | CHMOD_SET \<Rightarrow> (0, bits))
      in \<lparr>ModeAND = mand, ModeOR = mor, cm_flags = cv_flags v\<rparr>)"

definition octal_digit :: "char \<Rightarrow> bool" where
  "octal_digit c \<longleftrightarrow> c_isdigit c \<and> (of_char c :: nat) < 56"

definition digit_value :: "char \<Rightarrow> int" where
  "digit_value c = int (of_char c) - 48"

text \<open>The switch on the state; \<open>None\<close> is STATE_ERROR.\<close>

definition first_half :: "char \<Rightarrow> chmod_vars \<Rightarrow> chmod_vars option" where
  "first_half c v =
     (let fl = cv_flags v in
      if c = CHR ''D'' then
        (if FLAG_FILES_ONLY fl then None else Some (v\<lparr>cv_flags := fl\<lparr>FLAG_DIRS_ONLY := True\<rparr>\<rparr>))
      else if c = CHR ''F'' then
        (if FLAG_DIRS_ONLY fl then None else Some (v\<lparr>cv_flags := fl\<lparr>FLAG_FILES_ONLY := True\<rparr>\<rparr>))
      else if c = CHR ''u'' then Some (v\<lparr>cv_where := cv_where v OR 64, cv_topbits := cv_topbits v OR 2048\<rparr>)
      else if c = CHR ''g'' then Some (v\<lparr>cv_where := cv_where v OR 8, cv_topbits := cv_topbits v OR 1024\<rparr>)
      else if c = CHR ''o'' then Some (v\<lparr>cv_where := cv_where v OR 1\<rparr>)
      else if c = CHR ''a'' then Some (v\<lparr>cv_where := cv_where v OR 73\<rparr>)
      else if c = CHR ''+'' then Some (v\<lparr>cv_op := CHMOD_ADD, cv_state := STATE_2ND_HALF\<rparr>)
      else if c = CHR ''-'' then Some (v\<lparr>cv_op := CHMOD_SUB, cv_state := STATE_2ND_HALF\<rparr>)
      else if c = CHR ''='' then Some (v\<lparr>cv_op := CHMOD_EQ, cv_state := STATE_2ND_HALF\<rparr>)
      else if octal_digit c \<and> cv_where v = 0 then
        Some (v\<lparr>cv_op := CHMOD_SET, cv_state := STATE_OCTAL_NUM, cv_where := 1, cv_what := digit_value c\<rparr>)
      else None)"

definition second_half :: "char \<Rightarrow> chmod_vars \<Rightarrow> chmod_vars option" where
  "second_half c v =
     (if c = CHR ''r'' then Some (v\<lparr>cv_what := cv_what v OR 4\<rparr>)
      else if c = CHR ''w'' then Some (v\<lparr>cv_what := cv_what v OR 2\<rparr>)
      else if c = CHR ''X'' then
        Some (v\<lparr>cv_flags := (cv_flags v)\<lparr>FLAG_X_KEEP := True\<rparr>, cv_what := cv_what v OR 1\<rparr>)
      else if c = CHR ''x'' then Some (v\<lparr>cv_what := cv_what v OR 1\<rparr>)
      else if c = CHR ''s'' then
        Some (if cv_topbits v \<noteq> 0 then v\<lparr>cv_topoct := cv_topoct v OR cv_topbits v\<rparr> else v\<lparr>cv_topoct := 2048\<rparr>)
      else if c = CHR ''t'' then Some (v\<lparr>cv_topoct := cv_topoct v OR 512\<rparr>)
      else None)"

definition octal_num :: "char \<Rightarrow> chmod_vars \<Rightarrow> chmod_vars option" where
  "octal_num c v =
     (if octal_digit c then
        let what = cv_what v * 8 + digit_value c in
        if what > CHMOD_BITS then None else Some (v\<lparr>cv_what := what\<rparr>)
      else None)"

definition chmod_step :: "char \<Rightarrow> chmod_vars \<Rightarrow> chmod_vars option" where
  "chmod_step c v =
     (case cv_state v of
        STATE_1ST_HALF \<Rightarrow> first_half c v
      | STATE_2ND_HALF \<Rightarrow> second_half c v
      | STATE_OCTAL_NUM \<Rightarrow> octal_num c v)"

text \<open>
  The loop of parse_chmod. After a comma the next character is handled in the same turn,
  whatever it is (at the end of the string it is the NUL).
\<close>

function chmod_loop :: "int \<Rightarrow> string \<Rightarrow> chmod_vars \<Rightarrow> chmod_mode_struct list option" where
  "chmod_loop umask modestr v =
     (if at modestr 0 = NUL \<or> at modestr 0 = CHR '','' then
        if cv_op v = CHMOD_NONE then None
        else
          let item = chmod_item umask v in
          if at modestr 0 = NUL then Some [item]
          else
            let modestr = tl modestr in
            (case chmod_step (at modestr 0) chmod_reset of
               None \<Rightarrow> None
             | Some v \<Rightarrow> map_option (\<lambda>items. item # items) (chmod_loop umask (tl modestr) v))
      else
        (case chmod_step (at modestr 0) v of
           None \<Rightarrow> None
         | Some v \<Rightarrow> chmod_loop umask (tl modestr) v))"
  by pat_completeness auto
termination
proof (relation "measure (\<lambda>(umask, modestr, v). length modestr)", goal_cases)
  case (2 umask modestr v)
  then show ?case by (cases modestr) auto
next
  case (3 umask modestr v)
  then show ?case by (cases modestr) auto
qed simp

declare chmod_loop.simps [simp del]

text \<open>The new items are appended to the list at root_mode_ptr; \<open>None\<close> is NULL.\<close>

definition parse_chmod :: "int \<Rightarrow> string \<Rightarrow> chmod_mode_struct list \<Rightarrow>
    (chmod_mode_struct list \<times> chmod_mode_struct list) option" where
  "parse_chmod umask modestr root = map_option (\<lambda>items. (items, root @ items)) (chmod_loop umask modestr chmod_reset)"

definition S_ISDIR :: "int \<Rightarrow> bool" where
  "S_ISDIR mode \<longleftrightarrow> mode AND 61440 = 16384"

definition tweak_step :: "int \<Rightarrow> int \<Rightarrow> int \<Rightarrow> chmod_mode_struct \<Rightarrow> int" where
  "tweak_step IsX NonPerm mode cm =
     (if FLAG_DIRS_ONLY (cm_flags cm) \<and> \<not> S_ISDIR NonPerm then mode
      else if FLAG_FILES_ONLY (cm_flags cm) \<and> S_ISDIR NonPerm then mode
      else
        let mode = mode AND ModeAND cm in
        if FLAG_X_KEEP (cm_flags cm) \<and> IsX = 0 \<and> \<not> S_ISDIR NonPerm then mode OR (ModeOR cm AND NOT 73)
        else mode OR ModeOR cm)"

definition tweak_mode :: "int \<Rightarrow> chmod_mode_struct list \<Rightarrow> int" where
  "tweak_mode mode chmod_modes =
     (let IsX = mode AND 73; NonPerm = mode AND NOT CHMOD_BITS
      in foldl (tweak_step IsX NonPerm) mode chmod_modes OR NonPerm)"

section \<open>Clauses\<close>

lemma reset_step_stops: "chmod_step NUL chmod_reset = None" "chmod_step (CHR '','') chmod_reset = None"
  by (simp_all add: chmod_step_def chmod_reset_def first_half_def octal_digit_def c_isdigit_def NUL_def)

lemma chmod_loop_Nil: "chmod_loop umask [] v = (if cv_op v = CHMOD_NONE then None else Some [chmod_item umask v])"
  by (simp add: chmod_loop.simps Let_def)

lemma chmod_loop_Cons:
  "c \<noteq> NUL \<Longrightarrow> c \<noteq> CHR '','' \<Longrightarrow> chmod_loop umask (c # m) v = Option.bind (chmod_step c v) (chmod_loop umask m)"
  by (simp add: chmod_loop.simps [of umask "c # m"] split: option.split)

lemma chmod_loop_comma:
  "chmod_loop umask (CHR '','' # m) v =
    (if cv_op v = CHMOD_NONE then None
     else map_option (\<lambda>items. chmod_item umask v # items) (chmod_loop umask m chmod_reset))"
proof -
  have "chmod_loop umask m chmod_reset =
      (case chmod_step (at m 0) chmod_reset of None \<Rightarrow> None | Some v \<Rightarrow> chmod_loop umask (tl m) v)"
    using reset_step_stops by (subst chmod_loop.simps) (auto simp: chmod_reset_def)
  then show ?thesis
    by (subst chmod_loop.simps) (simp add: Let_def NUL_def split: option.split)
qed

lemma chmod_loop_append:
  assumes "NUL \<notin> set a"
  shows "chmod_loop umask (a @ CHR '','' # b) v =
    Option.bind (chmod_loop umask a v) (\<lambda>x. map_option (\<lambda>y. x @ y) (chmod_loop umask b chmod_reset))"
  using assms
proof (induction a arbitrary: v)
  case Nil
  then show ?case by (simp add: chmod_loop_Nil chmod_loop_comma append_Cons [abs_def])
next
  case (Cons c a)
  show ?case
  proof (cases "c = CHR '',''")
    case True
    then show ?thesis using Cons by (simp add: chmod_loop_comma bind_map_option map_option_bind option.map_comp comp_def append_Cons [abs_def])
  next
    case False
    then show ?thesis using Cons by (cases "chmod_step c v") (auto simp: chmod_loop_Cons)
  qed
qed

text \<open>The clauses of a --chmod string are independent: a string with a comma parses exactly when both
  sides parse, and its items are those of the left side followed by those of the right side;
  an empty clause, as after a final comma, is an error.\<close>

lemma parse_chmod_clauses:
  assumes "NUL \<notin> set a"
  shows "parse_chmod umask (a @ '','' @ b) root =
      Option.bind (parse_chmod umask a root) (\<lambda>(x, r). map_option (\<lambda>(y, r'). (x @ y, r')) (parse_chmod umask b r)) \<and>
    parse_chmod umask [] root = None"
  using chmod_loop_append [OF assms, of umask b chmod_reset]
  by (cases "chmod_loop umask a chmod_reset")
    (simp_all add: parse_chmod_def option.map_comp comp_def chmod_loop_Nil chmod_reset_def)

lemma parse_chmod_two_clauses:
  "parse_chmod 18 (''u+r'' @ '','' @ ''755'') [] =
   Some ([\<lparr>ModeAND = 4095, ModeOR = 256, cm_flags = cv_flags chmod_reset\<rparr>, \<lparr>ModeAND = 0, ModeOR = 493, cm_flags = cv_flags chmod_reset\<rparr>],
         [\<lparr>ModeAND = 4095, ModeOR = 256, cm_flags = cv_flags chmod_reset\<rparr>, \<lparr>ModeAND = 0, ModeOR = 493, cm_flags = cv_flags chmod_reset\<rparr>])"
proof -
  have "NUL \<notin> set ''u+r''" by code_simp
  note P = parse_chmod_clauses [OF this, of 18 "''755''" "[]"]
  have "parse_chmod 18 ''u+r'' [] = Some ([\<lparr>ModeAND = 4095, ModeOR = 256, cm_flags = cv_flags chmod_reset\<rparr>],
      [\<lparr>ModeAND = 4095, ModeOR = 256, cm_flags = cv_flags chmod_reset\<rparr>])" by code_simp
  moreover have "parse_chmod 18 ''755'' [\<lparr>ModeAND = 4095, ModeOR = 256, cm_flags = cv_flags chmod_reset\<rparr>] =
      Some ([\<lparr>ModeAND = 0, ModeOR = 493, cm_flags = cv_flags chmod_reset\<rparr>],
      [\<lparr>ModeAND = 4095, ModeOR = 256, cm_flags = cv_flags chmod_reset\<rparr>, \<lparr>ModeAND = 0, ModeOR = 493, cm_flags = cv_flags chmod_reset\<rparr>])" by code_simp
  ultimately show ?thesis using P by simp
qed

section \<open>The masks\<close>

text \<open>What the variables hold while a clause is read: sets of permission bits.\<close>

definition vars_ok :: "chmod_vars \<Rightarrow> bool" where
  "vars_ok v \<longleftrightarrow> cv_where v AND 73 = cv_where v \<and> cv_topbits v AND 3072 = cv_topbits v \<and>
     cv_topoct v AND 3584 = cv_topoct v \<and>
     (if cv_state v = STATE_OCTAL_NUM then cv_op v = CHMOD_SET \<and> cv_where v = 1 \<and> 0 \<le> cv_what v \<and> cv_what v \<le> CHMOD_BITS
      else cv_op v \<noteq> CHMOD_SET \<and> cv_what v AND 7 = cv_what v)"

lemma vars_ok_reset: "vars_ok chmod_reset"
  by (simp add: vars_ok_def chmod_reset_def)

lemma and_3072: "x AND 3072 = x \<Longrightarrow> x AND 3584 = (x :: int)"
proof -
  assume x: "x AND 3072 = x"
  have "(x AND 3072) AND 3584 = x AND (3072 AND 3584)" by (simp only: and.assoc)
  also have "\<dots> = x AND 3072" by simp
  finally show ?thesis unfolding x .
qed

lemma or_subset: "x AND m = x \<Longrightarrow> y AND m = y \<Longrightarrow> (x OR y) AND m = x OR (y :: int)"
  by (simp add: bit.conj_disj_distrib2)

lemma vars_ok_step:
  assumes "vars_ok v" and "chmod_step c v = Some v'"
  shows "vars_ok v'"
proof (cases "cv_state v")
  case STATE_1ST_HALF
  have "digit_value c \<le> 7" "0 \<le> digit_value c" if "octal_digit c"
    using that by (auto simp: octal_digit_def c_isdigit_def digit_value_def)
  moreover have "(cv_where v OR 64) AND 73 = cv_where v OR 64" "(cv_where v OR 8) AND 73 = cv_where v OR 8"
    "(cv_where v OR 1) AND 73 = cv_where v OR 1" "(cv_where v OR 73) AND 73 = cv_where v OR 73"
    "(cv_topbits v OR 2048) AND 3072 = cv_topbits v OR 2048" "(cv_topbits v OR 1024) AND 3072 = cv_topbits v OR 1024"
    using assms(1) by (auto intro!: or_subset simp: vars_ok_def)
  ultimately show ?thesis
    using assms STATE_1ST_HALF unfolding chmod_step_def first_half_def Let_def chmod_half.case
    by (simp split: if_split_asm; hypsubst?; simp add: vars_ok_def CHMOD_BITS_def)
next
  case STATE_2ND_HALF
  have "cv_topbits v AND 3584 = cv_topbits v"
    using assms(1) and_3072 unfolding vars_ok_def by blast
  moreover from this have "(cv_topoct v OR cv_topbits v) AND 3584 = cv_topoct v OR cv_topbits v"
    "(cv_topoct v OR 512) AND 3584 = cv_topoct v OR 512" "(cv_what v OR 4) AND 7 = cv_what v OR 4"
    "(cv_what v OR 2) AND 7 = cv_what v OR 2" "(cv_what v OR 1) AND 7 = cv_what v OR 1"
    using assms(1) STATE_2ND_HALF by (auto intro!: or_subset simp: vars_ok_def)
  ultimately show ?thesis
    using assms STATE_2ND_HALF unfolding chmod_step_def second_half_def chmod_half.case
    by (simp split: if_split_asm; hypsubst?; simp add: vars_ok_def)
next
  case STATE_OCTAL_NUM
  then show ?thesis
    using assms by (auto simp: chmod_step_def octal_num_def vars_ok_def Let_def octal_digit_def c_isdigit_def digit_value_def split: if_splits)
qed

definition mask_ok :: "chmod_mode_struct \<Rightarrow> bool" where
  "mask_ok cm \<longleftrightarrow> 0 \<le> ModeAND cm \<and> ModeAND cm \<le> CHMOD_BITS \<and> 0 \<le> ModeOR cm \<and> ModeOR cm \<le> CHMOD_BITS"

lemma subset_range: "x AND m = x \<Longrightarrow> 0 \<le> m \<Longrightarrow> 0 \<le> x \<and> x \<le> (m :: int)"
  by (metis and_nonnegative_int_iff AND_upper2)

lemma chmod_item_ok:
  assumes "vars_ok v"
  shows "mask_ok (chmod_item umask v)"
proof -
  have "0 \<le> cv_where v" "cv_where v \<le> 73" "0 \<le> cv_topbits v" "cv_topbits v \<le> 3072" "0 \<le> cv_topoct v" "cv_topoct v \<le> 3584"
    using assms subset_range [of "cv_where v" 73] subset_range [of "cv_topbits v" 3072] subset_range [of "cv_topoct v" 3584]
    by (auto simp: vars_ok_def)
  note W = this
  show ?thesis
  proof (cases "cv_op v = CHMOD_SET")
    case True
    then have "cv_where v = 1" "0 \<le> cv_what v" "cv_what v \<le> CHMOD_BITS" using assms by (auto simp: vars_ok_def split: if_splits)
    then show ?thesis using True by (simp add: mask_ok_def chmod_item_def CHMOD_BITS_def)
  next
    case False
    then have "0 \<le> cv_what v" "cv_what v \<le> 7"
      using assms subset_range [of "cv_what v" 7] by (auto simp: vars_ok_def split: if_splits)
    note T = this
    define bits w where "bits = (if cv_where v \<noteq> 0 then cv_where v * cv_what v else (73 * cv_what v) AND NOT umask)"
      and "w = (if cv_where v \<noteq> 0 then cv_where v else 73)"
    have "0 \<le> cv_where v * cv_what v" "cv_where v * cv_what v \<le> 73 * 7"
      using W T mult_mono [of "cv_where v" 73 "cv_what v" 7] by simp_all
    moreover have "0 \<le> (73 * cv_what v) AND NOT umask" "(73 * cv_what v) AND NOT umask \<le> 73 * 7"
      using T AND_upper1 [of "73 * cv_what v" "NOT umask"] by (simp, linarith)
    ultimately have B: "0 \<le> bits" "bits \<le> 511" "w \<le> 73" "0 \<le> w" using W by (auto simp: bits_def w_def)
    have e: "(if cv_where v \<noteq> 0 then (cv_where v, cv_where v * cv_what v) else (73, (73 * cv_what v) AND NOT umask)) = (w, bits)"
      by (simp add: bits_def w_def)
    show ?thesis
      unfolding chmod_item_def e mask_ok_def CHMOD_BITS_def using W B False by (cases "cv_op v") auto
  qed
qed

lemma chmod_loop_ok:
  "NUL \<notin> set m \<Longrightarrow> vars_ok v \<Longrightarrow> chmod_loop umask m v = Some items \<Longrightarrow> list_all mask_ok items"
proof (induction m arbitrary: v items)
  case Nil
  then show ?case using chmod_item_ok by (auto simp: chmod_loop_Nil split: if_splits)
next
  case (Cons c m)
  show ?case
  proof (cases "c = CHR '',''")
    case True
    then show ?thesis
      using Cons vars_ok_reset chmod_item_ok [OF Cons.prems(2)] by (auto simp: chmod_loop_comma split: if_splits)
  next
    case False
    then obtain v' where "chmod_step c v = Some v'" "chmod_loop umask m v' = Some items"
      using Cons.prems by (auto simp: chmod_loop_Cons split: bind_splits)
    then show ?thesis using Cons.IH [of v' items] Cons.prems(1) vars_ok_step [OF Cons.prems(2)] by simp
  qed
qed

text \<open>The bits above CHMOD_BITS are those of the old mode.\<close>

lemma mask_bits: "0 \<le> x \<Longrightarrow> x \<le> 4095 \<Longrightarrow> x AND NOT 4095 = (0 :: int)"
proof -
  assume "0 \<le> x" "x \<le> 4095"
  then have "take_bit 12 x = x" by (simp add: take_bit_int_eq_self)
  moreover have "x AND 4095 = take_bit 12 x" by (simp add: take_bit_eq_mask mask_eq_exp_minus_1)
  ultimately show ?thesis by (metis and.assoc and.right_idem bit.conj_cancel_right and_zero_eq)
qed

lemma tweak_step_high:
  assumes "mask_ok cm"
  shows "tweak_step x np mode cm AND NOT 4095 = 0 \<or> tweak_step x np mode cm = mode"
proof -
  have m: "ModeAND cm AND NOT 4095 = 0" "ModeOR cm AND NOT 4095 = 0"
    using assms mask_bits by (auto simp: mask_ok_def CHMOD_BITS_def)
  have "(mode AND ModeAND cm) AND NOT 4095 = 0" "(ModeOR cm AND NOT 73) AND NOT 4095 = 0"
    using m by (metis and.assoc and.commute and_zero_eq zero_and_eq)+
  then show ?thesis
    using m unfolding tweak_step_def Let_def by (auto simp: bit.conj_disj_distrib2)
qed

lemma foldl_tweak_high:
  "list_all mask_ok ms \<Longrightarrow> mode AND NOT 4095 = 0 \<or> mode AND NOT 4095 = np \<Longrightarrow>
   foldl (tweak_step x np') mode ms AND NOT 4095 = 0 \<or> foldl (tweak_step x np') mode ms AND NOT 4095 = np"
proof (induction ms arbitrary: mode)
  case (Cons cm ms)
  from Cons.prems(1) have cm: "mask_ok cm" and ms: "list_all mask_ok ms" by simp_all
  have "tweak_step x np' mode cm AND NOT 4095 = 0 \<or> tweak_step x np' mode cm AND NOT 4095 = np"
    using tweak_step_high [OF cm, of x np' mode] Cons.prems(2) by metis
  then show ?case unfolding foldl_Cons by (rule Cons.IH [OF ms])
qed simp

text \<open>C36: Whatever a --chmod string says, applying it changes permission bits only: the masks parsed from any
  string stay within CHMOD_BITS (the subtractions never go below zero), and tweak_mode keeps
  the file type of the mode.\<close>

theorem chmod_keeps_type:
  assumes "NUL \<notin> set modestr" and "parse_chmod umask modestr [] = Some (items, root)"
  shows "list_all mask_ok root \<and> tweak_mode mode root AND NOT CHMOD_BITS = mode AND NOT CHMOD_BITS"
proof -
  have ok: "list_all mask_ok root"
    using assms chmod_loop_ok [OF assms(1) vars_ok_reset] by (auto simp: parse_chmod_def)
  have "foldl (tweak_step (mode AND 73) (mode AND NOT 4095)) mode root AND NOT 4095 = 0 \<or>
      foldl (tweak_step (mode AND 73) (mode AND NOT 4095)) mode root AND NOT 4095 = mode AND NOT 4095"
    by (rule foldl_tweak_high [OF ok]) simp
  then have "tweak_mode mode root AND NOT CHMOD_BITS = mode AND NOT CHMOD_BITS"
    unfolding tweak_mode_def CHMOD_BITS_def Let_def bit.conj_disj_distrib2 by (elim disjE) simp_all
  with ok show ?thesis ..
qed

theorem chmod_keeps_type_witness: "\<exists>r. parse_chmod 18 ''go-rwx,Du=rwx'' [] = Some (r, r) \<and>
   tweak_mode 33188 r AND NOT CHMOD_BITS = 33188 AND NOT CHMOD_BITS"
proof -
  have n: "NUL \<notin> set ''go-rwx,Du=rwx''" by code_simp
  have "parse_chmod 18 ''go-rwx,Du=rwx'' [] \<noteq> None" by code_simp
  then obtain x r where "parse_chmod 18 ''go-rwx,Du=rwx'' [] = Some (x, r)" by auto
  moreover from this have "x = r" by (auto simp: parse_chmod_def)
  ultimately show ?thesis using chmod_keeps_type [OF n, of 18 x r 33188] by blast
qed

section \<open>What a clause does\<close>

lemma sum_disjoint: "(x :: int) AND y = 0 \<Longrightarrow> x + y = x OR y"
  by (rule disjunctive_add) (metis bit_and_iff bit_0_eq bot_apply bot_bool_def)

lemma low_high_disjoint:
  assumes "0 \<le> x" and "x \<le> 511" and "y AND 3584 = y"
  shows "x AND y = (0 :: int)"
proof -
  have "take_bit 9 x = x" using assms(1,2) by (simp add: take_bit_int_eq_self)
  moreover have "x AND 511 = take_bit 9 x" by (simp add: take_bit_eq_mask mask_eq_exp_minus_1)
  ultimately have "x AND y = (x AND 511) AND (y AND 3584)" using assms(3) by simp
  also have "\<dots> = (x AND y) AND (511 AND 3584)" by (simp only: ac_simps)
  finally show ?thesis by simp
qed

lemma mask_minus:
  assumes "0 \<le> x" and "x \<le> 4095"
  shows "4095 - x = 4095 AND NOT (x :: int)"
proof -
  have "take_bit 12 x = x" using assms by (simp add: take_bit_int_eq_self)
  moreover have "x AND 4095 = take_bit 12 x" by (simp add: take_bit_eq_mask mask_eq_exp_minus_1)
  ultimately have x: "x AND 4095 = x" by simp
  have "x AND (4095 AND NOT x) = 4095 AND (x AND NOT x)" by (simp only: ac_simps)
  then have "x AND (4095 AND NOT x) = 0" by simp
  then have "x + (4095 AND NOT x) = x OR (4095 AND NOT x)" by (rule sum_disjoint)
  also have "\<dots> = (x OR 4095) AND (x OR NOT x)" by (simp only: bit.disj_conj_distrib)
  also have "\<dots> = x OR 4095" by simp
  also have "\<dots> = (x AND 4095) OR 4095" by (simp only: x)
  also have "\<dots> = 4095" by (rule bit_eqI) (auto simp only: bit_or_iff bit_and_iff)
  finally show ?thesis by simp
qed

text \<open>The permission bits a symbolic clause is about, and those an \<open>=\<close> replaces.\<close>

definition clause_bits :: "int \<Rightarrow> chmod_vars \<Rightarrow> int" where
  "clause_bits umask v =
     (if cv_where v \<noteq> 0 then cv_where v * cv_what v else (73 * cv_what v) AND NOT umask) OR cv_topoct v"

definition clause_scope :: "chmod_vars \<Rightarrow> int" where
  "clause_scope v =
     (if cv_where v \<noteq> 0 then cv_where v else 73) * 7 OR (if cv_topoct v \<noteq> 0 then cv_topbits v else 0)"

lemma clause_parts:
  assumes "vars_ok v" and "cv_op v \<noteq> CHMOD_SET"
    and bits: "bits = (if cv_where v \<noteq> 0 then cv_where v * cv_what v else (73 * cv_what v) AND NOT umask)"
    and w: "w = (if cv_where v \<noteq> 0 then cv_where v else 73)"
    and tb: "tb = (if cv_topoct v \<noteq> 0 then cv_topbits v else 0)"
  shows "bits + cv_topoct v = clause_bits umask v" and "w * 7 + tb = clause_scope v"
    and "0 \<le> clause_bits umask v" "clause_bits umask v \<le> 4095" "0 \<le> clause_scope v" "clause_scope v \<le> 4095"
proof -
  have W: "0 \<le> cv_where v" "cv_where v \<le> 73" "0 \<le> cv_topbits v" "cv_topbits v \<le> 3072" "0 \<le> cv_topoct v" "cv_topoct v \<le> 3584"
    "cv_topoct v AND 3584 = cv_topoct v" "cv_topbits v AND 3072 = cv_topbits v"
    using assms(1) subset_range [of "cv_where v" 73] subset_range [of "cv_topbits v" 3072] subset_range [of "cv_topoct v" 3584]
    by (auto simp: vars_ok_def)
  have T: "0 \<le> cv_what v" "cv_what v \<le> 7"
    using assms(1,2) subset_range [of "cv_what v" 7] by (auto simp: vars_ok_def split: if_splits)
  have B: "0 \<le> bits" "bits \<le> 511" "0 \<le> w" "w \<le> 73" "0 \<le> tb" "tb \<le> 3072"
    using W T mult_mono [of "cv_where v" 73 "cv_what v" 7] AND_upper1 [of "73 * cv_what v" "NOT umask"]
    unfolding bits w tb by auto
  have t: "tb AND 3584 = tb" unfolding tb using and_3072 [OF W(8)] by simp
  show sb: "bits + cv_topoct v = clause_bits umask v"
    using low_high_disjoint [OF B(1,2) W(7)] by (simp add: sum_disjoint clause_bits_def bits)
  show sw: "w * 7 + tb = clause_scope v"
    using low_high_disjoint [of "w * 7" tb, OF _ _ t] B by (simp add: sum_disjoint clause_scope_def w tb)
  show "0 \<le> clause_bits umask v" "clause_bits umask v \<le> 4095" "0 \<le> clause_scope v" "clause_scope v \<le> 4095"
    using sb sw B W by simp_all
qed

lemma chmod_item_masks:
  assumes "vars_ok v" and "cv_op v \<noteq> CHMOD_SET"
  shows "ModeAND (chmod_item umask v) = (case cv_op v of CHMOD_NONE \<Rightarrow> 0 | CHMOD_SET \<Rightarrow> 0 | CHMOD_ADD \<Rightarrow> 4095
      | CHMOD_SUB \<Rightarrow> 4095 AND NOT (clause_bits umask v) | CHMOD_EQ \<Rightarrow> 4095 AND NOT (clause_scope v))"
    and "ModeOR (chmod_item umask v) = (case cv_op v of CHMOD_ADD \<Rightarrow> clause_bits umask v | CHMOD_EQ \<Rightarrow> clause_bits umask v | _ \<Rightarrow> 0)"
proof -
  note C = clause_parts [OF assms refl refl refl]
  have m: "4095 - clause_bits umask v = 4095 AND NOT (clause_bits umask v)" "4095 - clause_scope v = 4095 AND NOT (clause_scope v)"
    using C(3-6) by (simp_all add: mask_minus)
  define bits w tb where "bits = (if cv_where v \<noteq> 0 then cv_where v * cv_what v else (73 * cv_what v) AND NOT umask)"
    and "w = (if cv_where v \<noteq> 0 then cv_where v else 73)" and "tb = (if cv_topoct v \<noteq> 0 then cv_topbits v else 0)"
  have e: "(if cv_where v \<noteq> 0 then (cv_where v, cv_where v * cv_what v) else (73, (73 * cv_what v) AND NOT umask)) = (w, bits)"
    by (simp add: bits_def w_def)
  have i: "chmod_item umask v = \<lparr>ModeAND = (case cv_op v of CHMOD_NONE \<Rightarrow> 0 | CHMOD_SET \<Rightarrow> 0 | CHMOD_ADD \<Rightarrow> 4095
        | CHMOD_SUB \<Rightarrow> 4095 - bits - cv_topoct v | CHMOD_EQ \<Rightarrow> 4095 - w * 7 - tb),
      ModeOR = (case cv_op v of CHMOD_ADD \<Rightarrow> bits + cv_topoct v | CHMOD_EQ \<Rightarrow> bits + cv_topoct v | _ \<Rightarrow> 0),
      cm_flags = cv_flags v\<rparr>"
    unfolding chmod_item_def e CHMOD_BITS_def tb_def using assms(2) by (cases "cv_op v") simp_all
  have "bits + cv_topoct v = clause_bits umask v" "w * 7 + tb = clause_scope v"
    using C(1,2) by (simp_all add: bits_def w_def tb_def)
  then have "4095 - bits - cv_topoct v = 4095 AND NOT (clause_bits umask v)" "4095 - w * 7 - tb = 4095 AND NOT (clause_scope v)"
    "bits + cv_topoct v = clause_bits umask v"
    using m by linarith+
  then show "ModeAND (chmod_item umask v) = (case cv_op v of CHMOD_NONE \<Rightarrow> 0 | CHMOD_SET \<Rightarrow> 0 | CHMOD_ADD \<Rightarrow> 4095
      | CHMOD_SUB \<Rightarrow> 4095 AND NOT (clause_bits umask v) | CHMOD_EQ \<Rightarrow> 4095 AND NOT (clause_scope v))"
    "ModeOR (chmod_item umask v) = (case cv_op v of CHMOD_ADD \<Rightarrow> clause_bits umask v | CHMOD_EQ \<Rightarrow> clause_bits umask v | _ \<Rightarrow> 0)"
    unfolding i by (simp_all split: chmod_op.split)
qed



text \<open>The order of the letters s and t matters: without u or g, an s after a t drops the sticky bit.
  The strings \<open>+st\<close> and \<open>+ts\<close> mean the same to chmod(1), but the second one sets
  only the set-user-ID bit.\<close>

lemma chmod_sticky_lost:
  "map_option (map ModeOR \<circ> fst) (parse_chmod 0 ''+st'' []) = Some [2560] \<and>
   map_option (map ModeOR \<circ> fst) (parse_chmod 0 ''+ts'' []) = Some [2048]"
  by code_simp

end
