(* ===== verification/Streams.thy ===== *)
theory Streams
  imports Wire
begin

text \<open>
  What the readers of the file list and of the id lists share: strings as bytes (read_sbuf of
  io.c), the integers whose encoding depends on the protocol (io.h), and the fact that every
  reader leaves at most what it was given.
\<close>

section \<open>Strings and integers\<close>

definition to_bytes :: "string \<Rightarrow> byte list" where
  "to_bytes s = map (\<lambda>c. word_of_nat (of_char c)) s"

definition of_bytes :: "byte list \<Rightarrow> string" where
  "of_bytes bs = map (\<lambda>b. char_of (unat b)) bs"

text \<open>read_sbuf: the bytes as a C string, which ends at the first NUL.\<close>

definition read_sbuf :: "nat \<Rightarrow> byte list \<Rightarrow> (string \<times> byte list) result" where
  "read_sbuf len s = res_bind (read_buf len s) (\<lambda>(bs, s). Inr (takeWhile (\<lambda>c. c \<noteq> NUL) (of_bytes bs), s))"

definition write_varint30 :: "nat \<Rightarrow> int32 \<Rightarrow> byte list" where
  "write_varint30 pv x = (if pv < 30 then write_int x else write_varint x)"

definition read_varint30 :: "nat \<Rightarrow> byte list \<Rightarrow> (int32 \<times> byte list) result" where
  "read_varint30 pv s = (if pv < 30 then read_int s else read_varint s)"

definition write_varlong30 :: "nat \<Rightarrow> int64 \<Rightarrow> nat \<Rightarrow> byte list" where
  "write_varlong30 pv x mb = (if pv < 30 then write_longint x else write_varlong x mb)"

definition read_varlong30 :: "nat \<Rightarrow> nat \<Rightarrow> byte list \<Rightarrow> (int64 \<times> byte list) result" where
  "read_varlong30 pv mb s = (if pv < 30 then read_longint s else read_varlong mb s)"

lemma of_bytes_to_bytes [simp]: "of_bytes (to_bytes s) = s"
  by (simp add: of_bytes_def to_bytes_def comp_def unat_of_nat take_bit_nat_eq_self)

lemma length_to_bytes [simp]: "length (to_bytes s) = length s"
  by (simp add: to_bytes_def)

lemma read_sbuf_to_bytes:
  assumes "NUL \<notin> set x" and "length x = n"
  shows "read_sbuf n (to_bytes x @ s) = Inr (x, s)"
proof -
  have "takeWhile (\<lambda>c. c \<noteq> NUL) x = x" using assms(1) by (induction x) auto
  then show ?thesis using assms(2) by (simp add: read_sbuf_def)
qed

lemma small_unat: "n < 2 ^ 32 \<Longrightarrow> unat (word_of_nat n :: int32) = n"
  by (simp add: unat_of_nat take_bit_nat_eq_self)

lemma small_unat_byte: "n < 256 \<Longrightarrow> unat (word_of_nat n :: byte) = n"
  by (simp add: unat_of_nat take_bit_nat_eq_self)

lemma read_varint30_write [simp]: "read_varint30 pv (write_varint30 pv x @ s) = Inr (x, s)"
  by (simp add: read_varint30_def write_varint30_def read_varint_write_varint)

section \<open>What a reader leaves\<close>

text \<open>A reader whose rest, the part \<open>p\<close> of its result, has at most \<open>n\<close> bytes.\<close>

definition leaves :: "('a \<Rightarrow> byte list) \<Rightarrow> 'a result \<Rightarrow> nat \<Rightarrow> bool" where
  "leaves p r n \<longleftrightarrow> (\<forall>x. r = Inr x \<longrightarrow> length (p x) \<le> n)"

named_theorems leaves_intro "the rest of a reader is no longer than its input"

lemma leaves_Inr [leaves_intro]: "length (p x) \<le> n \<Longrightarrow> leaves p (Inr x) n"
  by (simp add: leaves_def)

lemma leaves_Inl [leaves_intro]: "leaves p (Inl e) n"
  by (simp add: leaves_def)

lemma leaves_bind [leaves_intro]:
  "leaves snd m n \<Longrightarrow> (\<And>a s. length s \<le> n \<Longrightarrow> leaves q (k (a, s)) n) \<Longrightarrow> leaves q (res_bind m k) n"
  by (cases m) (auto simp: leaves_def)

lemma leaves_if [leaves_intro]: "(c \<Longrightarrow> leaves p a n) \<Longrightarrow> (\<not> c \<Longrightarrow> leaves p b n) \<Longrightarrow> leaves p (if c then a else b) n"
  by simp

lemma leaves_option [leaves_intro]:
  "(x = None \<Longrightarrow> leaves p a n) \<Longrightarrow> (\<And>y. x = Some y \<Longrightarrow> leaves p (b y) n) \<Longrightarrow> leaves p (case x of None \<Rightarrow> a | Some y \<Rightarrow> b y) n"
  by (cases x) simp_all

lemma leaves_prod [leaves_intro]: "(\<And>a b. x = (a, b) \<Longrightarrow> leaves p (f a b) n) \<Longrightarrow> leaves p (case x of (a, b) \<Rightarrow> f a b) n"
  by (cases x) simp

lemma leaves_bind3:
  "leaves (snd \<circ> snd) m n \<Longrightarrow> (\<And>a b s. length s \<le> n \<Longrightarrow> leaves q (k (a, b, s)) n) \<Longrightarrow> leaves q (res_bind m k) n"
  by (cases m) (auto simp: leaves_def)

lemma leaves_bind5:
  "leaves (snd \<circ> snd \<circ> snd \<circ> snd) m n \<Longrightarrow> (\<And>a b c d s. length s \<le> n \<Longrightarrow> leaves q (k (a, b, c, d, s)) n) \<Longrightarrow> leaves q (res_bind m k) n"
  by (cases m) (auto simp: leaves_def)

lemma read_buf_leaves [leaves_intro]: "length s \<le> n \<Longrightarrow> leaves snd (read_buf k s) n"
  by (auto simp: read_buf_def leaves_def)

lemma read_byte_leaves [leaves_intro]: "length s \<le> n \<Longrightarrow> leaves snd (read_byte s) n"
  by (auto simp: read_byte_def intro!: leaves_intro)

lemma read_int_leaves [leaves_intro]: "length s \<le> n \<Longrightarrow> leaves snd (read_int s) n"
  by (auto simp: read_int_def intro!: leaves_intro)

lemma read_longint_leaves [leaves_intro]: "length s \<le> n \<Longrightarrow> leaves snd (read_longint s) n"
  by (auto simp: read_longint_def intro!: leaves_intro)

lemma read_varint_leaves [leaves_intro]: "length s \<le> n \<Longrightarrow> leaves snd (read_varint s) n"
  by (auto simp: read_varint_def Let_def intro!: leaves_intro)

lemma read_varlong_leaves [leaves_intro]: "length s \<le> n \<Longrightarrow> leaves snd (read_varlong k s) n"
  by (auto simp: read_varlong_def Let_def intro!: leaves_intro)

lemma read_varint30_leaves [leaves_intro]: "length s \<le> n \<Longrightarrow> leaves snd (read_varint30 pv s) n"
  by (auto simp: read_varint30_def intro!: leaves_intro)

lemma read_varlong30_leaves [leaves_intro]: "length s \<le> n \<Longrightarrow> leaves snd (read_varlong30 pv k s) n"
  by (auto simp: read_varlong30_def intro!: leaves_intro)

lemma read_sbuf_leaves [leaves_intro]: "length s \<le> n \<Longrightarrow> leaves snd (read_sbuf k s) n"
  by (auto simp: read_sbuf_def intro!: leaves_intro)

lemma leaves_bind_any: "(\<And>x. leaves q (k x) n) \<Longrightarrow> leaves q (res_bind m k) n"
  by (cases m) (auto simp: leaves_def)

lemma read_byte_less: "read_byte s = Inr (b, s') \<Longrightarrow> length s' < length s"
  by (auto simp: read_byte_def read_buf_def split: if_splits)

lemma read_varint_less: "read_varint s = Inr (b, s') \<Longrightarrow> length s' < length s"
  by (fastforce simp: read_varint_def res_bind_eq_Inr read_buf_def Let_def dest: read_byte_less split: if_splits)

lemma read_varint30_less: "read_varint30 pv s = Inr (b, s') \<Longrightarrow> length s' < length s"
  by (auto simp: read_varint30_def read_int_def read_buf_def dest: read_varint_less split: if_splits)

end
