(* ===== verification/Wildmatch.thy ===== *)
theory Wildmatch
  imports Prelude
begin

text \<open>
  The pattern matcher of the filter rules, lib/wildmatch.c. A pattern is matched against
  the string obtained by joining \<open>text\<close> and the strings of the array \<open>a\<close>; pointers
  into a string are the rest of the string. The static force_lower_case is the parameter
  \<open>lower\<close>.
\<close>

section \<open>The code\<close>

datatype wild_res = WFALSE | WTRUE | ABORT_ALL | ABORT_TO_STARSTAR

text \<open>The character classes by name; \<open>None\<close> is a name that is not known.\<close>

definition char_class :: "string \<Rightarrow> char \<Rightarrow> bool option" where
  "char_class name c =
     (if name = ''alnum'' then Some (c_isalnum c)
      else if name = ''alpha'' then Some (c_isalpha c)
      else if name = ''blank'' then Some (c_isblank c)
      else if name = ''cntrl'' then Some (c_iscntrl c)
      else if name = ''digit'' then Some (c_isdigit c)
      else if name = ''graph'' then Some (c_isgraph c)
      else if name = ''lower'' then Some (c_islower c)
      else if name = ''print'' then Some (c_isprint c)
      else if name = ''punct'' then Some (c_ispunct c)
      else if name = ''space'' then Some (c_isspace c)
      else if name = ''upper'' then Some (c_isupper c)
      else if name = ''xdigit'' then Some (c_isxdigit c)
      else None)"

text \<open>
  One turn of the loop over a bracket expression, at \<open>p\<close>. The result is what p_ch, p and
  matched are at the end of the body; \<open>None\<close> is \<open>return ABORT_ALL\<close>.
\<close>

definition class_item :: "char \<Rightarrow> string \<Rightarrow> char \<Rightarrow> (char \<times> string \<times> bool) option" where
  "class_item t_ch p prev_ch =
     (case p of
        [] \<Rightarrow> None
      | p_ch # p1 \<Rightarrow>
          if p_ch = CHR 0x5C then
            (case p1 of [] \<Rightarrow> None | c # _ \<Rightarrow> Some (c, p1, t_ch = c))
          else if p_ch = CHR ''-'' \<and> prev_ch \<noteq> NUL \<and> at p 1 \<noteq> NUL \<and> at p 1 \<noteq> CHR '']'' then
            let p2 = (if at p1 0 = CHR 0x5C then tl p1 else p1) in
            if p2 = [] then None
            else Some (NUL, p2, (of_char t_ch :: nat) \<le> of_char (at p2 0) \<and> (of_char t_ch :: nat) \<ge> of_char prev_ch)
          else if p_ch = CHR ''['' \<and> at p 1 = CHR '':'' then
            let s = drop 2 p;
                name = takeWhile (\<lambda>c. c \<noteq> CHR '']'') s;
                p2 = dropWhile (\<lambda>c. c \<noteq> CHR '']'') s in
            if p2 = [] then None
            else if name = [] \<or> last name \<noteq> CHR '':'' then Some (CHR ''['', p, t_ch = CHR ''['')
            else map_option (\<lambda>b. (NUL, p2, b)) (char_class (butlast name) t_ch)
          else Some (p_ch, p, t_ch = p_ch))"

lemma class_item_length: "class_item t p prev = Some (c, p', b) \<Longrightarrow> p' \<noteq> [] \<and> length p' \<le> length p"
  using length_dropWhile_le [of "\<lambda>c. c \<noteq> CHR '']''" "drop 2 p"]
  by (auto simp: class_item_def Let_def split: list.splits if_splits)

text \<open>The do-while loop; it ends at the closing bracket, and returns matched and what follows.\<close>

function class_loop :: "char \<Rightarrow> string \<Rightarrow> char \<Rightarrow> bool \<Rightarrow> (bool \<times> string) option" where
  "class_loop t_ch p prev_ch matched =
     (case class_item t_ch p prev_ch of
        None \<Rightarrow> None
      | Some (p_ch, p', b) \<Rightarrow>
          let matched = matched \<or> b in
          if at p' 1 = CHR '']'' then Some (matched, drop 2 p')
          else class_loop t_ch (tl p') p_ch matched)"
  by pat_completeness auto
termination
proof (relation "measure (\<lambda>(t, p, prev, m). length p)", goal_cases)
  case (2 t_ch p prev_ch matched x p_ch y p' b)
  then show ?case using class_item_length [of t_ch p prev_ch p_ch p' b] by (cases p') auto
qed simp

declare class_loop.simps [simp del]

text \<open>A bracket expression, from the character after the bracket: negated, matched, and the rest.\<close>

definition bracket :: "char \<Rightarrow> string \<Rightarrow> (bool \<times> bool \<times> string) option" where
  "bracket t_ch p =
     (let special = (at p 0 = CHR ''!'' \<or> at p 0 = CHR ''^'') in
      map_option (\<lambda>(matched, p). (special, matched, p)) (class_loop t_ch (if special then tl p else p) NUL False))"

lemma class_loop_length: "class_loop t p prev m = Some (m', p') \<Longrightarrow> length p' < length p"
proof (induction t p prev m rule: class_loop.induct)
  case (1 t p prev m)
  obtain c q b where I: "class_item t p prev = Some (c, q, b)"
    using "1.prems" by (subst (asm) class_loop.simps) (auto split: option.splits)
  note L = class_item_length [OF I]
  show ?case
  proof (cases "at q 1 = CHR '']''")
    case True
    then have "p' = drop 2 q" using "1.prems" I by (subst (asm) class_loop.simps) (simp add: Let_def)
    then show ?thesis using L by (cases q) auto
  next
    case False
    then show ?thesis
      using "1.IH" [OF I refl refl refl] "1.prems" I L by (subst (asm) class_loop.simps) (cases q; auto simp: Let_def)
  qed
qed

lemma bracket_length: "bracket t p = Some (special, matched, p') \<Longrightarrow> length p' < length p"
  by (cases p) (auto simp: bracket_def Let_def dest!: class_loop_length split: if_splits)

text \<open>Skipping to the next non-empty string.\<close>

fun fetch :: "string \<Rightarrow> string list \<Rightarrow> string \<times> string list" where
  "fetch [] (s # a) = fetch s a"
| "fetch text a = (text, a)"

text \<open>The loop that tries every end of a star; \<open>f\<close> is dowild on the rest of the pattern.\<close>

fun star_loop :: "(string \<Rightarrow> string list \<Rightarrow> wild_res) \<Rightarrow> bool \<Rightarrow> string \<Rightarrow> string list \<Rightarrow> wild_res" where
  "star_loop f special [] [] = ABORT_ALL"
| "star_loop f special [] (s # a) = star_loop f special s a"
| "star_loop f special (t_ch # text) a =
     (let matched = f (t_ch # text) a in
      if matched \<noteq> WFALSE \<and> (\<not> special \<or> matched \<noteq> ABORT_TO_STARSTAR) then matched
      else if matched = WFALSE \<and> \<not> special \<and> t_ch = CHR ''/'' then ABORT_TO_STARSTAR
      else star_loop f special text a)"

function dowild :: "bool \<Rightarrow> string \<Rightarrow> string \<Rightarrow> string list \<Rightarrow> wild_res" where
  "dowild lower [] = (\<lambda>text a. if text \<noteq> [] \<or> list_ex (\<lambda>s. s \<noteq> []) a then WFALSE else WTRUE)"
| "dowild lower (p_ch # p) = (\<lambda>text a.
     case fetch text a of (text, a) \<Rightarrow>
       if text = [] \<and> p_ch \<noteq> CHR ''*'' then ABORT_ALL
       else
         let t_ch = at text 0;
             t_ch = (if lower \<and> c_isupper t_ch then c_tolower t_ch else t_ch) in
         if p_ch = CHR 0x5C then
           (case p of [] \<Rightarrow> WFALSE | c # p \<Rightarrow> if t_ch \<noteq> c then WFALSE else dowild lower p (tl text) a)
         else if p_ch = CHR ''?'' then
           if t_ch = CHR ''/'' then WFALSE else dowild lower p (tl text) a
         else if p_ch = CHR ''*'' then
           let special = (at p 0 = CHR ''*'');
               p' = dropWhile (\<lambda>c. c = CHR ''*'') p in
           if p' = [] then
             if \<not> special \<and> list_ex (\<lambda>s. CHR ''/'' \<in> set s) (text # a) then WFALSE else WTRUE
           else star_loop (dowild lower p') special text a
         else if p_ch = CHR ''['' then
           (case bracket t_ch p of
              None \<Rightarrow> ABORT_ALL
            | Some (special, matched, p') \<Rightarrow>
                if matched = special \<or> t_ch = CHR ''/'' then WFALSE else dowild lower p' (tl text) a)
         else if t_ch \<noteq> p_ch then WFALSE
         else dowild lower p (tl text) a)"
  by pat_completeness auto
termination
  by (relation "measure (\<lambda>(lower, p). length p)")
    (auto simp: less_Suc_eq_le length_dropWhile_le dest!: bracket_length)

declare dowild.simps [simp del]

fun doliteral :: "string \<Rightarrow> string \<Rightarrow> string list \<Rightarrow> wild_res" where
  "doliteral [] text a = (if text \<noteq> [] \<or> list_ex (\<lambda>s. s \<noteq> []) a then WFALSE else WTRUE)"
| "doliteral (c # s) text a =
     (case fetch text a of
        ([], _) \<Rightarrow> WFALSE
      | (t # text, a) \<Rightarrow> if t \<noteq> c then WFALSE else doliteral s text a)"

text \<open>
  trailing_N_elements walks back over the strings. \<open>back_scan\<close> goes back over one string
  (given reversed, with what it has passed): the rest after the slash that brings the count to
  zero, or the count that is left.
\<close>

fun back_scan :: "string \<Rightarrow> string \<Rightarrow> int \<Rightarrow> int + string" where
  "back_scan [] passed count = Inl count"
| "back_scan (c # r) passed count =
     (if c = CHR ''/'' then
        if count - 1 = 0 then Inr passed else back_scan r (c # passed) (count - 1)
      else back_scan r (c # passed) count)"

fun back_strings :: "string list \<Rightarrow> string list \<Rightarrow> int \<Rightarrow> int + string \<times> string list" where
  "back_strings [] after count = Inl count"
| "back_strings (s # r) after count =
     (case back_scan (rev s) [] count of
        Inr t \<Rightarrow> Inr (t, after)
      | Inl count \<Rightarrow> back_strings r (s # after) count)"

definition trailing_N_elements :: "string list \<Rightarrow> int \<Rightarrow> (string \<times> string list) option" where
  "trailing_N_elements a count =
     (case back_strings (rev a) [] count of
        Inr x \<Rightarrow> Some x
      | Inl count \<Rightarrow> if count = 1 then (case a of [] \<Rightarrow> None | s # a \<Rightarrow> Some (s, a)) else None)"

definition wildmatch :: "string \<Rightarrow> string \<Rightarrow> bool" where
  "wildmatch pattern text \<longleftrightarrow> dowild False pattern text [] = WTRUE"

definition iwildmatch :: "string \<Rightarrow> string \<Rightarrow> bool" where
  "iwildmatch pattern text \<longleftrightarrow> dowild True pattern text [] = WTRUE"

fun after_slash :: "string \<Rightarrow> string \<Rightarrow> string list \<Rightarrow> bool" where
  "after_slash p [] [] = False"
| "after_slash p [] (s # a) = after_slash p s a"
| "after_slash p (c # text) a =
     (if c = CHR ''/'' \<and> dowild False p text a \<noteq> WFALSE \<and> dowild False p text a \<noteq> ABORT_TO_STARSTAR
      then dowild False p text a = WTRUE
      else after_slash p text a)"

definition first_text :: "string list \<Rightarrow> int \<Rightarrow> (string \<times> string list) option" where
  "first_text texts where' =
     (if where' > 0 then trailing_N_elements texts where'
      else case texts of [] \<Rightarrow> None | t # a \<Rightarrow> Some (t, a))"

definition wildmatch_array :: "string \<Rightarrow> string list \<Rightarrow> int \<Rightarrow> bool" where
  "wildmatch_array p texts where' =
     (case first_text texts where' of
        None \<Rightarrow> False
      | Some (text, a) \<Rightarrow>
          let matched = dowild False p text a in
          if matched \<noteq> WTRUE \<and> where' < 0 \<and> matched \<noteq> ABORT_ALL then after_slash p text a
          else matched = WTRUE)"

definition litmatch_array :: "string \<Rightarrow> string list \<Rightarrow> int \<Rightarrow> bool" where
  "litmatch_array s texts where' =
     (case first_text texts where' of None \<Rightarrow> False | Some (text, a) \<Rightarrow> doliteral s text a = WTRUE)"

section \<open>The strings of the array are read as one\<close>

lemma fetch_join:
  assumes "fetch t a = (t', a')"
  shows "t' @ concat a' = t @ concat a" and "t' = [] \<Longrightarrow> t @ concat a = []"
    and "fetch (t @ concat a) [] = (t' @ concat a', [])"
  using assms by (induction t a rule: fetch.induct) auto

lemma all_empty: "list_ex (\<lambda>s. s \<noteq> []) a \<longleftrightarrow> concat a \<noteq> []"
  by (auto simp: list_ex_iff)

lemma star_loop_join:
  assumes "\<And>t a. f t a = f (t @ concat a) []"
  shows "star_loop f special t a = star_loop f special (t @ concat a) []"
  using assms
proof (induction f special t a rule: star_loop.induct)
  case (3 f special x t a)
  show ?case using "3.prems" [of "x # t" a] "3.IH" [OF refl _ _ "3.prems"] by (auto simp: Let_def)
qed simp_all

text \<open>
  One element of a pattern that is not a star consumes one character: \<open>pat_one\<close> is whether it
  accepts the character, and the rest of the pattern.
\<close>

definition low :: "bool \<Rightarrow> char \<Rightarrow> char" where
  "low lower c = (if lower \<and> c_isupper c then c_tolower c else c)"

definition pat_one :: "bool \<Rightarrow> char \<Rightarrow> string \<Rightarrow> char \<Rightarrow> (bool \<times> string) option" where
  "pat_one lower p_ch p x =
     (if p_ch = CHR 0x5C then (case p of [] \<Rightarrow> Some (False, []) | c # p \<Rightarrow> Some (low lower x = c, p))
      else if p_ch = CHR ''?'' then Some (low lower x \<noteq> CHR ''/'', p)
      else if p_ch = CHR ''['' then
        map_option (\<lambda>(special, matched, p'). (matched \<noteq> special \<and> low lower x \<noteq> CHR ''/'', p')) (bracket (low lower x) p)
      else Some (low lower x = p_ch, p))"

lemma pat_one_length: "pat_one lower p_ch p x = Some (ok, p') \<Longrightarrow> length p' \<le> length p"
  by (auto simp: pat_one_def dest!: bracket_length split: if_splits list.splits)

lemma dowild_one:
  assumes "p_ch \<noteq> CHR ''*''"
  shows "dowild lower (p_ch # p) t a =
    (case fetch t a of
       ([], _) \<Rightarrow> ABORT_ALL
     | (x # t, a) \<Rightarrow>
         (case pat_one lower p_ch p x of
            None \<Rightarrow> ABORT_ALL
          | Some (ok, p') \<Rightarrow> if ok then dowild lower p' t a else WFALSE))"
proof -
  obtain u b where f: "fetch t a = (u, b)" by fastforce
  show ?thesis
  proof (cases u)
    case Nil
    then show ?thesis using f assms by (simp add: dowild.simps)
  next
    case (Cons x u')
    show ?thesis
      unfolding dowild.simps f Cons prod.case list.simps at_simps Let_def pat_one_def low_def
      by (cases "p_ch = CHR 0x5C"; cases "p_ch = CHR ''?''"; cases "p_ch = CHR ''[''")
        (auto simp: assms split: list.split option.split prod.split)
  qed
qed

lemma dowild_star:
  "dowild lower (CHR ''*'' # p) t a =
    (case fetch t a of (t, a) \<Rightarrow>
       if dropWhile (\<lambda>c. c = CHR ''*'') p = [] then
         if at p 0 \<noteq> CHR ''*'' \<and> list_ex (\<lambda>s. CHR ''/'' \<in> set s) (t # a) then WFALSE else WTRUE
       else star_loop (dowild lower (dropWhile (\<lambda>c. c = CHR ''*'') p)) (at p 0 = CHR ''*'') t a)"
  by (simp add: dowild.simps Let_def split: prod.splits)

lemma fetch_single [simp]: "fetch t [] = (t, [])"
  by (cases t) simp_all

lemma fetch_Nil: "fetch t a = ([], a') \<Longrightarrow> a' = []"
  by (induction t a rule: fetch.induct) auto

lemma dowild_join: "dowild lower p t a = dowild lower p (t @ concat a) []"
proof (induction "length p" arbitrary: p t a rule: less_induct)
  case less
  show ?case
  proof (cases p)
    case Nil
    then show ?thesis by (simp add: all_empty dowild.simps)
  next
    case (Cons c q)
    obtain t' a' where f: "fetch t a = (t', a')" by fastforce
    note J = fetch_join [OF f]
    have f': "fetch (t @ concat a) [] = (t' @ concat a', [])" using J(3) .
    show ?thesis
    proof (cases "c = CHR ''*''")
      case True
      let ?q = "dropWhile (\<lambda>c. c = CHR ''*'') q"
      have "length ?q < length p" using Cons length_dropWhile_le [of _ q] by (simp add: less_Suc_eq_le)
      then have "star_loop (dowild lower ?q) sp t' a' = star_loop (dowild lower ?q) sp (t' @ concat a') []" for sp
        by (intro star_loop_join less.hyps)
      then show ?thesis
        unfolding Cons True dowild_star f f' by (auto simp: list_ex_iff)
    next
      case False
      show ?thesis
      proof (cases t')
        case Nil
        then show ?thesis using fetch_Nil [of t a a'] f unfolding Cons dowild_one [OF False] f f' by simp
      next
        case (Cons x u)
        then show ?thesis
          using False f f' less.hyps [of _ u a'] pat_one_length [of lower c q x] \<open>p = c # q\<close>
          by (auto simp: dowild_one less_Suc_eq_le split: option.splits)
      qed
    qed
  qed
qed

section \<open>What a pattern matches\<close>

text \<open>
  The meaning of a pattern: a question mark, a bracket expression and a literal character stand
  for one character, a star for any string without a slash, two or more stars for any
  string.
\<close>

function wild_match :: "bool \<Rightarrow> string \<Rightarrow> string \<Rightarrow> bool" where
  "wild_match lower p t =
     (case p of
        [] \<Rightarrow> t = []
      | c # q \<Rightarrow>
          if c = CHR ''*'' then
            list_ex (\<lambda>k. (at q 0 = CHR ''*'' \<or> CHR ''/'' \<notin> set (take k t))
                         \<and> wild_match lower (dropWhile (\<lambda>c. c = CHR ''*'') q) (drop k t)) [0..<Suc (length t)]
          else
            (case t of
               [] \<Rightarrow> False
             | x # t \<Rightarrow> (case pat_one lower c q x of
                            None \<Rightarrow> False
                          | Some (ok, p') \<Rightarrow> ok \<and> wild_match lower p' t)))"
  by pat_completeness auto
termination
  by (relation "measure (\<lambda>(lower, p, t). length p)")
    (auto simp: less_Suc_eq_le length_dropWhile_le dest!: pat_one_length)

declare wild_match.simps [simp del]

lemma wild_match_Nil: "wild_match lower [] t \<longleftrightarrow> t = []"
  by (simp add: wild_match.simps)

lemma wild_match_star:
  "wild_match lower (CHR ''*'' # q) t \<longleftrightarrow>
     (\<exists>k. (at q 0 = CHR ''*'' \<or> CHR ''/'' \<notin> set (take k t)) \<and>
          wild_match lower (dropWhile (\<lambda>c. c = CHR ''*'') q) (drop k t))"
  (is "?l \<longleftrightarrow> (\<exists>k. ?ok k \<and> ?m k)")
proof -
  have "?l \<longleftrightarrow> (\<exists>k\<le>length t. ?ok k \<and> ?m k)"
    by (subst wild_match.simps) (auto simp: list_ex_iff less_Suc_eq_le simp del: upt_Suc)
  moreover have "?ok k \<and> ?m k \<Longrightarrow> \<exists>k\<le>length t. ?ok k \<and> ?m k" for k
    by (rule exI [of _ "min k (length t)"]) (auto simp: min_def)
  ultimately show ?thesis by blast
qed

lemma wild_match_one:
  "c \<noteq> CHR ''*'' \<Longrightarrow> wild_match lower (c # q) t \<longleftrightarrow>
     (\<exists>x u p'. t = x # u \<and> pat_one lower c q x = Some (True, p') \<and> wild_match lower p' u)"
  by (subst wild_match.simps) (auto split: list.splits option.splits)

text \<open>How much of the pattern an element takes does not depend on the text.\<close>

lemma char_class_rest: "map_option (\<lambda>b. z) (char_class n t) = map_option (\<lambda>b. z) (char_class n t')"
  by (simp add: char_class_def)

lemma class_item_rest:
  "map_option (\<lambda>(c, p, b). (c, p)) (class_item t p prev) = map_option (\<lambda>(c, p, b). (c, p)) (class_item t' p prev)"
proof (cases "at p 0 = CHR ''['' \<and> at p 1 = CHR '':''")
  case True
  then obtain s where p: "p = CHR ''['' # CHR '':'' # s"
    by (cases p; cases "tl p") (auto simp: NUL_def)
  show ?thesis
    by (auto simp: p class_item_def Let_def option.map_comp comp_def intro: char_class_rest)
next
  case False
  then show ?thesis
    by (cases p; cases "tl p"; cases "at p 0 = CHR ''[''") (simp_all add: class_item_def Let_def)
qed

lemma class_loop_rest: "map_option snd (class_loop t p prev m) = map_option snd (class_loop t' p prev m')"
proof (induction t p prev m arbitrary: m' rule: class_loop.induct)
  case (1 t p prev m)
  show ?case
  proof (cases "class_item t p prev")
    case None
    then have "class_item t' p prev = None" using class_item_rest [of t p prev t'] by simp
    with None show ?thesis by (simp add: class_loop.simps [of _ p])
  next
    case (Some x)
    obtain c q b where x: "x = (c, q, b)" by (cases x)
    then obtain b' where b': "class_item t' p prev = Some (c, q, b')"
      using class_item_rest [of t p prev t'] Some by (cases "class_item t' p prev") auto
    show ?thesis
      using "1.IH" [OF Some x [symmetric] refl refl, of "m' \<or> b'"] Some x b' by (simp add: class_loop.simps [of _ p] Let_def)
  qed
qed

lemma pat_one_rest: "map_option snd (pat_one lower c q x) = map_option snd (pat_one lower c q y)"
proof -
  have "map_option (snd \<circ> snd) (bracket s q) = map_option (snd \<circ> snd) (bracket t q)" for s t
    using class_loop_rest [of s _ NUL False t False]
    by (simp add: bracket_def Let_def option.map_comp comp_def split_beta)
  then show ?thesis
    by (simp add: pat_one_def option.map_comp comp_def split_beta split: list.splits)
qed

lemma low_slash: "low lower x = CHR ''/'' \<longleftrightarrow> x = CHR ''/''"
proof (cases "c_isupper x")
  case True
  have "of_char (c_tolower x) \<noteq> (47 :: nat)" using True by (auto simp: c_tolower_def c_isupper_def)
  then show ?thesis using True by (auto simp: low_def c_isupper_def)
qed (simp add: low_def)

lemma pat_one_slash:
  assumes "pat_one lower c q x = Some (True, p)" and "pat_one lower c q (CHR ''/'') = Some (True, p')"
  shows "x = CHR ''/''"
  using assms low_slash [of lower x] low_slash [of lower "CHR ''/''"]
  by (auto simp: pat_one_def split: if_splits list.splits)

section \<open>The matcher is correct\<close>

text \<open>
  What a result says. ABORT_ALL: neither the text nor any rest of it matches; ABORT_TO_STARSTAR:
  nor does any rest of it up to the next slash. These are what allows an outer star to give up.
\<close>

definition res_ok :: "bool \<Rightarrow> string \<Rightarrow> string \<Rightarrow> wild_res \<Rightarrow> bool" where
  "res_ok lower p t r \<longleftrightarrow> (r = WTRUE \<longleftrightarrow> wild_match lower p t) \<and>
     (r = ABORT_ALL \<longrightarrow> (\<forall>k. \<not> wild_match lower p (drop k t))) \<and>
     (r = ABORT_TO_STARSTAR \<longrightarrow> (\<forall>k. CHR ''/'' \<notin> set (take k t) \<longrightarrow> \<not> wild_match lower p (drop k t)))"

lemma res_okD:
  assumes "res_ok lower p t r"
  shows "r = WTRUE \<longleftrightarrow> wild_match lower p t" and "r = ABORT_ALL \<Longrightarrow> \<not> wild_match lower p (drop k t)"
    and "r = ABORT_TO_STARSTAR \<Longrightarrow> CHR ''/'' \<notin> set (take k t) \<Longrightarrow> \<not> wild_match lower p (drop k t)"
  using assms by (auto simp: res_ok_def)

text \<open>The rests of a text that starts with \<open>x\<close>: the text itself, and the rests of its tail.\<close>

lemma all_drop_Cons: "(\<forall>k. Q (take k (x # t)) (drop k (x # t))) \<longleftrightarrow> Q [] (x # t) \<and> (\<forall>k. Q (x # take k t) (drop k t))"
  by (metis not0_implies_Suc take0 drop0 take_Suc_Cons drop_Suc_Cons)

lemma star_loop_ok:
  fixes special :: bool
  assumes f: "\<And>t. res_ok lower p t (f t [])" and ne: "\<not> wild_match lower p []"
  defines "r t \<equiv> star_loop f special t []"
  shows "(r t = WTRUE \<longleftrightarrow> (\<exists>k. (special \<or> CHR ''/'' \<notin> set (take k t)) \<and> wild_match lower p (drop k t))) \<and>
    (r t = ABORT_ALL \<longrightarrow> (\<forall>k. \<not> wild_match lower p (drop k t))) \<and>
    (r t = ABORT_TO_STARSTAR \<longrightarrow> (\<forall>k. CHR ''/'' \<notin> set (take k t) \<longrightarrow> \<not> wild_match lower p (drop k t)) \<and> \<not> special)"
proof (induction t)
  case Nil
  then show ?case using ne by (simp add: r_def)
next
  case (Cons x t)
  note R = res_okD [OF f [of "x # t"]]
  have ex: "(\<exists>k. Q (take k (x # t)) (drop k (x # t))) \<longleftrightarrow> Q [] (x # t) \<or> (\<exists>k. Q (x # take k t) (drop k t))" for Q
    using all_drop_Cons [of "\<lambda>a b. \<not> Q a b"] by blast
  consider (t) "f (x # t) [] = WTRUE" | (a) "f (x # t) [] = ABORT_ALL" | (s) "f (x # t) [] = ABORT_TO_STARSTAR" "\<not> special"
    | (stop) "f (x # t) [] = WFALSE" "\<not> special" "x = CHR ''/''"
    | (go) "r (x # t) = r t" "\<not> wild_match lower p (x # t)" "special \<or> x \<noteq> CHR ''/''"
    using R(1) by (cases "f (x # t) []"; cases special; cases "x = CHR ''/''") (auto simp: r_def Let_def)
  then show ?case
  proof cases
    case t
    then have "r (x # t) = WTRUE" by (simp add: r_def Let_def)
    then show ?thesis using R(1) t by (auto intro!: exI [of _ 0])
  next
    case a
    then have "r (x # t) = ABORT_ALL" by (simp add: r_def Let_def)
    then show ?thesis using R(2) [OF a] by simp
  next
    case s
    then have "r (x # t) = ABORT_TO_STARSTAR" by (simp add: r_def Let_def)
    then show ?thesis using R(3) [OF s(1)] s(2) by (simp, blast)
  next
    case stop
    then have "r (x # t) = ABORT_TO_STARSTAR" by (simp add: r_def Let_def)
    moreover have "k = 0" if "CHR ''/'' \<notin> set (take k (x # t))" for k using that stop(3) by (cases k) auto
    ultimately show ?thesis using R(1) stop by fastforce
  next
    case go
    have "(\<exists>k. (special \<or> CHR ''/'' \<notin> set (take k (x # t))) \<and> wild_match lower p (drop k (x # t))) \<longleftrightarrow>
        (\<exists>k. (special \<or> CHR ''/'' \<notin> set (take k t)) \<and> wild_match lower p (drop k t))"
      using ex [of "\<lambda>a b. (special \<or> CHR ''/'' \<notin> set a) \<and> wild_match lower p b"] go(2,3) by auto
    moreover have "(\<forall>k. \<not> wild_match lower p (drop k (x # t))) \<longleftrightarrow> (\<forall>k. \<not> wild_match lower p (drop k t))"
      using all_drop_Cons [of "\<lambda>a b. \<not> wild_match lower p b"] go(2) by simp
    moreover have "(\<forall>k. CHR ''/'' \<notin> set (take k (x # t)) \<longrightarrow> \<not> wild_match lower p (drop k (x # t)))"
      if "\<forall>k. CHR ''/'' \<notin> set (take k t) \<longrightarrow> \<not> wild_match lower p (drop k t)"
      using all_drop_Cons [of "\<lambda>a b. CHR ''/'' \<notin> set a \<longrightarrow> \<not> wild_match lower p b"] go(2) that by simp
    ultimately show ?thesis using Cons.IH unfolding go(1) by blast
  qed
qed

lemma one_ok:
  assumes "c \<noteq> CHR ''*''" and IH: "\<And>p' t. length p' \<le> length q \<Longrightarrow> res_ok lower p' t (dowild lower p' t [])"
  shows "res_ok lower (c # q) t (dowild lower (c # q) t [])"
proof (cases "\<exists>x p'. pat_one lower c q x = Some (True, p')")
  case False
  then have "\<not> wild_match lower (c # q) u" for u using wild_match_one [OF assms(1)] by blast
  moreover have "dowild lower (c # q) t [] \<noteq> WTRUE"
    unfolding dowild_one [OF assms(1)] using False by (cases t) (auto split: option.splits)
  ultimately show ?thesis by (simp add: res_ok_def)
next
  case True
  then obtain x0 p' where p': "pat_one lower c q x0 = Some (True, p')" by blast
  have one: "\<exists>ok. pat_one lower c q x = Some (ok, p')" for x
  proof -
    have "map_option snd (pat_one lower c q x) = map_option snd (pat_one lower c q x0)" by (rule pat_one_rest)
    also have "\<dots> = Some p'" unfolding p' by simp
    finally obtain y where "pat_one lower c q x = Some y" "snd y = p'" unfolding map_option_eq_Some by blast
    then show ?thesis by (cases y) simp
  qed
  define ok where "ok x = fst (the (pat_one lower c q x))" for x
  have ok: "pat_one lower c q x = Some (ok x, p')" for x
    using one [of x] by (auto simp: ok_def)
  have W: "wild_match lower (c # q) u \<longleftrightarrow> (\<exists>x v. u = x # v \<and> ok x \<and> wild_match lower p' v)" for u
    using wild_match_one [OF assms(1), of lower q u] ok by simp
  have slash: "ok (CHR ''/'') \<Longrightarrow> ok x \<Longrightarrow> x = CHR ''/''" for x
    using pat_one_slash [of lower c q x p' p'] ok by simp
  show ?thesis
  proof (cases t)
    case Nil
    then show ?thesis using W by (simp add: dowild_one [OF assms(1)] res_ok_def)
  next
    case (Cons x u)
    have r: "dowild lower (c # q) t [] = (if ok x then dowild lower p' u [] else WFALSE)"
      using Cons ok by (simp add: dowild_one [OF assms(1)])
    have "length p' \<le> length q" using pat_one_length ok by blast
    note I = IH [OF this, of u]
    show ?thesis
    proof (cases "ok x")
      case False
      then show ?thesis using r W Cons by (simp add: res_ok_def)
    next
      case True
      have drop_u: "\<exists>j. drop (Suc k) t = drop j u \<and> take j u = tl (take (Suc k) t)" for k using Cons by auto
      have "\<not> wild_match lower (c # q) (drop k t)" if "dowild lower p' u [] = ABORT_ALL" for k
      proof
        assume "wild_match lower (c # q) (drop k t)"
        then obtain y v where "drop k t = y # v" "wild_match lower p' v" using W by blast
        then have "v = drop k u" using Cons by (metis drop_Suc_Cons drop_Suc list.sel(3) tl_drop)
        with \<open>wild_match lower p' v\<close> show False using res_okD(2) [OF I that] by simp
      qed
      moreover have "\<not> wild_match lower (c # q) (drop k t)"
        if "dowild lower p' u [] = ABORT_TO_STARSTAR" and k: "CHR ''/'' \<notin> set (take k t)" for k
      proof
        assume "wild_match lower (c # q) (drop k t)"
        then obtain y v where y: "drop k t = y # v" "ok y" "wild_match lower p' v" using W by blast
        then have v: "v = drop k u" using Cons by (metis drop_Suc_Cons drop_Suc list.sel(3) tl_drop)
        have "CHR ''/'' \<notin> set (take k u)"
        proof (cases k)
          case (Suc j)
          have "drop j u = y # v" using y(1) Suc Cons by simp
          then have "u ! j = y" "j < length u" by (auto simp: nth_via_drop dest: arg_cong [of _ _ length])
          moreover have "y \<noteq> CHR ''/''" using slash True y(2) k Cons Suc by auto
          ultimately show ?thesis using k Cons Suc by (simp add: take_Suc_conv_app_nth)
        qed simp
        then show False using res_okD(3) [OF I that(1)] v y(3) by simp
      qed
      ultimately show ?thesis using r True W Cons res_okD(1) [OF I] by (auto simp: res_ok_def)
    qed
  qed
qed

lemma star_ok:
  assumes IH: "\<And>t. res_ok lower (dropWhile (\<lambda>c. c = CHR ''*'') q) t (dowild lower (dropWhile (\<lambda>c. c = CHR ''*'') q) t [])"
  shows "res_ok lower (CHR ''*'' # q) t (dowild lower (CHR ''*'' # q) t [])"
proof (cases "dropWhile (\<lambda>c. c = CHR ''*'') q")
  case Nil
  have "wild_match lower (CHR ''*'' # q) t \<longleftrightarrow> at q 0 = CHR ''*'' \<or> CHR ''/'' \<notin> set t"
    unfolding wild_match_star Nil wild_match_Nil
    by (metis drop_eq_Nil order_refl take_all)
  then show ?thesis by (simp add: dowild_star Nil res_ok_def)
next
  case (Cons d p)
  let ?sp = "at q 0 = CHR ''*''"
  have d: "d \<noteq> CHR ''*''" using Cons hd_dropWhile [of "\<lambda>c. c = CHR ''*''" q] by simp
  have ne: "\<not> wild_match lower (d # p) []" using wild_match_one [OF d] by simp
  note S = star_loop_ok [of lower "d # p" "dowild lower (d # p)" ?sp t, OF IH [unfolded Cons] ne]
  have W: "wild_match lower (CHR ''*'' # q) u \<longleftrightarrow>
      (\<exists>k. (?sp \<or> CHR ''/'' \<notin> set (take k u)) \<and> wild_match lower (d # p) (drop k u))" for u
    unfolding wild_match_star Cons ..
  have r: "dowild lower (CHR ''*'' # q) t [] = star_loop (dowild lower (d # p)) ?sp t []"
    by (simp add: dowild_star Cons)
  have "\<not> wild_match lower (CHR ''*'' # q) (drop k t)"
    if "dowild lower (CHR ''*'' # q) t [] = ABORT_TO_STARSTAR" "CHR ''/'' \<notin> set (take k t)" for k
  proof
    assume "wild_match lower (CHR ''*'' # q) (drop k t)"
    moreover have sp: "(?sp = False)" using S that(1) unfolding r by blast
    ultimately obtain j where "CHR ''/'' \<notin> set (take j (drop k t))" "wild_match lower (d # p) (drop (j + k) t)"
      unfolding W sp by auto
    moreover from this(1) have "CHR ''/'' \<notin> set (take (j + k) t)"
      using that(2) by (simp add: add.commute [of j] take_add)
    ultimately show False using S that(1) r by auto
  qed
  then show ?thesis using S r W by (auto simp: res_ok_def)
qed

theorem dowild_ok: "res_ok lower p t (dowild lower p t [])"
proof (induction "length p" arbitrary: p t rule: less_induct)
  case less
  show ?case
  proof (cases p)
    case Nil
    then show ?thesis by (simp add: res_ok_def dowild.simps wild_match_Nil)
  next
    case (Cons c q)
    show ?thesis
    proof (cases "c = CHR ''*''")
      case True
      then show ?thesis
        unfolding Cons using length_dropWhile_le [of _ q] Cons by (intro star_ok [folded True] less.hyps) (simp_all add: less_Suc_eq_le)
    next
      case False
      then show ?thesis unfolding Cons using Cons by (intro one_ok less.hyps) simp_all
    qed
  qed
qed

section \<open>Arrays of strings\<close>

lemma after_slash_join:
  "after_slash p t a \<longleftrightarrow> after_slash p (t @ concat a) []"
proof (induction p t a rule: after_slash.induct)
  case (3 p c t a)
  then show ?case using dowild_join [of False p t a] by auto
qed simp_all

lemma after_slash_ok:
  "after_slash p t [] \<longleftrightarrow> (\<exists>k. 0 < k \<and> k \<le> length t \<and> t ! (k - 1) = CHR ''/'' \<and> wild_match False p (drop k t))"
proof (induction t)
  case (Cons c t)
  let ?P = "\<lambda>t k. 0 < k \<and> k \<le> length t \<and> t ! (k - 1) = CHR ''/'' \<and> wild_match False p (drop k t)"
  note D = res_okD [OF dowild_ok [of False p t]]
  have "(\<exists>k. ?P (c # t) k) \<longleftrightarrow> c = CHR ''/'' \<and> wild_match False p t \<or> (\<exists>k. ?P t k)"
  proof
    assume "\<exists>k. ?P (c # t) k"
    then obtain k where k: "?P (c # t) k" by blast
    then obtain j where j: "k = Suc j" by (cases k) auto
    with k show "c = CHR ''/'' \<and> wild_match False p t \<or> (\<exists>k. ?P t k)"
      by (cases j) (auto intro!: exI [of _ j])
  next
    assume "c = CHR ''/'' \<and> wild_match False p t \<or> (\<exists>k. ?P t k)"
    then show "\<exists>k. ?P (c # t) k"
    proof
      assume "\<exists>k. ?P t k"
      then obtain k where "?P t k" by blast
      then show ?thesis by (intro exI [of _ "Suc k"]) (auto simp: nth_Cons')
    qed (auto intro!: exI [of _ 1])
  qed
  moreover have "dowild False p t [] = ABORT_ALL \<Longrightarrow> \<not> ?P t k" for k using D(2) by blast
  ultimately show ?case using D(1) Cons.IH by (cases "dowild False p t []") auto
qed simp

definition slashes :: "string \<Rightarrow> int" where
  "slashes s = int (count_list s (CHR ''/''))"

lemma slashes_simps [simp]:
  "slashes [] = 0" "slashes (c # s) = (if c = CHR ''/'' then 1 else 0) + slashes s"
  "slashes (s @ t) = slashes s + slashes t" "slashes (rev s) = slashes s"
  by (simp_all add: slashes_def)

lemma slashes_nonneg: "0 \<le> slashes s"
  by (simp add: slashes_def)

text \<open>The last \<open>n\<close> elements of a path: the rest after a slash, or all of it, with \<open>n - 1\<close> slashes.\<close>

definition last_elements :: "int \<Rightarrow> string \<Rightarrow> string \<Rightarrow> bool" where
  "last_elements n s t \<longleftrightarrow> (\<exists>pre. s = pre @ t \<and> (pre = [] \<or> last pre = CHR ''/'')) \<and> slashes t = n - 1"

lemma last_elements_unique:
  assumes "last_elements n s t" and "last_elements n s u"
  shows "t = u"
proof -
  have le: "t = u" if h: "last_elements n s t" "last_elements n s u" "length t \<le> length u" for t u
  proof -
    obtain p where p: "s = p @ t" "p = [] \<or> last p = CHR ''/''" using h(1) unfolding last_elements_def by blast
    obtain q where q: "s = q @ u" using h(2) unfolding last_elements_def by blast
    have n: "slashes t = slashes u" using h(1,2) by (simp add: last_elements_def)
    obtain w where w: "u = w @ t" "p = q @ w"
      using p(1) q h(3) by (auto simp: append_eq_append_conv2)
    show ?thesis
    proof (rule ccontr)
      assume "t \<noteq> u"
      then have "w \<noteq> []" using w by auto
      then have "last w = CHR ''/''" using w(2) p(2) by auto
      then have "1 \<le> slashes w" using \<open>w \<noteq> []\<close> append_butlast_last_id [of w] slashes_nonneg [of "butlast w"] slashes_simps(3) [of "butlast w" "[last w]"] by simp
      then show False using n w(1) by simp
    qed
  qed
  show ?thesis using le [OF assms] le [OF assms(2,1)] nat_le_linear [of "length t" "length u"] by auto
qed

lemma back_scan_spec:
  assumes "0 < count" and "back_scan r passed count = res"
  shows "(case res of
      Inr t \<Rightarrow> (\<exists>pre. rev r @ passed = pre @ t \<and> pre \<noteq> [] \<and> last pre = CHR ''/'' \<and> slashes t = slashes passed + count - 1)
    | Inl c \<Rightarrow> c = count - slashes r \<and> 0 < c)"
  using assms
proof (induction r passed count rule: back_scan.induct)
  case (2 c r passed count)
  show ?case
  proof (cases "c = CHR ''/'' \<and> count = 1")
    case True
    then have "res = Inr passed" using "2.prems"(2) by simp
    then show ?thesis using True by (auto intro!: exI [of _ "rev r @ [c]"])
  next
    case False
    then show ?thesis using "2.IH" "2.prems" by (cases "c = CHR ''/''") (auto split: sum.splits)
  qed
qed auto

lemma back_strings_spec:
  assumes "0 < count" and "back_strings r after count = res"
  shows "(case res of
      Inr (t, a) \<Rightarrow> (\<exists>pre. concat (rev r) @ concat after = pre @ t @ concat a \<and> pre \<noteq> [] \<and> last pre = CHR ''/'' \<and>
          slashes (t @ concat a) = slashes (concat after) + count - 1)
    | Inl c \<Rightarrow> c = count - slashes (concat r) \<and> 0 < c)"
  using assms
proof (induction r after count rule: back_strings.induct)
  case (2 s r after count)
  note B = back_scan_spec [OF "2.prems"(1) refl, of "rev s" "[]"]
  show ?case
  proof (cases "back_scan (rev s) [] count")
    case (Inr t)
    then obtain pre where "s = pre @ t" "pre \<noteq> []" "last pre = CHR ''/''" "slashes t = count - 1"
      using B by auto
    moreover have "res = Inr (t, after)" using "2.prems"(2) Inr by simp
    ultimately show ?thesis by (auto intro!: exI [of _ "concat (rev r) @ pre"])
  next
    case (Inl c)
    then have "c = count - slashes s" "0 < c" using B by auto
    then show ?thesis using "2.IH" [OF Inl] "2.prems"(2) Inl by (auto split: sum.splits)
  qed
qed auto

lemma slashes_concat_rev: "slashes (concat (rev a)) = slashes (concat a)"
  by (induction a) auto

lemma first_text_spec:
  assumes "texts \<noteq> []"
  shows "where' \<le> 0 \<Longrightarrow> \<exists>t a. first_text texts where' = Some (t, a) \<and> t @ concat a = concat texts"
    and "0 < where' \<Longrightarrow> (case first_text texts where' of
      None \<Rightarrow> slashes (concat texts) < where' - 1
    | Some (t, a) \<Rightarrow> last_elements where' (concat texts) (t @ concat a))"
proof -
  show "where' \<le> 0 \<Longrightarrow> \<exists>t a. first_text texts where' = Some (t, a) \<and> t @ concat a = concat texts"
    using assms by (cases texts) (auto simp: first_text_def)
  assume w: "0 < where'"
  note B = back_strings_spec [OF w refl, of "rev texts" "[]"]
  show "case first_text texts where' of
      None \<Rightarrow> slashes (concat texts) < where' - 1
    | Some (t, a) \<Rightarrow> last_elements where' (concat texts) (t @ concat a)"
  proof (cases "back_strings (rev texts) [] where'")
    case (Inr x)
    obtain t a where x: "x = (t, a)" by (cases x)
    have "last_elements where' (concat texts) (t @ concat a)"
      using B Inr x unfolding last_elements_def by auto
    then show ?thesis using w Inr x by (simp add: first_text_def trailing_N_elements_def)
  next
    case (Inl c)
    then show ?thesis
      using B w assms by (cases texts) (auto simp: first_text_def trailing_N_elements_def last_elements_def slashes_concat_rev)
  qed
qed

lemma no_last_elements:
  assumes "slashes s < n - 1"
  shows "\<not> last_elements n s t"
proof
  assume "last_elements n s t"
  then obtain pre where "s = pre @ t" "slashes t = n - 1" by (auto simp: last_elements_def)
  then show False using assms slashes_nonneg [of pre] by simp
qed

lemma doliteral_join: "doliteral s t a = (if s = t @ concat a then WTRUE else WFALSE)"
proof (induction s arbitrary: t a)
  case Nil
  then show ?case by (auto simp: list_ex_iff)
next
  case (Cons c s)
  obtain t' a' where f: "fetch t a = (t', a')" by fastforce
  have J: "t @ concat a = t' @ concat a'" "t' = [] \<Longrightarrow> t' @ concat a' = []"
    using fetch_join [OF f] by simp_all
  show ?case
  proof (cases t')
    case Nil
    then show ?thesis using J f by (simp del: concat_eq_Nil_conv)
  next
    case (Cons x u)
    then show ?thesis unfolding J(1) using f Cons.IH [of u a'] by auto
  qed
qed

lemma wildmatch_array_joined:
  assumes "texts \<noteq> []"
  shows "wildmatch_array p texts where' \<longleftrightarrow>
    (if where' > 0 then \<exists>t. last_elements where' (concat texts) t \<and> wild_match False p t
     else if where' = 0 then wild_match False p (concat texts)
     else \<exists>k\<le>length (concat texts). (k = 0 \<or> concat texts ! (k - 1) = CHR ''/'') \<and> wild_match False p (drop k (concat texts)))"
proof (cases "where' > 0")
  case True
  show ?thesis
  proof (cases "first_text texts where'")
    case None
    then have few: "slashes (concat texts) < where' - 1" using first_text_spec(2) [OF assms True] by simp
    have "\<not> last_elements where' (concat texts) t" for t using few by (rule no_last_elements)
    then show ?thesis using None True by (simp add: wildmatch_array_def)
  next
    case (Some x)
    obtain t a where x: "x = (t, a)" by (cases x)
    have L: "last_elements where' (concat texts) (t @ concat a)"
      using first_text_spec(2) [OF assms True] Some x by simp
    have "wildmatch_array p texts where' \<longleftrightarrow> wild_match False p (t @ concat a)"
      using Some x True res_okD(1) [OF dowild_ok [of False p "t @ concat a"]] dowild_join [of False p t a]
      by (simp add: wildmatch_array_def Let_def)
    then show ?thesis using L True last_elements_unique by auto
  qed
next
  case False
  then obtain t a where F: "first_text texts where' = Some (t, a)" and j: "t @ concat a = concat texts"
    using first_text_spec(1) [OF assms, of where'] by auto
  note D = res_okD [OF dowild_ok [of False p "concat texts"]]
  have r: "dowild False p t a = dowild False p (concat texts) []" using dowild_join [of False p t a] j by simp
  have "(\<exists>k\<le>length u. (k = 0 \<or> u ! (k - 1) = CHR ''/'') \<and> wild_match False p (drop k u)) \<longleftrightarrow>
      wild_match False p u \<or> after_slash p u []" for u
    unfolding after_slash_ok by (metis drop0 le0 not_gr0)
  then show ?thesis
    using F False D r after_slash_join [of p t a] j
    by (auto simp: wildmatch_array_def Let_def after_slash_ok)
qed

lemma litmatch_array_joined:
  assumes "texts \<noteq> []" and "where' \<ge> 0"
  shows "litmatch_array s texts where' \<longleftrightarrow>
    (if where' > 0 then last_elements where' (concat texts) s else s = concat texts)"
proof (cases "where' > 0")
  case True
  show ?thesis
  proof (cases "first_text texts where'")
    case None
    then have "slashes (concat texts) < where' - 1" using first_text_spec(2) [OF assms(1) True] by simp
    then have "\<not> last_elements where' (concat texts) s" by (rule no_last_elements)
    then show ?thesis using None True by (simp add: litmatch_array_def)
  next
    case (Some x)
    obtain t a where x: "x = (t, a)" by (cases x)
    have "last_elements where' (concat texts) (t @ concat a)"
      using first_text_spec(2) [OF assms(1) True] Some x by simp
    then have "last_elements where' (concat texts) s \<longleftrightarrow> s = t @ concat a" using last_elements_unique by blast
    then show ?thesis using Some x True by (simp add: litmatch_array_def doliteral_join)
  qed
next
  case False
  then obtain t a where "first_text texts where' = Some (t, a)" "t @ concat a = concat texts"
    using first_text_spec(1) [OF assms(1), of where'] by auto
  then show ?thesis using False by (simp add: litmatch_array_def doliteral_join)
qed

text \<open>C12: dowild decides the meaning of a pattern. wildmatch and iwildmatch hold exactly when the text
  matches: the early exits ABORT_ALL and ABORT_TO_STARSTAR, by which a failing inner match
  stops the loops of the outer stars, never lose a match.\<close>

theorem wildmatch_correct:
  "(wildmatch p t \<longleftrightarrow> wild_match False p t) \<and> (iwildmatch p t \<longleftrightarrow> wild_match True p t)"
  using res_okD(1) [OF dowild_ok] by (simp_all add: wildmatch_def iwildmatch_def)

text \<open>C13: wildmatch_array matches the joined strings: with where = 0 the whole of them, with where < 0 at
  the start or after any slash, with where > 0 the last \<open>where\<close> elements, and nothing if
  there are fewer.\<close>

theorem wildmatch_array_correct:
  assumes "texts \<noteq> []"
  shows "wildmatch_array p texts where' \<longleftrightarrow>
    (if where' > 0 then \<exists>t. last_elements where' (concat texts) t \<and> wild_match False p t
     else if where' = 0 then wild_match False p (concat texts)
     else \<exists>k\<le>length (concat texts). (k = 0 \<or> concat texts ! (k - 1) = CHR ''/'') \<and> wild_match False p (drop k (concat texts)))"
  by (rule wildmatch_array_joined [OF assms])

theorem wildmatch_array_correct_witness:
  "wildmatch_array ''b*d'' [''a/'', ''bcd''] (-1) \<and> \<not> wildmatch_array ''b*d'' [''a/'', ''bcd''] 0"
proof -
  have m: "concat [''a/'', ''bcd''] = ''a/bcd''" "length ''a/bcd'' = 5" by simp_all
  have "wild_match False ''b*d'' (drop 2 ''a/bcd'')" "\<not> wild_match False ''b*d'' ''a/bcd''" by code_simp+
  then have "\<exists>k\<le>5. (k = 0 \<or> ''a/bcd'' ! (k - 1) = CHR ''/'') \<and> wild_match False ''b*d'' (drop k ''a/bcd'')"
    by (intro exI [of _ 2]) simp
  with \<open>\<not> wild_match False ''b*d'' ''a/bcd''\<close> show ?thesis
    using wildmatch_array_correct [of "[''a/'', ''bcd'']" "''b*d''" "-1"]
      wildmatch_array_correct [of "[''a/'', ''bcd'']" "''b*d''" 0] unfolding m by simp
qed

end
