(* ===== verification/Uidlist.thy ===== *)
theory Uidlist
  imports Streams Wildmatch
begin

text \<open>
  User and group ids, uidlist.c. The sender keeps a list of the ids it has met and the names they
  have; the receiver turns an id and a name into a local id, by the first rule of --usermap or
  --groupmap that fits, else by the name, else by the number. A struct idlist is a node, a list
  of nodes has the newest first. The system's tables (getpwuid, getpwnam, getgrgid, getgrnam,
  getgroups) are parameters. What is_in_group remembers of its last answer is left out, and so
  are the helper process of a daemon (namecvt_pid), the debug output and getallgroups.
\<close>

section \<open>Data\<close>

datatype name_or_id = Name "string option" | MaxId uint32

record idlist =
  il_u :: name_or_id
  il_id :: uint32
  il_id2 :: uint32
  NFLAGS_WILD_NAME_MATCH :: bool
  NFLAGS_NAME_MATCH :: bool
  il_skip :: bool                \<comment> \<open>FLAG_SKIP_GROUP\<close>

text \<open>The tables of the receiving system, and what the options made of --usermap and --groupmap.\<close>

record id_env =
  uidmap :: "idlist list"
  gidmap :: "idlist list"
  getpwnam :: "string \<Rightarrow> uint32 option"
  getgrnam :: "string \<Rightarrow> uint32 option"
  getgroups :: "uint32 list"
  our_gid :: uint32

text \<open>One of the two lists, and the node match_uid or match_gid found last in it.\<close>

record id_tab =
  tab_list :: "idlist list"
  tab_last :: "idlist option"

section \<open>Numbers and names\<close>

fun id_parse_from :: "uint32 \<Rightarrow> string \<Rightarrow> uint32 result" where
  "id_parse_from num [] = Inr num"
| "id_parse_from num (c # cp) =
     (if \<not> c_isdigit c then Inl RERR_SYNTAX
      else let tmp = num * 10 + word_of_nat (of_char c) - 48 in
        if tmp < num then Inl RERR_SYNTAX else id_parse_from tmp cp)"

definition id_parse :: "string \<Rightarrow> uint32 result" where
  "id_parse num_str = id_parse_from 0 num_str"

definition user_to_uid :: "id_env \<Rightarrow> string \<Rightarrow> bool \<Rightarrow> uint32 option result" where
  "user_to_uid env name num_ok =
     (if name = [] then Inr None
      else if num_ok \<and> list_all c_isdigit name then res_bind (id_parse name) (\<lambda>u. Inr (Some u))
      else Inr (getpwnam env name))"

definition group_to_gid :: "id_env \<Rightarrow> string \<Rightarrow> bool \<Rightarrow> uint32 option result" where
  "group_to_gid env name num_ok =
     (if name = [] then Inr None
      else if num_ok \<and> list_all c_isdigit name then res_bind (id_parse name) (\<lambda>g. Inr (Some g))
      else Inr (getgrnam env name))"

definition is_in_group :: "id_env \<Rightarrow> uint32 \<Rightarrow> bool" where
  "is_in_group env gid \<longleftrightarrow>
     gid \<in> set (if our_gid env \<in> set (getgroups env) then getgroups env else getgroups env @ [our_gid env])"

section \<open>The receiver\<close>

definition map_fits :: "uint32 \<Rightarrow> string \<Rightarrow> idlist \<Rightarrow> bool" where
  "map_fits ident name node =
     (case il_u node of
        Name n \<Rightarrow>
          (if NFLAGS_WILD_NAME_MATCH node then wildmatch (the n) name
           else if NFLAGS_NAME_MATCH node then the n = name
           else False)
      | MaxId max_id \<Rightarrow>
          if max_id \<noteq> 0 then il_id node \<le> ident \<and> ident \<le> max_id else il_id node = ident)"

text \<open>The id for an id and a name: \<open>usernames\<close> tells the uid list from the gid list.\<close>

definition recv_id2 :: "bool \<Rightarrow> id_env \<Rightarrow> uint32 \<Rightarrow> string option \<Rightarrow> uint32" where
  "recv_id2 usernames env ident name =
     (let n = (case name of None \<Rightarrow> [] | Some n \<Rightarrow> n) in
      case find (map_fits ident n) (if usernames then uidmap env else gidmap env) of
        Some node \<Rightarrow> il_id2 node
      | None \<Rightarrow>
          if n \<noteq> [] \<and> ident \<noteq> 0 then
            (case (if usernames then user_to_uid env n False else group_to_gid env n False) of
               Inr (Some i) \<Rightarrow> i
             | _ \<Rightarrow> ident)
          else ident)"

definition recv_add_id :: "bool \<Rightarrow> bool \<Rightarrow> id_env \<Rightarrow> uint32 \<Rightarrow> string option \<Rightarrow> idlist list \<Rightarrow> idlist \<times> idlist list" where
  "recv_add_id usernames am_root env ident name lst =
     (let id2 = recv_id2 usernames env ident name;
          node = \<lparr>il_u = Name name, il_id = ident, il_id2 = id2, NFLAGS_WILD_NAME_MATCH = False, NFLAGS_NAME_MATCH = False,
                  il_skip = (\<not> usernames \<and> \<not> am_root \<and> \<not> is_in_group env id2)\<rparr>
      in (node, node # lst))"

definition last_hit :: "uint32 \<Rightarrow> idlist option \<Rightarrow> idlist option" where
  "last_hit ident last' = (case last' of Some node \<Rightarrow> if ident = il_id node then Some node else None | None \<Rightarrow> None)"

text \<open>What match_uid and match_gid share: the node for an id.\<close>

definition match_id :: "bool \<Rightarrow> bool \<Rightarrow> id_env \<Rightarrow> uint32 \<Rightarrow> id_tab \<Rightarrow> idlist \<times> id_tab" where
  "match_id usernames am_root env ident tab =
     (case last_hit ident (tab_last tab) of
        Some node \<Rightarrow> (node, tab)
      | None \<Rightarrow>
          let (node, lst) =
                (case find (\<lambda>n. il_id n = ident) (tab_list tab) of
                   Some node \<Rightarrow> (node, tab_list tab)
                 | None \<Rightarrow> recv_add_id usernames am_root env ident None (tab_list tab))
          in (node, tab\<lparr>tab_list := lst, tab_last := Some node\<rparr>))"

definition match_uid :: "bool \<Rightarrow> id_env \<Rightarrow> uint32 \<Rightarrow> id_tab \<Rightarrow> uint32 \<times> id_tab" where
  "match_uid am_root env uid tab = (case match_id True am_root env uid tab of (node, tab) \<Rightarrow> (il_id2 node, tab))"

text \<open>The second result is FLAG_SKIP_GROUP, which the caller adds to its flags.\<close>

definition match_gid :: "bool \<Rightarrow> id_env \<Rightarrow> uint32 \<Rightarrow> id_tab \<Rightarrow> (uint32 \<times> bool) \<times> id_tab" where
  "match_gid am_root env gid tab = (case match_id False am_root env gid tab of (node, tab) \<Rightarrow> ((il_id2 node, il_skip node), tab))"

text \<open>What recv_user_name and recv_group_name share: the name is read and the id added.\<close>

definition recv_name_id :: "bool \<Rightarrow> bool \<Rightarrow> int \<Rightarrow> id_env \<Rightarrow> uint32 \<Rightarrow> id_tab \<Rightarrow> byte list \<Rightarrow> (idlist \<times> id_tab \<times> byte list) result" where
  "recv_name_id usernames am_root num_ids env ident tab s =
     res_bind (read_byte s) (\<lambda>(len, s).
     res_bind (if len \<noteq> 0 then
                 res_bind (read_sbuf (unat len) s) (\<lambda>(name, s). Inr (if num_ids < 0 then None else Some name, s))
               else Inr (None, s)) (\<lambda>(name, s).
       case recv_add_id usernames am_root env ident name (tab_list tab) of
         (node, lst) \<Rightarrow> Inr (node, tab\<lparr>tab_list := lst\<rparr>, s)))"

definition recv_user_name :: "bool \<Rightarrow> int \<Rightarrow> id_env \<Rightarrow> uint32 \<Rightarrow> id_tab \<Rightarrow> byte list \<Rightarrow> (uint32 \<times> id_tab \<times> byte list) result" where
  "recv_user_name am_root num_ids env uid tab s =
     res_bind (recv_name_id True am_root num_ids env uid tab s) (\<lambda>(node, tab, s). Inr (il_id2 node, tab, s))"

definition recv_group_name :: "bool \<Rightarrow> int \<Rightarrow> id_env \<Rightarrow> uint32 \<Rightarrow> id_tab \<Rightarrow> byte list \<Rightarrow>
    ((uint32 \<times> bool) \<times> id_tab \<times> byte list) result" where
  "recv_group_name am_root num_ids env gid tab s =
     res_bind (recv_name_id False am_root num_ids env gid tab s) (\<lambda>(node, tab, s). Inr ((il_id2 node, il_skip node), tab, s))"

section \<open>The sender\<close>

definition sent_node :: "uint32 \<Rightarrow> string option \<Rightarrow> idlist" where
  "sent_node ident name = \<lparr>il_u = Name name, il_id = ident, il_id2 = 0, NFLAGS_WILD_NAME_MATCH = False,
     NFLAGS_NAME_MATCH = False, il_skip = False\<rparr>"

text \<open>The name is returned only the first time an id is met. \<open>uid_to_user\<close> is getpwuid.\<close>

definition add_uid :: "(uint32 \<Rightarrow> string option) \<Rightarrow> uint32 \<Rightarrow> idlist list \<Rightarrow> string option \<times> idlist list" where
  "add_uid uid_to_user uid lst =
     (if list_ex (\<lambda>n. il_id n = uid) lst then (None, lst)
      else (uid_to_user uid, sent_node uid (uid_to_user uid) # lst))"

definition add_gid :: "(uint32 \<Rightarrow> string option) \<Rightarrow> uint32 \<Rightarrow> idlist list \<Rightarrow> string option \<times> idlist list" where
  "add_gid gid_to_group gid lst =
     (if list_ex (\<lambda>n. il_id n = gid) lst then (None, lst)
      else (gid_to_group gid, sent_node gid (gid_to_group gid) # lst))"

definition send_one_name :: "nat \<Rightarrow> uint32 \<Rightarrow> string option \<Rightarrow> byte list" where
  "send_one_name pv ident name =
     (let n = (case name of None \<Rightarrow> [] | Some n \<Rightarrow> n);
          len = (if length n > 255 then 255 else length n)
      in write_varint30 pv ident @ [word_of_nat len] @ (if len \<noteq> 0 then to_bytes (take len n) else []))"

definition node_name :: "idlist \<Rightarrow> string option" where
  "node_name node = (case il_u node of Name n \<Rightarrow> n | MaxId _ \<Rightarrow> None)"

definition send_names :: "nat \<Rightarrow> idlist list \<Rightarrow> byte list" where
  "send_names pv lst =
     concat (map (\<lambda>n. if il_id n \<noteq> 0 \<and> node_name n \<noteq> None then send_one_name pv (il_id n) (node_name n) else []) lst)"

definition send_one_list :: "nat \<Rightarrow> bool \<Rightarrow> string option \<Rightarrow> idlist list \<Rightarrow> byte list" where
  "send_one_list pv xmit_id0_names name0 lst =
     send_names pv lst @ (if xmit_id0_names then send_one_name pv 0 name0 else write_varint30 pv 0)"

record id_cfg =
  ic_pv :: nat
  ic_preserve_uid :: bool
  ic_preserve_gid :: bool
  ic_numeric_ids :: int
  ic_am_root :: bool
  ic_usermap :: bool
  ic_groupmap :: bool
  xmit_id0_names :: bool

definition send_id_lists :: "id_cfg \<Rightarrow> (uint32 \<Rightarrow> string option) \<Rightarrow> (uint32 \<Rightarrow> string option) \<Rightarrow> idlist list \<Rightarrow> idlist list \<Rightarrow> byte list" where
  "send_id_lists cfg uid_to_user gid_to_group us gs =
     (if ic_preserve_uid cfg then send_one_list (ic_pv cfg) (xmit_id0_names cfg) (uid_to_user 0) us else [])
     @ (if ic_preserve_gid cfg then send_one_list (ic_pv cfg) (xmit_id0_names cfg) (gid_to_group 0) gs else [])"

section \<open>The complete lists\<close>

lemma recv_name_id_leaves: "length s \<le> n \<Longrightarrow> leaves (snd \<circ> snd) (recv_name_id w r k env u tab s) n"
  unfolding recv_name_id_def
  apply (rule leaves_bind, erule read_byte_leaves, simp only: prod.case)
  apply (rule leaves_bind, (auto intro!: leaves_intro)[1], simp only: prod.case)
  apply (simp add: recv_add_id_def Let_def leaves_Inr)
  done

lemma recv_name_id_le:
  "recv_name_id w r k env u tab s = Inr (x, tab', s') \<Longrightarrow> read_varint30 pv t = Inr (i, s) \<Longrightarrow> length s' < length t"
  using recv_name_id_leaves [of s "length s" w r k env u tab] by (auto simp: leaves_def dest!: read_varint30_less)

text \<open>
  The loops of recv_id_list, with the name of id 0 that follows when xmit_id0_names is set. They drop
  what recv_user_name and recv_group_name return.
\<close>

function recv_id_loop :: "bool \<Rightarrow> id_cfg \<Rightarrow> id_env \<Rightarrow> id_tab \<Rightarrow> byte list \<Rightarrow> (id_tab \<times> byte list) result" where
  "recv_id_loop usernames cfg env tab s =
     (case read_varint30 (ic_pv cfg) s of
        Inl e \<Rightarrow> Inl e
      | Inr (ident, s) \<Rightarrow>
          if ident = 0 then Inr (tab, s)
          else (case recv_name_id usernames (ic_am_root cfg) (ic_numeric_ids cfg) env ident tab s of
              Inl e \<Rightarrow> Inl e
            | Inr (_, tab, s) \<Rightarrow> recv_id_loop usernames cfg env tab s))"
  by pat_completeness auto
termination
  by (relation "measure (\<lambda>(w, cfg, env, tab, s). length s)") (auto dest: recv_name_id_le)

declare recv_id_loop.simps [simp del]

definition recv_ids :: "bool \<Rightarrow> id_cfg \<Rightarrow> id_env \<Rightarrow> id_tab \<Rightarrow> byte list \<Rightarrow> (id_tab \<times> byte list) result" where
  "recv_ids usernames cfg env tab s =
     res_bind (recv_id_loop usernames cfg env tab s) (\<lambda>(tab, s).
       if xmit_id0_names cfg
       then res_bind (recv_name_id usernames (ic_am_root cfg) (ic_numeric_ids cfg) env 0 tab s) (\<lambda>(_, tab, s). Inr (tab, s))
       else Inr (tab, s))"

text \<open>
  The ids of the files are converted by match_uid and match_gid, one after the other; a file is its
  owner, its group and FLAG_SKIP_GROUP.
\<close>

type_synonym owned = "uint32 \<times> uint32 \<times> bool"

fun map_st :: "('a \<Rightarrow> 's \<Rightarrow> 'b \<times> 's) \<Rightarrow> 'a list \<Rightarrow> 's \<Rightarrow> 'b list \<times> 's" where
  "map_st f [] st = ([], st)"
| "map_st f (x # xs) st = (let (y, st) = f x st; (ys, st) = map_st f xs st in (y # ys, st))"

definition match_owner :: "bool \<Rightarrow> id_env \<Rightarrow> owned \<Rightarrow> id_tab \<Rightarrow> owned \<times> id_tab" where
  "match_owner am_root env = (\<lambda>(u, g, skip) tab. case match_uid am_root env u tab of (u, tab) \<Rightarrow> ((u, g, skip), tab))"

definition match_group :: "bool \<Rightarrow> id_env \<Rightarrow> owned \<Rightarrow> id_tab \<Rightarrow> owned \<times> id_tab" where
  "match_group am_root env = (\<lambda>(u, g, skip) tab. case match_gid am_root env g tab of ((g, skip'), tab) \<Rightarrow> ((u, g, skip \<or> skip'), tab))"

definition recv_id_list :: "id_cfg \<Rightarrow> id_env \<Rightarrow> owned list \<Rightarrow> id_tab \<Rightarrow> id_tab \<Rightarrow> byte list \<Rightarrow>
    (owned list \<times> id_tab \<times> id_tab \<times> byte list) result" where
  "recv_id_list cfg env fs users groups s =
     res_bind (if ic_preserve_uid cfg \<and> ic_numeric_ids cfg \<le> 0 then recv_ids True cfg env users s else Inr (users, s)) (\<lambda>(users, s).
     res_bind (if ic_preserve_gid cfg \<and> ic_numeric_ids cfg \<le> 0 then recv_ids False cfg env groups s else Inr (groups, s)) (\<lambda>(groups, s).
       let (fs, users) = (if ic_am_root cfg \<and> ic_preserve_uid cfg \<and> (ic_numeric_ids cfg = 0 \<or> ic_usermap cfg)
                          then map_st (match_owner (ic_am_root cfg) env) fs users else (fs, users));
           (fs, groups) = (if ic_preserve_gid cfg \<and> (\<not> ic_am_root cfg \<or> ic_numeric_ids cfg = 0 \<or> ic_groupmap cfg)
                           then map_st (match_group (ic_am_root cfg) env) fs groups else (fs, groups))
       in Inr (fs, users, groups, s)))"

section \<open>--usermap and --groupmap\<close>

text \<open>One rule, the text between two commas, as the code cuts it up: before and after the first colon.\<close>

definition parse_rule :: "bool \<Rightarrow> id_env \<Rightarrow> string \<Rightarrow> idlist option result" where
  "parse_rule usernames env item =
     (let cp = takeWhile (\<lambda>c. c \<noteq> CHR '':'') item; rest = dropWhile (\<lambda>c. c \<noteq> CHR '':'') item in
      if rest = [] \<or> tl rest = [] then Inl RERR_SYNTAX
      else
        res_bind
          (if c_isdigit (at cp 0) then
             let before = takeWhile (\<lambda>c. c \<noteq> CHR ''-'') cp; dash = dropWhile (\<lambda>c. c \<noteq> CHR ''-'') cp in
             if \<not> list_all (\<lambda>c. c_isdigit c \<or> c = CHR ''-'') cp \<or> dash \<noteq> [] \<and> (tl dash = [] \<or> CHR ''-'' \<in> set (tl dash))
             then Inl RERR_SYNTAX
             else res_bind (if dash \<noteq> [] then id_parse (tl dash) else Inr 0) (\<lambda>max_id.
                  res_bind (id_parse before) (\<lambda>id1. Inr (MaxId max_id, id1, False, False)))
           else if list_ex (\<lambda>c. c \<in> {CHR ''*'', CHR ''['', CHR ''?''}) cp then Inr (Name (Some cp), 0, True, False)
           else Inr (Name (Some cp), 0, False, True)) (\<lambda>(noiu, id1, wild, exact).
        res_bind (if usernames then user_to_uid env (tl rest) True else group_to_gid env (tl rest) True) (\<lambda>i.
          Inr (map_option (\<lambda>i. \<lparr>il_u = noiu, il_id = id1, il_id2 = i, NFLAGS_WILD_NAME_MATCH = wild,
            NFLAGS_NAME_MATCH = exact, il_skip = False\<rparr>) i))))"

fun split_commas :: "string \<Rightarrow> string list" where
  "split_commas [] = [[]]"
| "split_commas (c # cs) = (if c = CHR '','' then [] # split_commas cs else (c # hd (split_commas cs)) # tl (split_commas cs))"

text \<open>The rules are read from the last to the first; a rule for an unknown name is left out.\<close>

fun parse_rules :: "bool \<Rightarrow> id_env \<Rightarrow> string list \<Rightarrow> idlist list \<Rightarrow> idlist list result" where
  "parse_rules usernames env [] idmap = Inr idmap"
| "parse_rules usernames env (item # items) idmap =
     res_bind (parse_rule usernames env item) (\<lambda>node.
       parse_rules usernames env items (case node of None \<Rightarrow> idmap | Some n \<Rightarrow> n # idmap))"

definition parse_name_map :: "id_cfg \<Rightarrow> bool \<Rightarrow> string \<Rightarrow> id_env \<Rightarrow> id_tab \<Rightarrow> (id_env \<times> id_tab) result" where
  "parse_name_map cfg usernames m env tab =
     res_bind (parse_rules usernames env (rev (split_commas m)) (if usernames then uidmap env else gidmap env)) (\<lambda>idmap.
       let env = (if usernames then env\<lparr>uidmap := idmap\<rparr> else env\<lparr>gidmap := idmap\<rparr>);
           lst = (if xmit_id0_names cfg then tab_list tab
                  else snd (recv_add_id usernames (ic_am_root cfg) env 0
                    (if ic_numeric_ids cfg \<noteq> 0 then None else Some ''root'') (tab_list tab)))
       in Inr (env, tab\<lparr>tab_list := lst\<rparr>))"

section \<open>Looking up ids\<close>

text \<open>
  The contract of a table that translates ids: for an id it knows it gives the translation \<open>there\<close>,
  and it goes on knowing what it knew. A list of ids is then translated one by one.
\<close>

locale id_table =
  fixes tr :: "'i \<Rightarrow> 's \<Rightarrow> 'r \<times> 's" and valid :: "'s \<Rightarrow> bool" and known :: "'i \<Rightarrow> 's \<Rightarrow> bool" and there :: "'i \<Rightarrow> 'r"
  assumes tr_there: "valid st \<Longrightarrow> known u st \<Longrightarrow> fst (tr u st) = there u"
    and tr_valid: "valid st \<Longrightarrow> known u st \<Longrightarrow> valid (snd (tr u st))"
    and tr_known: "known v st \<Longrightarrow> known v (snd (tr u st))"
begin

lemma map_there:
  "valid st \<Longrightarrow> (\<And>u. u \<in> set us \<Longrightarrow> known u st) \<Longrightarrow> fst (map_st tr us st) = map there us \<and> valid (snd (map_st tr us st))"
proof (induction us arbitrary: st)
  case (Cons u us)
  then have "valid (snd (tr u st))" "\<And>v. v \<in> set us \<Longrightarrow> known v (snd (tr u st))" "fst (tr u st) = there u"
    by (auto simp: tr_there tr_valid tr_known)
  with Cons.IH [of "snd (tr u st)"] show ?case by (simp add: case_prod_beta)
qed simp

lemma known_kept: "known v st \<Longrightarrow> known v (snd (map_st tr us st))"
  by (induction us arbitrary: st) (auto simp: case_prod_beta tr_known)

end

text \<open>
  \<open>N\<close> gives the name of an id of the sender. A node of the receiver is right for it when it
  translates its id as the name says; an id is known when it is in the list or has no name.
\<close>

definition node_right :: "bool \<Rightarrow> bool \<Rightarrow> id_env \<Rightarrow> (uint32 \<Rightarrow> string option) \<Rightarrow> idlist \<Rightarrow> bool" where
  "node_right usernames am_root env N node \<longleftrightarrow>
     il_id2 node = recv_id2 usernames env (il_id node) (N (il_id node)) \<and>
     il_skip node = (\<not> usernames \<and> \<not> am_root \<and> \<not> is_in_group env (il_id2 node))"

definition tab_right :: "bool \<Rightarrow> bool \<Rightarrow> id_env \<Rightarrow> (uint32 \<Rightarrow> string option) \<Rightarrow> id_tab \<Rightarrow> bool" where
  "tab_right usernames am_root env N tab \<longleftrightarrow> list_all (node_right usernames am_root env N) (tab_list tab) \<and>
     (case tab_last tab of None \<Rightarrow> True | Some node \<Rightarrow> node_right usernames am_root env N node)"

definition id_known :: "(uint32 \<Rightarrow> string option) \<Rightarrow> uint32 \<Rightarrow> idlist list \<Rightarrow> bool" where
  "id_known N u lst \<longleftrightarrow> N u = None \<or> (\<exists>node\<in>set lst. il_id node = u)"

definition gid_result :: "bool \<Rightarrow> id_env \<Rightarrow> (uint32 \<Rightarrow> string option) \<Rightarrow> uint32 \<Rightarrow> uint32 \<times> bool" where
  "gid_result am_root env N g = (let g2 = recv_id2 False env g (N g) in (g2, \<not> am_root \<and> \<not> is_in_group env g2))"

lemma node_right_new:
  assumes "recv_add_id usernames am_root env u name lst = (node, lst')" and "name = N u"
  shows "node_right usernames am_root env N node" "lst' = node # lst" "il_id node = u"
  using assms by (auto simp: recv_add_id_def node_right_def Let_def)

lemma find_known:
  assumes "list_all (node_right usernames am_root env N) lst" and "id_known N u lst"
    and "(case find (\<lambda>n. il_id n = u) lst of Some node \<Rightarrow> (node, lst) | None \<Rightarrow> recv_add_id usernames am_root env u None lst) = (node, lst')"
  shows "node_right usernames am_root env N node \<and> il_id node = u \<and> list_all (node_right usernames am_root env N) lst' \<and>
    set lst \<subseteq> set lst'"
proof (cases "find (\<lambda>n. il_id n = u) lst")
  case None
  then have "N u = None" using assms(2) by (auto simp: find_None_iff id_known_def)
  with None assms(1,3) node_right_new [of usernames am_root env u None lst node lst' N] show ?thesis by auto
next
  case (Some n)
  then have "n \<in> set lst" "il_id n = u" by (auto simp: find_Some_iff)
  moreover have "node = n" "lst' = lst" using assms(3) Some by simp_all
  ultimately show ?thesis using assms(1) by (auto simp: list_all_iff)
qed

lemma last_hit_Some: "last_hit u l = Some node \<longleftrightarrow> l = Some node \<and> il_id node = u"
  by (auto simp: last_hit_def split: option.splits if_splits)

lemma match_id_right:
  assumes "tab_right w am_root env N tab" and "id_known N u (tab_list tab)" and "match_id w am_root env u tab = (node, tab')"
  shows "node_right w am_root env N node" "il_id node = u" "tab_right w am_root env N tab'"
proof -
  obtain n lst where n: "(case find (\<lambda>n. il_id n = u) (tab_list tab) of Some node \<Rightarrow> (node, tab_list tab)
      | None \<Rightarrow> recv_add_id w am_root env u None (tab_list tab)) = (n, lst)" by fastforce
  note F = find_known [OF _ assms(2) n]
  show "node_right w am_root env N node" "il_id node = u" "tab_right w am_root env N tab'"
    using assms(1,3) F by (auto simp: match_id_def tab_right_def n last_hit_Some split: option.splits)
qed

lemma match_id_known: "id_known N v (tab_list tab) \<Longrightarrow> id_known N v (tab_list (snd (match_id w am_root env u tab)))"
  by (auto simp: match_id_def id_known_def recv_add_id_def Let_def split: option.split)

lemma match_uid_right:
  assumes "tab_right True am_root env N tab" and "id_known N u (tab_list tab)"
  shows "fst (match_uid am_root env u tab) = recv_id2 True env u (N u)" "tab_right True am_root env N (snd (match_uid am_root env u tab))"
  using match_id_right [OF assms, of "fst (match_id True am_root env u tab)" "snd (match_id True am_root env u tab)"]
  by (auto simp: match_uid_def node_right_def case_prod_beta)

lemma match_gid_right:
  assumes "tab_right False am_root env N tab" and "id_known N u (tab_list tab)"
  shows "fst (match_gid am_root env u tab) = gid_result am_root env N u" "tab_right False am_root env N (snd (match_gid am_root env u tab))"
  using match_id_right [OF assms, of "fst (match_id False am_root env u tab)" "snd (match_id False am_root env u tab)"]
  by (auto simp: match_gid_def node_right_def gid_result_def Let_def case_prod_beta)

lemma match_known:
  "id_known N v (tab_list tab) \<Longrightarrow> id_known N v (tab_list (snd (match_uid am_root env u tab)))"
  "id_known N v (tab_list tab) \<Longrightarrow> id_known N v (tab_list (snd (match_gid am_root env u tab)))"
  by (auto simp: match_uid_def match_gid_def case_prod_beta match_id_known)

interpretation owners: id_table "match_owner am_root env" "tab_right True am_root env N" "\<lambda>(u, g, k) tab. id_known N u (tab_list tab)"
  "\<lambda>(u, g, k). (recv_id2 True env u (N u), g, k)" for am_root env N
  by unfold_locales (auto simp: match_owner_def case_prod_beta match_uid_right match_known)

interpretation groups: id_table "match_group am_root env" "tab_right False am_root env N" "\<lambda>(u, g, k) tab. id_known N g (tab_list tab)"
  "\<lambda>(u, g, k). (u, fst (gid_result am_root env N g), k \<or> snd (gid_result am_root env N g))" for am_root env N
  by unfold_locales (auto simp: match_group_def case_prod_beta match_gid_right match_known)

section \<open>The lists arrive\<close>

definition name_sendable :: "string option \<Rightarrow> bool" where
  "name_sendable name \<longleftrightarrow> (case name of None \<Rightarrow> True | Some n \<Rightarrow> n \<noteq> [] \<and> NUL \<notin> set n \<and> length n < 256)"

lemma recv_name_id_send:
  assumes "name_sendable name" and "0 \<le> num_ids" and "recv_add_id w am_root env ident name (tab_list tab) = (node, lst)"
  shows "recv_name_id w am_root num_ids env ident tab (drop (length (write_varint30 pv ident)) (send_one_name pv ident name) @ s) =
    Inr (node, tab\<lparr>tab_list := lst\<rparr>, s)"
proof (cases name)
  case None
  then show ?thesis using assms by (simp add: recv_name_id_def send_one_name_def)
next
  case (Some n)
  then have n: "n \<noteq> []" "NUL \<notin> set n" "length n < 256" using assms(1) by (auto simp: name_sendable_def)
  then have "unat (word_of_nat (length n) :: byte) = length n" by (intro small_unat_byte)
  moreover from this have "(word_of_nat (length n) :: byte) \<noteq> 0" using n(1) by auto
  ultimately show ?thesis
    using assms n Some by (simp add: recv_name_id_def send_one_name_def Let_def read_sbuf_to_bytes)
qed

lemma send_one_name_eq:
  "send_one_name pv ident name = write_varint30 pv ident @ drop (length (write_varint30 pv ident)) (send_one_name pv ident name)"
  by (simp add: send_one_name_def Let_def)

text \<open>A list of the sender: every node has the name of its id.\<close>

definition names_of :: "(uint32 \<Rightarrow> string option) \<Rightarrow> idlist list \<Rightarrow> bool" where
  "names_of N lst \<longleftrightarrow> (\<forall>n\<in>set lst. il_id n \<noteq> 0 \<longrightarrow> node_name n = N (il_id n) \<and> name_sendable (N (il_id n)))"

lemma tab_right_add:
  assumes "tab_right w am_root env N tab" and "recv_add_id w am_root env ident (N ident) (tab_list tab) = (node, lst)"
  shows "tab_right w am_root env N (tab\<lparr>tab_list := lst\<rparr>)" "lst = node # tab_list tab" "il_id node = ident"
    "node_right w am_root env N node"
  using assms node_right_new [OF assms(2), of N, OF refl] by (auto simp: tab_right_def)

lemma recv_id_loop_send:
  assumes "0 \<le> ic_numeric_ids cfg"
  shows "names_of N lst \<Longrightarrow> tab_right w (ic_am_root cfg) env N tab \<Longrightarrow>
    \<exists>tab'. (\<forall>s. recv_id_loop w cfg env tab (send_names (ic_pv cfg) lst @ write_varint30 (ic_pv cfg) 0 @ s) = Inr (tab', s)) \<and>
      tab_right w (ic_am_root cfg) env N tab' \<and> set (tab_list tab) \<subseteq> set (tab_list tab') \<and>
      (\<forall>n\<in>set lst. il_id n \<noteq> 0 \<longrightarrow> id_known N (il_id n) (tab_list tab'))"
proof (induction lst arbitrary: tab)
  case Nil
  then show ?case by (subst recv_id_loop.simps) (simp add: send_names_def)
next
  case (Cons n lst)
  show ?case
  proof (cases "il_id n \<noteq> 0 \<and> node_name n \<noteq> None")
    case False
    then have "il_id n \<noteq> 0 \<Longrightarrow> N (il_id n) = None" using Cons.prems(1) by (auto simp: names_of_def)
    then show ?thesis using Cons.IH [of tab] Cons.prems False by (auto simp: names_of_def id_known_def send_names_def)
  next
    case True
    have nm: "node_name n = N (il_id n)" "name_sendable (N (il_id n))" "names_of N lst"
      using Cons.prems(1) True by (auto simp: names_of_def)
    obtain node l where a: "recv_add_id w (ic_am_root cfg) env (il_id n) (N (il_id n)) (tab_list tab) = (node, l)" by fastforce
    note T = tab_right_add [OF Cons.prems(2) a]
    from Cons.IH [OF nm(3) T(1)] obtain tab' where t: "\<And>s. recv_id_loop w cfg env (tab\<lparr>tab_list := l\<rparr>)
        (send_names (ic_pv cfg) lst @ write_varint30 (ic_pv cfg) 0 @ s) = Inr (tab', s)"
      "tab_right w (ic_am_root cfg) env N tab'" "set l \<subseteq> set (tab_list tab')"
      "\<forall>n\<in>set lst. il_id n \<noteq> 0 \<longrightarrow> id_known N (il_id n) (tab_list tab')" by auto
    have "send_names (ic_pv cfg) (n # lst) = send_one_name (ic_pv cfg) (il_id n) (N (il_id n)) @ send_names (ic_pv cfg) lst"
      using True nm(1) by (simp add: send_names_def)
    then have "recv_id_loop w cfg env tab (send_names (ic_pv cfg) (n # lst) @ write_varint30 (ic_pv cfg) 0 @ s) = Inr (tab', s)" for s
      using True t(1) recv_name_id_send [OF nm(2) assms a] by (subst recv_id_loop.simps, simp, subst send_one_name_eq) simp
    with t T(2,3) show ?thesis by (intro exI [of _ tab']) (auto simp: id_known_def)
  qed
qed

text \<open>The names that are sent: that of id 0 only when xmit_id0_names is set.\<close>

definition names_sent :: "id_cfg \<Rightarrow> (uint32 \<Rightarrow> string option) \<Rightarrow> uint32 \<Rightarrow> string option" where
  "names_sent cfg N u = (if u = 0 \<and> \<not> xmit_id0_names cfg then None else N u)"

lemma recv_ids_send:
  assumes "0 \<le> ic_numeric_ids cfg" and "names_of N lst" and "name_sendable (N 0)" and M: "M = names_sent cfg N"
    and "tab_right w (ic_am_root cfg) env M tab"
  shows "\<exists>tab'. recv_ids w cfg env tab (send_one_list (ic_pv cfg) (xmit_id0_names cfg) (N 0) lst @ s) = Inr (tab', s) \<and>
    tab_right w (ic_am_root cfg) env M tab' \<and> (\<forall>u\<in>insert 0 (il_id ` set lst). id_known M u (tab_list tab'))"
proof -
  have "names_of M lst" using assms(2) by (auto simp: names_of_def M names_sent_def)
  from recv_id_loop_send [OF assms(1) this assms(5)] obtain tab1 where t: "\<And>s. recv_id_loop w cfg env tab
      (send_names (ic_pv cfg) lst @ write_varint30 (ic_pv cfg) 0 @ s) = Inr (tab1, s)"
    "tab_right w (ic_am_root cfg) env M tab1" "\<forall>n\<in>set lst. il_id n \<noteq> 0 \<longrightarrow> id_known M (il_id n) (tab_list tab1)"
    by auto
  show ?thesis
  proof (cases "xmit_id0_names cfg")
    case True
    obtain node l where a: "recv_add_id w (ic_am_root cfg) env 0 (M 0) (tab_list tab1) = (node, l)" by fastforce
    note T = tab_right_add [OF t(2) a]
    have "M 0 = N 0" using True by (simp add: M names_sent_def)
    then have "recv_ids w cfg env tab (send_one_list (ic_pv cfg) True (N 0) lst @ s) = Inr (tab1\<lparr>tab_list := l\<rparr>, s)"
      using True t(1) recv_name_id_send [OF assms(3,1), of w "ic_am_root cfg" env 0 tab1 node l] a
      unfolding recv_ids_def send_one_list_def by (subst send_one_name_eq) simp
    then show ?thesis using True T(1-3) t(3) by (intro exI [of _ "tab1\<lparr>tab_list := l\<rparr>"]) (fastforce simp: id_known_def)
  next
    case False
    then have "M 0 = None" by (simp add: M names_sent_def)
    then show ?thesis
      using False t by (intro exI [of _ tab1]) (auto simp: recv_ids_def send_one_list_def id_known_def)
  qed
qed

text \<open>C38: The id lists arrive and are applied. After the lists of ids and names the sender collected, recv_id_list
  has converted the owner and group of every file as if it had looked up the sender's name for that
  id itself: by the first rule of --usermap or --groupmap that fits, else by the local user or group
  of that name, else by number; and a group the receiver may not use is flagged.\<close>

theorem id_lists_arrive:
  assumes "ic_numeric_ids cfg = 0" and "names_of U us" and "names_of G gs" and "name_sendable (U 0)" and "name_sendable (G 0)"
    and "\<And>u g k. (u, g, k) \<in> set fs \<Longrightarrow> u \<in> insert 0 (il_id ` set us) \<and> g \<in> insert 0 (il_id ` set gs)"
    and "tab_list users = []" and "tab_last users = None" and "tab_list groups = []" and "tab_last groups = None"
  shows "\<exists>users' groups'. recv_id_list cfg env fs users groups (send_id_lists cfg U G us gs @ s) =
    Inr (map (\<lambda>(u, g, k).
           (if ic_am_root cfg \<and> ic_preserve_uid cfg then recv_id2 True env u (names_sent cfg U u) else u,
            if ic_preserve_gid cfg then fst (gid_result (ic_am_root cfg) env (names_sent cfg G) g) else g,
            k \<or> ic_preserve_gid cfg \<and> snd (gid_result (ic_am_root cfg) env (names_sent cfg G) g))) fs, users', groups', s)"
proof -
  have right: "tab_right w (ic_am_root cfg) env M users" "tab_right w (ic_am_root cfg) env M groups" for w M
    using assms(7-10) by (simp_all add: tab_right_def)
  have num: "0 \<le> ic_numeric_ids cfg" using assms(1) by simp
  obtain users1 where u: "ic_preserve_uid cfg \<Longrightarrow> recv_ids True cfg env users
      (send_one_list (ic_pv cfg) (xmit_id0_names cfg) (U 0) us @ (if ic_preserve_gid cfg
        then send_one_list (ic_pv cfg) (xmit_id0_names cfg) (G 0) gs else []) @ s) =
      Inr (users1, (if ic_preserve_gid cfg then send_one_list (ic_pv cfg) (xmit_id0_names cfg) (G 0) gs else []) @ s)"
    "tab_right True (ic_am_root cfg) env (names_sent cfg U) users1"
    "\<forall>u\<in>insert 0 (il_id ` set us). id_known (names_sent cfg U) u (tab_list users1)"
    using recv_ids_send [OF num assms(2,4) refl right(1)] by blast
  obtain groups1 where g: "recv_ids False cfg env groups (send_one_list (ic_pv cfg) (xmit_id0_names cfg) (G 0) gs @ s) = Inr (groups1, s)"
    "tab_right False (ic_am_root cfg) env (names_sent cfg G) groups1"
    "\<forall>g\<in>insert 0 (il_id ` set gs). id_known (names_sent cfg G) g (tab_list groups1)"
    using recv_ids_send [OF num assms(3,5) refl right(2)] by blast
  define fs1 where "fs1 = (if ic_am_root cfg \<and> ic_preserve_uid cfg
    then map (\<lambda>(u, g, k). (recv_id2 True env u (names_sent cfg U u), g, k)) fs else fs)"
  have "(\<lambda>(u, g, k) tab. id_known (names_sent cfg U) u (tab_list tab)) x users1" if "x \<in> set fs" for x
    using that u(3) assms(6) by auto
  from owners.map_there [OF u(2) this]
  have 1: "fst (map_st (match_owner (ic_am_root cfg) env) fs users1) = map (\<lambda>(u, g, k). (recv_id2 True env u (names_sent cfg U u), g, k)) fs"
    by blast
  have "(\<lambda>(u, g, k) tab. id_known (names_sent cfg G) g (tab_list tab)) x groups1" if "x \<in> set fs1" for x
    using that g(3) assms(6) by (auto simp: fs1_def split: if_splits)
  from groups.map_there [OF g(2) this]
  have 2: "fst (map_st (match_group (ic_am_root cfg) env) fs1 groups1) = map (\<lambda>(u, g, k).
      (u, fst (gid_result (ic_am_root cfg) env (names_sent cfg G) g), k \<or> snd (gid_result (ic_am_root cfg) env (names_sent cfg G) g))) fs1"
    by blast
  show ?thesis
    using u(1) g(1) 1 2 assms(1)
    by (cases "ic_preserve_uid cfg"; cases "ic_preserve_gid cfg"; cases "ic_am_root cfg")
      (auto simp: recv_id_list_def send_id_lists_def fs1_def case_prod_beta comp_def Let_def)
qed

definition sample_env :: id_env where
  "sample_env = \<lparr>uidmap = [\<lparr>il_u = MaxId 0, il_id = 7, il_id2 = 70, NFLAGS_WILD_NAME_MATCH = False, NFLAGS_NAME_MATCH = False, il_skip = False\<rparr>],
     gidmap = [], getpwnam = (\<lambda>n. if n = ''bob'' then Some 1001 else None), getgrnam = (\<lambda>n. if n = ''ops'' then Some 500 else None),
     getgroups = [500], our_gid = 500\<rparr>"

definition sample_id_cfg :: id_cfg where
  "sample_id_cfg = \<lparr>ic_pv = 31, ic_preserve_uid = True, ic_preserve_gid = True, ic_numeric_ids = 0, ic_am_root = True, ic_usermap = True,
     ic_groupmap = False, xmit_id0_names = False\<rparr>"

definition sample_user :: "uint32 \<Rightarrow> string option" where
  "sample_user u = (if u = 5 then Some ''bob'' else if u = 7 then Some ''eve'' else None)"

theorem id_lists_arrive_witness:
  "\<exists>users' groups'. recv_id_list sample_id_cfg sample_env [(5, 0, False), (7, 0, False), (0, 0, False)] \<lparr>tab_list = [], tab_last = None\<rparr>
       \<lparr>tab_list = [], tab_last = None\<rparr>
       (send_id_lists sample_id_cfg sample_user (\<lambda>_. None) [sent_node 5 (Some ''bob''), sent_node 7 (Some ''eve'')] [] @ [1]) =
     Inr ([(1001, 0, False), (70, 0, False), (0, 0, False)], users', groups', [1])"
proof -
  have "names_of sample_user [sent_node 5 (Some ''bob''), sent_node 7 (Some ''eve'')]" "name_sendable (sample_user 0)"
    by code_simp+
  moreover have "recv_id2 True sample_env 5 (names_sent sample_id_cfg sample_user 5) = 1001"
    "recv_id2 True sample_env 7 (names_sent sample_id_cfg sample_user 7) = 70"
    "recv_id2 True sample_env 0 (names_sent sample_id_cfg sample_user 0) = 0"
    "gid_result True sample_env (names_sent sample_id_cfg (\<lambda>_. None)) 0 = (0, False)"
    by code_simp+
  ultimately show ?thesis
    using id_lists_arrive [of sample_id_cfg sample_user "[sent_node 5 (Some ''bob''), sent_node 7 (Some ''eve'')]" "\<lambda>_. None" "[]"
      "[(5, 0, False), (7, 0, False), (0, 0, False)]" "\<lparr>tab_list = [], tab_last = None\<rparr>" "\<lparr>tab_list = [], tab_last = None\<rparr>" sample_env "[1]"]
    by (auto simp: sample_id_cfg_def names_of_def name_sendable_def sent_node_def)
qed

section \<open>Numbers\<close>

fun dec_value :: "nat \<Rightarrow> string \<Rightarrow> nat" where
  "dec_value n [] = n"
| "dec_value n (c # cs) = dec_value (10 * n + (of_char c - 48)) cs"

lemma dec_value_ge: "n \<le> dec_value n s"
  by (induction n s rule: dec_value.induct) auto

lemma id_parse_from_digit:
  assumes "c_isdigit c" and "m = 10 * n + (of_char c - 48)" and "m < 2 ^ 32"
  shows "id_parse_from (word_of_nat n) (c # cs) = id_parse_from (word_of_nat m) cs"
proof -
  have "(48 :: nat) \<le> of_char c" using assms(1) by (simp add: c_isdigit_def)
  then have e: "word_of_nat n * 10 + word_of_nat (of_char c) - 48 = (word_of_nat m :: uint32)"
    by (simp add: assms(2) of_nat_diff mult.commute)
  have "n \<le> m" using assms(2) by simp
  then have "\<not> (word_of_nat m :: uint32) < word_of_nat n"
    using assms(3) by (simp add: word_less_nat_alt small_unat)
  then show ?thesis using assms(1) by (simp only: id_parse_from.simps e Let_def simp_thms if_False)
qed

lemma id_parse_from_value:
  "list_all c_isdigit s \<Longrightarrow> dec_value n s < 2 ^ 32 \<Longrightarrow> id_parse_from (word_of_nat n) s = Inr (word_of_nat (dec_value n s))"
proof (induction n s rule: dec_value.induct)
  case (2 n c cs)
  then have "10 * n + (of_char c - 48) < 2 ^ 32" using dec_value_ge [of "10 * n + (of_char c - 48)" cs] by simp
  with 2 show ?case by (subst id_parse_from_digit [OF _ refl]) simp_all
qed simp

lemma id_parse_from_invalid: "\<not> list_all c_isdigit s \<Longrightarrow> id_parse_from n s = Inl RERR_SYNTAX"
  by (induction n s rule: id_parse_from.induct) (auto simp: Let_def)

text \<open>An id in --usermap or --groupmap is read as the decimal number it is, if that fits in 32 bits; a text that
  is not all digits ends the program with a syntax error.\<close>

lemma id_parse_value:
  "(list_all c_isdigit s \<longrightarrow> dec_value 0 s < 2 ^ 32 \<longrightarrow> id_parse s = Inr (word_of_nat (dec_value 0 s))) \<and>
   (\<not> list_all c_isdigit s \<longrightarrow> id_parse s = Inl RERR_SYNTAX)"
  using id_parse_from_value [of s 0] id_parse_from_invalid [of s 0] by (simp add: id_parse_def)

text \<open>The test for an overflow misses some: a number of ten digits is taken modulo 2^32 and accepted.\<close>

lemma id_parse_wraps: "dec_value 0 ''6000000000'' = 6000000000 \<and> id_parse ''6000000000'' = Inr 1705032704"
  by (simp add: id_parse_def c_isdigit_def)

section \<open>The rules of a map\<close>

fun join_commas :: "string list \<Rightarrow> string" where
  "join_commas [] = []"
| "join_commas [x] = x"
| "join_commas (x # xs) = x @ '','' @ join_commas xs"

lemma split_commas_ne [simp]: "split_commas s \<noteq> []"
  by (cases s) auto

lemma split_commas_append:
  "CHR '','' \<notin> set x \<Longrightarrow> split_commas (x @ CHR '','' # s) = x # split_commas s"
  by (induction x) auto

lemma split_commas_plain: "CHR '','' \<notin> set x \<Longrightarrow> split_commas x = [x]"
  by (induction x) auto

lemma split_commas_join:
  "xs \<noteq> [] \<Longrightarrow> (\<And>x. x \<in> set xs \<Longrightarrow> CHR '','' \<notin> set x) \<Longrightarrow> split_commas (join_commas xs) = xs"
  by (induction xs rule: join_commas.induct) (auto simp: split_commas_plain split_commas_append)

lemma parse_rules_append:
  "parse_rules w env (xs @ ys) m = res_bind (parse_rules w env xs m) (parse_rules w env ys)"
  by (induction w env xs m rule: parse_rules.induct) (auto simp: res_bind_def split: sum.split)

lemma parse_rules_rev:
  assumes "list_all2 (\<lambda>item node. parse_rule w env item = Inr node) items nodes"
  shows "parse_rules w env (rev items) m = Inr (List.map_filter id nodes @ m)"
  using assms
proof (induction items nodes arbitrary: m rule: list_all2_induct)
  case (Cons item items node nodes)
  then show ?case by (simp add: parse_rules_append map_filter_simps split: option.split)
qed (simp add: map_filter_simps)

lemma parse_rules_error:
  assumes "item \<in> set items" and "\<forall>node. parse_rule w env item \<noteq> Inr node"
  shows "\<exists>e. parse_rules w env items m = Inl e"
  using assms
proof (induction items arbitrary: m)
  case (Cons x xs)
  then show ?case by (cases "parse_rule w env x") auto
qed simp



end
