(* ===== verification/FlistEntry.thy ===== *)
theory FlistEntry
  imports Uidlist Chmod CleanName
begin

text \<open>
  One entry of a file list on the wire: send_file_entry and recv_file_entry of flist.c. Each side
  keeps the values of the previous entry in static variables and sends only what
  changed; the variables of the two sides are the records below. The build is that of
  Linux: no creation times, nanoseconds can be set, symlinks and special files can be
  hard-linked; iconv, ACLs and xattrs are not in use, and the statistics are left out.

  Names are strings, and bytes on the wire. The lists of ids of uidlist.c are part of the
  variables; \<open>uid_to_user\<close> and \<open>gid_to_group\<close> are the tables of the sending system,
  \<open>env\<close> those of the receiving one.
\<close>

section \<open>Modes, devices and flags\<close>

definition S_ISREG :: "int \<Rightarrow> bool" where "S_ISREG mode \<longleftrightarrow> mode AND 61440 = 32768"
definition S_ISLNK :: "int \<Rightarrow> bool" where "S_ISLNK mode \<longleftrightarrow> mode AND 61440 = 40960"
definition IS_DEVICE :: "int \<Rightarrow> bool" where "IS_DEVICE mode \<longleftrightarrow> mode AND 61440 = 8192 \<or> mode AND 61440 = 24576"
definition IS_SPECIAL :: "int \<Rightarrow> bool" where "IS_SPECIAL mode \<longleftrightarrow> mode AND 61440 = 49152 \<or> mode AND 61440 = 4096"

text \<open>makedev, major and minor of glibc.\<close>

definition makedev :: "uint32 \<Rightarrow> uint32 \<Rightarrow> 64 word" where
  "makedev maj mi = push_bit 8 (ucast (take_bit 12 maj)) OR push_bit 44 (ucast (drop_bit 12 maj))
     OR ucast (take_bit 8 mi) OR push_bit 20 (ucast (drop_bit 8 mi))"

definition major :: "64 word \<Rightarrow> uint32" where
  "major dev = ucast (take_bit 12 (drop_bit 8 dev)) OR push_bit 12 (ucast (take_bit 20 (drop_bit 44 dev)))"

definition minor :: "64 word \<Rightarrow> uint32" where
  "minor dev = ucast (take_bit 8 dev) OR push_bit 8 (ucast (take_bit 24 (drop_bit 20 dev)))"

definition XMIT_TOP_DIR :: int32 where "XMIT_TOP_DIR = 0x1"
definition XMIT_SAME_MODE :: int32 where "XMIT_SAME_MODE = 0x2"
definition XMIT_SAME_RDEV_pre28 :: int32 where "XMIT_SAME_RDEV_pre28 = 0x4"
definition XMIT_EXTENDED_FLAGS :: int32 where "XMIT_EXTENDED_FLAGS = 0x4"
definition XMIT_SAME_UID :: int32 where "XMIT_SAME_UID = 0x8"
definition XMIT_SAME_GID :: int32 where "XMIT_SAME_GID = 0x10"
definition XMIT_SAME_NAME :: int32 where "XMIT_SAME_NAME = 0x20"
definition XMIT_LONG_NAME :: int32 where "XMIT_LONG_NAME = 0x40"
definition XMIT_SAME_TIME :: int32 where "XMIT_SAME_TIME = 0x80"
definition XMIT_SAME_RDEV_MAJOR :: int32 where "XMIT_SAME_RDEV_MAJOR = 0x100"
definition XMIT_NO_CONTENT_DIR :: int32 where "XMIT_NO_CONTENT_DIR = 0x100"
definition XMIT_HLINKED :: int32 where "XMIT_HLINKED = 0x200"
definition XMIT_SAME_DEV_pre30 :: int32 where "XMIT_SAME_DEV_pre30 = 0x400"
definition XMIT_USER_NAME_FOLLOWS :: int32 where "XMIT_USER_NAME_FOLLOWS = 0x400"
definition XMIT_RDEV_MINOR_8_pre30 :: int32 where "XMIT_RDEV_MINOR_8_pre30 = 0x800"
definition XMIT_GROUP_NAME_FOLLOWS :: int32 where "XMIT_GROUP_NAME_FOLLOWS = 0x800"
definition XMIT_HLINK_FIRST :: int32 where "XMIT_HLINK_FIRST = 0x1000"
definition XMIT_IO_ERROR_ENDLIST :: int32 where "XMIT_IO_ERROR_ENDLIST = 0x1000"
definition XMIT_MOD_NSEC :: int32 where "XMIT_MOD_NSEC = 0x2000"
definition XMIT_SAME_ATIME :: int32 where "XMIT_SAME_ATIME = 0x4000"

text \<open>\<open>xflags & flag\<close>, and \<open>if (c) xflags |= flag\<close>.\<close>

definition has :: "int32 \<Rightarrow> int32 \<Rightarrow> bool" where
  "has xflags flag \<longleftrightarrow> xflags AND flag \<noteq> 0"

definition flag_if :: "bool \<Rightarrow> int32 \<Rightarrow> int32" where
  "flag_if c flag = (if c then flag else 0)"

section \<open>Files, options and the static variables\<close>

record file_struct =
  fs_dirname :: "string option"
  fs_basename :: string
  fs_modtime :: int64
  fs_nsec :: uint32              \<comment> \<open>F_MOD_NSEC_or_0\<close>
  fs_length :: int64
  fs_mode :: int
  fs_uid :: uint32
  fs_gid :: uint32
  fs_atime :: int64
  fs_rdev :: "64 word"
  fs_symlink :: string
  fs_sum :: "byte list"
  fs_hl_gnum :: int
  fs_depth :: int
  FLAG_TOP_DIR :: bool
  FLAG_CONTENT_DIR :: bool
  FLAG_IMPLIED_DIR :: bool
  FLAG_HLINKED :: bool
  FLAG_SKIP_GROUP :: bool
  FLAG_DUPLICATE :: bool

record flist_cfg =
  fc_protocol_version :: nat
  preserve_uid :: bool
  preserve_gid :: bool
  preserve_devices :: bool
  preserve_specials :: bool
  preserve_links :: bool
  preserve_hard_links :: bool
  always_checksum :: bool
  numeric_ids :: int
  inc_recurse :: bool
  atimes :: bool
  xfer_flags_as_varint :: bool
  flist_csum_len :: nat
  fc_relative_paths :: bool
  fc_sanitize_paths :: bool
  munge_symlinks :: bool
  fc_recurse :: bool
  am_root :: bool
  usermap :: bool
  groupmap :: bool
  chmod_modes :: "chmod_mode_struct list"

text \<open>The static variables both functions have; each has its own copy.\<close>

record flist_vars =
  v_modtime :: int64
  v_atime :: int64
  v_mode :: int
  v_dev :: int64
  v_rdev :: "64 word"
  v_rdev_major :: uint32
  v_uid :: uint32
  v_gid :: uint32
  v_lastname :: string

text \<open>The sender's hard-link table (idev_find, hlink.c) maps a device and an inode to the first index.\<close>

record send_vars = flist_vars +
  sv_user_name :: "string option"
  sv_group_name :: "string option"
  sv_uidlist :: "idlist list"
  sv_gidlist :: "idlist list"
  sv_idev :: "int64 \<times> int64 \<Rightarrow> int option"

record recv_vars = flist_vars +
  rv_users :: id_tab
  rv_groups :: id_tab
  rv_gid_flags :: bool           \<comment> \<open>FLAG_SKIP_GROUP in gid_flags\<close>
  rv_lastdir :: "string option"  \<comment> \<open>\<open>None\<close>: lastdir_len is -1\<close>
  rv_lastdir_depth :: int
  rv_del_hier_name_len :: nat
  rv_in_del_hier :: bool
  rv_idev :: "int64 \<times> int64 \<Rightarrow> int option"
  rv_cnt :: int

text \<open>What the caller of send_file_entry sets up for a file (tmp_rdev, tmp_dev and tmp_ino, tmp_sum).\<close>

record send_args =
  sa_fname :: string
  sa_symlink :: string
  sa_rdev :: "64 word"
  sa_dev_ino :: "(int64 \<times> int64) option"
  sa_sum :: "byte list"

section \<open>Bytes and strings\<close>

fun count_dir_elements_from :: "bool \<Rightarrow> string \<Rightarrow> int" where
  "count_dir_elements_from new_component [] = 0"
| "count_dir_elements_from new_component (c # p) =
     (if c = CHR ''/'' then
        count_dir_elements_from (at p 0 \<noteq> CHR ''.'' \<or> at p 1 \<noteq> CHR ''/'' \<and> at p 1 \<noteq> NUL) p
      else if new_component then 1 + count_dir_elements_from False p
      else count_dir_elements_from new_component p)"

definition count_dir_elements :: "string \<Rightarrow> int" where
  "count_dir_elements p = count_dir_elements_from True p"

section \<open>send_file_entry\<close>

definition start_xflags :: "nat \<Rightarrow> file_struct \<Rightarrow> int32" where
  "start_xflags pv file =
     (if S_ISREG (fs_mode file) then 0
      else if S_ISDIR (fs_mode file) then
        if pv \<ge> 30 then
          if FLAG_CONTENT_DIR file then flag_if (FLAG_TOP_DIR file) XMIT_TOP_DIR
          else if FLAG_IMPLIED_DIR file then XMIT_TOP_DIR OR XMIT_NO_CONTENT_DIR
          else XMIT_NO_CONTENT_DIR
        else flag_if (FLAG_TOP_DIR file) XMIT_TOP_DIR
      else 0)"

definition send_rdev_flags :: "flist_cfg \<Rightarrow> 64 word \<Rightarrow> send_vars \<Rightarrow> int32 \<times> send_vars" where
  "send_rdev_flags cfg rdev st =
     (let pv = fc_protocol_version cfg; mode = v_mode st in
      if preserve_devices cfg \<and> IS_DEVICE mode then
        if pv < 28 then
          if rdev = v_rdev st then (XMIT_SAME_RDEV_pre28, st) else (0, st\<lparr>v_rdev := rdev\<rparr>)
        else
          (flag_if (major rdev = v_rdev_major st) XMIT_SAME_RDEV_MAJOR
             OR flag_if (pv < 30 \<and> minor rdev \<le> 0xFF) XMIT_RDEV_MINOR_8_pre30,
           st\<lparr>v_rdev := rdev, v_rdev_major := major rdev\<rparr>)
      else if preserve_specials cfg \<and> IS_SPECIAL mode \<and> pv < 31 then
        if pv < 28 then (XMIT_SAME_RDEV_pre28, st)
        else (XMIT_SAME_RDEV_MAJOR OR flag_if (pv < 30) XMIT_RDEV_MINOR_8_pre30, st\<lparr>v_rdev := makedev (v_rdev_major st) 0\<rparr>)
      else (0, if pv < 28 then st\<lparr>v_rdev := makedev 0 0\<rparr> else st))"

definition send_owner_flags :: "flist_cfg \<Rightarrow> (uint32 \<Rightarrow> string option) \<Rightarrow> (uint32 \<Rightarrow> string option) \<Rightarrow> file_struct \<Rightarrow>
    send_vars \<Rightarrow> int32 \<times> send_vars" where
  "send_owner_flags cfg uid_to_user gid_to_group file st =
     (let (xu, st) =
            (if \<not> preserve_uid cfg \<or> fs_uid file = v_uid st \<and> v_lastname st \<noteq> [] then (XMIT_SAME_UID, st)
             else
               let st = st\<lparr>v_uid := fs_uid file\<rparr> in
               if numeric_ids cfg = 0 then
                 let (user_name, lst) = add_uid uid_to_user (fs_uid file) (sv_uidlist st)
                 in (flag_if (inc_recurse cfg \<and> user_name \<noteq> None) XMIT_USER_NAME_FOLLOWS,
                     st\<lparr>sv_user_name := user_name, sv_uidlist := lst\<rparr>)
               else (0, st));
          (xg, st) =
            (if \<not> preserve_gid cfg \<or> fs_gid file = v_gid st \<and> v_lastname st \<noteq> [] then (XMIT_SAME_GID, st)
             else
               let st = st\<lparr>v_gid := fs_gid file\<rparr> in
               if numeric_ids cfg = 0 then
                 let (group_name, lst) = add_gid gid_to_group (fs_gid file) (sv_gidlist st)
                 in (flag_if (inc_recurse cfg \<and> group_name \<noteq> None) XMIT_GROUP_NAME_FOLLOWS,
                     st\<lparr>sv_group_name := group_name, sv_gidlist := lst\<rparr>)
               else (0, st))
      in (xu OR xg, st))"

definition send_time_flags :: "flist_cfg \<Rightarrow> file_struct \<Rightarrow> send_vars \<Rightarrow> int32 \<times> send_vars" where
  "send_time_flags cfg file st =
     (let at' = (atimes cfg \<and> \<not> S_ISDIR (v_mode st))
      in (flag_if (fs_modtime file = v_modtime st) XMIT_SAME_TIME
            OR flag_if (fs_nsec file \<noteq> 0 \<and> fc_protocol_version cfg \<ge> 31) XMIT_MOD_NSEC
            OR flag_if (at' \<and> fs_atime file = v_atime st) XMIT_SAME_ATIME,
          st\<lparr>v_modtime := fs_modtime file, v_atime := (if at' then fs_atime file else v_atime st)\<rparr>))"

text \<open>The result has first_hlink_ndx, -1 when there is none.\<close>

definition send_hlink_flags :: "flist_cfg \<Rightarrow> (int64 \<times> int64) option \<Rightarrow> int \<Rightarrow> send_vars \<Rightarrow> int32 \<times> int \<times> send_vars" where
  "send_hlink_flags cfg dev_ino this_ndx st =
     (case dev_ino of
        None \<Rightarrow> (0, -1, st)
      | Some (dev, ino) \<Rightarrow>
          if fc_protocol_version cfg \<ge> 30 then
            let first_hlink_ndx = (case sv_idev st (dev, ino) of None \<Rightarrow> -1 | Some n \<Rightarrow> n) in
            if first_hlink_ndx < 0
            then (XMIT_HLINK_FIRST OR XMIT_HLINKED, first_hlink_ndx, st\<lparr>sv_idev := (sv_idev st)((dev, ino) \<mapsto> this_ndx)\<rparr>)
            else (XMIT_HLINKED, first_hlink_ndx, st)
          else
            (flag_if (dev = v_dev st \<and> fc_protocol_version cfg \<ge> 28) XMIT_SAME_DEV_pre30 OR XMIT_HLINKED, -1,
             st\<lparr>v_dev := dev\<rparr>))"

fun common_len :: "nat \<Rightarrow> string \<Rightarrow> string \<Rightarrow> nat" where
  "common_len lim (c # lastname) (d # fname) = (if c = d \<and> lim > 0 then Suc (common_len (lim - 1) lastname fname) else 0)"
| "common_len lim lastname fname = 0"

text \<open>The bytes of the flags, which may be changed so that they are not zero.\<close>

definition send_flags :: "flist_cfg \<Rightarrow> int \<Rightarrow> int32 \<Rightarrow> byte list \<times> int32" where
  "send_flags cfg mode xflags =
     (if xfer_flags_as_varint cfg then (write_varint (if xflags \<noteq> 0 then xflags else XMIT_EXTENDED_FLAGS), xflags)
      else if fc_protocol_version cfg \<ge> 28 then
        let xflags = (if xflags = 0 \<and> \<not> S_ISDIR mode then XMIT_TOP_DIR else xflags) in
        if xflags AND 0xFF00 \<noteq> 0 \<or> xflags = 0 then
          let xflags = xflags OR XMIT_EXTENDED_FLAGS in (write_shortint (ucast xflags), xflags)
        else ([ucast xflags], xflags)
      else
        let xflags = (if xflags AND 0xFF = 0 then xflags OR (if S_ISDIR mode then XMIT_LONG_NAME else XMIT_TOP_DIR) else xflags)
        in ([ucast xflags], xflags))"

definition send_name :: "nat \<Rightarrow> int32 \<Rightarrow> nat \<Rightarrow> string \<Rightarrow> byte list" where
  "send_name pv xflags l1 fname =
     (let l2 = length (drop l1 fname) in
      (if has xflags XMIT_SAME_NAME then [word_of_nat l1] else [])
      @ (if has xflags XMIT_LONG_NAME then write_varint30 pv (word_of_nat l2) else [word_of_nat l2])
      @ to_bytes (drop l1 fname))"

definition send_owner :: "nat \<Rightarrow> int32 \<Rightarrow> int32 \<Rightarrow> uint32 \<Rightarrow> string option \<Rightarrow> byte list" where
  "send_owner pv xflags name_flag ident name =
     (if pv < 30 then write_int ident
      else write_varint ident @
        (if has xflags name_flag then
           (case name of None \<Rightarrow> [] | Some n \<Rightarrow> [word_of_nat (length n)] @ to_bytes n) else []))"

definition send_rdev :: "nat \<Rightarrow> int32 \<Rightarrow> 64 word \<Rightarrow> byte list" where
  "send_rdev pv xflags rdev =
     (if pv < 28 then if has xflags XMIT_SAME_RDEV_pre28 then [] else write_int (ucast rdev)
      else
        (if has xflags XMIT_SAME_RDEV_MAJOR then [] else write_varint30 pv (major rdev))
        @ (if pv \<ge> 30 then write_varint (minor rdev)
           else if has xflags XMIT_RDEV_MINOR_8_pre30 then [ucast (minor rdev)]
           else write_int (minor rdev)))"

definition send_dev_ino :: "nat \<Rightarrow> int32 \<Rightarrow> int64 \<Rightarrow> int64 \<Rightarrow> byte list" where
  "send_dev_ino pv xflags dev ino =
     (if pv < 26 then write_int (ucast (dev + 1)) @ write_int (ucast ino)
      else (if has xflags XMIT_SAME_DEV_pre30 then [] else write_longint (dev + 1)) @ write_longint ino)"

definition has_rdev :: "flist_cfg \<Rightarrow> int \<Rightarrow> bool" where
  "has_rdev cfg mode \<longleftrightarrow> preserve_devices cfg \<and> IS_DEVICE mode
     \<or> preserve_specials cfg \<and> IS_SPECIAL mode \<and> fc_protocol_version cfg < 31"

definition send_attrs :: "flist_cfg \<Rightarrow> send_args \<Rightarrow> file_struct \<Rightarrow> int32 \<Rightarrow> send_vars \<Rightarrow> byte list" where
  "send_attrs cfg a file xflags st =
     (let pv = fc_protocol_version cfg; mode = v_mode st in
      write_varlong30 pv (fs_length file) 3
      @ (if has xflags XMIT_SAME_TIME then []
         else if pv \<ge> 30 then write_varlong (v_modtime st) 4 else write_int (ucast (v_modtime st)))
      @ (if has xflags XMIT_MOD_NSEC then write_varint (fs_nsec file) else [])
      @ (if has xflags XMIT_SAME_MODE then [] else write_int (word_of_int mode))
      @ (if atimes cfg \<and> \<not> S_ISDIR mode \<and> \<not> has xflags XMIT_SAME_ATIME then write_varlong (v_atime st) 4 else [])
      @ (if preserve_uid cfg \<and> \<not> has xflags XMIT_SAME_UID
         then send_owner pv xflags XMIT_USER_NAME_FOLLOWS (v_uid st) (sv_user_name st) else [])
      @ (if preserve_gid cfg \<and> \<not> has xflags XMIT_SAME_GID
         then send_owner pv xflags XMIT_GROUP_NAME_FOLLOWS (v_gid st) (sv_group_name st) else [])
      @ (if has_rdev cfg mode then send_rdev pv xflags (v_rdev st) else [])
      @ (if sa_symlink a \<noteq> [] then write_varint30 pv (word_of_nat (length (sa_symlink a))) @ to_bytes (sa_symlink a) else [])
      @ (case sa_dev_ino a of
           Some (_, ino) \<Rightarrow> if pv < 30 then send_dev_ino pv xflags (v_dev st) ino else []
         | None \<Rightarrow> [])
      @ (if always_checksum cfg \<and> (S_ISREG mode \<or> pv < 28)
         then if S_ISREG mode then take (flist_csum_len cfg) (sa_sum a) else replicate (flist_csum_len cfg) 0 else []))"

text \<open>The flags of an entry, first_hlink_ndx and \<open>l1\<close>; the static variables are brought up to date.\<close>

definition entry_flags :: "flist_cfg \<Rightarrow> (uint32 \<Rightarrow> string option) \<Rightarrow> (uint32 \<Rightarrow> string option) \<Rightarrow>
    send_args \<Rightarrow> file_struct \<Rightarrow> int \<Rightarrow> send_vars \<Rightarrow> int32 \<times> int \<times> nat \<times> send_vars" where
  "entry_flags cfg uid_to_user gid_to_group a file this_ndx st =
     (let xf0 = start_xflags (fc_protocol_version cfg) file OR flag_if (fs_mode file = v_mode st) XMIT_SAME_MODE;
          st = st\<lparr>v_mode := fs_mode file\<rparr>;
          (xf1, st) = send_rdev_flags cfg (sa_rdev a) st;
          (xf2, st) = send_owner_flags cfg uid_to_user gid_to_group file st;
          (xf3, st) = send_time_flags cfg file st;
          (xf4, first_hlink_ndx, st) = send_hlink_flags cfg (sa_dev_ino a) this_ndx st;
          l1 = common_len 255 (v_lastname st) (sa_fname a)
      in (xf0 OR xf1 OR xf2 OR xf3 OR xf4 OR flag_if (l1 > 0) XMIT_SAME_NAME
            OR flag_if (length (drop l1 (sa_fname a)) > 255) XMIT_LONG_NAME,
          first_hlink_ndx, l1, st))"

definition send_file_entry :: "flist_cfg \<Rightarrow> (uint32 \<Rightarrow> string option) \<Rightarrow> (uint32 \<Rightarrow> string option) \<Rightarrow>
    send_args \<Rightarrow> file_struct \<Rightarrow> int \<Rightarrow> int \<Rightarrow> send_vars \<Rightarrow> byte list \<times> send_vars" where
  "send_file_entry cfg uid_to_user gid_to_group a file ndx first_ndx st =
     (let (xflags, first_hlink_ndx, l1, st) = entry_flags cfg uid_to_user gid_to_group a file (first_ndx + ndx) st;
          (flag_bytes, xflags) = send_flags cfg (v_mode st) xflags;
          out = flag_bytes @ send_name (fc_protocol_version cfg) xflags l1 (sa_fname a)
                @ (if first_hlink_ndx \<ge> 0 then write_varint (word_of_int first_hlink_ndx) else [])
                @ (if first_hlink_ndx \<ge> 0 \<and> first_hlink_ndx \<ge> first_ndx then []
                   else send_attrs cfg a file xflags st)
      in (out, st\<lparr>v_lastname := take (MAXPATHLEN - 1) (sa_fname a)\<rparr>))"

section \<open>recv_file_entry\<close>

text \<open>
  The flags in front of an entry, as recv_file_list reads them; \<open>None\<close> is the end of the list,
  and with it may come the sender's io_error.
\<close>

definition recv_flags :: "flist_cfg \<Rightarrow> bool \<Rightarrow> byte list \<Rightarrow> (int32 option \<times> int32 \<times> byte list) result" where
  "recv_flags cfg use_safe_inc_flist s =
     (if xfer_flags_as_varint cfg then
        res_bind (read_varint s) (\<lambda>(flags, s).
          if flags = 0 then res_bind (read_varint s) (\<lambda>(err, s). Inr (None, err, s)) else Inr (Some flags, 0, s))
      else
        res_bind (read_byte s) (\<lambda>(b, s).
          if b = 0 then Inr (None, 0, s)
          else
            res_bind (if fc_protocol_version cfg \<ge> 28 \<and> has (ucast b) XMIT_EXTENDED_FLAGS
                      then res_bind (read_byte s) (\<lambda>(b2, s). Inr (ucast b OR push_bit 8 (ucast b2), s))
                      else Inr (ucast b, s)) (\<lambda>(flags, s).
              if flags = XMIT_EXTENDED_FLAGS OR XMIT_IO_ERROR_ENDLIST then
                if \<not> use_safe_inc_flist then Inl RERR_PROTOCOL
                else res_bind (read_varint s) (\<lambda>(err, s). Inr (None, err, s))
              else Inr (Some flags, 0, s))))"

definition refuse_flags :: cfn_flags where
  "refuse_flags = \<lparr>CFN_KEEP_DOT_DIRS = False, CFN_KEEP_TRAILING_SLASH = False, CFN_DROP_TRAILING_DOT_DIR = False,
     CFN_COLLAPSE_DOT_DOT_DIRS = False, CFN_REFUSE_DOT_DOT_DIRS = True\<rparr>"

text \<open>
  The name. thisname starts as the first \<open>l1\<close> characters of lastname; were lastname shorter
  than that, its NUL would end thisname. The result is thisname as it is cleaned and
  sanitized, and \<open>l1\<close> and \<open>l2\<close>.
\<close>

definition recv_name :: "flist_cfg \<Rightarrow> int32 \<Rightarrow> recv_vars \<Rightarrow> byte list \<Rightarrow>
    (string \<times> nat \<times> nat \<times> recv_vars \<times> byte list) result" where
  "recv_name cfg xflags st s =
     res_bind (if has xflags XMIT_SAME_NAME then res_bind (read_byte s) (\<lambda>(b, s). Inr (unat b, s)) else Inr (0, s)) (\<lambda>(l1, s).
     res_bind (if has xflags XMIT_LONG_NAME
               then res_bind (read_varint30 (fc_protocol_version cfg) s) (\<lambda>(w, s). Inr (unat w, s))
               else res_bind (read_byte s) (\<lambda>(b, s). Inr (unat b, s))) (\<lambda>(l2, s).
     if l2 \<ge> MAXPATHLEN - l1 then Inl RERR_MALLOC
     else res_bind (read_sbuf l2 s) (\<lambda>(tail, s).
       let lastname = v_lastname st;
           thisname = (if l1 \<le> length lastname then take l1 lastname @ tail else lastname);
           st = st\<lparr>v_lastname := thisname\<rparr> in
       res_bind (if thisname = [] then Inr thisname
                 else case clean_fname refuse_flags thisname of
                     None \<Rightarrow> Inl RERR_PROTOCOL
                   | Some n \<Rightarrow> if \<not> fc_relative_paths cfg \<and> at n 0 = CHR ''/'' then Inl RERR_PROTOCOL else Inr n) (\<lambda>thisname.
       let thisname = (if fc_sanitize_paths cfg
                       then case sanitize_path (fc_relative_paths cfg) False [] True thisname (Some []) 0 of
                              None \<Rightarrow> thisname | Some (root, out) \<Rightarrow> root @ out
                       else thisname)
       in Inr (thisname, l1, l2, st, s)))))"

text \<open>strrchr(thisname, '/'): the part before the last slash, if there is one, and the part after it.\<close>

definition split_name :: "string \<Rightarrow> string option \<times> string" where
  "split_name p =
     (if CHR ''/'' \<in> set p
      then (Some (take (length p - length (takeWhile (\<lambda>c. c \<noteq> CHR ''/'') (rev p)) - 1) p),
            rev (takeWhile (\<lambda>c. c \<noteq> CHR ''/'') (rev p)))
      else (None, p))"

text \<open>lastdir is replaced only when the directory changes; without a directory it is left as it was.\<close>

definition recv_lastdir :: "string \<Rightarrow> recv_vars \<Rightarrow> recv_vars" where
  "recv_lastdir thisname st =
     (case fst (split_name thisname) of
        Some d \<Rightarrow> if rv_lastdir st \<noteq> Some d then st\<lparr>rv_lastdir := Some d, rv_lastdir_depth := count_dir_elements d\<rparr> else st
      | None \<Rightarrow> st)"

definition recv_uid :: "flist_cfg \<Rightarrow> id_env \<Rightarrow> int32 \<Rightarrow> recv_vars \<Rightarrow> byte list \<Rightarrow> (recv_vars \<times> byte list) result" where
  "recv_uid cfg env xflags st s =
     (if preserve_uid cfg \<and> \<not> has xflags XMIT_SAME_UID then
        if fc_protocol_version cfg < 30 then res_bind (read_int s) (\<lambda>(u, s). Inr (st\<lparr>v_uid := u\<rparr>, s))
        else res_bind (read_varint s) (\<lambda>(u, s).
          if has xflags XMIT_USER_NAME_FOLLOWS
          then res_bind (recv_user_name (am_root cfg) (numeric_ids cfg) env u (rv_users st) s) (\<lambda>(u, tab, s).
                 Inr (st\<lparr>v_uid := u, rv_users := tab\<rparr>, s))
          else if inc_recurse cfg \<and> am_root cfg \<and> (numeric_ids cfg = 0 \<or> usermap cfg)
          then (case match_uid (am_root cfg) env u (rv_users st) of (u, tab) \<Rightarrow> Inr (st\<lparr>v_uid := u, rv_users := tab\<rparr>, s))
          else Inr (st\<lparr>v_uid := u\<rparr>, s))
      else Inr (st, s))"

definition recv_gid :: "flist_cfg \<Rightarrow> id_env \<Rightarrow> int32 \<Rightarrow> recv_vars \<Rightarrow> byte list \<Rightarrow> (recv_vars \<times> byte list) result" where
  "recv_gid cfg env xflags st s =
     (if preserve_gid cfg \<and> \<not> has xflags XMIT_SAME_GID then
        if fc_protocol_version cfg < 30 then res_bind (read_int s) (\<lambda>(g, s). Inr (st\<lparr>v_gid := g\<rparr>, s))
        else res_bind (read_varint s) (\<lambda>(g, s).
          if has xflags XMIT_GROUP_NAME_FOLLOWS
          then res_bind (recv_group_name (am_root cfg) (numeric_ids cfg) env g (rv_groups st) s) (\<lambda>((g, fl), tab, s).
                 Inr (st\<lparr>v_gid := g, rv_gid_flags := fl, rv_groups := tab\<rparr>, s))
          else if inc_recurse cfg \<and> (\<not> am_root cfg \<or> numeric_ids cfg = 0 \<or> groupmap cfg)
          then (case match_gid (am_root cfg) env g (rv_groups st) of ((g, fl), tab) \<Rightarrow>
                 Inr (st\<lparr>v_gid := g, rv_gid_flags := fl, rv_groups := tab\<rparr>, s))
          else Inr (st\<lparr>v_gid := g, rv_gid_flags := False\<rparr>, s))
      else Inr (st, s))"

definition recv_rdev :: "nat \<Rightarrow> int32 \<Rightarrow> recv_vars \<Rightarrow> byte list \<Rightarrow> (recv_vars \<times> byte list) result" where
  "recv_rdev pv xflags st s =
     (if pv < 28 then
        if has xflags XMIT_SAME_RDEV_pre28 then Inr (st, s)
        else res_bind (read_int s) (\<lambda>(r, s). Inr (st\<lparr>v_rdev := scast r\<rparr>, s))
      else
        res_bind (if has xflags XMIT_SAME_RDEV_MAJOR then Inr (v_rdev_major st, s) else read_varint30 pv s) (\<lambda>(maj, s).
        res_bind (if pv \<ge> 30 then read_varint s
                  else if has xflags XMIT_RDEV_MINOR_8_pre30 then res_bind (read_byte s) (\<lambda>(b, s). Inr (ucast b, s))
                  else read_int s) (\<lambda>(mi, s).
          Inr (st\<lparr>v_rdev_major := maj, v_rdev := makedev maj mi\<rparr>, s))))"

text \<open>The attributes up to the label create_object: the length, the nanoseconds, linkname_len.\<close>

definition recv_attrs :: "flist_cfg \<Rightarrow> id_env \<Rightarrow> int32 \<Rightarrow> recv_vars \<Rightarrow> byte list \<Rightarrow>
    (int64 \<times> uint32 \<times> int \<times> recv_vars \<times> byte list) result" where
  "recv_attrs cfg env xflags st s =
     (let pv = fc_protocol_version cfg in
      res_bind (read_varlong30 pv 3 s) (\<lambda>(file_length, s).
      res_bind (if has xflags XMIT_SAME_TIME then Inr (v_modtime st, s)
                else if pv \<ge> 30 then read_varlong 4 s
                else res_bind (read_int s) (\<lambda>(t, s). Inr (scast t, s))) (\<lambda>(modtime, s).
      res_bind (if has xflags XMIT_MOD_NSEC then read_varint s else Inr (0, s)) (\<lambda>(nsec, s).
      res_bind (if has xflags XMIT_SAME_MODE then Inr (v_mode st, s)
                else res_bind (read_int s) (\<lambda>(m, s). Inr (uint m, s))) (\<lambda>(mode, s).
      res_bind (if atimes cfg \<and> \<not> S_ISDIR mode \<and> \<not> has xflags XMIT_SAME_ATIME then read_varlong 4 s
                else Inr (v_atime st, s)) (\<lambda>(atime, s).
      let mode = (if chmod_modes cfg \<noteq> [] \<and> \<not> S_ISLNK mode \<and> mode \<noteq> 0 then tweak_mode mode (chmod_modes cfg) else mode);
          st = st\<lparr>v_modtime := modtime, v_mode := mode, v_atime := atime\<rparr> in
      res_bind (recv_uid cfg env xflags st s) (\<lambda>(st, s).
      res_bind (recv_gid cfg env xflags st s) (\<lambda>(st, s).
      res_bind (if has_rdev cfg mode then recv_rdev pv xflags st s
                else Inr (if pv < 28 then st\<lparr>v_rdev := makedev 0 0\<rparr> else st, s)) (\<lambda>(st, s).
      let file_length = (if has_rdev cfg mode then 0 else file_length) in
      if preserve_links cfg \<and> S_ISLNK mode then
        res_bind (read_varint30 pv s) (\<lambda>(n, s).
          let linkname_len = sint (n + 1) in
          if linkname_len \<le> 0 \<or> linkname_len > int MAXPATHLEN then Inl RERR_MALLOC
          else Inr (file_length, nsec, linkname_len, st, s))
      else Inr (file_length, nsec, 0, st, s))))))))))"

text \<open>A hard link to a file of this list takes the attributes of that file.\<close>

definition recv_abbrev :: "flist_cfg \<Rightarrow> file_struct \<Rightarrow> recv_vars \<Rightarrow> int64 \<times> uint32 \<times> int \<times> recv_vars" where
  "recv_abbrev cfg first st =
     (let mode = fs_mode first;
          st = st\<lparr>v_modtime := fs_modtime first, v_mode := mode,
                  v_atime := (if atimes cfg \<and> \<not> S_ISDIR mode then fs_atime first else v_atime st),
                  v_uid := (if preserve_uid cfg then fs_uid first else v_uid st),
                  v_gid := (if preserve_gid cfg then fs_gid first else v_gid st)\<rparr>;
          st = (if preserve_devices cfg \<and> IS_DEVICE mode
                then st\<lparr>v_rdev_major := major (fs_rdev first), v_rdev := makedev (major (fs_rdev first)) (minor (fs_rdev first))\<rparr>
                else st)
      in (fs_length first, fs_nsec first,
          if preserve_links cfg \<and> S_ISLNK mode then int (length (fs_symlink first)) + 1 else 0, st))"

text \<open>The flags of a directory; before protocol 30 the receiver works them out itself.\<close>

definition recv_dir_flags :: "flist_cfg \<Rightarrow> int32 \<Rightarrow> nat \<Rightarrow> nat \<Rightarrow> file_struct \<Rightarrow> recv_vars \<Rightarrow> file_struct \<times> recv_vars" where
  "recv_dir_flags cfg xflags l1 l2 file st =
     (let file = (if fs_basename file = ''.'' then file\<lparr>fs_depth := fs_depth file - 1\<rparr> else file) in
      if fc_protocol_version cfg \<ge> 30 then
        if \<not> has xflags XMIT_NO_CONTENT_DIR
        then (file\<lparr>FLAG_TOP_DIR := has xflags XMIT_TOP_DIR, FLAG_CONTENT_DIR := True\<rparr>, st)
        else (file\<lparr>FLAG_IMPLIED_DIR := has xflags XMIT_TOP_DIR\<rparr>, st)
      else if has xflags XMIT_TOP_DIR then
        let n = (if fs_depth file = 0 then 0 else l1 + l2);
            n = (if fc_relative_paths cfg \<and> n > 2 \<and> at (v_lastname st) (n - 1) = CHR ''.'' \<and> at (v_lastname st) (n - 2) = CHR ''/''
                 then n - 2 else n)
        in (file\<lparr>FLAG_TOP_DIR := True, FLAG_CONTENT_DIR := True\<rparr>, st\<lparr>rv_in_del_hier := fc_recurse cfg, rv_del_hier_name_len := n\<rparr>)
      else if rv_in_del_hier st then
        if \<not> fc_relative_paths cfg \<or> rv_del_hier_name_len st = 0
           \<or> l1 \<ge> rv_del_hier_name_len st \<and> at (v_lastname st) (rv_del_hier_name_len st) = CHR ''/''
        then (file\<lparr>FLAG_CONTENT_DIR := True\<rparr>, st)
        else (file, st\<lparr>rv_in_del_hier := False\<rparr>)
      else (file, st))"

definition SYMLINK_PREFIX :: string where "SYMLINK_PREFIX = ''/rsyncd-munged/''"

definition recv_symlink :: "flist_cfg \<Rightarrow> file_struct option \<Rightarrow> int \<Rightarrow> recv_vars \<Rightarrow> byte list \<Rightarrow> (string \<times> byte list) result" where
  "recv_symlink cfg first linkname_len st s =
     (if linkname_len = 0 then Inr ([], s)
      else case first of
          Some f \<Rightarrow> Inr (fs_symlink f, s)
        | None \<Rightarrow>
            res_bind (read_sbuf (nat (linkname_len - 1)) s) (\<lambda>(l, s).
              Inr ((if munge_symlinks cfg then SYMLINK_PREFIX else [])
                   @ (if fc_sanitize_paths cfg \<and> \<not> munge_symlinks cfg \<and> l \<noteq> []
                      then case sanitize_path (fc_relative_paths cfg) False [] True l (Some []) (rv_lastdir_depth st) of
                             None \<Rightarrow> l | Some (root, out) \<Rightarrow> root @ out
                      else l), s)))"

text \<open>F_HL_GNUM, the group of hard links a file belongs to.\<close>

definition recv_hlink :: "flist_cfg \<Rightarrow> int32 \<Rightarrow> int \<Rightarrow> int \<Rightarrow> recv_vars \<Rightarrow> byte list \<Rightarrow> (int \<times> recv_vars \<times> byte list) result" where
  "recv_hlink cfg xflags this_ndx first_hlink_ndx st s =
     (let pv = fc_protocol_version cfg in
      if preserve_hard_links cfg \<and> has xflags XMIT_HLINKED then
        if pv \<ge> 30 then Inr (if has xflags XMIT_HLINK_FIRST then this_ndx else first_hlink_ndx, st, s)
        else
          res_bind (if pv < 26 then res_bind (read_int s) (\<lambda>(d, s). res_bind (read_int s) (\<lambda>(i, s). Inr (scast d, scast i, s)))
                    else res_bind (if has xflags XMIT_SAME_DEV_pre30 then Inr (v_dev st, s) else read_longint s) (\<lambda>(d, s).
                         res_bind (read_longint s) (\<lambda>(i, s). Inr (d, i, s)))) (\<lambda>(dev, ino, s).
            let st = st\<lparr>v_dev := dev\<rparr> in
            case rv_idev st (dev, ino) of
              Some n \<Rightarrow> Inr (n, st, s)
            | None \<Rightarrow> Inr (rv_cnt st, st\<lparr>rv_idev := (rv_idev st)((dev, ino) \<mapsto> rv_cnt st), rv_cnt := rv_cnt st + 1\<rparr>, s))
      else Inr (0, st, s))"

definition recv_sum :: "flist_cfg \<Rightarrow> int \<Rightarrow> file_struct option \<Rightarrow> byte list \<Rightarrow> (byte list \<times> byte list) result" where
  "recv_sum cfg mode first s =
     (if always_checksum cfg \<and> (S_ISREG mode \<or> fc_protocol_version cfg < 28) then
        res_bind (case first of
                    Some f \<Rightarrow> Inr (take (flist_csum_len cfg) (fs_sum f), s)
                  | None \<Rightarrow> read_buf (flist_csum_len cfg) s) (\<lambda>(sm, s).
          Inr (if S_ISREG mode then sm else [], s))
      else Inr ([], s))"

text \<open>From the label create_object on.\<close>

definition recv_create :: "flist_cfg \<Rightarrow> int32 \<Rightarrow> string \<Rightarrow> nat \<Rightarrow> nat \<Rightarrow> int \<Rightarrow> int \<Rightarrow> file_struct option \<Rightarrow>
    int64 \<times> uint32 \<times> int \<times> recv_vars \<Rightarrow> byte list \<Rightarrow> (file_struct \<times> recv_vars \<times> byte list) result" where
  "recv_create cfg xflags thisname l1 l2 this_ndx first_hlink_ndx first = (\<lambda>(file_length, nsec, linkname_len, st) s.
     let mode = v_mode st;
         xflags = (if preserve_hard_links cfg \<and> fc_protocol_version cfg < 28 \<and> S_ISREG mode then xflags OR XMIT_HLINKED else xflags);
         (dirname, basename) = split_name thisname in
     if sint file_length < 0 then Inl RERR_UNSUPPORTED
     else
       let file = \<lparr>fs_dirname = dirname, fs_basename = basename,
                   fs_modtime = v_modtime st, fs_nsec = nsec, fs_length = (if S_ISREG mode then file_length else file_length AND 0xFFFFFFFF),
                   fs_mode = take_bit 16 mode,   \<comment> \<open>uint16\<close>
                   fs_uid = (if preserve_uid cfg then v_uid st else 0), fs_gid = (if preserve_gid cfg then v_gid st else 0),
                   fs_atime = (if atimes cfg \<and> \<not> S_ISDIR mode then v_atime st else 0),
                   fs_rdev = (if preserve_devices cfg \<and> IS_DEVICE mode
                              then makedev (major (v_rdev st)) (minor (v_rdev st)) else 0),
                   fs_symlink = [], fs_sum = [], fs_hl_gnum = 0,
                   fs_depth = (if dirname \<noteq> None then rv_lastdir_depth st + 1 else 1),
                   FLAG_TOP_DIR = False, FLAG_CONTENT_DIR = False, FLAG_IMPLIED_DIR = False,
                   FLAG_HLINKED = has xflags XMIT_HLINKED, FLAG_SKIP_GROUP = (preserve_gid cfg \<and> rv_gid_flags st), FLAG_DUPLICATE = False\<rparr>;
           (file, st) = (if S_ISDIR mode then recv_dir_flags cfg xflags l1 l2 file st else (file, st)) in
       res_bind (recv_symlink cfg first linkname_len st s) (\<lambda>(l, s).
       res_bind (recv_hlink cfg xflags this_ndx first_hlink_ndx st s) (\<lambda>(g, st, s).
       res_bind (recv_sum cfg mode first s) (\<lambda>(sm, s).
         Inr (file\<lparr>fs_symlink := l, fs_hl_gnum := g, fs_sum := sm\<rparr>, st, s)))))"

text \<open>\<open>files\<close> are the entries of this list so far, \<open>ndx_start\<close> is the index of the first.\<close>

definition recv_file_entry :: "flist_cfg \<Rightarrow> id_env \<Rightarrow> file_struct list \<Rightarrow> int \<Rightarrow> int32 \<Rightarrow> recv_vars \<Rightarrow> byte list \<Rightarrow>
    (file_struct \<times> recv_vars \<times> byte list) result" where
  "recv_file_entry cfg env files ndx_start xflags st s =
     res_bind (recv_name cfg xflags st s) (\<lambda>(thisname, l1, l2, st, s).
       let st = recv_lastdir thisname st;
           this_ndx = ndx_start + int (length files) in
       res_bind (if fc_protocol_version cfg \<ge> 30 \<and> has xflags XMIT_HLINKED \<and> \<not> has xflags XMIT_HLINK_FIRST then
                   res_bind (read_varint s) (\<lambda>(n, s).
                     if sint n < 0 \<or> sint n \<ge> this_ndx then Inl RERR_PROTOCOL else Inr (sint n, s))
                 else Inr (-1, s)) (\<lambda>(first_hlink_ndx, s).
       if first_hlink_ndx \<ge> 0 \<and> first_hlink_ndx \<ge> ndx_start then
         let first = files ! nat (first_hlink_ndx - ndx_start)
         in recv_create cfg xflags thisname l1 l2 this_ndx first_hlink_ndx (Some first) (recv_abbrev cfg first st) s
       else
         res_bind (recv_attrs cfg env xflags st s) (\<lambda>(file_length, nsec, linkname_len, st, s).
           recv_create cfg xflags thisname l1 l2 this_ndx first_hlink_ndx None (file_length, nsec, linkname_len, st) s)))"

text \<open>The name of a file; its two parts are copied into a buffer of MAXPATHLEN bytes.\<close>

definition f_name :: "file_struct \<Rightarrow> string" where
  "f_name f =
     (case fs_dirname f of
        Some d \<Rightarrow> d @ ''/'' @ take (MAXPATHLEN - (length d + 1) - 1) (fs_basename f)
      | None \<Rightarrow> take (MAXPATHLEN - 1) (fs_basename f))"

section \<open>The whole list\<close>

text \<open>The entries of a list one after the other, and the mark at its end.\<close>

fun send_entries :: "flist_cfg \<Rightarrow> (uint32 \<Rightarrow> string option) \<Rightarrow> (uint32 \<Rightarrow> string option) \<Rightarrow>
    int \<Rightarrow> int \<Rightarrow> (send_args \<times> file_struct) list \<Rightarrow> send_vars \<Rightarrow> byte list \<times> send_vars" where
  "send_entries cfg uid_to_user gid_to_group ndx first_ndx [] st = ([], st)"
| "send_entries cfg uid_to_user gid_to_group ndx first_ndx ((a, file) # es) st =
     (let (out, st) = send_file_entry cfg uid_to_user gid_to_group a file ndx first_ndx st;
          (rest, st) = send_entries cfg uid_to_user gid_to_group (ndx + 1) first_ndx es st
      in (out @ rest, st))"

definition write_end_of_flist :: "flist_cfg \<Rightarrow> bool \<Rightarrow> int32 \<Rightarrow> byte list" where
  "write_end_of_flist cfg send_io_error io_error =
     (if xfer_flags_as_varint cfg then write_varint 0 @ write_varint (if send_io_error then io_error else 0)
      else if send_io_error then write_shortint (ucast (XMIT_EXTENDED_FLAGS OR XMIT_IO_ERROR_ENDLIST)) @ write_varint io_error
      else [0])"

text \<open>
  The loop of recv_file_list. With incremental recursion every entry has to be in the directory
  \<open>dir\<close> the list is for; the code skips the comparison of a directory name it has just
  found to be good, which is the same string. Statistics and the list of directories are left out.
  Every round takes at least one byte, so that the length of the input is enough fuel.
\<close>

definition cur_dir :: "flist_cfg \<Rightarrow> file_struct \<Rightarrow> string" where
  "cur_dir cfg file =
     (let d = (case fs_dirname file of None \<Rightarrow> [] | Some d \<Rightarrow> d)
      in if fc_relative_paths cfg \<and> at d 0 = CHR ''/'' then tl d else d)"

fun recv_entries :: "nat \<Rightarrow> flist_cfg \<Rightarrow> bool \<Rightarrow> bool \<Rightarrow> id_env \<Rightarrow> string \<Rightarrow> int \<Rightarrow> file_struct list \<Rightarrow> int32 \<Rightarrow>
    recv_vars \<Rightarrow> byte list \<Rightarrow> (file_struct list \<times> int32 \<times> recv_vars \<times> byte list) result option" where
  "recv_entries 0 cfg use_safe_inc_flist ignore_errors env dir ndx_start files io_error st s = None"
| "recv_entries (Suc fuel) cfg use_safe_inc_flist ignore_errors env dir ndx_start files io_error st s =
     (case recv_flags cfg use_safe_inc_flist s of
        Inl e \<Rightarrow> Some (Inl e)
      | Inr (None, err, s) \<Rightarrow> Some (Inr (files, if ignore_errors then io_error else io_error OR err, st, s))
      | Inr (Some flags, _, s) \<Rightarrow>
          (case recv_file_entry cfg env files ndx_start flags st s of
             Inl e \<Rightarrow> Some (Inl e)
           | Inr (file, st, s) \<Rightarrow>
               if inc_recurse cfg \<and> cur_dir cfg file \<noteq> dir then Some (Inl RERR_PROTOCOL)
               else recv_entries fuel cfg use_safe_inc_flist ignore_errors env dir ndx_start (files @ [file]) io_error st s))"

end
