(* ===== verification/FlistRoundtrip.thy ===== *)
theory FlistRoundtrip
  imports FlistEntry
begin

text \<open>
  What the receiver makes of a file list entry is the file the sender described, for the protocols
  that are in use today (30 and 31).
\<close>

section \<open>Bytes, devices and flags\<close>

lemma major_makedev [simp]: "major (makedev a b) = a"
  unfolding major_def makedev_def by (rule bit_word_eqI) (auto simp: bit_simps dest: bit_imp_le_length)

lemma minor_makedev [simp]: "minor (makedev a b) = b"
  unfolding minor_def makedev_def by (rule bit_word_eqI) (auto simp: bit_simps dest: bit_imp_le_length)

lemma has_or [simp]: "has (x OR y) m \<longleftrightarrow> has x m \<or> has y m"
  by (simp add: has_def bit.conj_disj_distrib2 or_eq_0_iff)

lemma has_zero [simp]: "\<not> has 0 m"
  by (simp add: has_def)

lemma has_flag_if [simp]: "has (flag_if c f) m \<longleftrightarrow> c \<and> has f m"
  by (simp add: flag_if_def)

named_theorems xmit "the masks of the transmission flags"

lemmas [xmit] = XMIT_TOP_DIR_def XMIT_SAME_MODE_def XMIT_EXTENDED_FLAGS_def XMIT_SAME_UID_def XMIT_SAME_GID_def
  XMIT_SAME_NAME_def XMIT_LONG_NAME_def XMIT_SAME_TIME_def XMIT_SAME_RDEV_MAJOR_def XMIT_NO_CONTENT_DIR_def
  XMIT_HLINKED_def XMIT_USER_NAME_FOLLOWS_def XMIT_GROUP_NAME_FOLLOWS_def XMIT_HLINK_FIRST_def
  XMIT_IO_ERROR_ENDLIST_def XMIT_MOD_NSEC_def XMIT_SAME_ATIME_def

lemma has_numeral [xmit]: "has (numeral m) (numeral n) \<longleftrightarrow> (numeral m :: int32) AND numeral n \<noteq> 0"
  "has (numeral m) 1 \<longleftrightarrow> (numeral m :: int32) AND 1 \<noteq> 0" "has 1 (numeral n) \<longleftrightarrow> (1 :: int32) AND numeral n \<noteq> 0"
  "has 1 1"
  by (simp_all add: has_def)

section \<open>The flags\<close>

text \<open>The flags arrive, up to the bit that marks extended flags.\<close>

definition same_flags :: "int32 \<Rightarrow> int32 \<Rightarrow> bool" where
  "same_flags x y \<longleftrightarrow> x AND NOT XMIT_EXTENDED_FLAGS = y AND NOT XMIT_EXTENDED_FLAGS"

lemma same_flags_has:
  assumes "same_flags x y" and "m AND XMIT_EXTENDED_FLAGS = 0"
  shows "has x m = has y m"
proof -
  have "m = m AND NOT XMIT_EXTENDED_FLAGS"
    by (rule bit_eqI) (metis assms(2) bit_and_iff bit_not_iff bit_0_eq bot_apply bot_bool_def possible_bit_word)
  then have "x AND m = (x AND NOT XMIT_EXTENDED_FLAGS) AND m" for x by (metis and.assoc and.commute)
  then show ?thesis using assms(1) unfolding has_def same_flags_def by metis
qed

lemma low16_bit: "take_bit 16 (x :: int32) = x \<Longrightarrow> bit x n \<Longrightarrow> n < 16"
  by (metis bit_take_bit_iff)

lemma two_bytes:
  fixes x :: int32
  assumes "take_bit 16 x = x"
  shows "ucast (ucast (ucast x :: 16 word) :: byte) OR push_bit 8 (ucast (ucast (drop_bit 8 (ucast x :: 16 word)) :: byte)) = x"
  by (rule bit_word_eqI) (auto simp: bit_simps dest: low16_bit [OF assms])

lemma high_byte_zero:
  fixes x :: int32
  assumes "x AND 0xFF00 = 0" and "bit x n"
  shows "n < 8 \<or> 16 \<le> n"
proof (rule ccontr)
  assume n: "\<not> (n < 8 \<or> 16 \<le> n)"
  have e: "(0xFF00 :: int32) = push_bit 8 (mask 8)" by (simp add: mask_eq_exp_minus_1)
  have "bit (x AND push_bit 8 (mask 8)) n"
    using n assms(2) by (simp only: bit_and_iff bit_push_bit_iff bit_mask_iff possible_bit_word) auto
  then have "bit (x AND 0xFF00) n" unfolding e .
  then show False using assms(1) by simp
qed

lemma one_byte:
  fixes x :: int32
  assumes "take_bit 16 x = x" and "x AND 0xFF00 = 0"
  shows "ucast (ucast x :: byte) = x"
  by (rule bit_word_eqI) (use low16_bit [OF assms(1)] high_byte_zero [OF assms(2)] in \<open>force simp: bit_simps\<close>)

lemma and_push_bit_4: "push_bit 8 (w :: int32) AND 4 = 0"
proof (rule bit_word_eqI)
  fix n
  have "bit (4 :: int32) n = bit (2 ^ 2 :: int32) n" by simp
  also have "\<dots> \<longleftrightarrow> n = 2" by (simp only: bit_exp_iff) auto
  finally show "bit (push_bit 8 w AND 4) n = bit (0 :: int32) n" by (auto simp: bit_simps)
qed

lemma recv_flags_send_flags:
  assumes send: "send_flags cfg mode x = (bs, x')" and pv: "30 \<le> fc_protocol_version cfg"
    and x: "take_bit 16 x = x" "\<not> has x XMIT_EXTENDED_FLAGS" "has x XMIT_HLINK_FIRST \<longrightarrow> has x XMIT_HLINKED"
  shows "\<exists>r. recv_flags cfg safe (bs @ s) = Inr (Some r, 0, s) \<and> same_flags r x' \<and>
    (x' = x \<or> x' = x OR XMIT_EXTENDED_FLAGS \<or> x' = XMIT_TOP_DIR \<and> x = 0 \<and> \<not> S_ISDIR mode)"
proof (cases "xfer_flags_as_varint cfg")
  case True
  then show ?thesis
    using send by (auto simp: send_flags_def recv_flags_def same_flags_def read_varint_write_varint XMIT_EXTENDED_FLAGS_def)
next
  case False
  define y where "y = (if x = 0 \<and> \<not> S_ISDIR mode then XMIT_TOP_DIR else x)"
  have y: "take_bit 16 y = y" "\<not> has y XMIT_EXTENDED_FLAGS"
    using x by (auto simp: y_def xmit)
  show ?thesis
  proof (cases "y AND 0xFF00 \<noteq> 0 \<or> y = 0")
    case True
    define z where "z = y OR XMIT_EXTENDED_FLAGS"
    have e: "bs = write_shortint (ucast z)" "x' = z"
      using send False pv True by (auto simp: send_flags_def y_def z_def Let_def split: if_splits)
    define b1 b2 where "b1 = (ucast (ucast z :: 16 word) :: byte)" and "b2 = (ucast (drop_bit 8 (ucast z :: 16 word)) :: byte)"
    have "take_bit 16 z = z" using y(1) by (simp add: z_def take_bit_or xmit)
    then have z: "ucast b1 OR push_bit 8 (ucast b2) = z" unfolding b1_def b2_def by (rule two_bytes)
    have "\<not> has (push_bit 8 (ucast b2)) XMIT_EXTENDED_FLAGS"
      unfolding has_def XMIT_EXTENDED_FLAGS_def by (simp add: and_push_bit_4)
    moreover have "has z XMIT_EXTENDED_FLAGS" by (simp add: z_def) (simp add: xmit)
    ultimately have ext: "has (ucast b1) XMIT_EXTENDED_FLAGS" unfolding z [symmetric] has_or by blast
    then have "b1 \<noteq> 0" by auto
    moreover have "z \<noteq> XMIT_EXTENDED_FLAGS OR XMIT_IO_ERROR_ENDLIST"
    proof
      assume eq: "z = XMIT_EXTENDED_FLAGS OR XMIT_IO_ERROR_ENDLIST"
      then have "has z XMIT_HLINK_FIRST" "\<not> has z XMIT_HLINKED" by (simp_all add: xmit)
      then show False using x(3) by (auto simp: z_def y_def xmit split: if_splits)
    qed
    ultimately have "recv_flags cfg safe (bs @ s) = Inr (Some z, 0, s)"
      using False pv ext e(1) z by (simp add: recv_flags_def write_shortint_def b1_def b2_def)
    moreover have "y = x" using True by (auto simp: y_def xmit split: if_splits)
    ultimately show ?thesis using e(2) by (auto simp: same_flags_def z_def)
  next
    case F2: False
    have e: "bs = [ucast y]" "x' = y"
      using send False pv F2 by (auto simp: send_flags_def y_def Let_def split: if_splits)
    have u: "ucast (ucast y :: byte) = y" using y(1) F2 by (intro one_byte) auto
    then have "(ucast y :: byte) \<noteq> 0" using F2 by auto
    moreover have "y \<noteq> XMIT_EXTENDED_FLAGS OR XMIT_IO_ERROR_ENDLIST" using y(2) by (auto simp: xmit)
    ultimately have "recv_flags cfg safe (bs @ s) = Inr (Some y, 0, s)"
      using False pv e(1) u y(2) by (simp add: recv_flags_def)
    then show ?thesis using e(2) by (auto simp: same_flags_def y_def)
  qed
qed

section \<open>Names\<close>

lemma common_len_spec:
  "common_len lim last' name \<le> lim" "common_len lim last' name \<le> length last'" "common_len lim last' name \<le> length name"
  "take (common_len lim last' name) last' = take (common_len lim last' name) name"
  by (induction lim last' name rule: common_len.induct) auto

text \<open>What a name must be for the receiver to keep it as it is.\<close>

definition name_accepted :: "flist_cfg \<Rightarrow> string \<Rightarrow> bool" where
  "name_accepted cfg n \<longleftrightarrow> n \<noteq> [] \<and> NUL \<notin> set n \<and> length n < MAXPATHLEN \<and>
     clean_fname refuse_flags n = Some n \<and> (fc_relative_paths cfg \<or> at n 0 \<noteq> CHR ''/'') \<and> \<not> fc_sanitize_paths cfg"

lemma recv_name_send_name:
  assumes n: "name_accepted cfg n" and l: "v_lastname st = lastname" "l1 = common_len 255 lastname n"
    and x: "has x XMIT_SAME_NAME \<longleftrightarrow> l1 > 0" "has x XMIT_LONG_NAME \<longleftrightarrow> length (drop l1 n) > 255"
  shows "recv_name cfg x st (send_name (fc_protocol_version cfg) x l1 n @ s) =
    Inr (n, l1, length n - l1, st\<lparr>v_lastname := n\<rparr>, s)"
proof -
  note C = common_len_spec [of 255 lastname n, folded l(2)]
  have len: "length n < 4096" using n by (simp add: name_accepted_def MAXPATHLEN_def)
  have l1: "unat (word_of_nat l1 :: byte) = l1" using C(1) by (intro small_unat_byte) simp
  have l2: "unat (word_of_nat (length n - l1) :: int32) = length n - l1" using len by (intro small_unat) simp
  have l2': "\<not> length n - l1 > 255 \<Longrightarrow> unat (word_of_nat (length n - l1) :: byte) = length n - l1"
    by (intro small_unat_byte) simp
  have nul: "NUL \<notin> set (drop l1 n)" using n by (auto simp: name_accepted_def dest: in_set_dropD)
  have r: "read_sbuf (length n - l1) (to_bytes (drop l1 n) @ s) = Inr (drop l1 n, s)"
    using nul by (intro read_sbuf_to_bytes) simp_all
  have t: "take l1 lastname @ drop l1 n = n" using C(4) by simp
  have lt: "\<not> MAXPATHLEN - l1 \<le> length n - l1" using len C(3) by (simp add: MAXPATHLEN_def)
  have c: "clean_fname refuse_flags n = Some n" "n \<noteq> []" "fc_relative_paths cfg \<or> at n 0 \<noteq> CHR ''/''" "\<not> fc_sanitize_paths cfg"
    using n by (auto simp: name_accepted_def)
  show ?thesis
    unfolding recv_name_def send_name_def Let_def
    using x l1 l2 l2' r t lt c C(2) l(1)
    by (cases "l1 > 0"; cases "length n - l1 > 255") auto
qed

section \<open>The sender's variables\<close>

lemma send_rdev_sel:
  assumes "send_rdev_flags cfg rdev st = (x, st')" and "30 \<le> fc_protocol_version cfg"
  defines "d \<equiv> preserve_devices cfg \<and> IS_DEVICE (v_mode st)"
    and "p \<equiv> preserve_specials cfg \<and> IS_SPECIAL (v_mode st) \<and> fc_protocol_version cfg < 31"
  shows "x = flag_if (d \<and> major rdev = v_rdev_major st \<or> \<not> d \<and> p) XMIT_SAME_RDEV_MAJOR \<and>
    st' = st\<lparr>v_rdev := (if d then rdev else if p then makedev (v_rdev_major st) 0 else v_rdev st),
      v_rdev_major := (if d then major rdev else v_rdev_major st)\<rparr>"
  using assms(1,2) by (simp add: send_rdev_flags_def flag_if_def Let_def flip: d_def p_def split: if_split_asm)

lemma send_time_sel:
  assumes "send_time_flags cfg file st = (x, st')"
  shows "x = flag_if (fs_modtime file = v_modtime st) XMIT_SAME_TIME
      OR flag_if (fs_nsec file \<noteq> 0 \<and> fc_protocol_version cfg \<ge> 31) XMIT_MOD_NSEC
      OR flag_if ((atimes cfg \<and> \<not> S_ISDIR (v_mode st)) \<and> fs_atime file = v_atime st) XMIT_SAME_ATIME \<and>
    st' = st\<lparr>v_modtime := fs_modtime file,
      v_atime := (if atimes cfg \<and> \<not> S_ISDIR (v_mode st) then fs_atime file else v_atime st)\<rparr>"
  using assms by (simp add: send_time_flags_def Let_def)

definition first_link :: "(int64 \<times> int64) option \<Rightarrow> send_vars \<Rightarrow> int" where
  "first_link di st = (case di of None \<Rightarrow> -1 | Some k \<Rightarrow> (case sv_idev st k of None \<Rightarrow> -1 | Some n \<Rightarrow> n))"

lemma send_hlink_sel:
  assumes "send_hlink_flags cfg di n st = (x, h, st')" and "30 \<le> fc_protocol_version cfg"
  shows "x = flag_if (di \<noteq> None \<and> h < 0) XMIT_HLINK_FIRST OR flag_if (di \<noteq> None) XMIT_HLINKED \<and> h = first_link di st \<and>
    st' = st\<lparr>sv_idev := (if di \<noteq> None \<and> h < 0 then (sv_idev st)(the di \<mapsto> n) else sv_idev st)\<rparr>"
proof (cases di)
  case None
  then show ?thesis using assms by (simp add: send_hlink_flags_def first_link_def flag_if_def)
next
  case (Some k)
  obtain dev ino where k: "k = (dev, ino)" by (cases k)
  show ?thesis
    using assms unfolding Some k send_hlink_flags_def first_link_def
    by (simp add: Let_def flag_if_def split: if_split_asm) (metis | auto)+
qed

text \<open>The name sent with an id.\<close>

lemma add_gid_add_uid: "add_gid = add_uid"
  by (intro ext) (simp add: add_gid_def add_uid_def)

definition id_name :: "flist_cfg \<Rightarrow> (uint32 \<Rightarrow> string option) \<Rightarrow> idlist list \<Rightarrow> uint32 \<Rightarrow> string option" where
  "id_name cfg names lst u = (if numeric_ids cfg = 0 \<and> inc_recurse cfg then fst (add_uid names u lst) else None)"

text \<open>The list after an id that is not that of the entry before.\<close>

definition list_after :: "flist_cfg \<Rightarrow> (uint32 \<Rightarrow> string option) \<Rightarrow> bool \<Rightarrow> uint32 \<Rightarrow> idlist list \<Rightarrow> idlist list" where
  "list_after cfg names same u lst = (if same \<or> numeric_ids cfg \<noteq> 0 then lst else snd (add_uid names u lst))"

text \<open>Whether the owner and the group are those of the entry before.\<close>

definition same_uid :: "flist_cfg \<Rightarrow> file_struct \<Rightarrow> send_vars \<Rightarrow> bool" where
  "same_uid cfg file st \<longleftrightarrow> \<not> preserve_uid cfg \<or> fs_uid file = v_uid st \<and> v_lastname st \<noteq> []"

definition same_gid :: "flist_cfg \<Rightarrow> file_struct \<Rightarrow> send_vars \<Rightarrow> bool" where
  "same_gid cfg file st \<longleftrightarrow> \<not> preserve_gid cfg \<or> fs_gid file = v_gid st \<and> v_lastname st \<noteq> []"

lemma send_owner_sel:
  "send_owner_flags cfg au ag file st =
    ((flag_if (same_uid cfg file st) XMIT_SAME_UID
       OR flag_if (\<not> same_uid cfg file st \<and> id_name cfg au (sv_uidlist st) (fs_uid file) \<noteq> None) XMIT_USER_NAME_FOLLOWS)
      OR flag_if (same_gid cfg file st) XMIT_SAME_GID
      OR flag_if (\<not> same_gid cfg file st \<and> id_name cfg ag (sv_gidlist st) (fs_gid file) \<noteq> None) XMIT_GROUP_NAME_FOLLOWS,
     st\<lparr>v_uid := (if same_uid cfg file st then v_uid st else fs_uid file), v_gid := (if same_gid cfg file st then v_gid st else fs_gid file),
      sv_user_name := (if same_uid cfg file st \<or> numeric_ids cfg \<noteq> 0 then sv_user_name st else fst (add_uid au (fs_uid file) (sv_uidlist st))),
      sv_group_name := (if same_gid cfg file st \<or> numeric_ids cfg \<noteq> 0 then sv_group_name st else fst (add_uid ag (fs_gid file) (sv_gidlist st))),
      sv_uidlist := list_after cfg au (same_uid cfg file st) (fs_uid file) (sv_uidlist st),
      sv_gidlist := list_after cfg ag (same_gid cfg file st) (fs_gid file) (sv_gidlist st)\<rparr>)"
proof -
  define U where "U = (if same_uid cfg file st then (XMIT_SAME_UID, st)
    else (flag_if (id_name cfg au (sv_uidlist st) (fs_uid file) \<noteq> None) XMIT_USER_NAME_FOLLOWS,
          st\<lparr>v_uid := fs_uid file,
            sv_user_name := (if numeric_ids cfg \<noteq> 0 then sv_user_name st else fst (add_uid au (fs_uid file) (sv_uidlist st))),
            sv_uidlist := list_after cfg au False (fs_uid file) (sv_uidlist st)\<rparr>))"
  have "(if \<not> preserve_uid cfg \<or> fs_uid file = v_uid st \<and> v_lastname st \<noteq> [] then (XMIT_SAME_UID, st)
     else let st = st\<lparr>v_uid := fs_uid file\<rparr> in
       if numeric_ids cfg = 0 then
         let (user_name, lst) = add_uid au (fs_uid file) (sv_uidlist st)
         in (flag_if (inc_recurse cfg \<and> user_name \<noteq> None) XMIT_USER_NAME_FOLLOWS,
             st\<lparr>sv_user_name := user_name, sv_uidlist := lst\<rparr>)
       else (0, st)) = U"
    by (simp add: U_def Let_def id_name_def list_after_def flag_if_def same_uid_def case_prod_beta)
  note u = this
  define G where "G t = (if same_gid cfg file st then (XMIT_SAME_GID, t)
    else (flag_if (id_name cfg ag (sv_gidlist st) (fs_gid file) \<noteq> None) XMIT_GROUP_NAME_FOLLOWS,
          t\<lparr>v_gid := fs_gid file,
            sv_group_name := (if numeric_ids cfg \<noteq> 0 then sv_group_name st else fst (add_uid ag (fs_gid file) (sv_gidlist st))),
            sv_gidlist := list_after cfg ag False (fs_gid file) (sv_gidlist st)\<rparr>))" for t :: send_vars
  have sel: "v_lastname (snd U) = v_lastname st" "v_gid (snd U) = v_gid st" "sv_gidlist (snd U) = sv_gidlist st"
    "sv_group_name (snd U) = sv_group_name st" by (simp_all add: U_def)
  have g: "(if \<not> preserve_gid cfg \<or> fs_gid file = v_gid t \<and> v_lastname t \<noteq> [] then (XMIT_SAME_GID, t)
     else let st = t\<lparr>v_gid := fs_gid file\<rparr> in
       if numeric_ids cfg = 0 then
         let (group_name, lst) = add_gid ag (fs_gid file) (sv_gidlist st)
         in (flag_if (inc_recurse cfg \<and> group_name \<noteq> None) XMIT_GROUP_NAME_FOLLOWS,
             st\<lparr>sv_group_name := group_name, sv_gidlist := lst\<rparr>)
       else (0, st)) = G t" if "t = snd U" for t
    using sel unfolding that [symmetric]
    by (simp add: G_def Let_def id_name_def list_after_def flag_if_def same_gid_def case_prod_beta add_gid_add_uid)
  have "send_owner_flags cfg au ag file st = (case U of (xu, st) \<Rightarrow> case G st of (xg, st) \<Rightarrow> (xu OR xg, st))"
    unfolding send_owner_flags_def u using g by (simp add: Let_def case_prod_beta)
  then show ?thesis
    by (cases "same_uid cfg file st"; cases "same_gid cfg file st") (simp_all add: U_def G_def list_after_def flag_if_def)
qed

text \<open>All flags and variables of an entry.\<close>

definition sends_rdev :: "flist_cfg \<Rightarrow> file_struct \<Rightarrow> bool" where
  "sends_rdev cfg file \<longleftrightarrow> preserve_devices cfg \<and> IS_DEVICE (fs_mode file)"

definition fakes_rdev :: "flist_cfg \<Rightarrow> file_struct \<Rightarrow> bool" where
  "fakes_rdev cfg file \<longleftrightarrow> preserve_specials cfg \<and> IS_SPECIAL (fs_mode file) \<and> fc_protocol_version cfg < 31"

definition sends_atime :: "flist_cfg \<Rightarrow> file_struct \<Rightarrow> bool" where
  "sends_atime cfg file \<longleftrightarrow> atimes cfg \<and> \<not> S_ISDIR (fs_mode file)"

definition vars_after :: "flist_cfg \<Rightarrow> (uint32 \<Rightarrow> string option) \<Rightarrow> (uint32 \<Rightarrow> string option) \<Rightarrow>
    send_args \<Rightarrow> file_struct \<Rightarrow> int \<Rightarrow> send_vars \<Rightarrow> send_vars" where
  "vars_after cfg au ag a file n st = st\<lparr>
     v_mode := fs_mode file, v_modtime := fs_modtime file,
     v_atime := (if sends_atime cfg file then fs_atime file else v_atime st),
     v_rdev := (if sends_rdev cfg file then sa_rdev a else if fakes_rdev cfg file then makedev (v_rdev_major st) 0 else v_rdev st),
     v_rdev_major := (if sends_rdev cfg file then major (sa_rdev a) else v_rdev_major st),
     v_uid := (if same_uid cfg file st then v_uid st else fs_uid file),
     v_gid := (if same_gid cfg file st then v_gid st else fs_gid file),
     sv_user_name := (if same_uid cfg file st \<or> numeric_ids cfg \<noteq> 0 then sv_user_name st else fst (add_uid au (fs_uid file) (sv_uidlist st))),
     sv_group_name := (if same_gid cfg file st \<or> numeric_ids cfg \<noteq> 0 then sv_group_name st else fst (add_uid ag (fs_gid file) (sv_gidlist st))),
     sv_uidlist := list_after cfg au (same_uid cfg file st) (fs_uid file) (sv_uidlist st),
     sv_gidlist := list_after cfg ag (same_gid cfg file st) (fs_gid file) (sv_gidlist st),
     sv_idev := (if sa_dev_ino a \<noteq> None \<and> first_link (sa_dev_ino a) st < 0
                 then (sv_idev st)(the (sa_dev_ino a) \<mapsto> n) else sv_idev st)\<rparr>"

definition flags_after :: "flist_cfg \<Rightarrow> (uint32 \<Rightarrow> string option) \<Rightarrow> (uint32 \<Rightarrow> string option) \<Rightarrow>
    send_args \<Rightarrow> file_struct \<Rightarrow> send_vars \<Rightarrow> int32" where
  "flags_after cfg au ag a file st =
     start_xflags (fc_protocol_version cfg) file OR flag_if (fs_mode file = v_mode st) XMIT_SAME_MODE
     OR flag_if (sends_rdev cfg file \<and> major (sa_rdev a) = v_rdev_major st \<or> \<not> sends_rdev cfg file \<and> fakes_rdev cfg file) XMIT_SAME_RDEV_MAJOR
     OR flag_if (same_uid cfg file st) XMIT_SAME_UID
     OR flag_if (\<not> same_uid cfg file st \<and> id_name cfg au (sv_uidlist st) (fs_uid file) \<noteq> None) XMIT_USER_NAME_FOLLOWS
     OR flag_if (same_gid cfg file st) XMIT_SAME_GID
     OR flag_if (\<not> same_gid cfg file st \<and> id_name cfg ag (sv_gidlist st) (fs_gid file) \<noteq> None) XMIT_GROUP_NAME_FOLLOWS
     OR flag_if (fs_modtime file = v_modtime st) XMIT_SAME_TIME
     OR flag_if (fs_nsec file \<noteq> 0 \<and> fc_protocol_version cfg \<ge> 31) XMIT_MOD_NSEC
     OR flag_if (sends_atime cfg file \<and> fs_atime file = v_atime st) XMIT_SAME_ATIME
     OR flag_if (sa_dev_ino a \<noteq> None \<and> first_link (sa_dev_ino a) st < 0) XMIT_HLINK_FIRST
     OR flag_if (sa_dev_ino a \<noteq> None) XMIT_HLINKED
     OR flag_if (common_len 255 (v_lastname st) (sa_fname a) > 0) XMIT_SAME_NAME
     OR flag_if (length (drop (common_len 255 (v_lastname st) (sa_fname a)) (sa_fname a)) > 255) XMIT_LONG_NAME"

lemma entry_flags_eq:
  assumes "30 \<le> fc_protocol_version cfg"
  shows "entry_flags cfg au ag a file n st = (flags_after cfg au ag a file st, first_link (sa_dev_ino a) st,
    common_len 255 (v_lastname st) (sa_fname a), vars_after cfg au ag a file n st)"
proof -
  define s0 where "s0 = st\<lparr>v_mode := fs_mode file\<rparr>"
  obtain x1 s1 where e1: "send_rdev_flags cfg (sa_rdev a) s0 = (x1, s1)" by fastforce
  obtain x2 s2 where e2: "send_owner_flags cfg au ag file s1 = (x2, s2)" by fastforce
  obtain x3 s3 where e3: "send_time_flags cfg file s2 = (x3, s3)" by fastforce
  obtain x4 h s4 where e4: "send_hlink_flags cfg (sa_dev_ino a) n s3 = (x4, h, s4)" by (metis prod_cases3)
  have S1: "x1 = flag_if (sends_rdev cfg file \<and> major (sa_rdev a) = v_rdev_major st \<or> \<not> sends_rdev cfg file \<and> fakes_rdev cfg file)
      XMIT_SAME_RDEV_MAJOR \<and>
    s1 = st\<lparr>v_mode := fs_mode file,
      v_rdev := (if sends_rdev cfg file then sa_rdev a else if fakes_rdev cfg file then makedev (v_rdev_major st) 0 else v_rdev st),
      v_rdev_major := (if sends_rdev cfg file then major (sa_rdev a) else v_rdev_major st)\<rparr>"
    using send_rdev_sel [OF e1 assms] by (simp add: s0_def sends_rdev_def fakes_rdev_def)
  note S2 = e2 [unfolded send_owner_sel, simplified prod.inject]
  note S3 = send_time_sel [OF e3]
  note S4 = send_hlink_sel [OF e4 assms]
  have u: "same_uid cfg file s1 = same_uid cfg file st" "same_gid cfg file s1 = same_gid cfg file st"
    using S1 by (simp_all add: same_uid_def same_gid_def)
  have s1: "v_mode s1 = fs_mode file" "sv_uidlist s1 = sv_uidlist st" "sv_gidlist s1 = sv_gidlist st" "sv_idev s1 = sv_idev st" "v_modtime s1 = v_modtime st" "v_atime s1 = v_atime st"
    unfolding conjunct2 [OF S1] by simp_all
  have s2: "v_mode s2 = v_mode s1" "sv_idev s2 = sv_idev s1" "v_modtime s2 = v_modtime s1" "v_atime s2 = v_atime s1"
    unfolding conjunct2 [OF S2, symmetric] by simp_all
  have "sv_idev s3 = sv_idev s2" unfolding conjunct2 [OF S3] by simp
  then have m: "v_mode s2 = fs_mode file" "first_link (sa_dev_ino a) s3 = first_link (sa_dev_ino a) st"
    using s1 s2 by (simp_all add: first_link_def cong: option.case_cong)
  have s4: "s4 = vars_after cfg au ag a file n st"
  proof -
    have h: "h = first_link (sa_dev_ino a) st" using S4 m(2) by simp
    show ?thesis
      unfolding conjunct2 [OF conjunct2 [OF S4]] conjunct2 [OF S3] m(1) h conjunct2 [OF S2, symmetric] u
      unfolding conjunct2 [OF S1] vars_after_def sends_atime_def
      by (rule send_vars.equality; simp)
  qed
  have E: "entry_flags cfg au ag a file n st =
    ((start_xflags (fc_protocol_version cfg) file OR flag_if (fs_mode file = v_mode st) XMIT_SAME_MODE) OR x1 OR x2 OR x3 OR x4
      OR flag_if (common_len 255 (v_lastname s4) (sa_fname a) > 0) XMIT_SAME_NAME
      OR flag_if (length (drop (common_len 255 (v_lastname s4) (sa_fname a)) (sa_fname a)) > 255) XMIT_LONG_NAME,
     h, common_len 255 (v_lastname s4) (sa_fname a), s4)"
    unfolding entry_flags_def Let_def s0_def [symmetric] e1 prod.case e2 e3 e4 ..
  have L: "v_lastname s4 = v_lastname st" unfolding s4 by (simp add: vars_after_def)
  show ?thesis
    unfolding E L conjunct1 [OF S1] conjunct1 [OF S2, symmetric] conjunct1 [OF S3] conjunct1 [OF S4] u m s1 s2
    using conjunct1 [OF conjunct2 [OF S4]] m(2) s4 by (simp add: flags_after_def sends_atime_def or.assoc)
qed

section \<open>What both sides see of the flags\<close>

definition xmit_agree :: "bool \<Rightarrow> int32 \<Rightarrow> int32 \<Rightarrow> bool" where
  "xmit_agree d r x \<longleftrightarrow>
     (\<forall>m. m AND XMIT_EXTENDED_FLAGS = 0 \<longrightarrow> m AND XMIT_TOP_DIR = 0 \<or> d \<longrightarrow> has r m = has x m)"

lemma and_eq_0_has: "m AND f = 0 \<longleftrightarrow> \<not> has f m"
  by (simp add: has_def and.commute)

lemma has_start: "30 \<le> pv \<Longrightarrow> has (start_xflags pv file) m \<longleftrightarrow> S_ISDIR (fs_mode file) \<and> \<not> S_ISREG (fs_mode file) \<and>
    (has XMIT_TOP_DIR m \<and> (if FLAG_CONTENT_DIR file then FLAG_TOP_DIR file else FLAG_IMPLIED_DIR file)
     \<or> has XMIT_NO_CONTENT_DIR m \<and> \<not> FLAG_CONTENT_DIR file)"
  by (auto simp: start_xflags_def)

lemma reg_not_dir: "S_ISDIR m \<Longrightarrow> \<not> S_ISREG m \<and> \<not> S_ISLNK m \<and> \<not> IS_DEVICE m \<and> \<not> IS_SPECIAL m"
  by (simp add: S_ISDIR_def S_ISREG_def S_ISLNK_def IS_DEVICE_def IS_SPECIAL_def)

lemma flags_has:
  assumes pv: "30 \<le> fc_protocol_version cfg" and agree: "xmit_agree (S_ISDIR (fs_mode file)) r (flags_after cfg au ag a file st)"
  shows "has r XMIT_SAME_MODE \<longleftrightarrow> fs_mode file = v_mode st"
    and "has r XMIT_SAME_UID \<longleftrightarrow> same_uid cfg file st" and "has r XMIT_SAME_GID \<longleftrightarrow> same_gid cfg file st"
    and "has r XMIT_SAME_NAME \<longleftrightarrow> common_len 255 (v_lastname st) (sa_fname a) > 0"
    and "has r XMIT_LONG_NAME \<longleftrightarrow> length (drop (common_len 255 (v_lastname st) (sa_fname a)) (sa_fname a)) > 255"
    and "has r XMIT_SAME_TIME \<longleftrightarrow> fs_modtime file = v_modtime st"
    and "has r XMIT_SAME_RDEV_MAJOR \<longleftrightarrow> S_ISDIR (fs_mode file) \<and> \<not> FLAG_CONTENT_DIR file \<or>
       (sends_rdev cfg file \<and> major (sa_rdev a) = v_rdev_major st \<or> \<not> sends_rdev cfg file \<and> fakes_rdev cfg file)"
    and "has r XMIT_NO_CONTENT_DIR \<longleftrightarrow> S_ISDIR (fs_mode file) \<and> \<not> FLAG_CONTENT_DIR file \<or>
       (sends_rdev cfg file \<and> major (sa_rdev a) = v_rdev_major st \<or> \<not> sends_rdev cfg file \<and> fakes_rdev cfg file)"
    and "has r XMIT_HLINKED \<longleftrightarrow> sa_dev_ino a \<noteq> None"
    and "has r XMIT_HLINK_FIRST \<longleftrightarrow> sa_dev_ino a \<noteq> None \<and> first_link (sa_dev_ino a) st < 0"
    and "has r XMIT_USER_NAME_FOLLOWS \<longleftrightarrow> \<not> same_uid cfg file st \<and> id_name cfg au (sv_uidlist st) (fs_uid file) \<noteq> None"
    and "has r XMIT_GROUP_NAME_FOLLOWS \<longleftrightarrow> \<not> same_gid cfg file st \<and> id_name cfg ag (sv_gidlist st) (fs_gid file) \<noteq> None"
    and "has r XMIT_MOD_NSEC \<longleftrightarrow> fs_nsec file \<noteq> 0 \<and> fc_protocol_version cfg \<ge> 31"
    and "has r XMIT_SAME_ATIME \<longleftrightarrow> sends_atime cfg file \<and> fs_atime file = v_atime st"
    and "S_ISDIR (fs_mode file) \<Longrightarrow> has r XMIT_TOP_DIR \<longleftrightarrow> (if FLAG_CONTENT_DIR file then FLAG_TOP_DIR file else FLAG_IMPLIED_DIR file)"
proof -
  have "m AND XMIT_EXTENDED_FLAGS = 0 \<Longrightarrow> m AND XMIT_TOP_DIR = 0 \<or> S_ISDIR (fs_mode file) \<Longrightarrow>
      has r m = has (flags_after cfg au ag a file st) m" for m
    using agree unfolding xmit_agree_def by blast
  note A = this [unfolded and_eq_0_has flags_after_def has_or has_flag_if has_start [OF pv]]
  note R = reg_not_dir [of "fs_mode file"]
  show "has r XMIT_SAME_MODE \<longleftrightarrow> fs_mode file = v_mode st" by (subst A; simp add: xmit)
  show "has r XMIT_SAME_UID \<longleftrightarrow> same_uid cfg file st" by (subst A; simp add: xmit)
  show "has r XMIT_SAME_GID \<longleftrightarrow> same_gid cfg file st" by (subst A; simp add: xmit)
  show "has r XMIT_SAME_NAME \<longleftrightarrow> common_len 255 (v_lastname st) (sa_fname a) > 0" by (subst A; simp add: xmit)
  show "has r XMIT_LONG_NAME \<longleftrightarrow> length (drop (common_len 255 (v_lastname st) (sa_fname a)) (sa_fname a)) > 255"
    by (subst A; simp add: xmit)
  show "has r XMIT_SAME_TIME \<longleftrightarrow> fs_modtime file = v_modtime st" by (subst A; simp add: xmit)
  show m: "has r XMIT_SAME_RDEV_MAJOR \<longleftrightarrow> S_ISDIR (fs_mode file) \<and> \<not> FLAG_CONTENT_DIR file \<or>
       (sends_rdev cfg file \<and> major (sa_rdev a) = v_rdev_major st \<or> \<not> sends_rdev cfg file \<and> fakes_rdev cfg file)"
    using R by (subst A; simp add: xmit) blast
  show "has r XMIT_NO_CONTENT_DIR \<longleftrightarrow> S_ISDIR (fs_mode file) \<and> \<not> FLAG_CONTENT_DIR file \<or>
       (sends_rdev cfg file \<and> major (sa_rdev a) = v_rdev_major st \<or> \<not> sends_rdev cfg file \<and> fakes_rdev cfg file)"
    using m by (simp add: XMIT_NO_CONTENT_DIR_def XMIT_SAME_RDEV_MAJOR_def)
  show "has r XMIT_HLINKED \<longleftrightarrow> sa_dev_ino a \<noteq> None" by (subst A; simp add: xmit)
  show "has r XMIT_HLINK_FIRST \<longleftrightarrow> sa_dev_ino a \<noteq> None \<and> first_link (sa_dev_ino a) st < 0" by (subst A; simp add: xmit)
  show "has r XMIT_USER_NAME_FOLLOWS \<longleftrightarrow> \<not> same_uid cfg file st \<and> id_name cfg au (sv_uidlist st) (fs_uid file) \<noteq> None" by (subst A; simp add: xmit)
  show "has r XMIT_GROUP_NAME_FOLLOWS \<longleftrightarrow> \<not> same_gid cfg file st \<and> id_name cfg ag (sv_gidlist st) (fs_gid file) \<noteq> None" by (subst A; simp add: xmit)
  show "has r XMIT_MOD_NSEC \<longleftrightarrow> fs_nsec file \<noteq> 0 \<and> fc_protocol_version cfg \<ge> 31" by (subst A; simp add: xmit)
  show "has r XMIT_SAME_ATIME \<longleftrightarrow> sends_atime cfg file \<and> fs_atime file = v_atime st" by (subst A; simp add: xmit)
  show "has r XMIT_TOP_DIR \<longleftrightarrow> (if FLAG_CONTENT_DIR file then FLAG_TOP_DIR file else FLAG_IMPLIED_DIR file)" if "S_ISDIR (fs_mode file)"
    using R that by (subst A; simp add: xmit)
qed

lemma take_bit_or_flags: "take_bit 16 (flag_if c f) = flag_if c (take_bit 16 f)"
  by (simp add: flag_if_def)

lemma flags_after_ok:
  assumes "30 \<le> fc_protocol_version cfg" and x_def: "x = flags_after cfg au ag a file st"
  shows "take_bit 16 x = x" "\<not> has x XMIT_EXTENDED_FLAGS" "has x XMIT_HLINK_FIRST \<longrightarrow> has x XMIT_HLINKED"
proof -
  have "take_bit 16 (start_xflags (fc_protocol_version cfg) file) = start_xflags (fc_protocol_version cfg) file"
    by (simp add: start_xflags_def take_bit_or take_bit_or_flags xmit)
  then show "take_bit 16 x = x"
    unfolding x_def flags_after_def by (simp add: take_bit_or take_bit_or_flags xmit)
  show "\<not> has x XMIT_EXTENDED_FLAGS" "has x XMIT_HLINK_FIRST \<longrightarrow> has x XMIT_HLINKED"
    unfolding x_def flags_after_def by (simp_all add: has_start [OF assms(1)] xmit)
qed

lemma same_flags_agree: "same_flags r x \<Longrightarrow> xmit_agree d r x"
  unfolding xmit_agree_def using same_flags_has by blast

text \<open>The flags that are sent and those that are received agree with those of the entry.\<close>

lemma send_flags_agree:
  assumes send: "send_flags cfg mode x = (bs, x')" and pv: "30 \<le> fc_protocol_version cfg"
    and x: "x = flags_after cfg au ag a file st" and d: "d \<longrightarrow> S_ISDIR mode"
  shows "xmit_agree d x' x" and "\<exists>r. recv_flags cfg safe (bs @ s) = Inr (Some r, 0, s) \<and> xmit_agree d r x"
proof -
  from recv_flags_send_flags [OF send pv, of safe s] flags_after_ok [OF pv x] obtain r
    where r: "recv_flags cfg safe (bs @ s) = Inr (Some r, 0, s)" "same_flags r x'"
      "x' = x \<or> x' = x OR XMIT_EXTENDED_FLAGS \<or> x' = XMIT_TOP_DIR \<and> x = 0 \<and> \<not> S_ISDIR mode"
    by blast
  then show a: "xmit_agree d x' x"
    using d by (auto simp: xmit_agree_def and_eq_0_has)
  then show "\<exists>r. recv_flags cfg safe (bs @ s) = Inr (Some r, 0, s) \<and> xmit_agree d r x"
    using r same_flags_agree [of r x' d] by (auto simp: xmit_agree_def)
qed


end
