(* ===== verification/FlistAttrs.thy ===== *)
theory FlistAttrs
  imports FlistRoundtrip
begin

text \<open>
  The attributes of an entry of the file list: what the receiver makes of the ids, the relation
  between the static variables of the two sides, and that the attributes read are those written.
\<close>

section \<open>The attributes\<close>

definition names_ok :: "(uint32 \<Rightarrow> string option) \<Rightarrow> bool" where
  "names_ok names \<longleftrightarrow> (\<forall>u. name_sendable (names u))"

text \<open>The names the receiver gets to see, and what it makes of the ids.\<close>

definition id_names :: "flist_cfg \<Rightarrow> (uint32 \<Rightarrow> string option) \<Rightarrow> uint32 \<Rightarrow> string option" where
  "id_names cfg names u = (if numeric_ids cfg = 0 then names u else None)"

definition uid_there :: "flist_cfg \<Rightarrow> id_env \<Rightarrow> (uint32 \<Rightarrow> string option) \<Rightarrow> uint32 \<Rightarrow> uint32" where
  "uid_there cfg env au u =
     (if inc_recurse cfg \<and> am_root cfg \<and> (numeric_ids cfg = 0 \<or> usermap cfg) then recv_id2 True env u (id_names cfg au u) else u)"

definition gid_there :: "flist_cfg \<Rightarrow> id_env \<Rightarrow> (uint32 \<Rightarrow> string option) \<Rightarrow> uint32 \<Rightarrow> uint32 \<times> bool" where
  "gid_there cfg env ag g =
     (if inc_recurse cfg \<and> (\<not> am_root cfg \<or> numeric_ids cfg = 0 \<or> groupmap cfg)
      then gid_result (am_root cfg) env (id_names cfg ag) g else (g, False))"

text \<open>A table of the receiver is right, and knows the ids the sender has met.\<close>

definition ids_ok :: "bool \<Rightarrow> flist_cfg \<Rightarrow> id_env \<Rightarrow> (uint32 \<Rightarrow> string option) \<Rightarrow> idlist list \<Rightarrow> id_tab \<Rightarrow> bool" where
  "ids_ok w cfg env names sent tab \<longleftrightarrow> tab_right w (am_root cfg) env (id_names cfg names) tab \<and>
     (\<forall>n\<in>set sent. id_known (id_names cfg names) (il_id n) (tab_list tab))"

lemma known_or_named:
  assumes "ids_ok w cfg env names sent tab" and "inc_recurse cfg" and "id_name cfg names sent u = None"
  shows "id_known (id_names cfg names) u (tab_list tab)"
  using assms by (auto simp: ids_ok_def id_name_def add_uid_def id_names_def id_known_def list_ex_iff split: if_splits)

lemma ids_ok_list_after:
  assumes "ids_ok w cfg env names sent tab" and "id_known (id_names cfg names) u (tab_list tab)"
  shows "ids_ok w cfg env names (list_after cfg names same u sent) tab"
  using assms by (auto simp: ids_ok_def list_after_def add_uid_def sent_node_def)

lemma ids_ok_grow:
  assumes "ids_ok w cfg env names sent tab" and "tab_right w (am_root cfg) env (id_names cfg names) tab'"
    and "\<And>v. id_known (id_names cfg names) v (tab_list tab) \<Longrightarrow> id_known (id_names cfg names) v (tab_list tab')"
  shows "ids_ok w cfg env names sent tab'"
  using assms by (auto simp: ids_ok_def)

text \<open>The name of an id is read and added to the table.\<close>

lemma recv_sent_name:
  assumes names: "names_ok names" and ok: "ids_ok w cfg env names sent tab" and n: "id_name cfg names sent u = Some n"
  shows "\<exists>node tab'. (\<forall>s. recv_name_id w (am_root cfg) (numeric_ids cfg) env u tab (word_of_nat (length n) # to_bytes n @ s) = Inr (node, tab', s)) \<and>
    node_right w (am_root cfg) env (id_names cfg names) node \<and> il_id node = u \<and>
    ids_ok w cfg env names sent tab' \<and> id_known (id_names cfg names) u (tab_list tab') \<and>
    (\<forall>v. id_known (id_names cfg names) v (tab_list tab) \<longrightarrow> id_known (id_names cfg names) v (tab_list tab'))"
proof -
  have num: "numeric_ids cfg = 0" "names u = Some n" using n by (auto simp: id_name_def add_uid_def split: if_splits)
  then have N: "id_names cfg names u = Some n" "name_sendable (Some n)" using names by (auto simp: id_names_def names_ok_def) metis
  obtain node l where a: "recv_add_id w (am_root cfg) env u (id_names cfg names u) (tab_list tab) = (node, l)" by fastforce
  note T = tab_right_add [OF conjunct1 [OF ok [unfolded ids_ok_def]] a]
  have len: "\<not> 255 < length n" "n \<noteq> []" using N(2) by (simp_all add: name_sendable_def)
  have e: "drop (length (write_varint30 0 u)) (send_one_name 0 u (Some n)) = word_of_nat (length n) # to_bytes n"
    using len by (simp add: send_one_name_def)
  have "recv_name_id w (am_root cfg) (numeric_ids cfg) env u tab ((word_of_nat (length n) # to_bytes n) @ s) = Inr (node, tab\<lparr>tab_list := l\<rparr>, s)" for s
    using recv_name_id_send [OF N(2), of "numeric_ids cfg" w "am_root cfg" env u tab node l 0 s] num(1) a
    unfolding e N(1) by simp
  moreover have "id_known (id_names cfg names) v (tab_list (tab\<lparr>tab_list := l\<rparr>))" if "id_known (id_names cfg names) v (tab_list tab)" for v
    using that T(2) by (auto simp: id_known_def)
  ultimately show ?thesis
    using T ids_ok_grow [OF ok T(1)] by (intro exI [of _ node] exI [of _ "tab\<lparr>tab_list := l\<rparr>"]) (auto simp: id_known_def)
qed

lemma recv_uid_send:
  assumes pv: "30 \<le> fc_protocol_version cfg" and au: "names_ok au"
    and root: "preserve_uid cfg \<and> inc_recurse cfg \<and> numeric_ids cfg = 0 \<longrightarrow> am_root cfg"
    and ok: "inc_recurse cfg \<Longrightarrow> ids_ok True cfg env au sent (rv_users st)"
    and known: "inc_recurse cfg \<Longrightarrow> preserve_uid cfg \<Longrightarrow> same \<Longrightarrow> id_known (id_names cfg au) u (tab_list (rv_users st))"
    and r: "has r XMIT_SAME_UID \<longleftrightarrow> same" "has r XMIT_USER_NAME_FOLLOWS \<longleftrightarrow> \<not> same \<and> id_name cfg au sent u \<noteq> None"
    and x: "has x XMIT_USER_NAME_FOLLOWS \<longleftrightarrow> \<not> same \<and> id_name cfg au sent u \<noteq> None"
    and nm: "\<not> same \<Longrightarrow> numeric_ids cfg = 0 \<Longrightarrow> name = fst (add_uid au u sent)" and np: "\<not> preserve_uid cfg \<Longrightarrow> same"
  shows "\<exists>tab. (\<forall>s. recv_uid cfg env r st ((if preserve_uid cfg \<and> \<not> same then send_owner (fc_protocol_version cfg) x XMIT_USER_NAME_FOLLOWS u name
      else []) @ s) = Inr (st\<lparr>v_uid := (if preserve_uid cfg \<and> \<not> same then uid_there cfg env au u else v_uid st), rv_users := tab\<rparr>, s)) \<and>
    (inc_recurse cfg \<longrightarrow> ids_ok True cfg env au (list_after cfg au same u sent) tab \<and>
      (preserve_uid cfg \<longrightarrow> id_known (id_names cfg au) u (tab_list tab)) \<and>
      (\<forall>v. id_known (id_names cfg au) v (tab_list (rv_users st)) \<longrightarrow> id_known (id_names cfg au) v (tab_list tab)))"
proof (cases "preserve_uid cfg \<and> \<not> same")
  case False
  then show ?thesis
    using r(1) ok known np by (intro exI [of _ "rv_users st"]) (auto simp: recv_uid_def list_after_def)
next
  case True
  show ?thesis
  proof (cases "id_name cfg au sent u")
    case (Some n)
    then have inc: "inc_recurse cfg" "numeric_ids cfg = 0" by (auto simp: id_name_def split: if_splits)
    then have name: "name = Some n" using nm True Some by (simp add: id_name_def)
    obtain node tab where t: "\<And>s. recv_name_id True (am_root cfg) (numeric_ids cfg) env u (rv_users st) (word_of_nat (length n) # to_bytes n @ s) =
        Inr (node, tab, s)" "node_right True (am_root cfg) env (id_names cfg au) node" "il_id node = u" "ids_ok True cfg env au sent tab"
        "id_known (id_names cfg au) u (tab_list tab)"
        "\<forall>v. id_known (id_names cfg au) v (tab_list (rv_users st)) \<longrightarrow> id_known (id_names cfg au) v (tab_list tab)"
      using recv_sent_name [OF au ok [OF inc(1)] Some] by auto
    have "il_id2 node = uid_there cfg env au u"
      using t(2,3) inc root True by (simp add: node_right_def uid_there_def)
    then show ?thesis
      using True Some pv r x name t inc ids_ok_list_after [OF t(4,5)]
      by (intro exI [of _ tab]) (simp add: recv_uid_def send_owner_def read_varint_write_varint recv_user_name_def)
  next
    case None
    show ?thesis
    proof (cases "inc_recurse cfg \<and> am_root cfg \<and> (numeric_ids cfg = 0 \<or> usermap cfg)")
      case m: True
      then have k: "id_known (id_names cfg au) u (tab_list (rv_users st))" using known_or_named [OF ok _ None] by simp
      have tr: "tab_right True (am_root cfg) env (id_names cfg au) (rv_users st)" using m ok by (simp add: ids_ok_def)
      define tab where "tab = snd (match_uid (am_root cfg) env u (rv_users st))"
      have kn: "id_known (id_names cfg au) v (tab_list (rv_users st)) \<Longrightarrow> id_known (id_names cfg au) v (tab_list tab)" for v
        unfolding tab_def by (rule match_known(1))
      have "match_uid (am_root cfg) env u (rv_users st) = (uid_there cfg env au u, tab)"
        using match_uid_right(1) [OF tr k] m by (simp add: tab_def uid_there_def prod_eq_iff)
      moreover have "ids_ok True cfg env au sent tab"
        using ids_ok_grow [OF ok, of tab] m match_uid_right(2) [OF tr k] kn by (auto simp: tab_def)
      ultimately show ?thesis
        using True None pv r x m k kn ids_ok_list_after [of True cfg env au sent tab u same]
        by (intro exI [of _ tab]) (auto simp: recv_uid_def send_owner_def read_varint_write_varint)
    next
      case m: False
      then have "inc_recurse cfg \<Longrightarrow> numeric_ids cfg \<noteq> 0" using root True by auto
      then have "inc_recurse cfg \<Longrightarrow> list_after cfg au same u sent = sent \<and> id_names cfg au u = None"
        by (simp add: list_after_def id_names_def)
      then show ?thesis
        using True None pv r x m ok
        by (intro exI [of _ "rv_users st"]) (auto simp: recv_uid_def send_owner_def read_varint_write_varint uid_there_def id_known_def)
    qed
  qed
qed

lemma recv_gid_send:
  assumes pv: "30 \<le> fc_protocol_version cfg" and ag: "names_ok ag"
    and ok: "inc_recurse cfg \<Longrightarrow> ids_ok False cfg env ag sent (rv_groups st)"
    and known: "inc_recurse cfg \<Longrightarrow> preserve_gid cfg \<Longrightarrow> same \<Longrightarrow> id_known (id_names cfg ag) u (tab_list (rv_groups st))"
    and r: "has r XMIT_SAME_GID \<longleftrightarrow> same" "has r XMIT_GROUP_NAME_FOLLOWS \<longleftrightarrow> \<not> same \<and> id_name cfg ag sent u \<noteq> None"
    and x: "has x XMIT_GROUP_NAME_FOLLOWS \<longleftrightarrow> \<not> same \<and> id_name cfg ag sent u \<noteq> None"
    and nm: "\<not> same \<Longrightarrow> numeric_ids cfg = 0 \<Longrightarrow> name = fst (add_uid ag u sent)" and np: "\<not> preserve_gid cfg \<Longrightarrow> same"
  shows "\<exists>tab. (\<forall>s. recv_gid cfg env r st ((if preserve_gid cfg \<and> \<not> same then send_owner (fc_protocol_version cfg) x XMIT_GROUP_NAME_FOLLOWS u name
      else []) @ s) = Inr (st\<lparr>v_gid := (if preserve_gid cfg \<and> \<not> same then fst (gid_there cfg env ag u) else v_gid st),
        rv_gid_flags := (if preserve_gid cfg \<and> \<not> same then snd (gid_there cfg env ag u) else rv_gid_flags st), rv_groups := tab\<rparr>, s)) \<and>
    (inc_recurse cfg \<longrightarrow> ids_ok False cfg env ag (list_after cfg ag same u sent) tab \<and>
      (preserve_gid cfg \<longrightarrow> id_known (id_names cfg ag) u (tab_list tab)) \<and>
      (\<forall>v. id_known (id_names cfg ag) v (tab_list (rv_groups st)) \<longrightarrow> id_known (id_names cfg ag) v (tab_list tab)))"
proof (cases "preserve_gid cfg \<and> \<not> same")
  case False
  then show ?thesis
    using r(1) ok known np by (intro exI [of _ "rv_groups st"]) (auto simp: recv_gid_def list_after_def)
next
  case True
  show ?thesis
  proof (cases "id_name cfg ag sent u")
    case (Some n)
    then have inc: "inc_recurse cfg" "numeric_ids cfg = 0" by (auto simp: id_name_def split: if_splits)
    then have name: "name = Some n" using nm True Some by (simp add: id_name_def)
    obtain node tab where t: "\<And>s. recv_name_id False (am_root cfg) (numeric_ids cfg) env u (rv_groups st) (word_of_nat (length n) # to_bytes n @ s) =
        Inr (node, tab, s)" "node_right False (am_root cfg) env (id_names cfg ag) node" "il_id node = u" "ids_ok False cfg env ag sent tab"
        "id_known (id_names cfg ag) u (tab_list tab)"
        "\<forall>v. id_known (id_names cfg ag) v (tab_list (rv_groups st)) \<longrightarrow> id_known (id_names cfg ag) v (tab_list tab)"
      using recv_sent_name [OF ag ok [OF inc(1)] Some] by auto
    have "il_id2 node = fst (gid_there cfg env ag u)" "il_skip node = snd (gid_there cfg env ag u)"
      using t(2,3) inc by (simp_all add: node_right_def gid_there_def gid_result_def Let_def)
    then show ?thesis
      using True Some pv r x name t inc ids_ok_list_after [OF t(4,5)]
      by (intro exI [of _ tab]) (simp add: recv_gid_def send_owner_def read_varint_write_varint recv_group_name_def case_prod_beta)
  next
    case None
    show ?thesis
    proof (cases "inc_recurse cfg \<and> (\<not> am_root cfg \<or> numeric_ids cfg = 0 \<or> groupmap cfg)")
      case m: True
      then have k: "id_known (id_names cfg ag) u (tab_list (rv_groups st))" using known_or_named [OF ok _ None] by simp
      have tr: "tab_right False (am_root cfg) env (id_names cfg ag) (rv_groups st)" using m ok by (simp add: ids_ok_def)
      define tab where "tab = snd (match_gid (am_root cfg) env u (rv_groups st))"
      have kn: "id_known (id_names cfg ag) v (tab_list (rv_groups st)) \<Longrightarrow> id_known (id_names cfg ag) v (tab_list tab)" for v
        unfolding tab_def by (rule match_known(2))
      have "match_gid (am_root cfg) env u (rv_groups st) = (gid_there cfg env ag u, tab)"
        using match_gid_right(1) [OF tr k] m by (simp add: tab_def gid_there_def prod_eq_iff)
      moreover have "ids_ok False cfg env ag sent tab"
        using ids_ok_grow [OF ok, of tab] m match_gid_right(2) [OF tr k] kn by (auto simp: tab_def)
      ultimately show ?thesis
        using True None pv r x m k kn ids_ok_list_after [of False cfg env ag sent tab u same]
        by (intro exI [of _ tab]) (auto simp: recv_gid_def send_owner_def read_varint_write_varint case_prod_beta)
    next
      case m: False
      then have "inc_recurse cfg \<Longrightarrow> numeric_ids cfg \<noteq> 0" by auto
      then have "inc_recurse cfg \<Longrightarrow> list_after cfg ag same u sent = sent \<and> id_names cfg ag u = None"
        by (simp add: list_after_def id_names_def)
      then show ?thesis
        using True None pv r x m ok
        by (intro exI [of _ "rv_groups st"]) (auto simp: recv_gid_def send_owner_def read_varint_write_varint gid_there_def id_known_def)
    qed
  qed
qed

lemma makedev_major_minor [simp]: "makedev (major d) (minor d) = d"
proof (rule bit_word_eqI)
  fix n assume n: "n < LENGTH(64)"
  consider "n < 8" | "8 \<le> n" "n - 8 < 12" | "20 \<le> n" "n - 20 < 24" | "44 \<le> n" "n - 44 < 20" using n by simp linarith
  then consider "n < 8" | k where "n = 8 + k" "k < 12" | k where "n = 20 + k" "k < 24" | k where "n = 44 + k" "k < 20"
    by cases (metis le_add_diff_inverse)+
  then show "bit (makedev (major d) (minor d)) n = bit d n"
    unfolding major_def makedev_def minor_def by cases (simp_all add: bit_simps)
qed

lemma recv_rdev_send:
  assumes pv: "30 \<le> pv" and same: "has r XMIT_SAME_RDEV_MAJOR = has x XMIT_SAME_RDEV_MAJOR"
    "has x XMIT_SAME_RDEV_MAJOR \<Longrightarrow> major d = v_rdev_major st"
  shows "recv_rdev pv r st (send_rdev pv x d @ s) = Inr (st\<lparr>v_rdev_major := major d, v_rdev := d\<rparr>, s)"
  using assms makedev_major_minor [of d] by (cases "has x XMIT_SAME_RDEV_MAJOR") (simp_all add: recv_rdev_def send_rdev_def read_varint_write_varint write_varint30_def read_varint30_def)

section \<open>The two sides in step\<close>

text \<open>What a caller of send_file_entry guarantees, and the options the receiver may use.\<close>

definition cfg_ok :: "flist_cfg \<Rightarrow> bool" where
  "cfg_ok cfg \<longleftrightarrow> 30 \<le> fc_protocol_version cfg \<and> chmod_modes cfg = [] \<and> \<not> munge_symlinks cfg \<and> \<not> fc_sanitize_paths cfg \<and>
     (preserve_uid cfg \<and> inc_recurse cfg \<and> numeric_ids cfg = 0 \<longrightarrow> am_root cfg)"

definition entry_ok :: "flist_cfg \<Rightarrow> send_args \<Rightarrow> file_struct \<Rightarrow> bool" where
  "entry_ok cfg a file \<longleftrightarrow> name_accepted cfg (sa_fname a) \<and> 0 \<le> fs_mode file \<and> fs_mode file < 65536 \<and>
     (sa_symlink a \<noteq> [] \<longleftrightarrow> preserve_links cfg \<and> S_ISLNK (fs_mode file)) \<and>
     NUL \<notin> set (sa_symlink a) \<and> length (sa_symlink a) < MAXPATHLEN \<and>
     0 \<le> sint (fs_length file) \<and> (\<not> S_ISREG (fs_mode file) \<longrightarrow> fs_length file AND 0xFFFFFFFF = fs_length file) \<and>
     length (sa_sum a) = flist_csum_len cfg \<and> (sa_dev_ino a \<noteq> None \<longrightarrow> preserve_hard_links cfg)"

text \<open>The relation between the variables of the two sides.\<close>

definition attr_sync :: "flist_cfg \<Rightarrow> id_env \<Rightarrow> (uint32 \<Rightarrow> string option) \<Rightarrow> (uint32 \<Rightarrow> string option) \<Rightarrow>
    send_vars \<Rightarrow> recv_vars \<Rightarrow> bool" where
  "attr_sync cfg env au ag sst rst \<longleftrightarrow>
     v_modtime rst = v_modtime sst \<and> v_mode rst = v_mode sst \<and>
     v_atime rst = v_atime sst \<and> v_rdev_major rst = v_rdev_major sst \<and>
     (preserve_uid cfg \<and> v_lastname sst \<noteq> [] \<longrightarrow> v_uid rst = uid_there cfg env au (v_uid sst)) \<and>
     (preserve_gid cfg \<and> v_lastname sst \<noteq> [] \<longrightarrow> (v_gid rst, rv_gid_flags rst) = gid_there cfg env ag (v_gid sst)) \<and>
     (inc_recurse cfg \<longrightarrow>
        ids_ok True cfg env au (sv_uidlist sst) (rv_users rst) \<and> ids_ok False cfg env ag (sv_gidlist sst) (rv_groups rst) \<and>
        (preserve_uid cfg \<and> v_lastname sst \<noteq> [] \<longrightarrow> id_known (id_names cfg au) (v_uid sst) (tab_list (rv_users rst))) \<and>
        (preserve_gid cfg \<and> v_lastname sst \<noteq> [] \<longrightarrow> id_known (id_names cfg ag) (v_gid sst) (tab_list (rv_groups rst))))"

definition vars_sync :: "flist_cfg \<Rightarrow> id_env \<Rightarrow> (uint32 \<Rightarrow> string option) \<Rightarrow> (uint32 \<Rightarrow> string option) \<Rightarrow>
    send_vars \<Rightarrow> recv_vars \<Rightarrow> bool" where
  "vars_sync cfg env au ag sst rst \<longleftrightarrow>
     v_lastname rst = v_lastname sst \<and> attr_sync cfg env au ag sst rst \<and>
     (case rv_lastdir rst of None \<Rightarrow> True | Some d \<Rightarrow> rv_lastdir_depth rst = count_dir_elements d)"

definition attrs_there :: "flist_cfg \<Rightarrow> id_env \<Rightarrow> (uint32 \<Rightarrow> string option) \<Rightarrow> (uint32 \<Rightarrow> string option) \<Rightarrow>
    send_args \<Rightarrow> file_struct \<Rightarrow> id_tab \<Rightarrow> id_tab \<Rightarrow> recv_vars \<Rightarrow> recv_vars" where
  "attrs_there cfg env au ag a file users groups st = st\<lparr>rv_users := users, rv_groups := groups,
     v_modtime := fs_modtime file, v_mode := fs_mode file,
     v_atime := (if sends_atime cfg file then fs_atime file else v_atime st),
     v_uid := (if preserve_uid cfg then uid_there cfg env au (fs_uid file) else v_uid st),
     v_gid := (if preserve_gid cfg then fst (gid_there cfg env ag (fs_gid file)) else v_gid st),
     rv_gid_flags := (if preserve_gid cfg then snd (gid_there cfg env ag (fs_gid file)) else rv_gid_flags st),
     v_rdev_major := (if sends_rdev cfg file then major (sa_rdev a) else v_rdev_major st),
     v_rdev := (if sends_rdev cfg file then sa_rdev a else if fakes_rdev cfg file then makedev (v_rdev_major st) 0 else v_rdev st)\<rparr>"

lemma small_link: "n < 4096 \<Longrightarrow> sint (word_of_nat n + 1 :: int32) = int n + 1"
  using sint_word_of_int_small [of "int n + 1"] by (simp add: add.commute)

lemma uint_mode: "0 \<le> m \<Longrightarrow> m < 65536 \<Longrightarrow> uint (word_of_int m :: int32) = m"
  by (simp add: uint_word_of_int_eq take_bit_int_eq_self)

lemma has_rdev_alt: "has_rdev cfg (fs_mode file) \<longleftrightarrow> sends_rdev cfg file \<or> fakes_rdev cfg file"
  by (auto simp: has_rdev_def sends_rdev_def fakes_rdev_def)

lemma rdev_excl: "sends_rdev cfg file \<Longrightarrow> \<not> fakes_rdev cfg file"
  by (auto simp: sends_rdev_def fakes_rdev_def IS_DEVICE_def IS_SPECIAL_def)

definition sum_bytes :: "flist_cfg \<Rightarrow> send_args \<Rightarrow> file_struct \<Rightarrow> byte list" where
  "sum_bytes cfg a file = (if always_checksum cfg \<and> S_ISREG (fs_mode file) then sa_sum a else [])"

lemma same_uid_there:
  assumes "attr_sync cfg env au ag sst rst" and "preserve_uid cfg" and "same_uid cfg file sst"
  shows "v_uid rst = uid_there cfg env au (fs_uid file)"
  using assms by (auto simp: attr_sync_def same_uid_def)

lemma same_gid_there:
  assumes "attr_sync cfg env au ag sst rst" and "preserve_gid cfg" and "same_gid cfg file sst"
  shows "v_gid rst = fst (gid_there cfg env ag (fs_gid file))" "rv_gid_flags rst = snd (gid_there cfg env ag (fs_gid file))"
  using assms by (simp_all add: attr_sync_def same_gid_def) (metis fst_conv snd_conv)+

text \<open>What an entry does to the tables of the receiver: they are right for the lists of the sender, know the
  ids of the file, and still know what they knew.\<close>

definition tab_step :: "bool \<Rightarrow> flist_cfg \<Rightarrow> id_env \<Rightarrow> (uint32 \<Rightarrow> string option) \<Rightarrow> bool \<Rightarrow> uint32 \<Rightarrow> idlist list \<Rightarrow> id_tab \<Rightarrow> id_tab \<Rightarrow> bool" where
  "tab_step w cfg env names keep u sent tab tab' \<longleftrightarrow> (inc_recurse cfg \<longrightarrow>
     ids_ok w cfg env names sent tab' \<and> (keep \<longrightarrow> id_known (id_names cfg names) u (tab_list tab')) \<and>
     (\<forall>v. id_known (id_names cfg names) v (tab_list tab) \<longrightarrow> id_known (id_names cfg names) v (tab_list tab')))"

definition ids_step :: "flist_cfg \<Rightarrow> id_env \<Rightarrow> (uint32 \<Rightarrow> string option) \<Rightarrow> (uint32 \<Rightarrow> string option) \<Rightarrow>
    file_struct \<Rightarrow> send_vars \<Rightarrow> recv_vars \<Rightarrow> recv_vars \<Rightarrow> bool" where
  "ids_step cfg env au ag file sv st st' \<longleftrightarrow>
     tab_step True cfg env au (preserve_uid cfg) (fs_uid file) (sv_uidlist sv) (rv_users st) (rv_users st') \<and>
     tab_step False cfg env ag (preserve_gid cfg) (fs_gid file) (sv_gidlist sv) (rv_groups st) (rv_groups st')"

lemma recv_uid_there:
  assumes cfg: "cfg_ok cfg" and au: "names_ok au" and sync: "attr_sync cfg env au ag sst rst"
    and sv: "sv = vars_after cfg au ag a file n sst" and st: "v_uid st = v_uid rst" "rv_users st = rv_users rst"
    and r: "xmit_agree (S_ISDIR (fs_mode file)) r (flags_after cfg au ag a file sst)"
    and x: "xmit_agree (S_ISDIR (fs_mode file)) x (flags_after cfg au ag a file sst)"
  shows "\<exists>users. (\<forall>s. recv_uid cfg env r st ((if preserve_uid cfg \<and> \<not> same_uid cfg file sst
      then send_owner (fc_protocol_version cfg) x XMIT_USER_NAME_FOLLOWS (v_uid sv) (sv_user_name sv) else []) @ s) =
        Inr (st\<lparr>v_uid := (if preserve_uid cfg then uid_there cfg env au (fs_uid file) else v_uid rst), rv_users := users\<rparr>, s)) \<and>
    tab_step True cfg env au (preserve_uid cfg) (fs_uid file) (sv_uidlist sv) (rv_users rst) users"
proof -
  have pv: "30 \<le> fc_protocol_version cfg" and root: "preserve_uid cfg \<and> inc_recurse cfg \<and> numeric_ids cfg = 0 \<longrightarrow> am_root cfg"
    using cfg by (simp_all add: cfg_ok_def)
  note R = flags_has [OF pv r] and X = flags_has [OF pv x]
  have O: "\<not> same_uid cfg file sst \<Longrightarrow> v_uid sv = fs_uid file" "sv_uidlist sv = list_after cfg au (same_uid cfg file sst) (fs_uid file) (sv_uidlist sst)"
    "\<not> same_uid cfg file sst \<Longrightarrow> numeric_ids cfg = 0 \<Longrightarrow> sv_user_name sv = fst (add_uid au (fs_uid file) (sv_uidlist sst))"
    by (simp_all add: sv vars_after_def)
  have ok: "inc_recurse cfg \<Longrightarrow> ids_ok True cfg env au (sv_uidlist sst) (rv_users st)"
    "inc_recurse cfg \<Longrightarrow> preserve_uid cfg \<Longrightarrow> same_uid cfg file sst \<Longrightarrow> id_known (id_names cfg au) (fs_uid file) (tab_list (rv_users st))"
    "\<not> preserve_uid cfg \<Longrightarrow> same_uid cfg file sst"
    using sync st by (auto simp: attr_sync_def same_uid_def)
  have v: "(if preserve_uid cfg \<and> \<not> same_uid cfg file sst then uid_there cfg env au (fs_uid file) else v_uid st) =
      (if preserve_uid cfg then uid_there cfg env au (fs_uid file) else v_uid rst)"
    using same_uid_there [OF sync, of "file"] st by simp
  have b: "(if preserve_uid cfg \<and> \<not> same_uid cfg file sst then send_owner (fc_protocol_version cfg) x XMIT_USER_NAME_FOLLOWS (v_uid sv) N else []) =
      (if preserve_uid cfg \<and> \<not> same_uid cfg file sst then send_owner (fc_protocol_version cfg) x XMIT_USER_NAME_FOLLOWS (fs_uid file) N else [])" for N
    using O(1) by simp
  show ?thesis
    using recv_uid_send [OF pv au root ok(1,2) R(2) R(11) X(11) O(3) ok(3)] unfolding b v O(2) tab_step_def st(2) .
qed

lemma recv_gid_there:
  assumes cfg: "cfg_ok cfg" and ag: "names_ok ag" and sync: "attr_sync cfg env au ag sst rst"
    and sv: "sv = vars_after cfg au ag a file n sst" and st: "v_gid st = v_gid rst" "rv_gid_flags st = rv_gid_flags rst" "rv_groups st = rv_groups rst"
    and r: "xmit_agree (S_ISDIR (fs_mode file)) r (flags_after cfg au ag a file sst)"
    and x: "xmit_agree (S_ISDIR (fs_mode file)) x (flags_after cfg au ag a file sst)"
  shows "\<exists>groups. (\<forall>s. recv_gid cfg env r st ((if preserve_gid cfg \<and> \<not> same_gid cfg file sst
      then send_owner (fc_protocol_version cfg) x XMIT_GROUP_NAME_FOLLOWS (v_gid sv) (sv_group_name sv) else []) @ s) =
        Inr (st\<lparr>v_gid := (if preserve_gid cfg then fst (gid_there cfg env ag (fs_gid file)) else v_gid rst),
          rv_gid_flags := (if preserve_gid cfg then snd (gid_there cfg env ag (fs_gid file)) else rv_gid_flags rst), rv_groups := groups\<rparr>, s)) \<and>
    tab_step False cfg env ag (preserve_gid cfg) (fs_gid file) (sv_gidlist sv) (rv_groups rst) groups"
proof -
  have pv: "30 \<le> fc_protocol_version cfg" using cfg by (simp add: cfg_ok_def)
  note R = flags_has [OF pv r] and X = flags_has [OF pv x]
  have O: "\<not> same_gid cfg file sst \<Longrightarrow> v_gid sv = fs_gid file" "sv_gidlist sv = list_after cfg ag (same_gid cfg file sst) (fs_gid file) (sv_gidlist sst)"
    "\<not> same_gid cfg file sst \<Longrightarrow> numeric_ids cfg = 0 \<Longrightarrow> sv_group_name sv = fst (add_uid ag (fs_gid file) (sv_gidlist sst))"
    by (simp_all add: sv vars_after_def)
  have ok: "inc_recurse cfg \<Longrightarrow> ids_ok False cfg env ag (sv_gidlist sst) (rv_groups st)"
    "inc_recurse cfg \<Longrightarrow> preserve_gid cfg \<Longrightarrow> same_gid cfg file sst \<Longrightarrow> id_known (id_names cfg ag) (fs_gid file) (tab_list (rv_groups st))"
    "\<not> preserve_gid cfg \<Longrightarrow> same_gid cfg file sst"
    using sync st by (auto simp: attr_sync_def same_gid_def)
  have v: "(if preserve_gid cfg \<and> \<not> same_gid cfg file sst then fst (gid_there cfg env ag (fs_gid file)) else v_gid st) =
      (if preserve_gid cfg then fst (gid_there cfg env ag (fs_gid file)) else v_gid rst)"
    "(if preserve_gid cfg \<and> \<not> same_gid cfg file sst then snd (gid_there cfg env ag (fs_gid file)) else rv_gid_flags st) =
      (if preserve_gid cfg then snd (gid_there cfg env ag (fs_gid file)) else rv_gid_flags rst)"
    using same_gid_there [OF sync, of "file"] st by simp_all
  have b: "(if preserve_gid cfg \<and> \<not> same_gid cfg file sst then send_owner (fc_protocol_version cfg) x XMIT_GROUP_NAME_FOLLOWS (v_gid sv) N else []) =
      (if preserve_gid cfg \<and> \<not> same_gid cfg file sst then send_owner (fc_protocol_version cfg) x XMIT_GROUP_NAME_FOLLOWS (fs_gid file) N else [])" for N
    using O(1) by simp
  show ?thesis
    using recv_gid_send [OF pv ag ok(1,2) R(3) R(12) X(12) O(3) ok(3)] unfolding b v O(2) tab_step_def st(3) .
qed

lemma recv_attrs_send_attrs:
  assumes cfg: "cfg_ok cfg" and ok: "entry_ok cfg a file" and names: "names_ok au" "names_ok ag"
    and sync: "attr_sync cfg env au ag sst rst"
    and r: "xmit_agree (S_ISDIR (fs_mode file)) r (flags_after cfg au ag a file sst)"
    and x: "xmit_agree (S_ISDIR (fs_mode file)) x (flags_after cfg au ag a file sst)"
  shows "\<exists>users groups. recv_attrs cfg env r rst (send_attrs cfg a file x (vars_after cfg au ag a file n sst) @ s) =
    Inr (if has_rdev cfg (fs_mode file) then 0 else fs_length file, if fc_protocol_version cfg \<ge> 31 then fs_nsec file else 0,
      if preserve_links cfg \<and> S_ISLNK (fs_mode file) then int (length (sa_symlink a)) + 1 else 0,
      attrs_there cfg env au ag a file users groups rst, to_bytes (sa_symlink a) @ sum_bytes cfg a file @ s) \<and>
    ids_step cfg env au ag file (vars_after cfg au ag a file n sst) rst (attrs_there cfg env au ag a file users groups rst)"
proof -
  define pv where "pv = fc_protocol_version cfg"
  have pv: "30 \<le> fc_protocol_version cfg" using cfg by (simp add: cfg_ok_def)
  note R = flags_has [OF pv r] and X = flags_has [OF pv x]
  define sv where "sv = vars_after cfg au ag a file n sst"
  have sv: "v_mode sv = fs_mode file" "v_modtime sv = fs_modtime file"
      "sends_atime cfg file \<Longrightarrow> v_atime sv = fs_atime file"
    by (simp_all add: sv_def vars_after_def)
  define S8 where "S8 = to_bytes (sa_symlink a) @ sum_bytes cfg a file @ s"
  define S7 where "S7 = (if sa_symlink a \<noteq> [] then write_varint30 pv (word_of_nat (length (sa_symlink a))) else []) @ S8"
  define S6 where "S6 = (if has_rdev cfg (fs_mode file) then send_rdev pv x (v_rdev sv) else []) @ S7"
  define S5 where "S5 = (if preserve_gid cfg \<and> \<not> same_gid cfg file sst
    then send_owner pv x XMIT_GROUP_NAME_FOLLOWS (v_gid sv) (sv_group_name sv) else []) @ S6"
  define S4 where "S4 = (if preserve_uid cfg \<and> \<not> same_uid cfg file sst
    then send_owner pv x XMIT_USER_NAME_FOLLOWS (v_uid sv) (sv_user_name sv) else []) @ S5"
  define S3 where "S3 = (if atimes cfg \<and> \<not> S_ISDIR (fs_mode file) \<and> \<not> has x XMIT_SAME_ATIME then write_varlong (v_atime sv) 4 else []) @ S4"
  define S2 where "S2 = (if has x XMIT_SAME_MODE then [] else write_int (word_of_int (fs_mode file))) @ S3"
  define S1 where "S1 = (if has x XMIT_MOD_NSEC then write_varint (fs_nsec file) else []) @ S2"
  define S0 where "S0 = (if has x XMIT_SAME_TIME then [] else write_varlong (fs_modtime file) 4) @ S1"
  have B: "send_attrs cfg a file x sv @ s = write_varlong30 pv (fs_length file) 3 @ S0"
  proof -
    have L: "(if sa_symlink a \<noteq> [] then W @ to_bytes (sa_symlink a) else []) @ Y =
      (if sa_symlink a \<noteq> [] then W else []) @ to_bytes (sa_symlink a) @ Y" for W Y
      by (simp add: to_bytes_def)
    have D: "(case sa_dev_ino a of Some (_, ino) \<Rightarrow> if pv < 30 then F ino else [] | None \<Rightarrow> []) = []" for F :: "int64 \<Rightarrow> byte list"
      using pv by (simp add: pv_def split: option.split)
    have C: "(if always_checksum cfg \<and> (S_ISREG (fs_mode file) \<or> pv < 28)
         then if S_ISREG (fs_mode file) then take (flist_csum_len cfg) (sa_sum a) else replicate (flist_csum_len cfg) 0 else []) =
      sum_bytes cfg a file"
      using pv ok by (simp add: pv_def sum_bytes_def entry_ok_def)
    have p: "pv \<ge> 30 \<longleftrightarrow> True" using pv by (simp add: pv_def)
    show ?thesis
      unfolding send_attrs_def Let_def sv pv_def [symmetric] D C p if_True X(2,3) append_assoc L
      unfolding S0_def S1_def S2_def S3_def S4_def S5_def S6_def S7_def S8_def append_assoc append_Nil ..
  qed
  have R': "has r XMIT_SAME_TIME = has x XMIT_SAME_TIME" "has r XMIT_MOD_NSEC = has x XMIT_MOD_NSEC"
    "has r XMIT_SAME_MODE = has x XMIT_SAME_MODE" "has r XMIT_SAME_ATIME = has x XMIT_SAME_ATIME"
    "has r XMIT_SAME_RDEV_MAJOR = has x XMIT_SAME_RDEV_MAJOR"
    using R X by simp_all
  have V: "v_modtime rst = v_modtime sst" "v_mode rst = v_mode sst" "v_atime rst = v_atime sst" "v_rdev_major rst = v_rdev_major sst"
    using sync by (simp_all add: attr_sync_def)
  have e0: "read_varlong30 pv 3 (write_varlong30 pv (fs_length file) 3 @ S0) = Inr (fs_length file, S0)"
    using pv by (simp add: read_varlong30_def write_varlong30_def pv_def read_varlong_write_varlong)
  have e1: "(if has r XMIT_SAME_TIME then Inr (v_modtime rst, S0) else if pv \<ge> 30 then read_varlong 4 S0
      else res_bind (read_int S0) (\<lambda>(t, s). Inr (scast t, s))) = Inr (fs_modtime file, S1)"
    using pv X(6) V(1) unfolding R' S0_def by (simp add: pv_def read_varlong_write_varlong)
  have e2: "(if has r XMIT_MOD_NSEC then read_varint S1 else Inr (0, S1)) = Inr (if pv \<ge> 31 then fs_nsec file else 0, S2)"
    using X(13) unfolding R' S1_def by (simp add: pv_def read_varint_write_varint)
  have e3: "(if has r XMIT_SAME_MODE then Inr (v_mode rst, S2) else res_bind (read_int S2) (\<lambda>(m, s). Inr (uint m, s))) = Inr (fs_mode file, S3)"
    using X(1) V(2) ok unfolding R' S2_def by (simp add: uint_mode entry_ok_def)
  have e4: "(if atimes cfg \<and> \<not> S_ISDIR (fs_mode file) \<and> \<not> has r XMIT_SAME_ATIME then read_varlong 4 S3 else Inr (v_atime rst, S3)) =
      Inr (if sends_atime cfg file then fs_atime file else v_atime rst, S4)"
    using X(14) V(3) sv(3) unfolding R' S3_def by (auto simp: sends_atime_def read_varlong_write_varlong)
  define st1 where "st1 = rst\<lparr>v_modtime := fs_modtime file, v_mode := fs_mode file,
    v_atime := (if sends_atime cfg file then fs_atime file else v_atime rst)\<rparr>"
  obtain users where U: "\<And>s. recv_uid cfg env r st1 ((if preserve_uid cfg \<and> \<not> same_uid cfg file sst
      then send_owner pv x XMIT_USER_NAME_FOLLOWS (v_uid sv) (sv_user_name sv) else []) @ s) =
      Inr (st1\<lparr>v_uid := (if preserve_uid cfg then uid_there cfg env au (fs_uid file) else v_uid rst), rv_users := users\<rparr>, s)"
      and U': "tab_step True cfg env au (preserve_uid cfg) (fs_uid file) (sv_uidlist sv) (rv_users rst) users"
    using recv_uid_there [OF cfg names(1) sync sv_def _ _ r x, of st1, folded pv_def] by (auto simp: st1_def)
  define st2 where "st2 = st1\<lparr>v_uid := (if preserve_uid cfg then uid_there cfg env au (fs_uid file) else v_uid rst), rv_users := users\<rparr>"
  obtain groups where G: "\<And>s. recv_gid cfg env r st2 ((if preserve_gid cfg \<and> \<not> same_gid cfg file sst
      then send_owner pv x XMIT_GROUP_NAME_FOLLOWS (v_gid sv) (sv_group_name sv) else []) @ s) =
      Inr (st2\<lparr>v_gid := (if preserve_gid cfg then fst (gid_there cfg env ag (fs_gid file)) else v_gid rst),
        rv_gid_flags := (if preserve_gid cfg then snd (gid_there cfg env ag (fs_gid file)) else rv_gid_flags rst), rv_groups := groups\<rparr>, s)"
      and G': "tab_step False cfg env ag (preserve_gid cfg) (fs_gid file) (sv_gidlist sv) (rv_groups rst) groups"
    using recv_gid_there [OF cfg names(2) sync sv_def _ _ _ r x, of st2, folded pv_def] by (auto simp: st2_def st1_def)
  define st3 where "st3 = st2\<lparr>v_gid := (if preserve_gid cfg then fst (gid_there cfg env ag (fs_gid file)) else v_gid rst),
    rv_gid_flags := (if preserve_gid cfg then snd (gid_there cfg env ag (fs_gid file)) else rv_gid_flags rst), rv_groups := groups\<rparr>"
  have e5: "recv_uid cfg env r st1 S4 = Inr (st2, S5)" and e6: "recv_gid cfg env r st2 S5 = Inr (st3, S6)"
    unfolding S4_def S5_def U G st2_def [symmetric] st3_def by (rule refl)+
  have e7: "(if has_rdev cfg (fs_mode file) then recv_rdev pv r st3 S6
      else Inr (if pv < 28 then st3\<lparr>v_rdev := makedev 0 0\<rparr> else st3, S6)) = Inr (attrs_there cfg env au ag a file users groups rst, S7)"
  proof (cases "has_rdev cfg (fs_mode file)")
    case True
    have "\<not> S_ISDIR (fs_mode file)" using True reg_not_dir [of "fs_mode file"] by (auto simp: has_rdev_def)
    then have "has x XMIT_SAME_RDEV_MAJOR \<Longrightarrow> major (v_rdev sv) = v_rdev_major st3"
      using X(7) V(4) by (auto simp: sv_def vars_after_def st3_def st2_def st1_def)
    from recv_rdev_send [OF pv R'(5) this, of S7] True rdev_excl [of cfg "file"] V(4)
    show ?thesis
      unfolding has_rdev_alt S6_def pv_def
      by (auto simp: sv_def vars_after_def attrs_there_def st3_def st2_def st1_def)
  next
    case False
    then show ?thesis
      using pv by (simp add: has_rdev_alt S6_def pv_def attrs_there_def st3_def st2_def st1_def)
  qed
  have lk: "length (sa_symlink a) < 4096" "sa_symlink a \<noteq> [] \<longleftrightarrow> preserve_links cfg \<and> S_ISLNK (fs_mode file)"
    using ok by (simp_all add: entry_ok_def MAXPATHLEN_def)
  have e8: "preserve_links cfg \<and> S_ISLNK (fs_mode file) \<Longrightarrow> read_varint30 pv S7 = Inr (word_of_nat (length (sa_symlink a)), S8)"
    "\<not> (preserve_links cfg \<and> S_ISLNK (fs_mode file)) \<Longrightarrow> S7 = S8"
    using lk(2) by (auto simp: S7_def)
  have cm: "chmod_modes cfg = []" using cfg by (simp add: cfg_ok_def)
  have "recv_attrs cfg env r rst (send_attrs cfg a file x sv @ s) =
    Inr (if has_rdev cfg (fs_mode file) then 0 else fs_length file, if pv \<ge> 31 then fs_nsec file else 0,
      if preserve_links cfg \<and> S_ISLNK (fs_mode file) then int (length (sa_symlink a)) + 1 else 0,
      attrs_there cfg env au ag a file users groups rst, S8)"
    unfolding B recv_attrs_def Let_def pv_def [symmetric] e0 res_bind_simps prod.case e1 e2 e3 e4
      cm simp_thms if_False st1_def [symmetric] e5 e6 e7
    using small_link [OF lk(1)] lk(1) e8
    by (cases "preserve_links cfg \<and> S_ISLNK (fs_mode file)") (simp only: if_P if_not_P, simp add: MAXPATHLEN_def)+
  moreover have "ids_step cfg env au ag file sv rst (attrs_there cfg env au ag a file users groups rst)"
    using U' G' by (simp add: ids_step_def attrs_there_def)
  ultimately show ?thesis unfolding sv_def S8_def pv_def by blast
qed

end
