(* ===== verification/FlistList.thy ===== *)
theory FlistList
  imports FlistAttrs
begin

text \<open>
  A whole file list: the file the receiver creates from the attributes it has read, one entry, and
  all of them, with the hard links between them.
\<close>

section \<open>The file that is created\<close>

text \<open>The file the receiver has to end up with.\<close>

definition file_there :: "flist_cfg \<Rightarrow> id_env \<Rightarrow> (uint32 \<Rightarrow> string option) \<Rightarrow> (uint32 \<Rightarrow> string option) \<Rightarrow>
    send_args \<Rightarrow> file_struct \<Rightarrow> int \<Rightarrow> file_struct" where
  "file_there cfg env au ag a file gnum =
     (let (dirname, basename) = split_name (sa_fname a);
          depth = (case dirname of None \<Rightarrow> 1 | Some d \<Rightarrow> count_dir_elements d + 1);
          dir = S_ISDIR (fs_mode file) in
      \<lparr>fs_dirname = dirname, fs_basename = basename,
       fs_modtime = fs_modtime file, fs_nsec = (if fc_protocol_version cfg \<ge> 31 then fs_nsec file else 0),
       fs_length = (if has_rdev cfg (fs_mode file) then 0 else fs_length file), fs_mode = fs_mode file,
       fs_uid = (if preserve_uid cfg then uid_there cfg env au (fs_uid file) else 0),
       fs_gid = (if preserve_gid cfg then fst (gid_there cfg env ag (fs_gid file)) else 0),
       fs_atime = (if sends_atime cfg file then fs_atime file else 0),
       fs_rdev = (if sends_rdev cfg file then sa_rdev a else 0),
       fs_symlink = sa_symlink a, fs_sum = sum_bytes cfg a file, fs_hl_gnum = gnum,
       fs_depth = (if dir \<and> basename = ''.'' then depth - 1 else depth),
       FLAG_TOP_DIR = (dir \<and> FLAG_CONTENT_DIR file \<and> FLAG_TOP_DIR file),
       FLAG_CONTENT_DIR = (dir \<and> FLAG_CONTENT_DIR file),
       FLAG_IMPLIED_DIR = (dir \<and> \<not> FLAG_CONTENT_DIR file \<and> FLAG_IMPLIED_DIR file),
       FLAG_HLINKED = (sa_dev_ino a \<noteq> None),
       FLAG_SKIP_GROUP = (preserve_gid cfg \<and> snd (gid_there cfg env ag (fs_gid file))), FLAG_DUPLICATE = False\<rparr>)"

definition hl_gnum :: "send_args \<Rightarrow> int \<Rightarrow> int \<Rightarrow> int" where
  "hl_gnum a n h = (if sa_dev_ino a = None then 0 else if h < 0 then n else h)"

lemma recv_sum_read:
  assumes "entry_ok cfg a file" and "30 \<le> fc_protocol_version cfg"
  shows "recv_sum cfg (fs_mode file) None (sum_bytes cfg a file @ s) = Inr (sum_bytes cfg a file, s)"
  using assms by (simp add: recv_sum_def sum_bytes_def entry_ok_def)

lemma recv_symlink_read:
  assumes "entry_ok cfg a file" and "cfg_ok cfg"
  shows "recv_symlink cfg None (if preserve_links cfg \<and> S_ISLNK (fs_mode file) then int (length (sa_symlink a)) + 1 else 0) st
      (to_bytes (sa_symlink a) @ s) = Inr (sa_symlink a, s)"
proof (cases "preserve_links cfg \<and> S_ISLNK (fs_mode file)")
  case True
  then show ?thesis using assms by (simp add: recv_symlink_def entry_ok_def cfg_ok_def read_sbuf_to_bytes)
next
  case False
  then have "sa_symlink a = []" using assms(1) by (auto simp: entry_ok_def)
  then show ?thesis using False by (auto simp: recv_symlink_def to_bytes_def)
qed

text \<open>The variables after the attributes of a file have been read.\<close>

definition attr_vars :: "flist_cfg \<Rightarrow> id_env \<Rightarrow> (uint32 \<Rightarrow> string option) \<Rightarrow> (uint32 \<Rightarrow> string option) \<Rightarrow>
    send_args \<Rightarrow> file_struct \<Rightarrow> recv_vars \<Rightarrow> bool" where
  "attr_vars cfg env au ag a file st \<longleftrightarrow>
     v_mode st = fs_mode file \<and> v_modtime st = fs_modtime file \<and>
     (sends_atime cfg file \<longrightarrow> v_atime st = fs_atime file) \<and>
     (preserve_uid cfg \<longrightarrow> v_uid st = uid_there cfg env au (fs_uid file)) \<and>
     (preserve_gid cfg \<longrightarrow> v_gid st = fst (gid_there cfg env ag (fs_gid file)) \<and>
        rv_gid_flags st = snd (gid_there cfg env ag (fs_gid file))) \<and>
     (sends_rdev cfg file \<longrightarrow> v_rdev st = sa_rdev a) \<and>
     (case fst (split_name (sa_fname a)) of None \<Rightarrow> True | Some d \<Rightarrow> rv_lastdir_depth st = count_dir_elements d)"

lemma recv_create_eq:
  assumes cfg: "cfg_ok cfg" and ok: "entry_ok cfg a file" and st: "attr_vars cfg env au ag a file st"
    and r: "xmit_agree (S_ISDIR (fs_mode file)) r (flags_after cfg au ag a file sst)"
    and h: "sa_dev_ino a \<noteq> None \<Longrightarrow> h = first_link (sa_dev_ino a) sst"
    and link: "\<And>s. recv_symlink cfg first ll st (L @ s) = Inr (sa_symlink a, s)"
    and sm: "\<And>s. recv_sum cfg (fs_mode file) first (K @ s) = Inr (sum_bytes cfg a file, s)"
  shows "recv_create cfg r (sa_fname a) l1 l2 n h first
      (if has_rdev cfg (fs_mode file) then 0 else fs_length file, if fc_protocol_version cfg \<ge> 31 then fs_nsec file else 0, ll, st) (L @ K @ s) =
    Inr (file_there cfg env au ag a file (hl_gnum a n h), st, s)"
proof -
  have pv: "30 \<le> fc_protocol_version cfg" using cfg by (simp add: cfg_ok_def)
  note R = flags_has [OF pv r]
  obtain d b where db: "split_name (sa_fname a) = (d, b)" by fastforce
  have m: "v_mode st = fs_mode file" "take_bit 16 (fs_mode file) = fs_mode file"
    using st ok by (auto simp: attr_vars_def entry_ok_def take_bit_int_eq_self)
  have len: "\<not> sint (if has_rdev cfg (fs_mode file) then 0 else fs_length file) < 0" using ok by (simp add: entry_ok_def)
  have len2: "(if S_ISREG (fs_mode file) then (if has_rdev cfg (fs_mode file) then 0 else fs_length file)
      else (if has_rdev cfg (fs_mode file) then 0 else fs_length file) AND 0xFFFFFFFF) = (if has_rdev cfg (fs_mode file) then 0 else fs_length file)"
    using ok by (simp add: entry_ok_def)
  have hl: "recv_hlink cfg r n h st s = Inr (hl_gnum a n h, st, s)" for s
    using pv R(9,10) h ok by (auto simp: recv_hlink_def hl_gnum_def entry_ok_def)
  define G where "G = \<lparr>fs_dirname = d, fs_basename = b,
       fs_modtime = v_modtime st, fs_nsec = (if fc_protocol_version cfg \<ge> 31 then fs_nsec file else 0),
       fs_length = (if has_rdev cfg (fs_mode file) then 0 else fs_length file), fs_mode = fs_mode file,
       fs_uid = (if preserve_uid cfg then v_uid st else 0), fs_gid = (if preserve_gid cfg then v_gid st else 0),
       fs_atime = (if atimes cfg \<and> \<not> S_ISDIR (fs_mode file) then v_atime st else 0),
       fs_rdev = (if preserve_devices cfg \<and> IS_DEVICE (fs_mode file) then makedev (major (v_rdev st)) (minor (v_rdev st)) else 0),
       fs_symlink = [], fs_sum = [], fs_hl_gnum = 0,
       fs_depth = (if d \<noteq> None then rv_lastdir_depth st + 1 else 1),
       FLAG_TOP_DIR = False, FLAG_CONTENT_DIR = False, FLAG_IMPLIED_DIR = False,
       FLAG_HLINKED = has r XMIT_HLINKED, FLAG_SKIP_GROUP = (preserve_gid cfg \<and> rv_gid_flags st), FLAG_DUPLICATE = False\<rparr>"
  define F where "F = file_there cfg env au ag a file 0\<lparr>fs_symlink := [], fs_sum := []\<rparr>"
  have "recv_create cfg r (sa_fname a) l1 l2 n h first
      (if has_rdev cfg (fs_mode file) then 0 else fs_length file, if fc_protocol_version cfg \<ge> 31 then fs_nsec file else 0, ll, st) (L @ K @ s) =
    res_bind (recv_symlink cfg first ll st (L @ K @ s)) (\<lambda>(l, s). res_bind (recv_hlink cfg r n h st s) (\<lambda>(g, st, s).
       res_bind (recv_sum cfg (fs_mode file) first s) (\<lambda>(sm, s).
         Inr (F\<lparr>fs_symlink := l, fs_hl_gnum := g, fs_sum := sm\<rparr>, st, s))))"
  proof -
    have x: "(if preserve_hard_links cfg \<and> fc_protocol_version cfg < 28 \<and> S_ISREG (fs_mode file) then r OR XMIT_HLINKED else r) = r"
      using pv by simp
    have "(if S_ISDIR (fs_mode file) then recv_dir_flags cfg r l1 l2 G st else (G, st)) = (F, st)"
    proof -
      note V = st [unfolded attr_vars_def db fst_conv]
      have "v_modtime st = fs_modtime file"
        "(if preserve_uid cfg then v_uid st else 0) = (if preserve_uid cfg then uid_there cfg env au (fs_uid file) else 0)"
        "(if preserve_gid cfg then v_gid st else 0) = (if preserve_gid cfg then fst (gid_there cfg env ag (fs_gid file)) else 0)"
        "(if atimes cfg \<and> \<not> S_ISDIR (fs_mode file) then v_atime st else 0) = (if sends_atime cfg file then fs_atime file else 0)"
        "(if preserve_devices cfg \<and> IS_DEVICE (fs_mode file) then makedev (major (v_rdev st)) (minor (v_rdev st)) else 0) =
          (if sends_rdev cfg file then sa_rdev a else 0)"
        "(if d \<noteq> None then rv_lastdir_depth st + 1 else 1) = (case d of None \<Rightarrow> 1 | Some d \<Rightarrow> count_dir_elements d + 1)"
        "(preserve_gid cfg \<and> rv_gid_flags st) = (preserve_gid cfg \<and> snd (gid_there cfg env ag (fs_gid file)))"
        using V by (auto simp: sends_atime_def sends_rdev_def split: option.split)
      note E = this
      have nd: "S_ISDIR (fs_mode file) \<Longrightarrow> \<not> sends_rdev cfg file \<and> \<not> fakes_rdev cfg file"
        using reg_not_dir [of "fs_mode file"] by (auto simp: sends_rdev_def fakes_rdev_def)
      show ?thesis
        unfolding G_def F_def file_there_def db E R(9) Let_def prod.case recv_dir_flags_def
        using pv R(8,15) nd by auto
    qed
    then show ?thesis
      unfolding recv_create_def prod.case Let_def m x db len2 if_not_P [OF len] G_def prod.case by simp
  qed
  then show ?thesis
    by (simp only: link hl sm res_bind_simps prod.case) (simp add: F_def file_there_def db Let_def split del: if_split)
qed

section \<open>One entry\<close>

lemma recv_lastdir_ok:
  assumes "vars_sync cfg env au ag sst rst" and "st = recv_lastdir (sa_fname a) (rst\<lparr>v_lastname := sa_fname a\<rparr>)"
  shows "case fst (split_name (sa_fname a)) of None \<Rightarrow> True | Some d \<Rightarrow> rv_lastdir_depth st = count_dir_elements d"
    and "case rv_lastdir st of None \<Rightarrow> True | Some d \<Rightarrow> rv_lastdir_depth st = count_dir_elements d"
    and "v_modtime st = v_modtime rst" "v_mode st = v_mode rst" "v_atime st = v_atime rst" "v_rdev_major st = v_rdev_major rst"
    "v_uid st = v_uid rst" "v_gid st = v_gid rst" "rv_gid_flags st = rv_gid_flags rst" "v_lastname st = sa_fname a"
    "rv_users st = rv_users rst" "rv_groups st = rv_groups rst"
  using assms by (auto simp: recv_lastdir_def vars_sync_def split: option.split)

text \<open>The attributes of a file that is a hard link of an earlier file of the list.\<close>

definition same_inode :: "file_struct \<Rightarrow> file_struct \<Rightarrow> bool" where
  "same_inode f g \<longleftrightarrow> fs_modtime f = fs_modtime g \<and> fs_nsec f = fs_nsec g \<and> fs_length f = fs_length g \<and>
     fs_mode f = fs_mode g \<and> fs_uid f = fs_uid g \<and> fs_gid f = fs_gid g \<and> fs_atime f = fs_atime g \<and>
     fs_rdev f = fs_rdev g \<and> fs_symlink f = fs_symlink g \<and> fs_sum f = fs_sum g"

lemma attr_vars_there:
  assumes "case fst (split_name (sa_fname a)) of None \<Rightarrow> True | Some d \<Rightarrow> rv_lastdir_depth st = count_dir_elements d"
  shows "attr_vars cfg env au ag a file (attrs_there cfg env au ag a file users groups st)"
  using assms by (cases "fst (split_name (sa_fname a))") (simp_all add: attr_vars_def attrs_there_def)

lemma attrs_there_vars:
  assumes "st' = attrs_there cfg env au ag a file users groups st"
  shows "v_lastname st' = v_lastname st" "rv_lastdir st' = rv_lastdir st" "rv_lastdir_depth st' = rv_lastdir_depth st"
    "v_atime st' = (if sends_atime cfg file then fs_atime file else v_atime st)"
    "v_rdev_major st' = (if sends_rdev cfg file then major (sa_rdev a) else v_rdev_major st)"
  unfolding assms by (simp_all add: attrs_there_def)

lemma attr_vars_abbrev:
  assumes "same_inode f (file_there cfg env au ag a file g)"
    and "case fst (split_name (sa_fname a)) of None \<Rightarrow> True | Some d \<Rightarrow> rv_lastdir_depth st = count_dir_elements d"
    and "preserve_gid cfg \<Longrightarrow> rv_gid_flags st = snd (gid_there cfg env ag (fs_gid file))"
  shows "recv_abbrev cfg f st = (if has_rdev cfg (fs_mode file) then 0 else fs_length file,
      if fc_protocol_version cfg \<ge> 31 then fs_nsec file else 0,
      if preserve_links cfg \<and> S_ISLNK (fs_mode file) then int (length (sa_symlink a)) + 1 else 0, snd (snd (snd (recv_abbrev cfg f st))))"
    and "attr_vars cfg env au ag a file (snd (snd (snd (recv_abbrev cfg f st))))"
proof -
  obtain d b where db: "split_name (sa_fname a) = (d, b)" by fastforce
  note F = assms(1) [unfolded same_inode_def file_there_def db Let_def prod.case, simplified]
  show "recv_abbrev cfg f st = (if has_rdev cfg (fs_mode file) then 0 else fs_length file,
      if fc_protocol_version cfg \<ge> 31 then fs_nsec file else 0,
      if preserve_links cfg \<and> S_ISLNK (fs_mode file) then int (length (sa_symlink a)) + 1 else 0, snd (snd (snd (recv_abbrev cfg f st))))"
    using F by (simp add: recv_abbrev_def Let_def)
  show "attr_vars cfg env au ag a file (snd (snd (snd (recv_abbrev cfg f st))))"
    using F assms(2,3) by (cases d) (simp_all add: recv_abbrev_def Let_def attr_vars_def sends_atime_def sends_rdev_def db)
qed

lemma recv_abbrev_vars:
  assumes "same_inode f (file_there cfg env au ag a file g)" and "st' = snd (snd (snd (recv_abbrev cfg f st)))"
  shows "v_lastname st' = v_lastname st" "rv_lastdir st' = rv_lastdir st" "rv_lastdir_depth st' = rv_lastdir_depth st"
    "v_atime st' = (if sends_atime cfg file then fs_atime file else v_atime st)"
    "v_rdev_major st' = (if sends_rdev cfg file then major (sa_rdev a) else v_rdev_major st)"
    "rv_users st' = rv_users st" "rv_groups st' = rv_groups st"
proof -
  obtain d b where db: "split_name (sa_fname a) = (d, b)" by fastforce
  have F: "fs_mode f = fs_mode file" "fs_atime f = (if sends_atime cfg file then fs_atime file else 0)"
      "fs_rdev f = (if sends_rdev cfg file then sa_rdev a else 0)"
    using assms(1) by (simp_all add: same_inode_def file_there_def db Let_def split del: if_split)
  show "v_lastname st' = v_lastname st" "rv_lastdir st' = rv_lastdir st" "rv_lastdir_depth st' = rv_lastdir_depth st"
    "v_atime st' = (if sends_atime cfg file then fs_atime file else v_atime st)"
    "v_rdev_major st' = (if sends_rdev cfg file then major (sa_rdev a) else v_rdev_major st)"
    "rv_users st' = rv_users st" "rv_groups st' = rv_groups st"
    unfolding assms(2) using F by (simp_all add: recv_abbrev_def Let_def sends_atime_def sends_rdev_def)
qed

lemma recv_sum_abbrev:
  assumes "entry_ok cfg a file" and "30 \<le> fc_protocol_version cfg" and "fs_sum f = sum_bytes cfg a file"
  shows "recv_sum cfg (fs_mode file) (Some f) s = Inr (sum_bytes cfg a file, s)"
  using assms by (simp add: recv_sum_def sum_bytes_def entry_ok_def)

lemma recv_symlink_abbrev:
  assumes "entry_ok cfg a file" and "fs_symlink f = sa_symlink a"
  shows "recv_symlink cfg (Some f) (if preserve_links cfg \<and> S_ISLNK (fs_mode file) then int (length (sa_symlink a)) + 1 else 0) st s =
    Inr (sa_symlink a, s)"
  using assms by (auto simp: recv_symlink_def entry_ok_def)

text \<open>The tables know the ids of a file.\<close>

definition ids_met :: "flist_cfg \<Rightarrow> (uint32 \<Rightarrow> string option) \<Rightarrow> (uint32 \<Rightarrow> string option) \<Rightarrow> file_struct \<Rightarrow> recv_vars \<Rightarrow> bool" where
  "ids_met cfg au ag file st \<longleftrightarrow> (inc_recurse cfg \<longrightarrow>
     (preserve_uid cfg \<longrightarrow> id_known (id_names cfg au) (fs_uid file) (tab_list (rv_users st))) \<and>
     (preserve_gid cfg \<longrightarrow> id_known (id_names cfg ag) (fs_gid file) (tab_list (rv_groups st))))"

lemma ids_step_met:
  assumes "ids_step cfg env au ag file sv st st'"
  shows "ids_met cfg au ag file st'" and "ids_met cfg au ag f st \<Longrightarrow> ids_met cfg au ag f st'"
  using assms by (simp_all add: ids_met_def ids_step_def tab_step_def)

text \<open>A file whose ids the tables know already does not change them.\<close>

lemma ids_step_same:
  assumes "attr_sync cfg env au ag sst rst" and "ids_met cfg au ag file rst"
    and "rv_users st = rv_users rst" and "rv_groups st = rv_groups rst"
  shows "ids_step cfg env au ag file (vars_after cfg au ag a file n sst) rst st"
proof -
  have "list_after cfg names same u sent = sent" if "same" for names same u sent using that by (simp add: list_after_def)
  then have "inc_recurse cfg \<Longrightarrow> ids_ok True cfg env au (list_after cfg au (same_uid cfg file sst) (fs_uid file) (sv_uidlist sst)) (rv_users rst)"
    "inc_recurse cfg \<Longrightarrow> ids_ok False cfg env ag (list_after cfg ag (same_gid cfg file sst) (fs_gid file) (sv_gidlist sst)) (rv_groups rst)"
    using assms(1,2) by (cases "preserve_uid cfg"; cases "preserve_gid cfg";
      simp add: attr_sync_def ids_met_def ids_ok_list_after same_uid_def same_gid_def)+
  then show ?thesis
    using assms by (simp add: ids_step_def tab_step_def ids_met_def vars_after_def)
qed

text \<open>The variables stay in step.\<close>

lemma sync_after:
  assumes "vars_sync cfg env au ag sst rst" and "attr_vars cfg env au ag a file st"
    and "v_lastname st = sa_fname a" and "v_atime st = (if sends_atime cfg file then fs_atime file else v_atime rst)"
    and "v_rdev_major st = (if sends_rdev cfg file then major (sa_rdev a) else v_rdev_major rst)"
    and "case rv_lastdir st of None \<Rightarrow> True | Some d \<Rightarrow> rv_lastdir_depth st = count_dir_elements d"
    and "length (sa_fname a) < MAXPATHLEN" and "ids_step cfg env au ag file (vars_after cfg au ag a file n sst) rst st"
  shows "vars_sync cfg env au ag ((vars_after cfg au ag a file n sst)\<lparr>v_lastname := take (MAXPATHLEN - 1) (sa_fname a)\<rparr>) st"
proof -
  have "preserve_uid cfg \<Longrightarrow> (if same_uid cfg file sst then v_uid sst else fs_uid file) = fs_uid file"
    "preserve_gid cfg \<Longrightarrow> (if same_gid cfg file sst then v_gid sst else fs_gid file) = fs_gid file"
    by (auto simp: same_uid_def same_gid_def)
  note U = this
  define sv where "sv = (vars_after cfg au ag a file n sst)\<lparr>v_lastname := take (MAXPATHLEN - 1) (sa_fname a)\<rparr>"
  have "v_lastname sv = sa_fname a" "v_modtime sv = fs_modtime file" "v_mode sv = fs_mode file"
    "v_atime sv = (if sends_atime cfg file then fs_atime file else v_atime sst)"
    "v_rdev_major sv = (if sends_rdev cfg file then major (sa_rdev a) else v_rdev_major sst)"
    "preserve_uid cfg \<Longrightarrow> v_uid sv = fs_uid file" "preserve_gid cfg \<Longrightarrow> v_gid sv = fs_gid file"
    using assms(7) U by (simp_all add: sv_def vars_after_def)
  moreover have "ids_step cfg env au ag file sv rst st" using assms(8) by (simp add: ids_step_def sv_def)
  ultimately show ?thesis
    using assms(1-6) unfolding vars_sync_def attr_sync_def attr_vars_def sv_def [symmetric] ids_step_def tab_step_def by simp
qed

text \<open>The index of the first link, in front of the attributes.\<close>

lemma recv_first_link:
  assumes "h < n" and "n < 2 ^ 31" and "has r XMIT_HLINKED \<and> \<not> has r XMIT_HLINK_FIRST \<longleftrightarrow> 0 \<le> h" and "30 \<le> pv" and "0 \<le> h \<or> h = -1"
  shows "(if pv \<ge> 30 \<and> has r XMIT_HLINKED \<and> \<not> has r XMIT_HLINK_FIRST then
       res_bind (read_varint ((if h \<ge> 0 then write_varint (word_of_int h) else []) @ s)) (\<lambda>(k, s).
         if sint k < 0 \<or> sint k \<ge> n then Inl RERR_PROTOCOL else Inr (sint k, s))
     else Inr (-1, (if h \<ge> 0 then write_varint (word_of_int h) else []) @ s)) = Inr (h, s)"
  using assms sint_word_of_int_small [of h] by (auto simp: read_varint_write_varint)

lemma recv_file_entry_send:
  assumes cfg: "cfg_ok cfg" and ok: "entry_ok cfg a file" and names: "names_ok au" "names_ok ag"
    and sync: "vars_sync cfg env au ag sst rst"
    and send: "send_file_entry cfg au ag a file (int (length files)) first_ndx sst = (bs, sst')"
    and h: "h = first_link (sa_dev_ino a) sst" "h < first_ndx + int (length files)" "0 \<le> h \<or> h = -1" "0 \<le> first_ndx"
      "first_ndx + int (length files) < 2 ^ 31"
    and abbrev: "first_ndx \<le> h \<Longrightarrow> same_inode (files ! nat (h - first_ndx)) (file_there cfg env au ag a file 0) \<and>
      (preserve_gid cfg \<longrightarrow> rv_gid_flags rst = snd (gid_there cfg env ag (fs_gid file))) \<and> ids_met cfg au ag file rst"
  shows "\<exists>r T rst'. recv_flags cfg safe (bs @ s) = Inr (Some r, 0, T) \<and>
    recv_file_entry cfg env files first_ndx r rst T =
      Inr (file_there cfg env au ag a file (hl_gnum a (first_ndx + int (length files)) h), rst', s) \<and>
    vars_sync cfg env au ag sst' rst' \<and> ids_step cfg env au ag file sst' rst rst'"
proof -
  define n where "n = first_ndx + int (length files)"
  define l1 where "l1 = common_len 255 (v_lastname sst) (sa_fname a)"
  define x where "x = flags_after cfg au ag a file sst"
  define sv where "sv = vars_after cfg au ag a file n sst"
  have pv: "30 \<le> fc_protocol_version cfg" using cfg by (simp add: cfg_ok_def)
  obtain fb x' where fb: "send_flags cfg (fs_mode file) x = (fb, x')" by fastforce
  have mv: "v_mode sv = fs_mode file" by (simp add: sv_def vars_after_def)
  define A where "A = (if h \<ge> 0 \<and> h \<ge> first_ndx then [] else send_attrs cfg a file x' sv)"
  define T where "T = send_name (fc_protocol_version cfg) x' l1 (sa_fname a) @ (if h \<ge> 0 then write_varint (word_of_int h) else []) @ A @ s"
  have bs: "bs @ s = fb @ T" and sst': "sst' = sv\<lparr>v_lastname := take (MAXPATHLEN - 1) (sa_fname a)\<rparr>"
    using send unfolding send_file_entry_def entry_flags_eq [OF pv] x_def [symmetric] n_def [symmetric] sv_def [symmetric]
      l1_def [symmetric] h(1) [symmetric] Let_def prod.case mv fb
    by (auto simp: T_def A_def)
  have x': "xmit_agree (S_ISDIR (fs_mode file)) x' x" by (rule send_flags_agree(1) [OF fb pv x_def]) simp
  obtain r where r: "recv_flags cfg safe (fb @ T) = Inr (Some r, 0, T)"
    "xmit_agree (S_ISDIR (fs_mode file)) r x"
    using send_flags_agree(2) [OF fb pv x_def, of "S_ISDIR (fs_mode file)"] by blast
  note R = flags_has [OF pv r(2) [unfolded x_def]] and X = flags_has [OF pv x' [unfolded x_def]]
  define st where "st = recv_lastdir (sa_fname a) (rst\<lparr>v_lastname := sa_fname a\<rparr>)"
  note L = recv_lastdir_ok [OF sync st_def]
  have nm: "name_accepted cfg (sa_fname a)" "length (sa_fname a) < MAXPATHLEN" using ok by (auto simp: entry_ok_def name_accepted_def)
  have name: "recv_name cfg r rst T = Inr (sa_fname a, l1, length (sa_fname a) - l1, rst\<lparr>v_lastname := sa_fname a\<rparr>,
      (if h \<ge> 0 then write_varint (word_of_int h) else []) @ A @ s)"
  proof -
    have "recv_name cfg r rst T = recv_name cfg x' rst T" unfolding recv_name_def R(4,5) X(4,5) ..
    also have "\<dots> = Inr (sa_fname a, l1, length (sa_fname a) - l1, rst\<lparr>v_lastname := sa_fname a\<rparr>,
        (if h \<ge> 0 then write_varint (word_of_int h) else []) @ A @ s)"
      unfolding T_def using sync X(4,5) by (intro recv_name_send_name [OF nm(1)]) (simp_all add: vars_sync_def l1_def)
    finally show ?thesis .
  qed
  have link: "(if fc_protocol_version cfg \<ge> 30 \<and> has r XMIT_HLINKED \<and> \<not> has r XMIT_HLINK_FIRST then
       res_bind (read_varint ((if h \<ge> 0 then write_varint (word_of_int h) else []) @ A @ s)) (\<lambda>(k, s).
         if sint k < 0 \<or> sint k \<ge> n then Inl RERR_PROTOCOL else Inr (sint k, s))
     else Inr (-1, (if h \<ge> 0 then write_varint (word_of_int h) else []) @ A @ s)) = Inr (h, A @ s)"
  proof (rule recv_first_link)
    have "sa_dev_ino a = None \<Longrightarrow> h = -1" using h(1) by (simp add: first_link_def)
    then show "has r XMIT_HLINKED \<and> \<not> has r XMIT_HLINK_FIRST \<longleftrightarrow> 0 \<le> h" unfolding R(9,10) h(1) [symmetric] by (cases "sa_dev_ino a") auto
  qed (use h pv in \<open>simp_all add: n_def\<close>)
  have as: "attr_sync cfg env au ag sst rst" using sync by (simp add: vars_sync_def)
  note E = recv_file_entry_def [of cfg env files first_ndx r rst T, unfolded name res_bind_simps prod.case Let_def,
    folded st_def n_def, unfolded link res_bind_simps prod.case]
  have "\<exists>rst'. recv_file_entry cfg env files first_ndx r rst T = Inr (file_there cfg env au ag a file (hl_gnum a n h), rst', s) \<and>
    attr_vars cfg env au ag a file rst' \<and> v_lastname rst' = sa_fname a \<and>
    v_atime rst' = (if sends_atime cfg file then fs_atime file else v_atime rst) \<and>
    v_rdev_major rst' = (if sends_rdev cfg file then major (sa_rdev a) else v_rdev_major rst) \<and>
    (case rv_lastdir rst' of None \<Rightarrow> True | Some d \<Rightarrow> rv_lastdir_depth rst' = count_dir_elements d) \<and>
    ids_step cfg env au ag file sv rst rst'"
  proof (cases "h \<ge> 0 \<and> h \<ge> first_ndx")
    case True
    define f where "f = files ! nat (h - first_ndx)"
    define rst' where "rst' = snd (snd (snd (recv_abbrev cfg f st)))"
    have f: "same_inode f (file_there cfg env au ag a file 0)" "preserve_gid cfg \<Longrightarrow> rv_gid_flags st = snd (gid_there cfg env ag (fs_gid file))"
      using abbrev True L(9) by (auto simp: f_def)
    have fs: "fs_symlink f = sa_symlink a" "fs_sum f = sum_bytes cfg a file"
      using f(1) by (simp_all add: same_inode_def file_there_def Let_def case_prod_beta)
    have V: "recv_abbrev cfg f st = (if has_rdev cfg (fs_mode file) then 0 else fs_length file,
        if fc_protocol_version cfg \<ge> 31 then fs_nsec file else 0,
        if preserve_links cfg \<and> S_ISLNK (fs_mode file) then int (length (sa_symlink a)) + 1 else 0, rst')"
      "attr_vars cfg env au ag a file rst'"
      unfolding rst'_def using attr_vars_abbrev [OF f(1) L(1)] f(2) by blast+
    have "recv_file_entry cfg env files first_ndx r rst T = recv_create cfg r (sa_fname a) l1 (length (sa_fname a) - l1) n h (Some f)
        (recv_abbrev cfg f st) s"
      unfolding E if_P [OF True] A_def f_def append_Nil ..
    also have "\<dots> = Inr (file_there cfg env au ag a file (hl_gnum a n h), rst', s)"
      unfolding V(1)
      using recv_create_eq [OF cfg ok V(2) r(2) [unfolded x_def] h(1), of "Some f" _ "[]" "[]" l1 "length (sa_fname a) - l1" n s]
        recv_sum_abbrev [OF ok pv fs(2)] recv_symlink_abbrev [OF ok fs(1)] by simp
    finally show ?thesis
      using V(2) L(2,5,6,10,11,12) recv_abbrev_vars [OF f(1) rst'_def] ids_step_same [OF as, of "file" rst' a n] abbrev True
      by (intro exI [of _ rst']) (simp add: sv_def cong: option.case_cong)
  next
    case False
    have "attr_sync cfg env au ag sst st" using as L(3-9,11,12) unfolding attr_sync_def by simp
    from recv_attrs_send_attrs [OF cfg ok names this r(2) [unfolded x_def] x' [unfolded x_def], of n s, folded sv_def]
    obtain users groups where A: "recv_attrs cfg env r st (send_attrs cfg a file x' sv @ s) =
        Inr (if has_rdev cfg (fs_mode file) then 0 else fs_length file, if fc_protocol_version cfg \<ge> 31 then fs_nsec file else 0,
         if preserve_links cfg \<and> S_ISLNK (fs_mode file) then int (length (sa_symlink a)) + 1 else 0,
         attrs_there cfg env au ag a file users groups st, to_bytes (sa_symlink a) @ sum_bytes cfg a file @ s)"
      and I: "ids_step cfg env au ag file sv st (attrs_there cfg env au ag a file users groups st)" by blast
    define rst' where "rst' = attrs_there cfg env au ag a file users groups st"
    note A = A [folded rst'_def] and I = I [folded rst'_def]
    have V: "attr_vars cfg env au ag a file rst'" unfolding rst'_def by (rule attr_vars_there [OF L(1)])
    have "recv_file_entry cfg env files first_ndx r rst T = recv_create cfg r (sa_fname a) l1 (length (sa_fname a) - l1) n h None
        (if has_rdev cfg (fs_mode file) then 0 else fs_length file, if fc_protocol_version cfg \<ge> 31 then fs_nsec file else 0,
         if preserve_links cfg \<and> S_ISLNK (fs_mode file) then int (length (sa_symlink a)) + 1 else 0, rst')
        (to_bytes (sa_symlink a) @ sum_bytes cfg a file @ s)"
      unfolding E if_not_P [OF False] A_def A res_bind_simps prod.case ..
    also have "\<dots> = Inr (file_there cfg env au ag a file (hl_gnum a n h), rst', s)"
      by (rule recv_create_eq [OF cfg ok V r(2) [unfolded x_def] h(1) recv_symlink_read [OF ok cfg] recv_sum_read [OF ok pv]])
    finally show ?thesis
      using V L(2,5,6,10) attrs_there_vars [OF rst'_def] I [unfolded ids_step_def L(11,12), folded ids_step_def]
      by (intro exI [of _ rst']) (simp cong: option.case_cong)
  qed
  moreover have "ids_step cfg env au ag file sv rst st' \<Longrightarrow> ids_step cfg env au ag file sst' rst st'" for st'
    by (simp add: sst' ids_step_def)
  ultimately show ?thesis
    using sync_after [OF sync, of a "file" _ n] nm(2) r(1) unfolding bs sst' sv_def n_def [symmetric] by blast
qed

section \<open>The whole list\<close>

text \<open>The group of every entry: the index of the first entry, of this list or an earlier one, with its device and inode.\<close>

fun link_groups :: "(int64 \<times> int64 \<Rightarrow> int option) \<Rightarrow> int \<Rightarrow> send_args list \<Rightarrow> int list" where
  "link_groups idev n [] = []"
| "link_groups idev n (a # as) =
     (case sa_dev_ino a of
        None \<Rightarrow> 0 # link_groups idev (n + 1) as
      | Some k \<Rightarrow> (case idev k of
            Some m \<Rightarrow> m # link_groups idev (n + 1) as
          | None \<Rightarrow> n # link_groups (idev(k \<mapsto> n)) (n + 1) as))"

definition files_there :: "flist_cfg \<Rightarrow> id_env \<Rightarrow> (uint32 \<Rightarrow> string option) \<Rightarrow> (uint32 \<Rightarrow> string option) \<Rightarrow>
    (int64 \<times> int64 \<Rightarrow> int option) \<Rightarrow> int \<Rightarrow> (send_args \<times> file_struct) list \<Rightarrow> file_struct list" where
  "files_there cfg env au ag idev n es =
     map2 (\<lambda>(a, file) g. file_there cfg env au ag a file g) es (link_groups idev n (map fst es))"

text \<open>Two links of one file have the attributes of its inode.\<close>

fun link_attrs :: "send_args \<times> file_struct \<Rightarrow> send_args \<times> file_struct \<Rightarrow> bool" where
  "link_attrs (a, f) (b, g) \<longleftrightarrow> fs_modtime f = fs_modtime g \<and> fs_nsec f = fs_nsec g \<and> fs_length f = fs_length g \<and>
     fs_mode f = fs_mode g \<and> fs_uid f = fs_uid g \<and> fs_gid f = fs_gid g \<and> fs_atime f = fs_atime g \<and>
     sa_rdev a = sa_rdev b \<and> sa_symlink a = sa_symlink b \<and> sa_sum a = sa_sum b"

definition links_agree :: "(send_args \<times> file_struct) list \<Rightarrow> bool" where
  "links_agree es \<longleftrightarrow> (\<forall>x\<in>set es. \<forall>y\<in>set es. sa_dev_ino (fst x) \<noteq> None \<and> sa_dev_ino (fst x) = sa_dev_ino (fst y) \<longrightarrow> link_attrs x y)"

lemma file_there_sel:
  "fs_modtime (file_there cfg env au ag a f g) = fs_modtime f"
  "fs_nsec (file_there cfg env au ag a f g) = (if fc_protocol_version cfg \<ge> 31 then fs_nsec f else 0)"
  "fs_length (file_there cfg env au ag a f g) = (if has_rdev cfg (fs_mode f) then 0 else fs_length f)"
  "fs_mode (file_there cfg env au ag a f g) = fs_mode f"
  "fs_uid (file_there cfg env au ag a f g) = (if preserve_uid cfg then uid_there cfg env au (fs_uid f) else 0)"
  "fs_gid (file_there cfg env au ag a f g) = (if preserve_gid cfg then fst (gid_there cfg env ag (fs_gid f)) else 0)"
  "fs_atime (file_there cfg env au ag a f g) = (if sends_atime cfg f then fs_atime f else 0)"
  "fs_rdev (file_there cfg env au ag a f g) = (if sends_rdev cfg f then sa_rdev a else 0)"
  "fs_symlink (file_there cfg env au ag a f g) = sa_symlink a"
  "fs_sum (file_there cfg env au ag a f g) = sum_bytes cfg a f"
  "fs_dirname (file_there cfg env au ag a f g) = fst (split_name (sa_fname a))"
  by (simp_all only: file_there_def Let_def case_prod_beta file_struct.simps)

lemma same_inode_link:
  assumes "same_inode x (file_there cfg env au ag a f g)" and "link_attrs (a, f) (b, f')"
  shows "same_inode x (file_there cfg env au ag b f' g')"
proof -
  have "sends_atime cfg f = sends_atime cfg f'" "sends_rdev cfg f = sends_rdev cfg f'" "sum_bytes cfg a f = sum_bytes cfg b f'"
    using assms(2) by (simp_all add: sends_atime_def sends_rdev_def sum_bytes_def)
  then show ?thesis using assms unfolding same_inode_def file_there_sel link_attrs.simps by simp
qed

lemma send_file_entry_vars:
  assumes "30 \<le> fc_protocol_version cfg" and "send_file_entry cfg au ag a file ndx first_ndx sst = (bs, sst')"
    and "entry_ok cfg a file"
  shows "v_lastname sst' \<noteq> []" and "sv_idev sst' = (if sa_dev_ino a \<noteq> None \<and> first_link (sa_dev_ino a) sst < 0
      then (sv_idev sst)(the (sa_dev_ino a) \<mapsto> first_ndx + ndx) else sv_idev sst)"
proof -
  have "sst' = (vars_after cfg au ag a file (first_ndx + ndx) sst)\<lparr>v_lastname := take (MAXPATHLEN - 1) (sa_fname a)\<rparr>"
    using assms(2) unfolding send_file_entry_def entry_flags_eq [OF assms(1)] by (auto simp: Let_def split: prod.splits)
  then show "v_lastname sst' \<noteq> []" "sv_idev sst' = (if sa_dev_ino a \<noteq> None \<and> first_link (sa_dev_ino a) sst < 0
      then (sv_idev sst)(the (sa_dev_ino a) \<mapsto> first_ndx + ndx) else sv_idev sst)"
    using assms(3) by (simp_all add: vars_after_def entry_ok_def name_accepted_def MAXPATHLEN_def)
qed

text \<open>The table of links, and the entries its indices stand for.\<close>

definition idev_ok :: "flist_cfg \<Rightarrow> id_env \<Rightarrow> (uint32 \<Rightarrow> string option) \<Rightarrow> (uint32 \<Rightarrow> string option) \<Rightarrow>
    int \<Rightarrow> (send_args \<times> file_struct) list \<Rightarrow> file_struct list \<Rightarrow> (int64 \<times> int64 \<Rightarrow> int option) \<Rightarrow> bool" where
  "idev_ok cfg env au ag first_ndx sent files idev \<longleftrightarrow>
     (\<forall>k m. idev k = Some m \<longrightarrow> 0 \<le> m \<and> m < first_ndx + int (length files) \<and>
        (first_ndx \<le> m \<longrightarrow> (\<exists>(a, f)\<in>set sent. sa_dev_ino a = Some k \<and>
           same_inode (files ! nat (m - first_ndx)) (file_there cfg env au ag a f 0))))"

lemma idev_okD:
  assumes "idev_ok cfg env au ag first_ndx sent files (sv_idev sst)" and "h = first_link (sa_dev_ino a) sst" and "0 \<le> first_ndx"
  shows "h < first_ndx + int (length files)" "0 \<le> h \<or> h = -1"
    "first_ndx \<le> h \<Longrightarrow> \<exists>(b, f)\<in>set sent. sa_dev_ino a \<noteq> None \<and> sa_dev_ino b = sa_dev_ino a \<and>
        same_inode (files ! nat (h - first_ndx)) (file_there cfg env au ag b f 0)"
  using assms by (auto simp: idev_ok_def first_link_def split: option.splits)

lemma idev_ok_step:
  assumes "idev_ok cfg env au ag first_ndx sent files (sv_idev sst)" and "0 \<le> first_ndx"
    and "idev' = (if sa_dev_ino a \<noteq> None \<and> first_link (sa_dev_ino a) sst < 0
      then (sv_idev sst)(the (sa_dev_ino a) \<mapsto> first_ndx + int (length files)) else sv_idev sst)"
  shows "idev_ok cfg env au ag first_ndx (sent @ [(a, f)]) (files @ [file_there cfg env au ag a f g]) idev'"
proof -
  have new: "same_inode (file_there cfg env au ag a f g) (file_there cfg env au ag a f 0)"
    by (simp add: same_inode_def file_there_sel)
  show ?thesis
    unfolding idev_ok_def
  proof (intro allI impI)
    fix k m assume m: "idev' k = Some m"
    show "0 \<le> m \<and> m < first_ndx + int (length (files @ [file_there cfg env au ag a f g])) \<and>
        (first_ndx \<le> m \<longrightarrow> (\<exists>(b, f')\<in>set (sent @ [(a, f)]). sa_dev_ino b = Some k \<and>
           same_inode ((files @ [file_there cfg env au ag a f g]) ! nat (m - first_ndx)) (file_there cfg env au ag b f' 0)))"
    proof (cases "sv_idev sst k = Some m")
      case True
      then have "0 \<le> m" "m < first_ndx + int (length files)" and
        *: "first_ndx \<le> m \<Longrightarrow> \<exists>(b, f')\<in>set sent. sa_dev_ino b = Some k \<and>
             same_inode (files ! nat (m - first_ndx)) (file_there cfg env au ag b f' 0)"
        using assms(1) unfolding idev_ok_def by blast+
      moreover from this have "first_ndx \<le> m \<Longrightarrow> nat (m - first_ndx) < length files" by linarith
      ultimately show ?thesis by (auto simp: nth_append)
    next
      case False
      then have "sa_dev_ino a = Some k" "m = first_ndx + int (length files)"
        using m assms(3) by (auto split: if_splits)
      then show ?thesis using new assms(2) by (auto simp: nth_append)
    qed
  qed
qed

lemma link_groups_Cons:
  assumes "idev_ok cfg env au ag first_ndx sent files (sv_idev sst)" and "h = first_link (sa_dev_ino a) sst"
    and "idev' = (if sa_dev_ino a \<noteq> None \<and> h < 0 then (sv_idev sst)(the (sa_dev_ino a) \<mapsto> n) else sv_idev sst)"
  shows "link_groups (sv_idev sst) n (a # as) = hl_gnum a n h # link_groups idev' (n + 1) as"
proof -
  have "\<And>k m. sv_idev sst k = Some m \<Longrightarrow> 0 \<le> m" using assms(1) unfolding idev_ok_def by blast
  then show ?thesis
    using assms(2,3) by (fastforce simp: hl_gnum_def first_link_def split: option.split)
qed

definition in_dir :: "flist_cfg \<Rightarrow> string \<Rightarrow> string \<Rightarrow> bool" where
  "in_dir cfg dir name \<longleftrightarrow>
     (let d = (case fst (split_name name) of None \<Rightarrow> [] | Some d \<Rightarrow> d)
      in (if fc_relative_paths cfg \<and> at d 0 = CHR ''/'' then tl d else d) = dir)"

lemma cur_dir_there: "cur_dir cfg (file_there cfg env au ag a f g) = dir \<longleftrightarrow> in_dir cfg dir (sa_fname a)"
  by (simp add: cur_dir_def in_dir_def file_there_sel Let_def)

definition sendable :: "flist_cfg \<Rightarrow> string \<Rightarrow> send_args \<times> file_struct \<Rightarrow> bool" where
  "sendable cfg dir e \<longleftrightarrow> entry_ok cfg (fst e) (snd e) \<and> (inc_recurse cfg \<longrightarrow> in_dir cfg dir (sa_fname (fst e)))"

lemma recv_entries_send:
  assumes cfg: "cfg_ok cfg" and names: "names_ok au" "names_ok ag" and noskip: "\<And>g. \<not> snd (gid_there cfg env ag g)"
    and first: "0 \<le> first_ndx"
  shows "send_entries cfg au ag (int (length files)) first_ndx es sst = (bs, sst') \<Longrightarrow>
    list_all (sendable cfg dir) es \<Longrightarrow> links_agree (sent @ es) \<Longrightarrow>
    idev_ok cfg env au ag first_ndx sent files (sv_idev sst) \<Longrightarrow> vars_sync cfg env au ag sst rst \<Longrightarrow>
    (files \<noteq> [] \<longrightarrow> v_lastname sst \<noteq> []) \<Longrightarrow> (\<And>b f. (b, f) \<in> set sent \<Longrightarrow> ids_met cfg au ag f rst) \<Longrightarrow> first_ndx + int (length files) + int (length es) < 2 ^ 31 \<Longrightarrow>
    \<exists>rst'. vars_sync cfg env au ag sst' rst' \<and>
      (\<forall>fuel. recv_entries (length es + fuel) cfg safe ign env dir first_ndx files io rst (bs @ s) =
         recv_entries fuel cfg safe ign env dir first_ndx
           (files @ files_there cfg env au ag (sv_idev sst) (first_ndx + int (length files)) es) io rst' s)"
proof (induction es arbitrary: files sst rst sent bs)
  case Nil
  then show ?case by (auto simp: files_there_def)
next
  case (Cons e es)
  obtain a f where e: "e = (a, f)" by (cases e)
  define n where "n = first_ndx + int (length files)"
  obtain b1 sst1 where s1: "send_file_entry cfg au ag a f (int (length files)) first_ndx sst = (b1, sst1)" by fastforce
  obtain b2 where s2: "send_entries cfg au ag (int (length files) + 1) first_ndx es sst1 = (b2, sst')" and bs: "bs = b1 @ b2"
    using Cons.prems(1) s1 by (auto simp: e split: prod.splits)
  have ok: "entry_ok cfg a f" "inc_recurse cfg \<longrightarrow> in_dir cfg dir (sa_fname a)" "list_all (sendable cfg dir) es"
    using Cons.prems(2) by (auto simp: e) (simp_all add: sendable_def)
  have pv: "30 \<le> fc_protocol_version cfg" using cfg by (simp add: cfg_ok_def)
  define h where "h = first_link (sa_dev_ino a) sst"
  note D = idev_okD [OF Cons.prems(4) h_def first] and V = send_file_entry_vars [OF pv s1 ok(1)]
  have ab: "same_inode (files ! nat (h - first_ndx)) (file_there cfg env au ag a f 0) \<and>
      (preserve_gid cfg \<longrightarrow> rv_gid_flags rst = snd (gid_there cfg env ag (fs_gid f))) \<and> ids_met cfg au ag f rst" if "first_ndx \<le> h"
  proof (intro conjI)
    from D(3) [OF that] obtain b f' where b: "(b, f') \<in> set sent" "sa_dev_ino a \<noteq> None" "sa_dev_ino b = sa_dev_ino a"
      "same_inode (files ! nat (h - first_ndx)) (file_there cfg env au ag b f' 0)" by blast
    then have "link_attrs (b, f') (a, f)"
      using Cons.prems(3) unfolding links_agree_def e by (metis fst_conv in_set_conv_decomp Un_iff set_append list.set_intros(1))
    moreover have "ids_met cfg au ag f' rst" using Cons.prems(7) b(1) .
    ultimately show "ids_met cfg au ag f rst" by (simp add: ids_met_def)
    from \<open>link_attrs (b, f') (a, f)\<close> b(4) show "same_inode (files ! nat (h - first_ndx)) (file_there cfg env au ag a f 0)" using same_inode_link by blast
    have "files \<noteq> []" using D(1) that first by auto
    then have "preserve_gid cfg \<longrightarrow> (v_gid rst, rv_gid_flags rst) = gid_there cfg env ag (v_gid sst)"
      using Cons.prems(5,6) by (auto simp: vars_sync_def attr_sync_def)
    then show "preserve_gid cfg \<longrightarrow> rv_gid_flags rst = snd (gid_there cfg env ag (fs_gid f))"
      using noskip by (metis snd_conv)
  qed
  define F where "F = file_there cfg env au ag a f (hl_gnum a n h)"
  obtain r T rst1 where r: "recv_flags cfg safe (b1 @ b2 @ s) = Inr (Some r, 0, T)"
    "recv_file_entry cfg env files first_ndx r rst T = Inr (F, rst1, b2 @ s)" "vars_sync cfg env au ag sst1 rst1"
    "ids_step cfg env au ag f sst1 rst rst1"
    using recv_file_entry_send [OF cfg ok(1) names Cons.prems(5) s1 h_def D(1,2) first _ ab, of safe "b2 @ s"] Cons.prems(8)
    unfolding F_def n_def by auto
  have "idev_ok cfg env au ag first_ndx (sent @ [e]) (files @ [F]) (sv_idev sst1)"
    unfolding F_def e using V(2) by (rule idev_ok_step [OF Cons.prems(4) first])
  moreover have "ids_met cfg au ag f' rst1" if "(b, f') \<in> set (sent @ [e])" for b f'
    using that Cons.prems(7) ids_step_met [OF r(4)] by (auto simp: e)
  ultimately obtain rst' where r': "vars_sync cfg env au ag sst' rst'"
    "\<And>fuel. recv_entries (length es + fuel) cfg safe ign env dir first_ndx (files @ [F]) io rst1 (b2 @ s) =
      recv_entries fuel cfg safe ign env dir first_ndx
        ((files @ [F]) @ files_there cfg env au ag (sv_idev sst1) (n + 1) es) io rst' s"
    using Cons.IH [of "files @ [F]" sst1 b2 "sent @ [e]" rst1, OF _ ok(3) _ _ r(3)] s2 Cons.prems(3,8) V(1)
    by (auto simp: n_def add.commute add.left_commute)
  have "link_groups (sv_idev sst) n (a # map fst es) = hl_gnum a n h # link_groups (sv_idev sst1) (n + 1) (map fst es)"
    by (rule link_groups_Cons [OF Cons.prems(4) h_def V(2) [folded h_def n_def]])
  then have G: "files_there cfg env au ag (sv_idev sst) n (e # es) = F # files_there cfg env au ag (sv_idev sst1) (n + 1) es"
    by (simp add: files_there_def e F_def del: link_groups.simps)
  have "inc_recurse cfg \<longrightarrow> cur_dir cfg F = dir" using ok(2) unfolding F_def cur_dir_there by simp
  then show ?case
    using r(1,2) r' unfolding bs n_def [symmetric] G by (intro exI [of _ rst']) auto
qed

lemma recv_end_of_flist:
  assumes "30 \<le> fc_protocol_version cfg" and "send_io_error \<longrightarrow> safe"
  shows "recv_flags cfg safe (write_end_of_flist cfg send_io_error err @ s) = Inr (None, if send_io_error then err else 0, s)"
  using assms by (auto simp: recv_flags_def write_end_of_flist_def read_varint_write_varint write_shortint_def xmit)

text \<open>The name of a file, put together again.\<close>

lemma split_name_join: "(case split_name p of (None, b) \<Rightarrow> b | (Some d, b) \<Rightarrow> d @ ''/'' @ b) = p"
proof (cases "CHR ''/'' \<in> set p")
  case True
  define t where "t = takeWhile (\<lambda>c. c \<noteq> CHR ''/'') (rev p)"
  obtain c u where u: "dropWhile (\<lambda>c. c \<noteq> CHR ''/'') (rev p) = c # u"
    using True by (cases "dropWhile (\<lambda>c. c \<noteq> CHR ''/'') (rev p)") (auto simp: dropWhile_eq_Nil_conv)
  then have "c = CHR ''/''" using hd_dropWhile [of "\<lambda>c. c \<noteq> CHR ''/''" "rev p"] by simp
  then have "rev p = t @ CHR ''/'' # u"
    using u takeWhile_dropWhile_id [of "\<lambda>c. c \<noteq> CHR ''/''" "rev p"] by (simp add: t_def)
  then have p: "p = rev u @ CHR ''/'' # rev t" by (simp add: rev_swap)
  have "split_name p = (Some (take (length p - length t - 1) p), rev t)" using True by (simp add: split_name_def t_def)
  moreover have "take (length p - length t - 1) p = rev u" by (simp add: p)
  ultimately show ?thesis by (simp add: p)
qed (simp add: split_name_def)

section \<open>The round trip\<close>

lemma f_name_there:
  assumes "entry_ok cfg a f"
  shows "f_name (file_there cfg env au ag a f g) = sa_fname a"
proof -
  obtain d b where db: "split_name (sa_fname a) = (d, b)" by fastforce
  have b: "fs_basename (file_there cfg env au ag a f g) = b" by (simp only: file_there_def db Let_def prod.case file_struct.simps)
  have len: "length (sa_fname a) < MAXPATHLEN" using assms by (simp add: entry_ok_def name_accepted_def)
  have "case d of None \<Rightarrow> b = sa_fname a | Some d \<Rightarrow> d @ ''/'' @ b = sa_fname a"
    using split_name_join [of "sa_fname a"] by (simp add: db split: option.splits)
  moreover from this have "case d of None \<Rightarrow> length b < MAXPATHLEN | Some d \<Rightarrow> length b \<le> MAXPATHLEN - (length d + 1) - 1"
    using len by (cases d) (auto dest: arg_cong [where f = length])
  ultimately show ?thesis by (cases d) (simp_all add: f_name_def file_there_sel db b)
qed

lemma length_link_groups [simp]: "length (link_groups idev n as) = length as"
  by (induction as arbitrary: idev n) (auto split: option.split)

lemma f_name_files_there:
  assumes "list_all (sendable cfg dir) es"
  shows "map f_name (files_there cfg env au ag idev n es) = map (\<lambda>e. sa_fname (fst e)) es"
  using assms
  by (auto simp: files_there_def list_all_length sendable_def case_prod_beta f_name_there intro!: nth_equalityI)


text \<open>A small list: a directory and two links of one file.\<close>

definition sample_cfg :: flist_cfg where
  "sample_cfg = \<lparr>fc_protocol_version = 31, preserve_uid = True, preserve_gid = True, preserve_devices = True, preserve_specials = True,
     preserve_links = True, preserve_hard_links = True, always_checksum = False, numeric_ids = 0, inc_recurse = False, atimes = False,
     xfer_flags_as_varint = False, flist_csum_len = 16, fc_relative_paths = False, fc_sanitize_paths = False, munge_symlinks = False,
     fc_recurse = True, am_root = True, usermap = False, groupmap = False, chmod_modes = []\<rparr>"

definition sample_file :: "int \<Rightarrow> uint32 \<Rightarrow> file_struct" where
  "sample_file mode gid = \<lparr>fs_dirname = None, fs_basename = [], fs_modtime = 1000000, fs_nsec = 0, fs_length = 42, fs_mode = mode,
     fs_uid = 1, fs_gid = gid, fs_atime = 0, fs_rdev = 0, fs_symlink = [], fs_sum = [], fs_hl_gnum = 0, fs_depth = 0,
     FLAG_TOP_DIR = True, FLAG_CONTENT_DIR = True, FLAG_IMPLIED_DIR = False, FLAG_HLINKED = False, FLAG_SKIP_GROUP = False, FLAG_DUPLICATE = False\<rparr>"

definition sample_args :: "string \<Rightarrow> (int64 \<times> int64) option \<Rightarrow> send_args" where
  "sample_args name di = \<lparr>sa_fname = name, sa_symlink = [], sa_rdev = 0, sa_dev_ino = di, sa_sum = replicate 16 0\<rparr>"

definition sample_ids :: "uint32 list \<Rightarrow> id_env" where
  "sample_ids gs = \<lparr>uidmap = [], gidmap = [], getpwnam = (\<lambda>_. None), getgrnam = (\<lambda>_. None), getgroups = gs, our_gid = 0\<rparr>"

definition send_vars0 :: send_vars where
  "send_vars0 = \<lparr>v_modtime = 0, v_atime = 0, v_mode = 0, v_dev = 0, v_rdev = 0, v_rdev_major = 0, v_uid = 0, v_gid = 0, v_lastname = [],
     sv_user_name = None, sv_group_name = None, sv_uidlist = [], sv_gidlist = [], sv_idev = (\<lambda>_. None)\<rparr>"

definition recv_vars0 :: recv_vars where
  "recv_vars0 = \<lparr>v_modtime = 0, v_atime = 0, v_mode = 0, v_dev = 0, v_rdev = 0, v_rdev_major = 0, v_uid = 0, v_gid = 0, v_lastname = [],
     rv_users = \<lparr>tab_list = [], tab_last = None\<rparr>, rv_groups = \<lparr>tab_list = [], tab_last = None\<rparr>, rv_gid_flags = False, rv_lastdir = None, rv_lastdir_depth = 0, rv_del_hier_name_len = 0, rv_in_del_hier = False,
     rv_idev = (\<lambda>_. None), rv_cnt = 0\<rparr>"

lemma vars_sync_start: "vars_sync cfg env au ag send_vars0 recv_vars0"
  by (simp add: vars_sync_def attr_sync_def send_vars0_def recv_vars0_def ids_ok_def tab_right_def)

definition sample_list :: "(send_args \<times> file_struct) list" where
  "sample_list = [(sample_args ''d'' None, sample_file 16877 0), (sample_args ''d/one'' (Some (1, 7)), sample_file 33188 100),
     (sample_args ''d/two'' (Some (1, 7)), sample_file 33188 100)]"


end
