(* ===== verification/FlistBehaviour.thy ===== *)
theory FlistBehaviour
  imports FlistList
begin

text \<open>
  How the receiver of a file list behaves on any input: it comes to an end. Then three lists on
  which the static variables of recv_file_entry lead to a result the options do not ask for; each
  is computed by the model.
\<close>

section \<open>The receiver comes to an end\<close>

lemma recv_user_name_leaves [leaves_intro]:
  "length s \<le> n \<Longrightarrow> leaves (snd \<circ> snd) (recv_user_name r num env u tab s) n"
  "length s \<le> n \<Longrightarrow> leaves (snd \<circ> snd) (recv_group_name r num env u tab s) n"
  by (auto simp: recv_user_name_def recv_group_name_def case_prod_beta intro!: leaves_bind3 [OF recv_name_id_leaves] leaves_Inr)

lemma recv_uid_leaves [leaves_intro]: "length s \<le> n \<Longrightarrow> leaves snd (recv_uid cfg env x st s) n"
  by (auto simp: recv_uid_def case_prod_beta intro!: leaves_intro leaves_bind3)

lemma recv_gid_leaves [leaves_intro]: "length s \<le> n \<Longrightarrow> leaves snd (recv_gid cfg env x st s) n"
  by (auto simp: recv_gid_def case_prod_beta intro!: leaves_intro leaves_bind3)

lemma recv_rdev_leaves [leaves_intro]: "length s \<le> n \<Longrightarrow> leaves snd (recv_rdev pv x st s) n"
  by (auto simp: recv_rdev_def intro!: leaves_intro)

lemma recv_symlink_leaves [leaves_intro]: "length s \<le> n \<Longrightarrow> leaves snd (recv_symlink cfg first l st s) n"
  by (auto simp: recv_symlink_def intro!: leaves_intro)

lemma recv_sum_leaves [leaves_intro]: "length s \<le> n \<Longrightarrow> leaves snd (recv_sum cfg m first s) n"
  by (auto simp: recv_sum_def intro!: leaves_intro)

lemma recv_hlink_leaves: "length s \<le> n \<Longrightarrow> leaves (snd \<circ> snd) (recv_hlink cfg x g h st s) n"
  unfolding recv_hlink_def Let_def by (auto intro!: leaves_if leaves_Inr leaves_option leaves_bind3 [where k = "\<lambda>(a, b, c). K a b c" for K] leaves_intro)

lemma recv_attrs_leaves: "length s \<le> n \<Longrightarrow> leaves (snd \<circ> snd \<circ> snd \<circ> snd) (recv_attrs cfg env x st s) n"
  unfolding recv_attrs_def Let_def by (intro leaves_intro; simp)

lemma recv_name_leaves: "length s \<le> n \<Longrightarrow> leaves (snd \<circ> snd \<circ> snd \<circ> snd) (recv_name cfg x st s) n"
  unfolding recv_name_def Let_def
  apply (rule leaves_bind, (auto intro!: leaves_intro)[1], simp only: prod.case)
  apply (rule leaves_bind, (auto intro!: leaves_intro)[1], simp only: prod.case)
  apply (rule leaves_if, rule leaves_Inl)
  apply (rule leaves_bind, erule read_sbuf_leaves, simp only: prod.case)
  apply (rule leaves_bind_any, rule leaves_Inr, simp)
  done

lemma recv_create_leaves:
  assumes "length s \<le> n"
  shows "leaves (snd \<circ> snd) (recv_create cfg x nm l1 l2 g h first v s) n"
proof -
  obtain fl ns ll st where v: "v = (fl, ns, ll, st)" by (cases v)
  show ?thesis
    unfolding recv_create_def Let_def v prod.case case_prod_beta
    apply (rule leaves_if, rule leaves_Inl)
    apply (rule leaves_bind, rule recv_symlink_leaves [OF assms])
    apply (rule leaves_bind3, rule recv_hlink_leaves, simp)
    apply (rule leaves_bind, rule recv_sum_leaves, simp)
    apply (rule leaves_Inr, simp)
    done
qed

lemma recv_file_entry_leaves: "length s \<le> n \<Longrightarrow> leaves (snd \<circ> snd) (recv_file_entry cfg env files k x st s) n"
  unfolding recv_file_entry_def Let_def
  apply (rule leaves_bind5, erule recv_name_leaves, simp only: prod.case)
  apply (rule leaves_bind, (auto intro!: leaves_intro)[1], simp only: prod.case)
  apply (rule leaves_if, erule recv_create_leaves)
  apply (rule leaves_bind5, erule recv_attrs_leaves, simp only: prod.case)
  apply (erule recv_create_leaves)
  done

lemma recv_flags_less: "recv_flags cfg safe s = Inr (f, e, s') \<Longrightarrow> length s' < length s"
  by (fastforce simp: recv_flags_def res_bind_eq_Inr dest: read_varint_less read_byte_less split: if_splits)

text \<open>C26: Reading a file list ends: whatever the sender writes, the loop of recv_file_list returns or exits after at
  most as many rounds as there are bytes.\<close>

theorem recv_entries_ends:
  "\<exists>r. recv_entries (Suc (length s)) cfg safe ignore_errors env dir ndx_start files io st s = Some r"
proof -
  have "length s < fuel \<Longrightarrow> recv_entries fuel cfg safe ignore_errors env dir ndx_start files io st s \<noteq> None" for fuel
  proof (induction fuel arbitrary: files st s)
    case (Suc fuel)
    have "length s' < fuel"
      if "recv_flags cfg safe s = Inr (Some f, e, s1)" "recv_file_entry cfg env files ndx_start f st s1 = Inr (F, st', s')" for f e s1 F st' s'
      using recv_flags_less [OF that(1)] recv_file_entry_leaves [of s1 "length s1" cfg env files ndx_start f st] that(2) Suc.prems
      by (simp add: leaves_def)
    then have "recv_entries fuel cfg safe ignore_errors env dir ndx_start (files @ [F]) io st' s' \<noteq> None"
      if "recv_flags cfg safe s = Inr (Some f, e, s1)" "recv_file_entry cfg env files ndx_start f st s1 = Inr (F, st', s')" for f e s1 F st' s'
      using Suc.IH that recv_flags_less [OF that(1)] by blast
    then show ?case by (auto split: sum.split option.split prod.split)
  qed simp
  then show ?thesis by blast
qed

section \<open>What the static variables keep\<close>

text \<open>A --chmod option is applied twice to a file with the mode of the file before it: the static variable
  mode already holds the changed mode when XMIT_SAME_MODE leaves it as it is. Of two files with mode
  0644 the first one gets 0744 and the second one 0754 from u+x,g+X.\<close>

lemma chmod_applied_twice:
  "(case parse_chmod 0 ''u+x,g+X'' [] of
      None \<Rightarrow> False
    | Some (cm, _) \<Rightarrow>
        (case recv_entries 3 (sample_cfg\<lparr>chmod_modes := cm\<rparr>) True False (sample_ids []) [] 1 [] 0 recv_vars0
           (fst (send_entries sample_cfg (\<lambda>_. None) (\<lambda>_. None) 0 1
              [(sample_args ''one'' None, sample_file 33188 0), (sample_args ''two'' None, sample_file 33188 0)] send_vars0) @ [0]) of
           Some (Inr (files, _)) \<Rightarrow> map fs_mode files = [33252, 33260]
         | _ \<Rightarrow> False))"
  by code_simp

text \<open>A hard link can get the flag FLAG_SKIP_GROUP of another file. The entry of a link of an earlier
  file of the list takes over the group of that file but not its flags, and gid_flags still
  belongs to the group read last. Here the receiver is not root and in group 100 but not in group 200; the third file
  is a link of the first one and has group 100, but is flagged like the second.\<close>

lemma link_takes_wrong_group_flag:
  "(case recv_entries 4 (sample_cfg\<lparr>inc_recurse := True, am_root := False\<rparr>) True False (sample_ids [100]) [] 1 [] 0 recv_vars0
      (fst (send_entries (sample_cfg\<lparr>inc_recurse := True, am_root := False\<rparr>) (\<lambda>_. None) (\<lambda>_. None) 0 1
         [(sample_args ''one'' (Some (1, 7)), sample_file 33188 100), (sample_args ''two'' None, sample_file 33188 200),
          (sample_args ''three'' (Some (1, 7)), sample_file 33188 100)] send_vars0) @ [0]) of
      Some (Inr (files, _)) \<Rightarrow> map (\<lambda>f. (fs_gid f, FLAG_SKIP_GROUP f)) files = [(100, False), (200, True), (100, True)]
    | _ \<Rightarrow> False)"
  by code_simp

text \<open>The target of a symlink at the top of the transfer after some other entries.\<close>

definition sanitized_link :: "(send_args \<times> file_struct) list \<Rightarrow> string option" where
  "sanitized_link es =
     (case recv_entries 4 (sample_cfg\<lparr>fc_sanitize_paths := True\<rparr>) True False (sample_ids []) [] 1 [] 0 recv_vars0
        (fst (send_entries sample_cfg (\<lambda>_. None) (\<lambda>_. None) 0 1
          (es @ [((sample_args ''ln'' None)\<lparr>sa_symlink := ''../../x''\<rparr>, sample_file 41471 0)]) send_vars0) @ [0]) of
        Some (Inr (files, _)) \<Rightarrow> Some (fs_symlink (last files))
      | _ \<Rightarrow> None)"

text \<open>A symlink at the top of the transfer can point out of a daemon's module: its target is sanitized with the
  depth of the directory seen last, because lastdir_depth is not reset for a name without a directory.
  The same link is harmless when it comes first.\<close>

lemma symlink_depth_stale:
  "sanitized_link [] = Some ''x'' \<and>
   sanitized_link [(sample_args ''a/b/f'' None, sample_file 33188 0)] = Some ''../../x''"
  by code_simp

end
