(* ===== verification/FlistOrder.thy ===== *)
theory FlistOrder
  imports FlistEntry "HOL-Library.List_Lexorder" "HOL-Library.Sublist"
begin

text \<open>
  The order of a file list, f_name_cmp of flist.c. Two cursors walk over the names, each a
  state, a type and the string still to compare; the names are never joined. The model has the
  outcome \<open>None\<close> where the loop would step over the NUL that ends a string. \<open>same\<close> says whether
  the two dirname pointers are equal, which the code asks before it looks at the strings; it
  implies that the strings are equal, but not the other way round.
\<close>

section \<open>f_name_cmp\<close>

datatype fnc_state = s_DIR | s_SLASH | s_BASE | s_TRAILING

datatype fnc_type = t_PATH | t_ITEM

type_synonym cursor = "fnc_state \<times> fnc_type \<times> string"

definition F_IS_ACTIVE :: "file_struct \<Rightarrow> bool" where
  "F_IS_ACTIVE f \<longleftrightarrow> fs_basename f \<noteq> []"

definition t_path :: "nat \<Rightarrow> fnc_type" where
  "t_path pv = (if pv \<ge> 29 then t_PATH else t_ITEM)"

text \<open>The cursor at the start of the basename.\<close>

definition base_cursor :: "nat \<Rightarrow> file_struct \<Rightarrow> cursor" where
  "base_cursor pv f =
     (let ty = (if S_ISDIR (fs_mode f) then t_path pv else t_ITEM)
      in if ty = t_PATH \<and> fs_basename f = ''.'' then (s_TRAILING, t_ITEM, []) else (s_BASE, ty, fs_basename f))"

definition start_cursor :: "nat \<Rightarrow> file_struct \<Rightarrow> string option \<Rightarrow> cursor" where
  "start_cursor pv f c = (case c of None \<Rightarrow> base_cursor pv f | Some d \<Rightarrow> (s_DIR, t_path pv, d))"

text \<open>The switch at the end of a string.\<close>

fun next_cursor :: "nat \<Rightarrow> file_struct \<Rightarrow> cursor \<Rightarrow> cursor" where
  "next_cursor pv f (s_DIR, ty, c) = (s_SLASH, ty, ''/'')"
| "next_cursor pv f (s_SLASH, ty, c) = base_cursor pv f"
| "next_cursor pv f (s_BASE, ty, c) = (if ty = t_PATH then (s_TRAILING, ty, ''/'') else (s_TRAILING, t_ITEM, c))"
| "next_cursor pv f (s_TRAILING, ty, c) = (s_TRAILING, t_ITEM, c)"

definition type_dif :: "fnc_type \<Rightarrow> int" where
  "type_dif ty = (if ty = t_PATH then 1 else -1)"

text \<open>What is still to come under a cursor, each character with its type.\<close>

fun rest_of :: "nat \<Rightarrow> file_struct \<Rightarrow> cursor \<Rightarrow> (fnc_type \<times> char) list" where
  "rest_of pv f (s_BASE, ty, c) = map (Pair ty) c @ (if ty = t_PATH then [(t_PATH, CHR ''/'')] else [])"
| "rest_of pv f (s_TRAILING, ty, c) = map (Pair ty) c"
| "rest_of pv f (s_SLASH, ty, c) = map (Pair ty) c @
     (case base_cursor pv f of (st, ty, b) \<Rightarrow> map (Pair ty) b @ (if ty = t_PATH then [(t_PATH, CHR ''/'')] else []))"
| "rest_of pv f (s_DIR, ty, c) = map (Pair ty) c @ (ty, CHR ''/'') #
     (case base_cursor pv f of (st, ty, b) \<Rightarrow> map (Pair ty) b @ (if ty = t_PATH then [(t_PATH, CHR ''/'')] else []))"

lemma base_cursor_cases:
  "base_cursor pv f = (s_TRAILING, t_ITEM, []) \<or> (\<exists>ty. base_cursor pv f = (s_BASE, ty, fs_basename f))"
  by (simp add: base_cursor_def Let_def)

lemma rest_of_base:
  "rest_of pv f (base_cursor pv f) =
    (case base_cursor pv f of (st, ty, b) \<Rightarrow> map (Pair ty) b @ (if ty = t_PATH then [(t_PATH, CHR ''/'')] else []))"
  using base_cursor_cases [of pv f] by auto

lemma rest_of_next: "rest_of pv f (next_cursor pv f (st, ty, [])) = rest_of pv f (st, ty, [])"
  by (cases st) (simp_all add: rest_of_base)

lemma rest_of_step: "rest_of pv f (st, ty, a # c) = (ty, a) # rest_of pv f (st, ty, c)"
  by (cases st) simp_all

text \<open>One side of the loop: at the end of a string the cursor moves on.\<close>

definition turn_cursor :: "nat \<Rightarrow> file_struct \<Rightarrow> cursor \<Rightarrow> cursor" where
  "turn_cursor pv f k = (if snd (snd k) = [] then next_cursor pv f k else k)"

lemma rest_of_turn: "rest_of pv f (turn_cursor pv f k) = rest_of pv f k"
  by (cases k) (auto simp: turn_cursor_def rest_of_next)

lemma turn_cursor_shrinks:
  assumes "turn_cursor pv f k = (st, ty, a # c)"
  shows "length (rest_of pv f (st, ty, c)) < length (rest_of pv f k)"
  using rest_of_turn [of pv f k] by (metis assms rest_of_step length_Cons lessI)

function name_loop :: "nat \<Rightarrow> file_struct \<Rightarrow> file_struct \<Rightarrow> cursor \<Rightarrow> cursor \<Rightarrow> (int \<times> bool) option" where
  "name_loop pv f1 f2 k1 k2 =
     (let (state1, type1, c1) = turn_cursor pv f1 k1 in
      if snd (snd k1) = [] \<and> snd (snd k2) \<noteq> [] \<and> type1 \<noteq> fst (snd k2) then Some (type_dif type1, False)
      else
        let ended = (snd (snd k2) = [] \<and> (fst k2 = s_TRAILING \<or> fst k2 = s_BASE \<and> fst (snd k2) \<noteq> t_PATH));
            (state2, type2, c2) = turn_cursor pv f2 k2 in
        if ended \<and> c1 = [] then Some (0, True)
        else if snd (snd k2) = [] \<and> type1 \<noteq> type2 then Some (type_dif type1, ended)
        else case (c1, c2) of
               ([], []) \<Rightarrow> None
             | ([], b # _) \<Rightarrow> Some (0 - int (of_char b), ended)
             | (a # _, []) \<Rightarrow> Some (int (of_char a), ended)
             | (a # c1', b # c2') \<Rightarrow>
                 if a = b then name_loop pv f1 f2 (state1, type1, c1') (state2, type2, c2')
                 else Some (int (of_char a) - int (of_char b), ended))"
  by pat_completeness auto
termination
  by (relation "measure (\<lambda>(pv, f1, f2, k1, k2). length (rest_of pv f1 k1))") (auto dest: turn_cursor_shrinks [OF sym])

declare name_loop.simps [simp del]

text \<open>f_name_cmp and the value it leaves in found_prefix.\<close>

definition f_name_cmp :: "nat \<Rightarrow> bool \<Rightarrow> file_struct \<Rightarrow> file_struct \<Rightarrow> (int \<times> bool) option" where
  "f_name_cmp pv same f1 f2 =
     (if \<not> F_IS_ACTIVE f1 then Some (if F_IS_ACTIVE f2 then -1 else 0, False)
      else if \<not> F_IS_ACTIVE f2 then Some (1, False)
      else
        let k1 = start_cursor pv f1 (if same then None else fs_dirname f1);
            k2 = start_cursor pv f2 (if same then None else fs_dirname f2) in
        if fst (snd k1) \<noteq> fst (snd k2) then Some (type_dif (fst (snd k1)), False)
        else name_loop pv f1 f2 k1 k2)"

definition f_name_has_prefix :: "nat \<Rightarrow> bool \<Rightarrow> file_struct \<Rightarrow> file_struct \<Rightarrow> bool option" where
  "f_name_has_prefix pv same f1 f2 = map_option snd (f_name_cmp pv same f1 f2)"

section \<open>The key of a name\<close>

text \<open>
  What the comparison amounts to: every character counts with its type, and the names
  compare like the sequences of these numbers. The end of a name comes before everything.
\<close>

definition tok :: "fnc_type \<times> char \<Rightarrow> nat" where
  "tok t = (if fst t = t_PATH then 256 else 0) + of_char (snd t)"

definition path_key :: "nat \<Rightarrow> file_struct \<Rightarrow> nat list" where
  "path_key pv f = map tok (rest_of pv f (start_cursor pv f (fs_dirname f)))"

definition base_key :: "nat \<Rightarrow> file_struct \<Rightarrow> nat list" where
  "base_key pv f = map tok (rest_of pv f (base_cursor pv f))"

definition no_nul :: "file_struct \<Rightarrow> bool" where
  "no_nul f \<longleftrightarrow> NUL \<notin> set (fs_basename f) \<and> (\<forall>d. fs_dirname f = Some d \<longrightarrow> NUL \<notin> set d)"

lemma of_char_less: "(of_char c :: nat) < 256"
  by (simp add: nat_of_char_less_256)

lemma of_char_pos: "c \<noteq> NUL \<Longrightarrow> 0 < (of_char c :: nat)"
proof -
  assume "c \<noteq> NUL"
  then have "of_char c \<noteq> (of_char NUL :: nat)" by simp
  then show ?thesis by (simp add: NUL_def)
qed

lemma tok_less:
  "tok (ty, a) < tok (ty', b) \<longleftrightarrow> (if ty \<noteq> ty' then type_dif ty < 0 else (of_char a :: nat) < of_char b)"
proof -
  have "(of_char a :: nat) < 256" "(of_char b :: nat) < 256" by (rule of_char_less)+
  then have "\<not> 256 + (of_char a :: nat) < of_char b" "(of_char a :: nat) < 256 + of_char b" by linarith+
  then show ?thesis by (cases ty; cases ty') (simp_all add: tok_def type_dif_def)
qed

lemma tok_eq: "tok (ty, a) = tok (ty', b) \<longleftrightarrow> ty = ty' \<and> a = b"
proof -
  have "(of_char a :: nat) < 256" "(of_char b :: nat) < 256" by (rule of_char_less)+
  then have "(of_char a :: nat) \<noteq> 256 + of_char b" "256 + (of_char a :: nat) \<noteq> of_char b" by linarith+
  then show ?thesis by (cases ty; cases ty') (simp_all add: tok_def)
qed

lemma tok_pos: "a \<noteq> NUL \<Longrightarrow> 0 < tok (ty, a)"
  by (simp add: tok_def of_char_pos)

section \<open>The loop compares the keys\<close>

lemma turn_end:
  assumes "F_IS_ACTIVE f" and "turn_cursor pv f k = (st, ty, [])"
  shows "ty = t_ITEM" and "rest_of pv f k = []"
proof -
  obtain s' t' c' where k: "k = (s', t', c')" by (cases k)
  show "ty = t_ITEM" "rest_of pv f k = []"
    using assms base_cursor_cases [of pv f] rest_of_turn [of pv f k]
    by (cases s'; auto simp: k turn_cursor_def F_IS_ACTIVE_def split: if_splits)+
qed

lemma turn_more: "turn_cursor pv f k = (st, ty, a # c) \<Longrightarrow> rest_of pv f k = (ty, a) # rest_of pv f (st, ty, c)"
  using rest_of_turn [of pv f k] by (simp add: rest_of_step)

text \<open>A cursor in front of the basename of a directory that is called dot.\<close>

definition at_dot :: "nat \<Rightarrow> file_struct \<Rightarrow> cursor \<Rightarrow> bool" where
  "at_dot pv f k \<longleftrightarrow> (fst k = s_DIR \<or> fst k = s_SLASH) \<and> fst (base_cursor pv f) = s_TRAILING"

lemma turn_dot:
  assumes "turn_cursor pv f k = (st, ty, c)"
  shows "c \<noteq> [] \<Longrightarrow> at_dot pv f (st, ty, c') = at_dot pv f k"
    and "F_IS_ACTIVE f \<Longrightarrow> c = [] \<Longrightarrow> at_dot pv f k \<longleftrightarrow>
      \<not> (snd (snd k) = [] \<and> (fst k = s_TRAILING \<or> fst k = s_BASE \<and> fst (snd k) \<noteq> t_PATH))"
proof -
  obtain s' t' d where k: "k = (s', t', d)" by (cases k)
  note B = base_cursor_cases [of pv f]
  show "c \<noteq> [] \<Longrightarrow> at_dot pv f (st, ty, c') = at_dot pv f k"
    using assms B by (cases s') (auto simp: k turn_cursor_def at_dot_def split: if_splits)
  show "F_IS_ACTIVE f \<Longrightarrow> c = [] \<Longrightarrow> at_dot pv f k \<longleftrightarrow>
      \<not> (snd (snd k) = [] \<and> (fst k = s_TRAILING \<or> fst k = s_BASE \<and> fst (snd k) \<noteq> t_PATH))"
    using assms B by (cases s') (auto simp: k turn_cursor_def at_dot_def F_IS_ACTIVE_def split: if_splits)
qed

lemma turn_ended:
  assumes "snd (snd k) = [] \<and> (fst k = s_TRAILING \<or> fst k = s_BASE \<and> fst (snd k) \<noteq> t_PATH)"
  shows "snd (snd (turn_cursor pv f k)) = []"
  using assms by (cases k) (auto simp: turn_cursor_def)

definition cmp_spec :: "nat list \<Rightarrow> nat list \<Rightarrow> bool \<Rightarrow> (int \<times> bool) option \<Rightarrow> bool" where
  "cmp_spec r1 r2 dot res \<longleftrightarrow>
     (case res of
        None \<Rightarrow> r1 = r2 \<and> dot
      | Some (d, p) \<Rightarrow> (d < 0 \<longleftrightarrow> r1 < r2) \<and> (d = 0 \<longleftrightarrow> r1 = r2) \<and> (p \<longleftrightarrow> prefix r2 r1 \<and> \<not> dot) \<and> (r1 = r2 \<longrightarrow> \<not> dot))"

lemma name_loop_spec:
  assumes "F_IS_ACTIVE f1" and "F_IS_ACTIVE f2"
  shows "fst (snd k1) = fst (snd k2) \<Longrightarrow> (\<And>t. t \<in> set (rest_of pv f1 k1) \<union> set (rest_of pv f2 k2) \<Longrightarrow> snd t \<noteq> NUL) \<Longrightarrow>
    cmp_spec (map tok (rest_of pv f1 k1)) (map tok (rest_of pv f2 k2)) (at_dot pv f2 k2) (name_loop pv f1 f2 k1 k2)"
proof (induction "length (rest_of pv f1 k1)" arbitrary: k1 k2 rule: less_induct)
  case less
  obtain s1 t1 c1 where t1: "turn_cursor pv f1 k1 = (s1, t1, c1)" by (cases "turn_cursor pv f1 k1")
  obtain s2 t2 c2 where t2: "turn_cursor pv f2 k2 = (s2, t2, c2)" by (cases "turn_cursor pv f2 k2")
  define ended where "ended \<longleftrightarrow> snd (snd k2) = [] \<and> (fst k2 = s_TRAILING \<or> fst k2 = s_BASE \<and> fst (snd k2) \<noteq> t_PATH)"
  define r1 where "r1 = rest_of pv f1 k1"
  define r2 where "r2 = rest_of pv f2 k2"
  have E1: "c1 = [] \<Longrightarrow> t1 = t_ITEM \<and> r1 = []" using turn_end [OF assms(1), of pv k1] t1 by (auto simp: r1_def)
  have E2: "c2 = [] \<Longrightarrow> t2 = t_ITEM \<and> r2 = []" using turn_end [OF assms(2), of pv k2] t2 by (auto simp: r2_def)
  have M1: "c1 = a # c \<Longrightarrow> r1 = (t1, a) # rest_of pv f1 (s1, t1, c)" for a c using turn_more t1 by (auto simp: r1_def)
  have M2: "c2 = a # c \<Longrightarrow> r2 = (t2, a) # rest_of pv f2 (s2, t2, c)" for a c using turn_more t2 by (auto simp: r2_def)
  have N: "t \<in> set r1 \<union> set r2 \<Longrightarrow> snd t \<noteq> NUL" for t using less.prems(2) by (simp add: r1_def r2_def)
  have P: "c1 = a # c \<Longrightarrow> 0 < (of_char a :: nat)" "c2 = a # c \<Longrightarrow> 0 < (of_char a :: nat)" for a c
    using N M1 M2 of_char_pos by fastforce+
  have D: "c2 = [] \<Longrightarrow> at_dot pv f2 k2 \<longleftrightarrow> \<not> ended" "ended \<Longrightarrow> c2 = []"
    using turn_dot(2) [OF t2 assms(2)] turn_ended [of k2 pv f2] by (auto simp: ended_def t2)
  have ty: "snd (snd k1) \<noteq> [] \<Longrightarrow> t1 = fst (snd k1)" "snd (snd k2) \<noteq> [] \<Longrightarrow> t2 = fst (snd k2) \<and> c2 \<noteq> []"
    using t1 t2 by (auto simp: turn_cursor_def)
  note U = name_loop.simps [of pv f1 f2 k1 k2, unfolded t1 t2 Let_def prod.case, folded ended_def]
  show ?case
  proof (cases "t1 = t2")
    case False
    then have "name_loop pv f1 f2 k1 k2 = Some (type_dif t1, ended)"
      unfolding U using ty E1 E2 D(2) less.prems(1) by (auto simp: ended_def)
    then show ?thesis
      using False E1 E2 M1 M2 D unfolding cmp_spec_def r1_def [symmetric] r2_def [symmetric]
      by (cases c1; cases c2) (auto simp: tok_less tok_eq type_dif_def intro: fnc_type.exhaust)
  next
    case True
    have K: "name_loop pv f1 f2 k1 k2 = (if ended \<and> c1 = [] then Some (0, True) else
        case (c1, c2) of
          ([], []) \<Rightarrow> None
        | ([], b # _) \<Rightarrow> Some (0 - int (of_char b), ended)
        | (a # _, []) \<Rightarrow> Some (int (of_char a), ended)
        | (a # c1', b # c2') \<Rightarrow> if a = b then name_loop pv f1 f2 (s1, t1, c1') (s2, t2, c2')
            else Some (int (of_char a) - int (of_char b), ended))"
      unfolding U using ty True by auto
    consider "c1 = []" | a x where "c1 = a # x" "c2 = []" | a x y where "c1 = a # x" "c2 = a # y"
      | a x b y where "c1 = a # x" "c2 = b # y" "a \<noteq> b"
      by (cases c1; cases c2) auto
    then show ?thesis
    proof cases
      case 1
      then show ?thesis
        using E1 E2 M2 D P unfolding K cmp_spec_def r1_def [symmetric] r2_def [symmetric] by (cases c2) auto
    next
      case 2
      then show ?thesis
        using E2 M1 D P unfolding K cmp_spec_def r1_def [symmetric] r2_def [symmetric] by auto
    next
      case 3
      have "at_dot pv f2 (s2, t2, y) = at_dot pv f2 k2" using turn_dot(1) [OF t2] 3 by simp
      moreover have "\<not> ended" using 3 D by auto
      moreover have "cmp_spec (map tok (rest_of pv f1 (s1, t1, x))) (map tok (rest_of pv f2 (s2, t2, y))) (at_dot pv f2 (s2, t2, y))
          (name_loop pv f1 f2 (s1, t1, x) (s2, t2, y))"
        by (rule less.hyps) (use 3 M1 M2 N True in \<open>auto simp: r1_def\<close>)
      ultimately show ?thesis
        using 3 M1 M2 True unfolding K cmp_spec_def r1_def [symmetric] r2_def [symmetric]
        by (auto simp: tok_eq split: option.splits)
    next
      case 4
      then show ?thesis
        using M1 M2 D True unfolding K cmp_spec_def r1_def [symmetric] r2_def [symmetric] by (auto simp: tok_less tok_eq)
    qed
  qed
qed

section \<open>The order\<close>

definition name_rank :: "nat \<Rightarrow> file_struct \<Rightarrow> nat list" where
  "name_rank pv f = (if F_IS_ACTIVE f then 0 # path_key pv f else [])"

text \<open>The second name is that of a directory called dot with a directory part of its own.\<close>

definition dotted :: "nat \<Rightarrow> bool \<Rightarrow> file_struct \<Rightarrow> bool" where
  "dotted pv same f \<longleftrightarrow> pv \<ge> 29 \<and> \<not> same \<and> fs_dirname f \<noteq> None \<and> S_ISDIR (fs_mode f) \<and> fs_basename f = ''.''"

lemma append_less: "xs @ ys < xs @ zs \<longleftrightarrow> ys < (zs :: nat list)"
  by (induction xs) auto

lemma rest_of_dir: "rest_of pv f (s_DIR, ty, d) = map (Pair ty) (d @ ''/'') @ rest_of pv f (base_cursor pv f)"
  by (simp add: rest_of_base)

lemma path_key_dir: "fs_dirname f = Some d \<Longrightarrow> path_key pv f = map (\<lambda>c. tok (t_path pv, c)) (d @ ''/'') @ base_key pv f"
  unfolding path_key_def start_cursor_def base_key_def by (simp only: option.case rest_of_dir map_append map_map comp_def)

lemma path_key_top: "fs_dirname f = None \<Longrightarrow> path_key pv f = base_key pv f"
  by (simp add: path_key_def start_cursor_def base_key_def)

lemma path_key_same:
  assumes "fs_dirname f1 = fs_dirname f2"
  shows "path_key pv f1 < path_key pv f2 \<longleftrightarrow> base_key pv f1 < base_key pv f2"
    and "path_key pv f1 = path_key pv f2 \<longleftrightarrow> base_key pv f1 = base_key pv f2"
    and "prefix (path_key pv f2) (path_key pv f1) \<longleftrightarrow> prefix (base_key pv f2) (base_key pv f1)"
proof -
  obtain xs where "path_key pv f1 = xs @ base_key pv f1" "path_key pv f2 = xs @ base_key pv f2"
    using assms by (cases "fs_dirname f2") (auto simp: path_key_top path_key_dir)
  then show "path_key pv f1 < path_key pv f2 \<longleftrightarrow> base_key pv f1 < base_key pv f2"
    "path_key pv f1 = path_key pv f2 \<longleftrightarrow> base_key pv f1 = base_key pv f2"
    "prefix (path_key pv f2) (path_key pv f1) \<longleftrightarrow> prefix (base_key pv f2) (base_key pv f1)"
    by (simp_all add: append_less)
qed

lemma no_nul_base: "no_nul f \<Longrightarrow> t \<in> set (rest_of pv f (base_cursor pv f)) \<Longrightarrow> snd t \<noteq> NUL"
  using base_cursor_cases [of pv f] by (auto simp: no_nul_def NUL_def split: if_splits)

lemma no_nul_rest:
  assumes "no_nul f" and "t \<in> set (rest_of pv f (start_cursor pv f (if same then None else fs_dirname f)))"
  shows "snd t \<noteq> NUL"
proof (cases "if same then None else fs_dirname f")
  case None
  then show ?thesis using assms no_nul_base by (simp add: start_cursor_def)
next
  case (Some d)
  then have "NUL \<notin> set d" using assms(1) by (auto simp: no_nul_def split: if_splits)
  then show ?thesis
    using assms Some no_nul_base [OF assms(1)] unfolding start_cursor_def Some option.case rest_of_dir
    by (cases t) (fastforce simp: NUL_def)
qed

lemma start_keys:
  fixes pv :: nat
  assumes "same \<Longrightarrow> fs_dirname f1 = fs_dirname f2"
  defines "r \<equiv> \<lambda>f. map tok (rest_of pv f (start_cursor pv f (if same then None else fs_dirname f)))"
  shows "r f1 < r f2 \<longleftrightarrow> path_key pv f1 < path_key pv f2" and "r f1 = r f2 \<longleftrightarrow> path_key pv f1 = path_key pv f2"
    and "prefix (r f2) (r f1) \<longleftrightarrow> prefix (path_key pv f2) (path_key pv f1)"
  using assms(1) path_key_same [of f1 f2 pv]
  by (cases same; simp add: r_def start_cursor_def base_key_def; simp add: path_key_def start_cursor_def)+

lemma at_dot_start:
  "at_dot pv f (start_cursor pv f (if same then None else fs_dirname f)) \<longleftrightarrow> dotted pv same f"
  using base_cursor_cases [of pv f]
  by (cases "fs_dirname f") (auto simp: at_dot_def dotted_def start_cursor_def base_cursor_def Let_def t_path_def split: if_splits)

lemma start_types:
  assumes "F_IS_ACTIVE f" and "start_cursor pv f c = (st, ty, s)"
  shows "rest_of pv f (start_cursor pv f c) = [] \<and> ty = t_ITEM \<or> (\<exists>a r. rest_of pv f (start_cursor pv f c) = (ty, a) # r)"
  using assms base_cursor_cases [of pv f]
  by (cases c; cases s) (auto simp: start_cursor_def F_IS_ACTIVE_def neq_Nil_conv split: if_splits)

lemma cmp_spec_types:
  assumes "x = [] \<and> ty = t_ITEM \<or> (\<exists>a r. x = (ty, a) # r)" and "y = [] \<and> ty' = t_ITEM \<or> (\<exists>a r. y = (ty', a) # r)" and "ty \<noteq> ty'"
  shows "type_dif ty < 0 \<longleftrightarrow> map tok x < map tok y" and "type_dif ty \<noteq> 0" and "map tok x \<noteq> map tok y"
  using assms by (cases ty; cases ty'; auto simp: type_dif_def tok_less tok_eq)+

lemma base_rest_ne: "F_IS_ACTIVE f \<Longrightarrow> fs_basename f \<noteq> ''.'' \<Longrightarrow> rest_of pv f (base_cursor pv f) \<noteq> []"
  by (simp add: base_cursor_def Let_def F_IS_ACTIVE_def)

lemma f_name_cmp_spec:
  assumes "F_IS_ACTIVE f1" and "F_IS_ACTIVE f2" and "no_nul f1" and "no_nul f2" and same: "same \<Longrightarrow> fs_dirname f1 = fs_dirname f2"
  shows "case f_name_cmp pv same f1 f2 of
      None \<Rightarrow> path_key pv f1 = path_key pv f2 \<and> dotted pv same f2
    | Some (d, p) \<Rightarrow> (d < 0 \<longleftrightarrow> path_key pv f1 < path_key pv f2) \<and> (d = 0 \<longleftrightarrow> path_key pv f1 = path_key pv f2) \<and>
        (path_key pv f1 = path_key pv f2 \<longrightarrow> \<not> dotted pv same f2) \<and>
        (fs_basename f2 \<noteq> ''.'' \<longrightarrow> (p \<longleftrightarrow> prefix (path_key pv f2) (path_key pv f1)))"
proof -
  define k1 where "k1 = start_cursor pv f1 (if same then None else fs_dirname f1)"
  define k2 where "k2 = start_cursor pv f2 (if same then None else fs_dirname f2)"
  obtain s1 t1 c1 where e1: "k1 = (s1, t1, c1)" by (cases k1)
  obtain s2 t2 c2 where e2: "k2 = (s2, t2, c2)" by (cases k2)
  have K: "map tok (rest_of pv f1 k1) < map tok (rest_of pv f2 k2) \<longleftrightarrow> path_key pv f1 < path_key pv f2"
    "map tok (rest_of pv f1 k1) = map tok (rest_of pv f2 k2) \<longleftrightarrow> path_key pv f1 = path_key pv f2"
    "prefix (map tok (rest_of pv f2 k2)) (map tok (rest_of pv f1 k1)) \<longleftrightarrow> prefix (path_key pv f2) (path_key pv f1)"
    unfolding k1_def k2_def using start_keys [of same f1 f2 pv] same by blast+
  have T: "rest_of pv f1 k1 = [] \<and> t1 = t_ITEM \<or> (\<exists>a r. rest_of pv f1 k1 = (t1, a) # r)"
    "rest_of pv f2 k2 = [] \<and> t2 = t_ITEM \<or> (\<exists>a r. rest_of pv f2 k2 = (t2, a) # r)"
    using start_types [OF assms(1)] start_types [OF assms(2)] e1 e2 unfolding k1_def k2_def by blast+
  show ?thesis
  proof (cases "t1 = t2")
    case True
    have "f_name_cmp pv same f1 f2 = name_loop pv f1 f2 k1 k2"
      using True assms(1,2) e1 e2 unfolding f_name_cmp_def k1_def [symmetric] k2_def [symmetric] by (simp add: Let_def)
    moreover have "dotted pv same f2 = at_dot pv f2 k2" using at_dot_start [of pv f2 same] by (simp add: k2_def)
    moreover have "snd t \<noteq> NUL" if "t \<in> set (rest_of pv f1 k1) \<union> set (rest_of pv f2 k2)" for t
      using that no_nul_rest assms(3,4) unfolding k1_def k2_def by blast
    then have "cmp_spec (map tok (rest_of pv f1 k1)) (map tok (rest_of pv f2 k2)) (at_dot pv f2 k2) (name_loop pv f1 f2 k1 k2)"
      using True e1 e2 by (intro name_loop_spec [OF assms(1,2)]) simp_all
    ultimately have "cmp_spec (map tok (rest_of pv f1 k1)) (map tok (rest_of pv f2 k2)) (dotted pv same f2) (f_name_cmp pv same f1 f2)" by simp
    moreover have "dotted pv same f2 \<Longrightarrow> fs_basename f2 = ''.''" by (simp add: dotted_def)
    ultimately show ?thesis unfolding cmp_spec_def K by (cases "f_name_cmp pv same f1 f2") auto
  next
    case False
    have "f_name_cmp pv same f1 f2 = Some (type_dif t1, False)"
      using False assms(1,2) e1 e2 unfolding f_name_cmp_def k1_def [symmetric] k2_def [symmetric] by (simp add: Let_def)
    moreover have "\<not> prefix (map tok (rest_of pv f2 k2)) (map tok (rest_of pv f1 k1))" if "fs_basename f2 \<noteq> ''.''"
    proof -
      have "rest_of pv f2 k2 \<noteq> []"
        using base_rest_ne [OF assms(2) that] unfolding k2_def start_cursor_def
        by (cases "if same then None else fs_dirname f2") (simp_all only: option.case rest_of_dir append_is_Nil_conv simp_thms)
      then obtain a r where "rest_of pv f2 k2 = (t2, a) # r" using T(2) by blast
      moreover have "rest_of pv f1 k1 = [] \<or> (\<exists>a r. rest_of pv f1 k1 = (t1, a) # r)" using T(1) by blast
      ultimately show ?thesis using False tok_eq by fastforce
    qed
    ultimately show ?thesis
      using cmp_spec_types [OF T False] by (simp add: K)
  qed
qed


text \<open>A file for the examples.\<close>

definition plain_file :: "string option \<Rightarrow> string \<Rightarrow> int \<Rightarrow> file_struct" where
  "plain_file d b mode = \<lparr>fs_dirname = d, fs_basename = b, fs_modtime = 0, fs_nsec = 0, fs_length = 0, fs_mode = mode,
     fs_uid = 0, fs_gid = 0, fs_atime = 0, fs_rdev = 0, fs_symlink = [], fs_sum = [], fs_hl_gnum = 0, fs_depth = 0,
     FLAG_TOP_DIR = False, FLAG_CONTENT_DIR = False, FLAG_IMPLIED_DIR = False, FLAG_HLINKED = False, FLAG_SKIP_GROUP = False, FLAG_DUPLICATE = False\<rparr>"


section \<open>A directory and what is in it\<close>

definition join_name :: "file_struct \<Rightarrow> string" where
  "join_name f = (case fs_dirname f of None \<Rightarrow> fs_basename f | Some d \<Rightarrow> d @ ''/'' @ fs_basename f)"

text \<open>A file below a directory, or the directory itself.\<close>

definition inside :: "file_struct \<Rightarrow> file_struct \<Rightarrow> bool" where
  "inside dir f \<longleftrightarrow> prefix (join_name dir @ ''/'') (join_name f @ (if S_ISDIR (fs_mode f) then ''/'' else []))"

definition plain_name :: "file_struct \<Rightarrow> bool" where
  "plain_name f \<longleftrightarrow> F_IS_ACTIVE f \<and> fs_basename f \<noteq> ''.'' \<and> CHR ''/'' \<notin> set (fs_basename f)"

abbreviation ptok :: "char \<Rightarrow> nat" where
  "ptok c \<equiv> tok (t_PATH, c)"

lemma path_key_plain:
  assumes "plain_name f" and "29 \<le> pv"
  shows "path_key pv f = (if S_ISDIR (fs_mode f) then map ptok (join_name f @ ''/'')
    else (case fs_dirname f of None \<Rightarrow> [] | Some d \<Rightarrow> map ptok (d @ ''/'')) @ map (\<lambda>c. tok (t_ITEM, c)) (fs_basename f))"
proof -
  have "base_key pv f = (if S_ISDIR (fs_mode f) then map ptok (fs_basename f @ ''/'') else map (\<lambda>c. tok (t_ITEM, c)) (fs_basename f))"
    using assms by (simp add: plain_name_def base_key_def base_cursor_def Let_def t_path_def comp_def)
  then show ?thesis
    using assms(2) by (cases "fs_dirname f") (simp_all add: path_key_top path_key_dir join_name_def t_path_def)
qed

lemma prefix_map_ptok: "prefix (map ptok xs) (map ptok ys) \<longleftrightarrow> prefix xs ys"
proof (induction xs arbitrary: ys)
  case (Cons x xs)
  then show ?case by (cases ys) (simp_all add: tok_eq)
qed simp

lemma prefix_snoc_append: "x \<notin> set b \<Longrightarrow> prefix (xs @ [x]) (p @ b) \<longleftrightarrow> prefix (xs @ [x]) p"
proof -
  assume x: "x \<notin> set b"
  have "us = []" if "xs @ [x] = p @ us" "prefix us b" for us
    using that x by (cases us rule: rev_cases) (auto dest: set_mono_prefix)
  then show ?thesis by (auto simp: prefix_append)
qed

lemma inside_key:
  assumes "29 \<le> pv" and "plain_name dir" and "S_ISDIR (fs_mode dir)" and "plain_name f"
  shows "inside dir f \<longleftrightarrow> prefix (path_key pv dir) (path_key pv f)"
proof (cases "S_ISDIR (fs_mode f)")
  case True
  then show ?thesis
    using assms prefix_map_ptok [of "join_name dir @ ''/''" "join_name f @ ''/''"] by (simp add: inside_def path_key_plain)
next
  case False
  define p where "p = (case fs_dirname f of None \<Rightarrow> [] | Some d \<Rightarrow> d @ ''/'')"
  have "join_name f = p @ fs_basename f" by (simp add: p_def join_name_def split: option.split)
  then have "inside dir f \<longleftrightarrow> prefix (join_name dir @ ''/'') p"
    using False assms(4) prefix_snoc_append [of "CHR ''/''" "fs_basename f" "join_name dir" p] by (simp add: inside_def plain_name_def)
  also have "\<dots> \<longleftrightarrow> prefix (map ptok (join_name dir) @ [ptok CHR ''/'']) (map ptok p)"
    using prefix_map_ptok [of "join_name dir @ ''/''" p] by simp
  also have "\<dots> \<longleftrightarrow> prefix (map ptok (join_name dir) @ [ptok CHR ''/'']) (map ptok p @ map (\<lambda>c. tok (t_ITEM, c)) (fs_basename f))"
    by (rule prefix_snoc_append [symmetric]) (auto simp: tok_eq)
  also have "map ptok p @ map (\<lambda>c. tok (t_ITEM, c)) (fs_basename f) = path_key pv f"
    using False assms by (simp add: path_key_plain p_def split: option.split)
  finally show ?thesis using assms by (simp add: path_key_plain)
qed

lemma prefix_le: "prefix p y \<Longrightarrow> p \<le> (y :: nat list)"
proof (induction p arbitrary: y)
  case (Cons a p)
  then show ?case by (cases y) auto
qed simp

lemma prefix_between: "prefix p y \<Longrightarrow> p \<le> x \<Longrightarrow> x \<le> y \<Longrightarrow> prefix p (x :: nat list)"
proof (induction p arbitrary: x y)
  case (Cons a p)
  then show ?case by (cases x; cases y) (auto intro: Cons.IH)
qed simp

lemma sorted_ranks: "sorted (map (name_rank pv) fs) \<Longrightarrow> i \<le> j \<Longrightarrow> j < length fs \<Longrightarrow> name_rank pv (fs ! i) \<le> name_rank pv (fs ! j)"
  using sorted_nth_mono [of "map (name_rank pv) fs" i j] by simp

lemma contents_together:
  assumes "29 \<le> pv" and "sorted (map (name_rank pv) fs)" and "\<And>f. f \<in> set fs \<Longrightarrow> plain_name f"
    and "i < length fs" and "S_ISDIR (fs_mode (fs ! i))" and "k < length fs"
  shows "(inside (fs ! i) (fs ! k) \<longrightarrow>
      name_rank pv (fs ! i) \<le> name_rank pv (fs ! k) \<and> (\<forall>j. i \<le> j \<and> j \<le> k \<longrightarrow> inside (fs ! i) (fs ! j))) \<and>
    (fs_dirname (fs ! k) = fs_dirname (fs ! i) \<and> \<not> S_ISDIR (fs_mode (fs ! k)) \<longrightarrow> k < i)"
proof -
  have P: "j < length fs \<Longrightarrow> plain_name (fs ! j)" for j using assms(3) by simp
  then have A: "j < length fs \<Longrightarrow> name_rank pv (fs ! j) = 0 # path_key pv (fs ! j)" for j by (simp add: name_rank_def plain_name_def)
  note I = inside_key [OF assms(1) P [OF assms(4)] assms(5) P]
  have "name_rank pv (fs ! i) \<le> name_rank pv (fs ! k)" if "inside (fs ! i) (fs ! k)"
    using prefix_le that by (simp add: I assms(4,6) A)
  moreover have "inside (fs ! i) (fs ! j)" if "inside (fs ! i) (fs ! k)" "i \<le> j" "j \<le> k" for j
    using prefix_between [of "path_key pv (fs ! i)" "path_key pv (fs ! k)" "path_key pv (fs ! j)"] that assms(4,6)
      sorted_ranks [OF assms(2), of i j] sorted_ranks [OF assms(2), of j k] by (simp add: I A)
  moreover have less: "path_key pv (fs ! k) < path_key pv (fs ! i)" if "fs_dirname (fs ! k) = fs_dirname (fs ! i)" "\<not> S_ISDIR (fs_mode (fs ! k))"
  proof -
    obtain a x b y where n: "fs_basename (fs ! k) = a # x" "fs_basename (fs ! i) = b # y"
      using P [OF assms(6)] P [OF assms(4)] by (auto simp: plain_name_def F_IS_ACTIVE_def neq_Nil_conv)
    have "base_key pv (fs ! k) < base_key pv (fs ! i)"
      using that assms(1,5) n P [OF assms(6)] P [OF assms(4)]
      by (auto simp: base_key_def base_cursor_def Let_def t_path_def plain_name_def tok_less type_dif_def)
    then show ?thesis using path_key_same(1) [OF that(1)] by simp
  qed
  moreover have "k < i" if "fs_dirname (fs ! k) = fs_dirname (fs ! i)" "\<not> S_ISDIR (fs_mode (fs ! k))"
  proof (rule ccontr)
    assume "\<not> k < i"
    then have "path_key pv (fs ! i) \<le> path_key pv (fs ! k)"
      using sorted_ranks [OF assms(2), of i k] A [OF assms(6)] A [OF assms(4)] assms(6) by simp
    with less [OF that] show False by simp
  qed
  ultimately show ?thesis by blast
qed

definition sample_names :: "file_struct list" where
  "sample_names = [plain_file None ''z'' 33188, plain_file None ''a'' 16877, plain_file (Some ''a'') ''x'' 33188,
     plain_file (Some ''a'') ''c'' 16877, plain_file (Some ''a/c'') ''y'' 33188, plain_file None ''b'' 16877]"

text \<open>The function f_name_has_prefix with a directory as its second file tells whether the first is below that directory.\<close>

lemma f_name_has_prefix_dir:
  assumes "29 \<le> pv" and "plain_name f" and "plain_name dir" and "S_ISDIR (fs_mode dir)" and "no_nul f" and "no_nul dir"
    and "same \<Longrightarrow> fs_dirname f = fs_dirname dir"
  shows "f_name_has_prefix pv same f dir = Some (inside dir f)"
proof -
  have a: "F_IS_ACTIVE f" "F_IS_ACTIVE dir" "fs_basename dir \<noteq> ''.''" "\<not> dotted pv same dir" using assms(2,3) by (auto simp: plain_name_def dotted_def)
  then show ?thesis
    using f_name_cmp_spec [OF a(1,2) assms(5,6,7), of same pv] inside_key [OF assms(1,3,4,2)]
    by (auto simp: f_name_has_prefix_def split: option.splits)
qed

lemma f_name_has_prefix_dir_example:
  "f_name_has_prefix 30 False (plain_file (Some ''a/b'') ''x'' 33188) (plain_file None ''a'' 16877) =
    Some (inside (plain_file None ''a'' 16877) (plain_file (Some ''a/b'') ''x'' 33188))"
proof (rule f_name_has_prefix_dir)
  show "plain_name (plain_file (Some ''a/b'') ''x'' 33188)" "plain_name (plain_file None ''a'' 16877)"
    "S_ISDIR (fs_mode (plain_file None ''a'' 16877))" by code_simp+
  show "no_nul (plain_file (Some ''a/b'') ''x'' 33188)" "no_nul (plain_file None ''a'' 16877)"
    by (simp_all add: no_nul_def plain_file_def NUL_def)
qed simp_all

text \<open>With a second file that is not a directory f_name_has_prefix matches what its comment rules out: foo is reported
  as a prefix of foobar, although no element of the path is called foo.\<close>

lemma f_name_has_prefix_partial:
  "f_name_has_prefix 30 False (plain_file None ''foobar'' 33188) (plain_file None ''foo'' 33188) = Some True"
  by code_simp

end
