(* ===== verification/FlistSort.thy ===== *)
theory FlistSort
  imports FlistOrder "HOL-Library.Multiset" "HOL-Library.Monad_Syntax"
begin

text \<open>
  The merge sort of flist.c, fsort_tmp and fsort. An array of pointers to files is a list; every
  access is checked, and an access outside an array, like a comparison that is not defined, makes
  the result \<open>None\<close>. What the sort needs of the comparison is a locale; f_name_cmp provides it.
\<close>

section \<open>Arrays\<close>

definition array_get :: "'a list \<Rightarrow> nat \<Rightarrow> 'a option" where
  "array_get a i = (if i < length a then Some (a ! i) else None)"

definition array_put :: "'a list \<Rightarrow> nat \<Rightarrow> 'a \<Rightarrow> 'a list option" where
  "array_put a i x = (if i < length a then Some (a[i := x]) else None)"

text \<open>memcpy(dst + i, src + j, n * PTR_SIZE).\<close>

definition array_copy :: "'a list \<Rightarrow> nat \<Rightarrow> 'a list \<Rightarrow> nat \<Rightarrow> nat \<Rightarrow> 'a list option" where
  "array_copy dst i src j n =
     (if i + n \<le> length dst \<and> j + n \<le> length src then Some (take i dst @ take n (drop j src) @ drop (i + n) dst) else None)"

section \<open>The code\<close>

text \<open>The loop that leaves what is in place already; \<open>Some None\<close> is the return out of it.\<close>

fun skip_le :: "('a \<Rightarrow> 'a \<Rightarrow> int option) \<Rightarrow> 'a list \<Rightarrow> nat \<Rightarrow> nat \<Rightarrow> nat \<Rightarrow> (nat \<times> nat) option option" where
  "skip_le cmp arr f1 f2 0 = None"
| "skip_le cmp arr f1 f2 (Suc n1) =
     do { x \<leftarrow> array_get arr f1;
          y \<leftarrow> array_get arr f2;
          d \<leftarrow> cmp x y;
          if d \<le> 0 then (if n1 = 0 then Some None else skip_le cmp arr (f1 + 1) f2 n1) else Some (Some (f1, Suc n1)) }"

function merge_loop :: "('a \<Rightarrow> 'a \<Rightarrow> int option) \<Rightarrow> 'a list \<Rightarrow> nat \<Rightarrow> nat \<Rightarrow> nat \<Rightarrow> nat \<Rightarrow> 'a list \<Rightarrow> nat \<Rightarrow> 'a list option" where
  "merge_loop cmp arr f1 f2 n1 n2 tmp t =
     (if n1 > 0 \<and> n2 > 0 then
        do { x \<leftarrow> array_get tmp t;
             y \<leftarrow> array_get arr f2;
             d \<leftarrow> cmp x y;
             if d \<le> 0 then do { arr \<leftarrow> array_put arr f1 x; merge_loop cmp arr (f1 + 1) f2 (n1 - 1) n2 tmp (t + 1) }
             else do { arr \<leftarrow> array_put arr f1 y; merge_loop cmp arr (f1 + 1) (f2 + 1) n1 (n2 - 1) tmp t } }
      else if n1 > 0 then array_copy arr f1 tmp t n1 else Some arr)"
  by pat_completeness auto
termination by (relation "measure (\<lambda>(cmp, arr, f1, f2, n1, n2, tmp, t). n1 + n2)") auto

declare merge_loop.simps [simp del]

function fsort_tmp :: "('a \<Rightarrow> 'a \<Rightarrow> int option) \<Rightarrow> 'a list \<Rightarrow> nat \<Rightarrow> nat \<Rightarrow> 'a list \<Rightarrow> ('a list \<times> 'a list) option" where
  "fsort_tmp cmp arr fp num tmp =
     (let n1 = num div 2; n2 = num - n1; f1 = fp; f2 = fp + n1 in
      do { (arr, tmp) \<leftarrow> (if n1 > 1 then fsort_tmp cmp arr f1 n1 tmp else Some (arr, tmp));
           (arr, tmp) \<leftarrow> (if n2 > 1 then fsort_tmp cmp arr f2 n2 tmp else Some (arr, tmp));
           r \<leftarrow> skip_le cmp arr f1 f2 n1;
           (case r of
              None \<Rightarrow> Some (arr, tmp)
            | Some (f1, n1) \<Rightarrow>
                do { tmp \<leftarrow> array_copy tmp 0 arr f1 n1;
                     y \<leftarrow> array_get arr f2;
                     arr \<leftarrow> array_put arr f1 y;
                     arr \<leftarrow> merge_loop cmp arr (f1 + 1) (f2 + 1) n1 (n2 - 1) tmp 0;
                     Some (arr, tmp) }) })"
  by pat_completeness auto
termination by (relation "measure (\<lambda>(cmp, arr, fp, num, tmp). num)") auto

declare fsort_tmp.simps [simp del]

text \<open>fsort; \<open>tmp\<close> is what new_array returns, with any contents, and \<open>qsort\<close> the library function.\<close>

definition fsort :: "bool \<Rightarrow> (('a \<Rightarrow> 'a \<Rightarrow> int option) \<Rightarrow> 'a list \<Rightarrow> 'a list option) \<Rightarrow> 'a list \<Rightarrow>
    ('a \<Rightarrow> 'a \<Rightarrow> int option) \<Rightarrow> 'a list \<Rightarrow> 'a list option" where
  "fsort use_qsort qsort tmp cmp fp =
     (if length fp \<le> 1 then Some fp
      else if use_qsort then qsort cmp fp
      else map_option fst (fsort_tmp cmp fp 0 (length fp) tmp))"

text \<open>Two dirname pointers are equal; then so are the strings. \<open>ptr\<close> gives the address of a dirname.\<close>

definition same_dir :: "(file_struct \<Rightarrow> nat) \<Rightarrow> file_struct \<Rightarrow> file_struct \<Rightarrow> bool" where
  "same_dir ptr f g \<longleftrightarrow> ptr f = ptr g \<and> fs_dirname f = fs_dirname g"

definition file_compare :: "nat \<Rightarrow> (file_struct \<Rightarrow> nat) \<Rightarrow> file_struct \<Rightarrow> file_struct \<Rightarrow> int option" where
  "file_compare pv ptr f g = map_option fst (f_name_cmp pv (same_dir ptr f g) f g)"

section \<open>Merging\<close>

fun merge_key :: "('a \<Rightarrow> 'k::linorder) \<Rightarrow> 'a list \<Rightarrow> 'a list \<Rightarrow> 'a list" where
  "merge_key key (x # xs) (y # ys) = (if key x \<le> key y then x # merge_key key xs (y # ys) else y # merge_key key (x # xs) ys)"
| "merge_key key xs [] = xs"
| "merge_key key [] ys = ys"

lemma merge_key_Nil [simp]: "merge_key key [] ys = ys"
  by (cases ys) auto

lemma set_merge_key [simp]: "set (merge_key key xs ys) = set xs \<union> set ys"
  by (induction key xs ys rule: merge_key.induct) auto

lemma mset_merge_key [simp]: "mset (merge_key key xs ys) = mset xs + mset ys"
  by (induction key xs ys rule: merge_key.induct) auto

lemma sorted_merge_key: "sorted (map key xs) \<Longrightarrow> sorted (map key ys) \<Longrightarrow> sorted (map key (merge_key key xs ys))"
  by (induction key xs ys rule: merge_key.induct) auto

lemma filter_merge_key:
  assumes "sorted (map key xs)"
  shows "filter (\<lambda>x. k = key x) (merge_key key xs ys) = filter (\<lambda>x. k = key x) xs @ filter (\<lambda>x. k = key x) ys"
  using assms
proof (induction key xs ys rule: merge_key.induct)
  case (1 key x xs y ys)
  have "filter (\<lambda>z. key y = key z) (x # xs) = []" if "\<not> key x \<le> key y"
    using 1(3) that by (auto simp: filter_empty_conv)
  then show ?case using 1 by (cases "key x \<le> key y"; cases "k = key y") auto
qed auto

lemma sort_key_append: "sort_key key (xs @ ys) = merge_key key (sort_key key xs) (sort_key key ys)"
proof (rule properties_for_sort_key)
  show "filter (\<lambda>x. key k = key x) (merge_key key (sort_key key xs) (sort_key key ys)) = filter (\<lambda>x. key k = key x) (xs @ ys)" for k
  proof -
    have e: "(\<lambda>x. key k = key x) = (\<lambda>x. key x = key k)" by auto
    show ?thesis
      using filter_merge_key [of key "sort_key key xs" "key k" "sort_key key ys"] unfolding e by (simp add: sort_key_stable)
  qed
qed (simp_all add: sorted_merge_key)

lemma merge_key_le: "\<forall>x\<in>set xs. key x \<le> key y \<Longrightarrow> merge_key key (xs @ zs) (y # ys) = xs @ merge_key key zs (y # ys)"
  by (induction xs) auto

section \<open>The sort is right\<close>

text \<open>What the sort needs of a comparison: on the values at hand it is defined, and it is the order of a key.\<close>

locale three_way =
  fixes cmp :: "'a \<Rightarrow> 'a \<Rightarrow> int option" and key :: "'a \<Rightarrow> 'k::linorder" and good :: "'a \<Rightarrow> bool"
  assumes cmp_key: "good x \<Longrightarrow> good y \<Longrightarrow> \<exists>d. cmp x y = Some d \<and> (d < 0 \<longleftrightarrow> key x < key y) \<and> (d = 0 \<longleftrightarrow> key x = key y)"
begin

lemma cmp_le:
  assumes "good x" and "good y"
  obtains d where "cmp x y = Some d" and "d \<le> 0 \<longleftrightarrow> key x \<le> key y"
  using cmp_key [OF assms] by (metis le_less)

lemma skip_le_eq:
  assumes "\<forall>x\<in>set (S @ [y]). good x" and "S \<noteq> []" and "length A = f1" and "f2 = f1 + length S"
  shows "skip_le cmp (A @ S @ y # R) f1 f2 (length S) =
    Some (if \<forall>x\<in>set S. key x \<le> key y then None
          else Some (f1 + length (takeWhile (\<lambda>x. key x \<le> key y) S), length (dropWhile (\<lambda>x. key x \<le> key y) S)))"
  using assms
proof (induction S arbitrary: A f1)
  case (Cons x S)
  obtain d where d: "cmp x y = Some d" "d \<le> 0 \<longleftrightarrow> key x \<le> key y" using cmp_le Cons.prems(1) by (metis in_set_conv_decomp list.set_intros(1) Cons_eq_appendI)
  have get: "array_get (A @ (x # S) @ y # R) f1 = Some x" "array_get (A @ (x # S) @ y # R) f2 = Some y"
    using Cons.prems(3,4) by (simp_all add: array_get_def nth_append)
  show ?case
  proof (cases "S = []")
    case True
    then show ?thesis using d get by simp
  next
    case False
    then have "skip_le cmp ((A @ [x]) @ S @ y # R) (f1 + 1) f2 (length S) =
      Some (if \<forall>x\<in>set S. key x \<le> key y then None
            else Some (f1 + 1 + length (takeWhile (\<lambda>x. key x \<le> key y) S), length (dropWhile (\<lambda>x. key x \<le> key y) S)))"
      using Cons.prems by (intro Cons.IH) auto
    then show ?thesis using d get False by simp
  qed
qed simp

lemma merge_loop_eq:
  assumes "\<forall>x\<in>set (L @ R). good x" and "length A = f1" and "length G = length L" and "f2 = f1 + length L" and "length P = t"
  shows "merge_loop cmp (A @ G @ R @ B) f1 f2 (length L) (length R) (P @ L @ Q) t = Some (A @ merge_key key L R @ B)"
  using assms
proof (induction "length L + length R" arbitrary: A G L R P f1 f2 t rule: less_induct)
  case less
  show ?case
  proof (cases "L = [] \<or> R = []")
    case True
    then show ?thesis using less.prems by (auto simp: merge_loop.simps array_copy_def)
  next
    case False
    then obtain x L' y R' where LR: "L = x # L'" "R = y # R'" by (auto simp: neq_Nil_conv)
    then obtain g G' where G: "G = g # G'" using less.prems(3) by (cases G) auto
    obtain d where d: "cmp x y = Some d" "d \<le> 0 \<longleftrightarrow> key x \<le> key y" using cmp_le less.prems(1) LR by auto
    have get: "array_get (P @ L @ Q) t = Some x" "array_get (A @ G @ R @ B) f2 = Some y"
      using less.prems by (auto simp: array_get_def nth_append LR)
    have put: "array_put (A @ G @ R @ B) f1 z = Some (A @ z # G' @ R @ B)" for z
      using less.prems(2) by (auto simp: array_put_def G)
    show ?thesis
    proof (cases "key x \<le> key y")
      case True
      have "merge_loop cmp ((A @ [x]) @ G' @ R @ B) (f1 + 1) f2 (length L') (length R) ((P @ [x]) @ L' @ Q) (t + 1) =
          Some ((A @ [x]) @ merge_key key L' R @ B)"
        using less.prems LR G by (intro less.hyps) auto
      then show ?thesis using True d get put by (subst merge_loop.simps) (simp add: LR)
    next
      case False
      have "merge_loop cmp ((A @ [y]) @ (G' @ [y]) @ R' @ B) (f1 + 1) (f2 + 1) (length L) (length R') (P @ L @ Q) t =
          Some ((A @ [y]) @ merge_key key L R' @ B)"
        using less.prems LR G by (intro less.hyps) auto
      then show ?thesis using False d get put by (subst merge_loop.simps) (simp add: LR)
    qed
  qed
qed

lemma merge_halves:
  assumes good: "\<forall>x\<in>set (S1 @ S2). good x" and ne: "S1 \<noteq> []" "S2 \<noteq> []" and A: "length A = fp" and tmp: "length S1 \<le> length tmp"
  shows "\<exists>tmp'. length tmp' = length tmp \<and>
    do { r \<leftarrow> skip_le cmp (A @ S1 @ S2 @ B) fp (fp + length S1) (length S1);
         (case r of
            None \<Rightarrow> Some (A @ S1 @ S2 @ B, tmp)
          | Some (f1, n1) \<Rightarrow>
              do { tmp \<leftarrow> array_copy tmp 0 (A @ S1 @ S2 @ B) f1 n1;
                   y \<leftarrow> array_get (A @ S1 @ S2 @ B) (fp + length S1);
                   arr \<leftarrow> array_put (A @ S1 @ S2 @ B) f1 y;
                   arr \<leftarrow> merge_loop cmp arr (f1 + 1) (fp + length S1 + 1) n1 (length S2 - 1) tmp 0;
                   Some (arr, tmp) }) } = Some (A @ merge_key key S1 S2 @ B, tmp')"
proof -
  obtain y R where S2: "S2 = y # R" using ne(2) by (cases S2) auto
  define D where "D = takeWhile (\<lambda>x. key x \<le> key y) S1"
  define E where "E = dropWhile (\<lambda>x. key x \<le> key y) S1"
  have S1: "S1 = D @ E" by (simp add: D_def E_def)
  have D: "\<forall>x\<in>set D. key x \<le> key y" using set_takeWhileD by (fastforce simp: D_def)
  have skip: "skip_le cmp (A @ S1 @ S2 @ B) fp (fp + length S1) (length S1) =
      Some (if \<forall>x\<in>set S1. key x \<le> key y then None else Some (fp + length D, length E))"
    unfolding S2 D_def E_def using skip_le_eq [of S1 y A fp "fp + length S1" "R @ B"] good ne(1) A by (simp add: S2)
  show ?thesis
  proof (cases E)
    case Nil
    then have "\<forall>x\<in>set S1. key x \<le> key y" using S1 D by simp
    then show ?thesis using skip merge_key_le [OF D, of "[]" R] S1 Nil by (auto simp: S2)
  next
    case (Cons e E')
    then have e: "\<not> key e \<le> key y" using hd_dropWhile [of "\<lambda>x. key x \<le> key y" S1] by (auto simp: E_def)
    define tmp' where "tmp' = E @ drop (length E) tmp"
    have c: "array_copy tmp 0 (A @ S1 @ S2 @ B) (fp + length D) (length E) = Some tmp'" "length tmp' = length tmp"
      using tmp A by (simp_all add: array_copy_def tmp'_def S1)
    have get: "array_get (A @ S1 @ S2 @ B) (fp + length S1) = Some y" using A by (simp add: array_get_def S2 nth_append)
    have put: "array_put (A @ S1 @ S2 @ B) (fp + length D) y = Some ((A @ D @ [y]) @ (E' @ [y]) @ R @ B)"
      using A by (auto simp: array_put_def S1 S2 Cons list_update_append)
    have "merge_loop cmp ((A @ D @ [y]) @ (E' @ [y]) @ R @ B) (fp + length D + 1) (fp + length S1 + 1) (length E) (length R) ([] @ E @ drop (length E) tmp) 0 =
        Some ((A @ D @ [y]) @ merge_key key E R @ B)"
      using good A S1 Cons by (intro merge_loop_eq) (auto simp: S2)
    moreover have "merge_key key S1 S2 = D @ y # merge_key key E R"
      unfolding S1 S2 using merge_key_le [OF D, of E R] e Cons by simp
    ultimately show ?thesis
      using skip c get put e S1 Cons by (intro exI [of _ tmp']) (auto simp: S2 tmp'_def)
  qed
qed

lemma fsort_tmp_eq:
  assumes "\<forall>x\<in>set X. good x" and "1 < length X" and "length A = fp" and "length X div 2 \<le> length tmp"
  shows "\<exists>tmp'. length tmp' = length tmp \<and>
    fsort_tmp cmp (A @ X @ B) fp (length X) tmp = Some (A @ sort_key key X @ B, tmp')"
  using assms
proof (induction "length X" arbitrary: A X B fp tmp rule: less_induct)
  case less
  define n1 where "n1 = length X div 2"
  define X1 where "X1 = take n1 X"
  define X2 where "X2 = drop n1 X"
  have X: "X = X1 @ X2" "length X1 = n1" "length X2 = length X - n1" "n1 < length X" "0 < n1"
    using less.prems(2) by (auto simp: X1_def X2_def n1_def)
  have g: "\<forall>x\<in>set X1. good x" "\<forall>x\<in>set X2. good x" using less.prems(1) X(1) by auto
  define S1 where "S1 = sort_key key X1"
  define S2 where "S2 = sort_key key X2"
  have half: "n1 div 2 \<le> length tmp" "(length X - n1) div 2 \<le> length tmp" "length X - n1 < length X" using X(4,5) less.prems(4) by (auto simp: n1_def)
  have AX: "A @ X @ B = A @ X1 @ X2 @ B" using X(1) by simp
  have one: "length xs \<le> 1 \<Longrightarrow> sort_key key xs = xs" for xs by (cases xs) auto
  obtain tmp1 where t1: "length tmp1 = length tmp"
    "(if n1 > 1 then fsort_tmp cmp (A @ X @ B) fp n1 tmp else Some (A @ X @ B, tmp)) = Some (A @ S1 @ X2 @ B, tmp1)"
  proof (cases "n1 > 1")
    case True
    then show ?thesis
      using less.hyps [of X1 A fp tmp "X2 @ B"] X(2-5) g(1) less.prems(3) half(1) that unfolding AX by (auto simp: S1_def)
  next
    case False
    then show ?thesis using that [of tmp] one [of X1] X(2) unfolding AX by (simp add: S1_def)
  qed
  obtain tmp2 where t2: "length tmp2 = length tmp"
    "(if length X - n1 > 1 then fsort_tmp cmp (A @ S1 @ X2 @ B) (fp + n1) (length X - n1) tmp1 else Some (A @ S1 @ X2 @ B, tmp1)) =
      Some (A @ S1 @ S2 @ B, tmp2)"
  proof (cases "length X - n1 > 1")
    case True
    then show ?thesis
      using less.hyps [of X2 "A @ S1" "fp + n1" tmp1 B] X(2-5) g(2) less.prems(3) half(2,3) t1(1) that by (auto simp: S1_def S2_def)
  next
    case False
    then show ?thesis using that [of tmp1] t1(1) one [of X2] X(3) by (simp add: S2_def)
  qed
  have S: "length S1 = n1" "length S2 = length X - n1" "sort_key key X = merge_key key S1 S2"
    using X(2,3) sort_key_append [of key X1 X2] X(1) [symmetric] by (simp_all add: S1_def S2_def)
  have ne: "S1 \<noteq> []" "S2 \<noteq> []" using S(1,2) X(4,5) by auto
  have "\<forall>x\<in>set (S1 @ S2). good x" using g by (auto simp: S1_def S2_def)
  from merge_halves [OF this ne less.prems(3), of tmp2 B] t2(1) less.prems(4) S(1)
  show ?case
    unfolding fsort_tmp.simps [of cmp "A @ X @ B" fp "length X" tmp] Let_def n1_def [symmetric] t1(2) Option.bind.simps prod.case
      t2(2) S by simp
qed

text \<open>fsort is the stable sort by the key.\<close>

lemma fsort_eq:
  assumes "\<forall>x\<in>set fp. good x" and "length tmp = (length fp + 1) div 2"
  shows "fsort False qsort tmp cmp fp = Some (sort_key key fp)"
proof (cases "length fp \<le> 1")
  case True
  then show ?thesis by (cases fp) (auto simp: fsort_def)
next
  case False
  then show ?thesis
    using fsort_tmp_eq [of fp "[]" 0 tmp "[]"] assms by (auto simp: fsort_def)
qed

end

section \<open>Sorting a file list\<close>

text \<open>Names the comparison is defined for: what clean_fname leaves has no /. at its end.\<close>

definition name_sortable :: "file_struct \<Rightarrow> bool" where
  "name_sortable f \<longleftrightarrow> no_nul f \<and> (S_ISDIR (fs_mode f) \<and> fs_basename f = ''.'' \<longrightarrow> fs_dirname f = None)"

interpretation names: three_way "file_compare pv ptr" "name_rank pv" name_sortable
proof
  fix f g assume ok: "name_sortable f" "name_sortable g"
  then have "\<not> dotted pv (same_dir ptr f g) g" "no_nul f" "no_nul g" by (auto simp: name_sortable_def dotted_def)
  with f_name_cmp_spec [of f g "same_dir ptr f g" pv]
  show "\<exists>d. file_compare pv ptr f g = Some d \<and> (d < 0 \<longleftrightarrow> name_rank pv f < name_rank pv g) \<and> (d = 0 \<longleftrightarrow> name_rank pv f = name_rank pv g)"
    by (cases "F_IS_ACTIVE f \<and> F_IS_ACTIVE g")
      (auto simp: file_compare_def same_dir_def name_rank_def f_name_cmp_def split: option.splits)
qed

lemma sample_names_ok: "f \<in> set sample_names \<Longrightarrow> name_sortable f"
proof -
  have "list_all (\<lambda>f. NUL \<notin> set (fs_basename f) \<and> (case fs_dirname f of None \<Rightarrow> True | Some d \<Rightarrow> NUL \<notin> set d) \<and> fs_basename f \<noteq> ''.'') sample_names"
    by code_simp
  then show "f \<in> set sample_names \<Longrightarrow> name_sortable f" by (auto simp: list_all_iff name_sortable_def no_nul_def split: option.splits)
qed

text \<open>C29: fsort sorts: the merge sort, which moves pointers within the array and a scratch array of half its size, never
  reads or writes outside of either, and leaves the files in the order of f_name_cmp, those with equal
  names in the order they had.\<close>

theorem fsort_sorts:
  assumes "\<And>f. f \<in> set files \<Longrightarrow> name_sortable f" and "length tmp = (length files + 1) div 2"
  shows "\<exists>sorted_files. fsort False qsort tmp (file_compare pv ptr) files = Some sorted_files \<and>
    mset sorted_files = mset files \<and> sorted (map (name_rank pv) sorted_files) \<and>
    (\<forall>k. filter (\<lambda>f. name_rank pv f = k) sorted_files = filter (\<lambda>f. name_rank pv f = k) files)"
  using names.fsort_eq [of files tmp qsort pv ptr] assms by (auto simp: sort_key_stable)

theorem fsort_sorts_witness:
  "\<exists>fs. fsort False (\<lambda>_ _. None) (replicate 3 (sample_names ! 0)) (file_compare 30 (\<lambda>_. 0)) (rev sample_names) = Some fs \<and>
    sorted (map (name_rank 30) fs)"
  using fsort_sorts [of "rev sample_names" "replicate 3 (sample_names ! 0)" "\<lambda>_ _. None" 30 "\<lambda>_. 0"] sample_names_ok
  by (auto simp: sample_names_def)



end
