(* ===== verification/FlistFind.thy ===== *)
theory FlistFind
  imports FlistSort
begin

text \<open>
  Looking a name up in a sorted file list, flist_find of flist.c. Entries that were removed stay in the
  array without a name; such an entry says in F_DEPTH how far it is to the next entry and in len32
  how far to the one before, as far as is known, and the search brings these numbers up to date.
  The model takes the array to be the files themselves; a read outside of it, like a loop that does
  not end, is \<open>None\<close>.
\<close>

section \<open>The code\<close>

record file_list =
  fl_sorted :: "file_struct list"
  fl_low :: int
  fl_high :: int

definition len32 :: "file_struct \<Rightarrow> int" where
  "len32 f = sint (ucast (fs_length f) :: int32)"

definition set_len32 :: "int \<Rightarrow> file_struct \<Rightarrow> file_struct" where
  "set_len32 n f = f\<lparr>fs_length := ucast (word_of_int n :: uint32)\<rparr>"

definition clear_file :: "file_struct \<Rightarrow> file_struct" where
  "clear_file f = f\<lparr>fs_dirname := None, fs_basename := [], fs_modtime := 0, fs_length := 1, fs_mode := 0, fs_depth := 1,
     FLAG_TOP_DIR := False, FLAG_CONTENT_DIR := False, FLAG_IMPLIED_DIR := False, FLAG_HLINKED := False, FLAG_SKIP_GROUP := False,
     FLAG_DUPLICATE := False\<rparr>"

definition sorted_at :: "file_struct list \<Rightarrow> int \<Rightarrow> file_struct option" where
  "sorted_at s i = (if 0 \<le> i \<and> i < int (length s) then Some (s ! nat i) else None)"

fun walk_up :: "nat \<Rightarrow> file_struct list \<Rightarrow> int \<Rightarrow> int option" where
  "walk_up 0 s m = None"
| "walk_up (Suc n) s m = do { f \<leftarrow> sorted_at s m; if F_IS_ACTIVE f then Some m else walk_up n s (m + fs_depth f) }"

fun walk_down :: "nat \<Rightarrow> file_struct list \<Rightarrow> int \<Rightarrow> int option" where
  "walk_down 0 s m = None"
| "walk_down (Suc n) s m = do { f \<leftarrow> sorted_at s m; if F_IS_ACTIVE f then Some m else walk_down n s (m - len32 f) }"

text \<open>mid_up for mid, and the array with the distance brought up to date.\<close>

definition find_up :: "file_struct list \<Rightarrow> int \<Rightarrow> (int \<times> file_struct list) option" where
  "find_up s mid =
     do { f \<leftarrow> sorted_at s mid;
          if F_IS_ACTIVE f then Some (mid, s)
          else do { g \<leftarrow> sorted_at s (mid + fs_depth f);
                    if F_IS_ACTIVE g then Some (mid + fs_depth f, s)
                    else do { mid_up \<leftarrow> walk_up (length s) s (mid + fs_depth f);
                              Some (mid_up, s[nat mid := f\<lparr>fs_depth := mid_up - mid\<rparr>]) } } }"

definition find_down :: "file_struct list \<Rightarrow> int \<Rightarrow> (int \<times> file_struct list) option" where
  "find_down s mid =
     do { f \<leftarrow> sorted_at s mid;
          g \<leftarrow> sorted_at s (mid - len32 f);
          if F_IS_ACTIVE g then Some (mid - len32 f, s)
          else do { high \<leftarrow> walk_down (length s) s (mid - len32 f);
                    Some (high, s[nat mid := set_len32 (mid - high) f]) } }"

fun find_loop :: "nat \<Rightarrow> nat \<Rightarrow> (file_struct \<Rightarrow> nat) \<Rightarrow> file_struct \<Rightarrow> file_struct list \<Rightarrow> int \<Rightarrow> int \<Rightarrow> (int \<times> file_struct list) option" where
  "find_loop 0 pv ptr f s lo hi = None"
| "find_loop (Suc n) pv ptr f s lo hi =
     (if lo \<le> hi then
        (let mid = (lo + hi) div 2 in
         do { (mid_up, s) \<leftarrow> find_up s mid;
              if mid_up > hi then do { (hi, s) \<leftarrow> find_down s mid; find_loop n pv ptr f s lo hi }
              else do { g \<leftarrow> sorted_at s mid_up;
                        diff \<leftarrow> file_compare pv ptr g f;
                        if diff = 0 then
                          (if pv < 29 \<and> S_ISDIR (fs_mode g) \<noteq> S_ISDIR (fs_mode f) then Some (-1, s) else Some (mid_up, s))
                        else if diff < 0 then find_loop n pv ptr f s (mid_up + 1) hi
                        else find_loop n pv ptr f s lo (mid - 1) } })
      else Some (-1, s))"

definition flist_find :: "nat \<Rightarrow> (file_struct \<Rightarrow> nat) \<Rightarrow> file_struct \<Rightarrow> file_list \<Rightarrow> (int \<times> file_list) option" where
  "flist_find pv ptr f fl =
     do { (i, s) \<leftarrow> find_loop (length (fl_sorted fl) + 1) pv ptr f (fl_sorted fl) (fl_low fl) (fl_high fl);
          Some (i, fl\<lparr>fl_sorted := s\<rparr>) }"

definition flist_find_ignore_dirness :: "nat \<Rightarrow> (file_struct \<Rightarrow> nat) \<Rightarrow> file_struct \<Rightarrow> file_list \<Rightarrow> (int \<times> file_list) option" where
  "flist_find_ignore_dirness pv ptr f fl =
     do { (ndx, fl) \<leftarrow> flist_find pv ptr f fl;
          if ndx \<ge> 0 then Some (ndx, fl)
          else flist_find pv ptr (f\<lparr>fs_mode := (if S_ISDIR (fs_mode f) then 0x8000 else 0x4000)\<rparr>) fl }"

section \<open>The distances\<close>

definition act :: "file_struct list \<Rightarrow> int \<Rightarrow> bool" where
  "act s i \<longleftrightarrow> 0 \<le> i \<and> i < int (length s) \<and> F_IS_ACTIVE (s ! nat i)"

text \<open>The distances of a removed entry lead over removed entries only.\<close>

definition jumps_ok :: "file_struct list \<Rightarrow> bool" where
  "jumps_ok s \<longleftrightarrow> (\<forall>i f. sorted_at s i = Some f \<and> \<not> F_IS_ACTIVE f \<longrightarrow>
     1 \<le> fs_depth f \<and> (\<forall>j. i \<le> j \<and> j < i + fs_depth f \<longrightarrow> \<not> act s j) \<and>
     1 \<le> len32 f \<and> (\<forall>j. i - len32 f < j \<and> j \<le> i \<longrightarrow> \<not> act s j))"

text \<open>Nothing changed but distances.\<close>

definition only_jumps :: "file_struct list \<Rightarrow> file_struct list \<Rightarrow> bool" where
  "only_jumps s s' \<longleftrightarrow> length s' = length s \<and>
     (\<forall>i<length s. F_IS_ACTIVE (s' ! i) = F_IS_ACTIVE (s ! i) \<and> (F_IS_ACTIVE (s ! i) \<longrightarrow> s' ! i = s ! i))"

lemma only_jumps_refl [simp]: "only_jumps s s"
  by (simp add: only_jumps_def)

lemma only_jumps_trans: "only_jumps s t \<Longrightarrow> only_jumps t u \<Longrightarrow> only_jumps s u"
  by (simp add: only_jumps_def)

lemma only_jumps_act: "only_jumps s s' \<Longrightarrow> act s' i = act s i"
  by (auto simp: only_jumps_def act_def)

lemma only_jumps_nth: "only_jumps s s' \<Longrightarrow> act s i \<Longrightarrow> s' ! nat i = s ! nat i"
  by (auto simp: only_jumps_def act_def)

lemma sorted_at_act: "act s i \<Longrightarrow> sorted_at s i = Some (s ! nat i)"
  by (simp add: act_def sorted_at_def)

lemma sorted_at_active: "sorted_at s i = Some f \<Longrightarrow> F_IS_ACTIVE f \<longleftrightarrow> act s i"
  by (auto simp: act_def sorted_at_def split: if_splits)

lemma len32_set: "0 \<le> n \<Longrightarrow> n < 2 ^ 31 \<Longrightarrow> len32 (set_len32 n f) = n"
proof -
  assume n: "0 \<le> n" "n < 2 ^ 31"
  have "(ucast (ucast (word_of_int n :: uint32) :: int64) :: int32) = word_of_int n"
    by (rule bit_word_eqI) (simp add: bit_simps)
  then show ?thesis using sint_word_of_int_small [of n] n by (simp add: len32_def set_len32_def)
qed

lemma walk_up_act:
  assumes "jumps_ok s" and "0 \<le> m" and "m \<le> t" and "act s t" and "t - m < int fuel"
  shows "\<exists>u. walk_up fuel s m = Some u \<and> m \<le> u \<and> u \<le> t \<and> act s u \<and> (\<forall>j. m \<le> j \<and> j < u \<longrightarrow> \<not> act s j)"
  using assms
proof (induction fuel arbitrary: m)
  case (Suc fuel)
  obtain f where f: "sorted_at s m = Some f" using Suc.prems by (simp add: sorted_at_def act_def)
  show ?case
  proof (cases "F_IS_ACTIVE f")
    case True
    then show ?thesis using f Suc.prems sorted_at_active [OF f] by auto
  next
    case False
    then have j: "1 \<le> fs_depth f" "\<And>j. m \<le> j \<Longrightarrow> j < m + fs_depth f \<Longrightarrow> \<not> act s j"
      using Suc.prems(1) f unfolding jumps_ok_def by blast+
    then have "m + fs_depth f \<le> t" using Suc.prems(3,4) by (meson not_le)
    with Suc.IH [of "m + fs_depth f"] Suc.prems j(1) obtain u where
      "walk_up fuel s (m + fs_depth f) = Some u" "m + fs_depth f \<le> u" "u \<le> t" "act s u" "\<And>j. m + fs_depth f \<le> j \<Longrightarrow> j < u \<Longrightarrow> \<not> act s j"
      by auto
    then show ?thesis using f False j by (intro exI [of _ u]) (auto simp: not_less, meson not_less)
  qed
qed simp

lemma walk_down_act:
  assumes "jumps_ok s" and "m < int (length s)" and "t \<le> m" and "act s t" and "m - t < int fuel"
  shows "\<exists>u. walk_down fuel s m = Some u \<and> t \<le> u \<and> u \<le> m \<and> act s u \<and> (\<forall>j. u < j \<and> j \<le> m \<longrightarrow> \<not> act s j)"
  using assms
proof (induction fuel arbitrary: m)
  case (Suc fuel)
  obtain f where f: "sorted_at s m = Some f" using Suc.prems by (simp add: sorted_at_def act_def)
  show ?case
  proof (cases "F_IS_ACTIVE f")
    case True
    then show ?thesis using f Suc.prems sorted_at_active [OF f] by auto
  next
    case False
    then have j: "1 \<le> len32 f" "\<And>j. m - len32 f < j \<Longrightarrow> j \<le> m \<Longrightarrow> \<not> act s j"
      using Suc.prems(1) f unfolding jumps_ok_def by blast+
    then have "t \<le> m - len32 f" using Suc.prems(3,4) by (meson not_le)
    with Suc.IH [of "m - len32 f"] Suc.prems j(1) obtain u where
      "walk_down fuel s (m - len32 f) = Some u" "t \<le> u" "u \<le> m - len32 f" "act s u" "\<And>j. u < j \<Longrightarrow> j \<le> m - len32 f \<Longrightarrow> \<not> act s j"
      by auto
    then show ?thesis using f False j by (intro exI [of _ u]) (auto simp: not_less, meson not_less)
  qed
qed simp

text \<open>A removed entry may be replaced by one with other distances, if these are right.\<close>

lemma jumps_update:
  assumes "jumps_ok s" and "sorted_at s i = Some f" and "\<not> F_IS_ACTIVE f" and "\<not> F_IS_ACTIVE g"
    and "1 \<le> fs_depth g" and "\<And>j. i \<le> j \<Longrightarrow> j < i + fs_depth g \<Longrightarrow> \<not> act s j"
    and "1 \<le> len32 g" and "\<And>j. i - len32 g < j \<Longrightarrow> j \<le> i \<Longrightarrow> \<not> act s j"
  shows "only_jumps s (s[nat i := g])" and "jumps_ok (s[nat i := g])"
proof -
  have i: "0 \<le> i" "i < int (length s)" "s ! nat i = f" using assms(2) by (auto simp: sorted_at_def split: if_splits)
  show o: "only_jumps s (s[nat i := g])"
    using i assms(3,4) by (auto simp: only_jumps_def nth_list_update)
  have at: "sorted_at (s[nat i := g]) k = (if k = i then Some g else sorted_at s k)" for k
    using i by (auto simp: sorted_at_def nth_list_update)
  show "jumps_ok (s[nat i := g])"
    using assms(1,4-8) unfolding jumps_ok_def only_jumps_act [OF o] at by (auto split: if_splits)
qed

lemma find_up_act:
  assumes "jumps_ok s" and "0 \<le> mid" and "mid \<le> t" and "act s t"
  shows "\<exists>u s'. find_up s mid = Some (u, s') \<and> mid \<le> u \<and> u \<le> t \<and> act s u \<and> (\<forall>j. mid \<le> j \<and> j < u \<longrightarrow> \<not> act s j) \<and>
    only_jumps s s' \<and> jumps_ok s'"
proof -
  obtain f where f: "sorted_at s mid = Some f" using assms by (simp add: sorted_at_def act_def)
  show ?thesis
  proof (cases "F_IS_ACTIVE f")
    case True
    then show ?thesis using f assms sorted_at_active [OF f] by (auto simp: find_up_def)
  next
    case False
    then have j: "1 \<le> fs_depth f" "\<And>j. mid \<le> j \<Longrightarrow> j < mid + fs_depth f \<Longrightarrow> \<not> act s j"
      "1 \<le> len32 f" "\<And>j. mid - len32 f < j \<Longrightarrow> j \<le> mid \<Longrightarrow> \<not> act s j"
      using assms(1) f unfolding jumps_ok_def by blast+
    then have le: "mid + fs_depth f \<le> t" using assms(3,4) by (meson not_le)
    then obtain g where g: "sorted_at s (mid + fs_depth f) = Some g" using assms j(1) by (simp add: sorted_at_def act_def)
    obtain u where u: "walk_up (length s) s (mid + fs_depth f) = Some u" "mid + fs_depth f \<le> u" "u \<le> t" "act s u"
        "\<And>j. mid + fs_depth f \<le> j \<Longrightarrow> j < u \<Longrightarrow> \<not> act s j"
      using walk_up_act [OF assms(1), of "mid + fs_depth f" t "length s"] assms le j(1) by (auto simp: act_def)
    have n: "\<not> act s k" if "mid \<le> k" "k < u" for k using that j(2) u(5) by (cases "k < mid + fs_depth f") auto
    show ?thesis
    proof (cases "F_IS_ACTIVE g")
      case True
      then show ?thesis using f False g le j assms(1) sorted_at_active [OF g] by (auto simp: find_up_def)
    next
      case g': False
      define f' where "f' = f\<lparr>fs_depth := u - mid\<rparr>"
      have "\<not> F_IS_ACTIVE f'" "fs_depth f' = u - mid" "len32 f' = len32 f" using False by (simp_all add: f'_def F_IS_ACTIVE_def len32_def)
      then have "only_jumps s (s[nat mid := f'])" "jumps_ok (s[nat mid := f'])"
        using jumps_update [OF assms(1) f False, of f'] j u(2) n by auto
      then show ?thesis
        using f False g g' u n j(1) by (intro exI [of _ u] exI [of _ "s[nat mid := f']"]) (auto simp: find_up_def f'_def)
    qed
  qed
qed

lemma find_down_act:
  assumes "jumps_ok s" and "mid < int (length s)" and "t \<le> mid" and "act s t" and "\<not> act s mid" and "int (length s) < 2 ^ 31"
  shows "\<exists>u s'. find_down s mid = Some (u, s') \<and> t \<le> u \<and> u < mid \<and> act s u \<and> (\<forall>j. u < j \<and> j \<le> mid \<longrightarrow> \<not> act s j) \<and>
    only_jumps s s' \<and> jumps_ok s'"
proof -
  obtain f where f: "sorted_at s mid = Some f" using assms by (simp add: sorted_at_def act_def)
  then have False': "\<not> F_IS_ACTIVE f" using sorted_at_active assms(5) by blast
  then have j: "1 \<le> fs_depth f" "\<And>j. mid \<le> j \<Longrightarrow> j < mid + fs_depth f \<Longrightarrow> \<not> act s j"
    "1 \<le> len32 f" "\<And>j. mid - len32 f < j \<Longrightarrow> j \<le> mid \<Longrightarrow> \<not> act s j"
    using assms(1) f unfolding jumps_ok_def by blast+
  then have le: "t \<le> mid - len32 f" using assms(3,4) by (meson not_le)
  then obtain g where g: "sorted_at s (mid - len32 f) = Some g" using assms j(3) by (simp add: sorted_at_def act_def)
  obtain u where u: "walk_down (length s) s (mid - len32 f) = Some u" "t \<le> u" "u \<le> mid - len32 f" "act s u"
      "\<And>j. u < j \<Longrightarrow> j \<le> mid - len32 f \<Longrightarrow> \<not> act s j"
    using walk_down_act [OF assms(1), of "mid - len32 f" t "length s"] assms le j(3) by (auto simp: act_def)
  have n: "\<not> act s k" if "u < k" "k \<le> mid" for k using that j(4) u(5) by (cases "k \<le> mid - len32 f") auto
  show ?thesis
  proof (cases "F_IS_ACTIVE g")
    case True
    then show ?thesis using f g le j assms(1) sorted_at_active [OF g] by (auto simp: find_down_def)
  next
    case g': False
    define f' where "f' = set_len32 (mid - u) f"
    have "\<not> F_IS_ACTIVE f'" "fs_depth f' = fs_depth f" "len32 f' = mid - u"
      using False' len32_set [of "mid - u" f] u(3,4) j(3) assms(2,6) by (simp_all add: f'_def F_IS_ACTIVE_def set_len32_def act_def)
    then have "only_jumps s (s[nat mid := f'])" "jumps_ok (s[nat mid := f'])"
      using jumps_update [OF assms(1) f False', of f'] j u(3) n by auto
    then show ?thesis
      using f g g' u n j(3) by (intro exI [of _ u] exI [of _ "s[nat mid := f']"]) (auto simp: find_down_def f'_def)
  qed
qed

section \<open>The search finds the name\<close>

definition ranked :: "nat \<Rightarrow> file_struct list \<Rightarrow> int \<Rightarrow> int \<Rightarrow> bool" where
  "ranked pv s lo hi \<longleftrightarrow> (\<forall>i j. lo \<le> i \<and> i < j \<and> j \<le> hi \<and> act s i \<and> act s j \<longrightarrow> name_rank pv (s ! nat i) < name_rank pv (s ! nat j))"

text \<open>An entry with the name that is looked for.\<close>

definition hit :: "nat \<Rightarrow> file_struct \<Rightarrow> file_struct list \<Rightarrow> int \<Rightarrow> int \<Rightarrow> int \<Rightarrow> bool" where
  "hit pv f s lo hi i \<longleftrightarrow> lo \<le> i \<and> i \<le> hi \<and> act s i \<and> name_rank pv (s ! nat i) = name_rank pv f \<and>
     (pv < 29 \<longrightarrow> S_ISDIR (fs_mode (s ! nat i)) = S_ISDIR (fs_mode f))"

text \<open>The part of the list that is ready to be searched.\<close>

definition searchable :: "nat \<Rightarrow> file_struct list \<Rightarrow> int \<Rightarrow> int \<Rightarrow> bool" where
  "searchable pv s lo hi \<longleftrightarrow> jumps_ok s \<and> int (length s) < 2 ^ 31 \<and> act s lo \<and> act s hi \<and> ranked pv s lo hi \<and>
     (\<forall>i. lo \<le> i \<and> i \<le> hi \<and> act s i \<longrightarrow> name_sortable (s ! nat i))"

lemma searchable_jumps:
  assumes "searchable pv s lo hi" and "only_jumps s s'" and "jumps_ok s'"
  shows "searchable pv s' lo hi"
  using assms(1,3) only_jumps_nth [OF assms(2)] assms(2)
  unfolding searchable_def ranked_def only_jumps_act [OF assms(2)] by (auto simp: only_jumps_def)

lemma hit_jumps: "only_jumps s s' \<Longrightarrow> hit pv f s' lo hi i = hit pv f s lo hi i"
  by (auto simp: hit_def only_jumps_act only_jumps_nth)

text \<open>What the loop has ruled out.\<close>

definition ruled_out :: "nat \<Rightarrow> file_struct \<Rightarrow> file_struct list \<Rightarrow> int \<Rightarrow> int \<Rightarrow> int \<Rightarrow> int \<Rightarrow> bool" where
  "ruled_out pv f s lo0 hi0 lo hi \<longleftrightarrow> lo0 \<le> lo \<and> hi \<le> hi0 \<and>
     (\<forall>i. lo0 \<le> i \<and> i < lo \<and> act s i \<longrightarrow> name_rank pv (s ! nat i) < name_rank pv f) \<and>
     (\<forall>i. hi < i \<and> i \<le> hi0 \<and> act s i \<longrightarrow> name_rank pv f < name_rank pv (s ! nat i))"

lemma ruled_out_jumps: "only_jumps s s' \<Longrightarrow> ruled_out pv f s' lo0 hi0 lo hi = ruled_out pv f s lo0 hi0 lo hi"
  by (auto simp: ruled_out_def only_jumps_act only_jumps_nth)

lemma ruled_out_step:
  assumes "ruled_out pv f s lo0 hi0 lo hi" and "ranked pv s lo0 hi0" and "mid \<le> u" and "lo \<le> mid" and "u \<le> hi" and "act s u"
    and "\<And>j. mid \<le> j \<Longrightarrow> j < u \<Longrightarrow> \<not> act s j"
  shows "name_rank pv (s ! nat u) < name_rank pv f \<Longrightarrow> ruled_out pv f s lo0 hi0 (u + 1) hi"
    and "name_rank pv f < name_rank pv (s ! nat u) \<Longrightarrow> ruled_out pv f s lo0 hi0 lo (mid - 1)"
    and "name_rank pv f = name_rank pv (s ! nat u) \<Longrightarrow> hit pv f s lo0 hi0 i \<longleftrightarrow>
      i = u \<and> (pv < 29 \<longrightarrow> S_ISDIR (fs_mode (s ! nat u)) = S_ISDIR (fs_mode f))"
proof -
  have R: "lo0 \<le> i \<Longrightarrow> i < j \<Longrightarrow> j \<le> hi0 \<Longrightarrow> act s i \<Longrightarrow> act s j \<Longrightarrow> name_rank pv (s ! nat i) < name_rank pv (s ! nat j)" for i j
    using assms(2) unfolding ranked_def by blast
  have b: "lo0 \<le> lo" "hi \<le> hi0" using assms(1) by (auto simp: ruled_out_def)
  show "ruled_out pv f s lo0 hi0 (u + 1) hi" if "name_rank pv (s ! nat u) < name_rank pv f"
  proof -
    have "name_rank pv (s ! nat i) < name_rank pv f" if "lo0 \<le> i" "i < u + 1" "act s i" for i
      using that R [of i u] b assms(5,6) \<open>name_rank pv (s ! nat u) < name_rank pv f\<close> by (cases "i = u") (auto intro: less_trans)
    then show ?thesis using assms(1,3,4) by (auto simp: ruled_out_def)
  qed
  show "ruled_out pv f s lo0 hi0 lo (mid - 1)" if "name_rank pv f < name_rank pv (s ! nat u)"
  proof -
    have "name_rank pv f < name_rank pv (s ! nat i)" if "mid - 1 < i" "i \<le> hi0" "act s i" for i
    proof -
      have "u \<le> i" using that assms(7) [of i] by (cases "u \<le> i") auto
      then show ?thesis
        using that R [of u i] b assms(3,4,6) \<open>name_rank pv f < name_rank pv (s ! nat u)\<close> by (cases "i = u") (auto intro: less_trans)
    qed
    then show ?thesis using assms(1,3,5) by (auto simp: ruled_out_def)
  qed
  show "hit pv f s lo0 hi0 i \<longleftrightarrow> i = u \<and> (pv < 29 \<longrightarrow> S_ISDIR (fs_mode (s ! nat u)) = S_ISDIR (fs_mode f))"
    if "name_rank pv f = name_rank pv (s ! nat u)"
    using that R [of i u] R [of u i] b assms(3-6) by (cases i u rule: linorder_cases) (auto simp: hit_def)
qed

lemma ruled_out_end:
  assumes "ruled_out pv f s lo0 hi0 lo hi" and "hi < lo"
  shows "\<not> hit pv f s lo0 hi0 i"
proof
  assume h: "hit pv f s lo0 hi0 i"
  show False
  proof (cases "i < lo")
    case True
    then show False using h assms(1) by (auto simp: hit_def ruled_out_def)
  next
    case False
    then have "hi < i" using assms(2) by simp
    then show False using h assms(1) by (fastforce simp: hit_def ruled_out_def)
  qed
qed

lemma find_loop_finds:
  assumes "searchable pv s lo0 hi0" and "ruled_out pv f s lo0 hi0 lo hi" and "name_sortable f" and "nat (hi - lo + 1) < fuel"
  shows "\<exists>r s'. find_loop fuel pv ptr f s lo hi = Some (r, s') \<and> only_jumps s s' \<and> jumps_ok s' \<and>
    (if r = -1 then \<forall>i. \<not> hit pv f s lo0 hi0 i else hit pv f s lo0 hi0 r)"
  using assms
proof (induction fuel arbitrary: lo hi s)
  case (Suc fuel)
  show ?case
  proof (cases "lo \<le> hi")
    case False
    then show ?thesis using ruled_out_end [OF Suc.prems(2)] Suc.prems(1) by (auto simp: searchable_def)
  next
    case True
    note P = Suc.prems(1) [unfolded searchable_def]
    have b: "lo0 \<le> lo" "hi \<le> hi0" using Suc.prems(2) by (auto simp: ruled_out_def)
    define mid where "mid = (lo + hi) div 2"
    have m: "lo \<le> mid" "mid \<le> hi" using True by (auto simp: mid_def)
    have m0: "0 \<le> mid" "mid \<le> hi0" "lo0 \<le> mid" using m b P by (auto simp: act_def)
    obtain u s1 where u: "find_up s mid = Some (u, s1)" "mid \<le> u" "u \<le> hi0" "act s u" "\<And>j. mid \<le> j \<Longrightarrow> j < u \<Longrightarrow> \<not> act s j"
        "only_jumps s s1" "jumps_ok s1"
      using find_up_act [of s mid hi0] P m0 by blast
    note S1 = searchable_jumps [OF Suc.prems(1) u(6,7)]
    show ?thesis
    proof (cases "u > hi")
      case u': True
      have "\<not> act s1 mid" using u(5) [of mid] m u' by (simp add: only_jumps_act [OF u(6)])
      moreover have "mid < int (length s1)" using m0(2) S1 by (simp add: searchable_def act_def)
      ultimately obtain h s2 where h: "find_down s1 mid = Some (h, s2)" "h < mid" "\<And>j. h < j \<Longrightarrow> j \<le> mid \<Longrightarrow> \<not> act s1 j"
          "only_jumps s1 s2" "jumps_ok s2"
        using find_down_act [of s1 mid lo0] S1 m0(3) unfolding searchable_def by blast
      note o = only_jumps_trans [OF u(6) h(4)]
      have "\<not> act s j" if "h < j" "j \<le> hi" for j
        using that u(5) [of j] u' h(3) [of j] by (cases "j \<le> mid") (auto simp: only_jumps_act [OF u(6)])
      then have "ruled_out pv f s lo0 hi0 lo h" using Suc.prems(2) m h(2) by (fastforce simp: ruled_out_def)
      moreover have "nat (h - lo + 1) < fuel" using Suc.prems(4) h(2) m by linarith
      ultimately obtain r s' where "find_loop fuel pv ptr f s2 lo h = Some (r, s')" "only_jumps s2 s'" "jumps_ok s'"
          "if r = -1 then \<forall>i. \<not> hit pv f s2 lo0 hi0 i else hit pv f s2 lo0 hi0 r"
        using Suc.IH [of s2 lo h] searchable_jumps [OF S1 h(4,5)] Suc.prems(3) by (auto simp: ruled_out_jumps [OF o])
      then show ?thesis
        using True u(1) u' h(1) only_jumps_trans [OF o] by (auto simp: mid_def [symmetric] hit_jumps [OF o])
    next
      case u': False
      then have u': "u \<le> hi" by simp
      define g where "g = s ! nat u"
      have g: "sorted_at s1 u = Some g" "name_sortable g"
        using u(4,6) P b m u(2,3) sorted_at_act [of s1 u] only_jumps_act [OF u(6), of u] only_jumps_nth [OF u(6), of u]
        by (auto simp: g_def)
      obtain d where d: "file_compare pv ptr g f = Some d" "d < 0 \<longleftrightarrow> name_rank pv g < name_rank pv f" "d = 0 \<longleftrightarrow> name_rank pv g = name_rank pv f"
        using names.cmp_key [OF g(2) Suc.prems(3)] by blast
      have rk: "ranked pv s lo0 hi0" using P by simp
      note RO = ruled_out_step [OF Suc.prems(2) rk u(2) m(1) u' u(4,5), folded g_def]
      have step: ?thesis if eq: "find_loop (Suc fuel) pv ptr f s lo hi = find_loop fuel pv ptr f s1 lo' hi'"
          and ro: "ruled_out pv f s lo0 hi0 lo' hi'" and lt: "hi' - lo' < hi - lo" for lo' hi'
      proof -
        have "nat (hi' - lo' + 1) < fuel" using Suc.prems(4) lt True by linarith
        then obtain r s' where "find_loop fuel pv ptr f s1 lo' hi' = Some (r, s')" "only_jumps s1 s'" "jumps_ok s'"
            "if r = -1 then \<forall>i. \<not> hit pv f s1 lo0 hi0 i else hit pv f s1 lo0 hi0 r"
          using Suc.IH [of s1 lo' hi'] S1 Suc.prems(3) ro by (auto simp: ruled_out_jumps [OF u(6)])
        then show ?thesis using eq only_jumps_trans [OF u(6)] by (auto simp: hit_jumps [OF u(6)])
      qed
      consider "d = 0" | "d < 0" | "d > 0" by linarith
      then show ?thesis
      proof cases
        case 1
        then have "find_loop (Suc fuel) pv ptr f s lo hi =
            Some (if pv < 29 \<and> S_ISDIR (fs_mode g) \<noteq> S_ISDIR (fs_mode f) then -1 else u, s1)"
          using True u(1) u' g d by (simp add: mid_def [symmetric])
        moreover have "0 \<le> u" using u(4) by (simp add: act_def)
        ultimately show ?thesis using RO(3) 1 d u(6,7) by (auto split: if_splits)
      next
        case 2
        show ?thesis
          by (rule step [of "u + 1" hi]) (use 2 True u u' g d RO(1) m in \<open>simp_all add: mid_def [symmetric]\<close>)
      next
        case 3
        then have "name_rank pv f < name_rank pv g" using d by (metis less_irrefl linorder_less_linear not_less_iff_gr_or_eq)
        then show ?thesis
          by (intro step [of lo "mid - 1"]) (use 3 True u u' g d RO(2) m in \<open>simp_all add: mid_def [symmetric]\<close>)
      qed
    qed
  qed
qed simp

lemma find_spec:
  assumes "searchable pv s lo hi" and "name_sortable f"
  shows "\<exists>r s'. find_loop (length s + 1) pv ptr f s lo hi = Some (r, s') \<and> only_jumps s s' \<and> jumps_ok s' \<and>
    (if r = -1 then \<forall>i. \<not> hit pv f s lo hi i else hit pv f s lo hi r)"
proof (rule find_loop_finds [OF assms(1) _ assms(2)])
  show "ruled_out pv f s lo hi lo hi" by (auto simp: ruled_out_def)
  have "0 \<le> lo" "hi < int (length s)" using assms(1) by (auto simp: searchable_def act_def)
  then show "nat (hi - lo + 1) < length s + 1" by linarith
qed

text \<open>C28: flist_find is a dictionary lookup. In a list whose remaining entries are sorted by name, with any entries
  removed between them, the binary search ends and returns the index of the entry with the given name (of
  the same kind, before protocol 29), and -1 if there is none; it changes nothing but the distances
  kept in removed entries, which stay right.\<close>

theorem flist_find_finds:
  assumes "searchable pv (fl_sorted fl) (fl_low fl) (fl_high fl)" and "name_sortable f"
  shows "\<exists>r fl'. flist_find pv ptr f fl = Some (r, fl') \<and>
    (if r = -1 then \<forall>i. \<not> hit pv f (fl_sorted fl) (fl_low fl) (fl_high fl) i else hit pv f (fl_sorted fl) (fl_low fl) (fl_high fl) r) \<and>
    fl_low fl' = fl_low fl \<and> fl_high fl' = fl_high fl \<and> only_jumps (fl_sorted fl) (fl_sorted fl') \<and>
    searchable pv (fl_sorted fl') (fl_low fl) (fl_high fl)"
  using find_spec [OF assms, of ptr] searchable_jumps [OF assms(1)] by (fastforce simp: flist_find_def)

text \<open>The conditions of a search, for a list whose removed entries have not been passed yet.\<close>

lemma jumps_ok_start:
  assumes "\<And>f. f \<in> set s \<Longrightarrow> F_IS_ACTIVE f \<or> fs_depth f = 1 \<and> len32 f = 1"
  shows "jumps_ok s"
  unfolding jumps_ok_def
proof (intro allI impI, elim conjE)
  fix i f assume f: "sorted_at s i = Some f" "\<not> F_IS_ACTIVE f"
  then have "f \<in> set s" by (auto simp: sorted_at_def split: if_splits)
  then have "fs_depth f = 1" "len32 f = 1" using assms f(2) by blast+
  moreover have "\<not> act s i" using sorted_at_active f by blast
  moreover have "j = i" if "i \<le> j" "j < i + 1" for j using that by simp
  moreover have "j = i" if "i - 1 < j" "j \<le> i" for j using that by simp
  ultimately show "1 \<le> fs_depth f \<and> (\<forall>j. i \<le> j \<and> j < i + fs_depth f \<longrightarrow> \<not> act s j) \<and> 1 \<le> len32 f \<and> (\<forall>j. i - len32 f < j \<and> j \<le> i \<longrightarrow> \<not> act s j)"
    by (metis order_refl)
qed

lemma ranked_start:
  assumes "sorted (map (name_rank pv) (filter F_IS_ACTIVE s))" and "distinct (map (name_rank pv) (filter F_IS_ACTIVE s))"
  shows "ranked pv s lo hi"
  unfolding ranked_def
proof (intro allI impI, elim conjE)
  fix i j assume ij: "lo \<le> i" "i < j" "j \<le> hi" "act s i" "act s j"
  define n where "n = nat i"
  define m where "m = nat j"
  have b: "n < m" "m < length s" "F_IS_ACTIVE (s ! n)" "F_IS_ACTIVE (s ! m)" using ij by (auto simp: n_def m_def act_def)
  have "s = take n s @ s ! n # take (m - Suc n) (drop (Suc n) s) @ s ! m # drop (Suc m) s"
    using b id_take_nth_drop [of n s] id_take_nth_drop [of "m - Suc n" "drop (Suc n) s"] by simp
  then obtain x y z where s: "s = x @ s ! n # y @ s ! m # z" by blast
  have "sorted (map (name_rank pv) (filter F_IS_ACTIVE (x @ s ! n # y @ s ! m # z)))"
    "distinct (map (name_rank pv) (filter F_IS_ACTIVE (x @ s ! n # y @ s ! m # z)))"
    using assms s by simp_all
  then show "name_rank pv (s ! nat i) < name_rank pv (s ! nat j)"
    using b(3,4) unfolding n_def [symmetric] m_def [symmetric] by (auto simp: sorted_append less_le)
qed

definition sample_flist :: file_list where
  "sample_flist = \<lparr>fl_sorted = sample_names[1 := clear_file (sample_names ! 1), 2 := clear_file (sample_names ! 2)], fl_low = 0, fl_high = 5\<rparr>"

lemma sample_flist_searchable: "searchable 30 (fl_sorted sample_flist) 0 5"
proof -
  have 1: "list_all (\<lambda>f. F_IS_ACTIVE f \<or> fs_depth f = 1 \<and> len32 f = 1) (fl_sorted sample_flist)" by code_simp
  have 2: "sorted (map (name_rank 30) (filter F_IS_ACTIVE (fl_sorted sample_flist)))"
    "distinct (map (name_rank 30) (filter F_IS_ACTIVE (fl_sorted sample_flist)))" by code_simp+
  have 3: "length (fl_sorted sample_flist) = 6" "F_IS_ACTIVE (fl_sorted sample_flist ! 0)" "F_IS_ACTIVE (fl_sorted sample_flist ! 5)" by code_simp+
  have 4: "name_sortable f" if "f \<in> set (fl_sorted sample_flist)" "F_IS_ACTIVE f" for f
    using that sample_names_ok by (auto simp: sample_flist_def clear_file_def F_IS_ACTIVE_def dest!: set_update_subset_insert [THEN subsetD])
  show ?thesis
    unfolding searchable_def using jumps_ok_start 1 ranked_start [OF 2] 3 4 by (auto simp: list_all_iff act_def)
qed

theorem flist_find_finds_witness:
  "\<exists>fl'. flist_find 30 (\<lambda>_. 0) (plain_file (Some ''a/c'') ''y'' 33188) sample_flist = Some (4, fl') \<and>
    hit 30 (plain_file (Some ''a/c'') ''y'' 33188) (fl_sorted sample_flist) 0 5 4"
proof -
  have "name_sortable (plain_file (Some ''a/c'') ''y'' 33188)" using sample_names_ok [of "sample_names ! 4"] by (simp add: sample_names_def)
  moreover have "fl_low sample_flist = 0" "fl_high sample_flist = 5" by (simp_all add: sample_flist_def)
  moreover have "map_option fst (flist_find 30 (\<lambda>_. 0) (plain_file (Some ''a/c'') ''y'' 33188) sample_flist) = Some 4" by code_simp
  ultimately show ?thesis
    using flist_find_finds [of 30 sample_flist "plain_file (Some ''a/c'') ''y'' 33188" "\<lambda>_. 0"] sample_flist_searchable by auto
qed

end
