(* ===== verification/FlistClean.thy ===== *)
theory FlistClean
  imports FlistFind
begin

text \<open>
  Sorting a file list and removing duplicate names from it, flist_sort_and_clean of flist.c, up to the
  removal of empty directories (prune_empty_dirs is off).
\<close>

section \<open>The code\<close>

definition merge_flags :: "file_struct \<Rightarrow> file_struct \<Rightarrow> file_struct" where
  "merge_flags fp file = fp\<lparr>FLAG_TOP_DIR := FLAG_TOP_DIR fp \<or> FLAG_TOP_DIR file, FLAG_CONTENT_DIR := FLAG_CONTENT_DIR fp \<or> FLAG_CONTENT_DIR file,
     FLAG_IMPLIED_DIR := FLAG_IMPLIED_DIR fp \<and> FLAG_IMPLIED_DIR file\<rparr>"

text \<open>The loop that moves flist->low over removed entries; the last argument is how far it may go.\<close>

fun next_low :: "file_struct list \<Rightarrow> int \<Rightarrow> nat \<Rightarrow> int" where
  "next_low s j 0 = j"
| "next_low s j (Suc n) = (case sorted_at s j of Some f \<Rightarrow> if F_IS_ACTIVE f then j else next_low s (j + 1) n | None \<Rightarrow> j)"

text \<open>One round of the loop over the sorted list: the array, flist->low and prev_i.\<close>

definition dup_step :: "bool \<Rightarrow> nat \<Rightarrow> (file_struct \<Rightarrow> nat) \<Rightarrow> int \<Rightarrow> file_struct list \<times> int \<times> int \<Rightarrow>
    (file_struct list \<times> int \<times> int) option" where
  "dup_step am_sender pv ptr i st =
     (case st of (s, lo, prev_i) \<Rightarrow>
      do { file \<leftarrow> sorted_at s i;
           if \<not> F_IS_ACTIVE file then Some (s, lo, prev_i)
           else do {
             p \<leftarrow> sorted_at s prev_i;
             d \<leftarrow> file_compare pv ptr file p;
             (j, s) \<leftarrow>
               (if d = 0 then Some (prev_i, s)
                else if pv \<ge> 29 \<and> S_ISDIR (fs_mode file) then
                  do { (j, fl) \<leftarrow> flist_find pv ptr (file\<lparr>fs_mode := 0x8000\<rparr>) \<lparr>fl_sorted = s, fl_low = lo, fl_high = prev_i\<rparr>;
                       Some (j, fl_sorted fl) }
                else Some (-1, s));
             if j \<ge> 0 then
               do { fp \<leftarrow> sorted_at s j;
                    (keep_i, s) \<leftarrow>
                      (if S_ISDIR (fs_mode file) then
                         (if \<not> S_ISDIR (fs_mode fp) then Some (True, s)
                          else if am_sender then Some (False, s[nat i := file\<lparr>FLAG_DUPLICATE := True\<rparr>])
                          else Some (False, s[nat j := merge_flags fp file]))
                       else Some (False, s));
                    (let drop_i = (if keep_i then j else i);
                         s = (if am_sender then s else s[nat drop_i := clear_file (s ! nat drop_i)])
                     in if keep_i then Some (s, if lo = drop_i then next_low s (drop_i + 1) (nat (i - (drop_i + 1))) else lo, i)
                        else Some (s, lo, prev_i)) }
             else Some (s, lo, i) } })"

fun dup_loop :: "nat \<Rightarrow> bool \<Rightarrow> nat \<Rightarrow> (file_struct \<Rightarrow> nat) \<Rightarrow> int \<Rightarrow> file_struct list \<times> int \<times> int \<Rightarrow>
    (file_struct list \<times> int \<times> int) option" where
  "dup_loop 0 am_sender pv ptr i st = Some st"
| "dup_loop (Suc n) am_sender pv ptr i st =
     do { st \<leftarrow> dup_step am_sender pv ptr i st; dup_loop n am_sender pv ptr (i + 1) st }"

text \<open>The index of the first entry that is not removed, or 0.\<close>

fun first_active :: "int \<Rightarrow> file_struct list \<Rightarrow> int option" where
  "first_active i [] = None"
| "first_active i (f # fs) = (if F_IS_ACTIVE f then Some i else first_active (i + 1) fs)"

definition strip_dir :: "file_struct \<Rightarrow> file_struct" where
  "strip_dir f =
     (case fs_dirname f of
        None \<Rightarrow> f
      | Some d \<Rightarrow> (let d = dropWhile (\<lambda>c. c = CHR ''/'') d in f\<lparr>fs_dirname := if d = [] then None else Some d\<rparr>))"

definition flist_sort_and_clean :: "bool \<Rightarrow> bool \<Rightarrow> nat \<Rightarrow> (file_struct \<Rightarrow> nat) \<Rightarrow> bool \<Rightarrow>
    ((file_struct \<Rightarrow> file_struct \<Rightarrow> int option) \<Rightarrow> file_struct list \<Rightarrow> file_struct list option) \<Rightarrow> file_struct list \<Rightarrow>
    bool \<Rightarrow> file_list \<Rightarrow> file_list option" where
  "flist_sort_and_clean am_sender inc_rec pv ptr use_qsort qsort tmp strip_root fl =
     (let used = int (length (fl_sorted fl)) in
      if used = 0 then Some (fl\<lparr>fl_high := -1, fl_low := 0\<rparr>)
      else
        do { s \<leftarrow> fsort use_qsort qsort tmp (file_compare pv ptr) (fl_sorted fl);
             (let (i, prev_i, lo) =
                (if \<not> am_sender \<or> inc_rec then
                   (case first_active 0 s of Some i \<Rightarrow> (i, i, i) | None \<Rightarrow> (used, 0, 0))
                 else (used - 1, used - 1, 0))
              in do { (s, lo, hi) \<leftarrow> dup_loop (nat (used - (i + 1))) am_sender pv ptr (i + 1) (s, lo, prev_i);
                      Some (fl\<lparr>fl_low := lo, fl_high := hi,
                        fl_sorted := (if strip_root
                           then take (nat lo) s @ map strip_dir (take (nat (hi - lo + 1)) (drop (nat lo) s)) @ drop (nat (hi + 1)) s
                           else s)\<rparr>) }) })"

section \<open>Names and ranks\<close>

definition name_of :: "file_struct \<Rightarrow> string option \<times> string" where
  "name_of f = (fs_dirname f, fs_basename f)"

definition entry_name :: "file_struct \<Rightarrow> bool" where
  "entry_name f \<longleftrightarrow> F_IS_ACTIVE f \<and> name_sortable f \<and> CHR ''/'' \<notin> set (fs_basename f)"

lemma map_ptok_inj: "map ptok xs = map ptok ys \<longleftrightarrow> xs = ys"
  by (rule inj_map_eq_map) (simp add: inj_def tok_eq)

lemma map_itok_inj: "map (\<lambda>c. tok (t_ITEM, c)) xs = map (\<lambda>c. tok (t_ITEM, c)) ys \<longleftrightarrow> xs = ys"
  by (rule inj_map_eq_map) (simp add: inj_def tok_eq)

lemma ptok_itok_split:
  "map ptok xs @ map (\<lambda>c. tok (t_ITEM, c)) u = map ptok ys @ map (\<lambda>c. tok (t_ITEM, c)) v \<longleftrightarrow> xs = ys \<and> u = v"
proof (induction xs arbitrary: ys)
  case Nil
  then show ?case by (cases ys; cases u) (auto simp: tok_eq map_itok_inj)
next
  case (Cons x xs)
  then show ?case by (cases ys; cases v) (auto simp: tok_eq)
qed

definition dir_part :: "file_struct \<Rightarrow> string" where
  "dir_part f = (case fs_dirname f of None \<Rightarrow> [] | Some d \<Rightarrow> d @ ''/'')"

lemma entry_key:
  assumes "entry_name f" and "29 \<le> pv"
  shows "path_key pv f = (if S_ISDIR (fs_mode f) then if fs_basename f = ''.'' then [] else map ptok (dir_part f @ fs_basename f @ ''/'')
    else map ptok (dir_part f) @ map (\<lambda>c. tok (t_ITEM, c)) (fs_basename f))"
proof -
  have "base_key pv f = (if S_ISDIR (fs_mode f) then if fs_basename f = ''.'' then [] else map ptok (fs_basename f @ ''/'')
      else map (\<lambda>c. tok (t_ITEM, c)) (fs_basename f))"
    using assms by (simp add: entry_name_def base_key_def base_cursor_def Let_def t_path_def comp_def)
  moreover have "S_ISDIR (fs_mode f) \<and> fs_basename f = ''.'' \<Longrightarrow> fs_dirname f = None" using assms(1) by (simp add: entry_name_def name_sortable_def)
  ultimately show ?thesis
    using assms(2) by (cases "fs_dirname f") (auto simp: path_key_top path_key_dir dir_part_def t_path_def)
qed

lemma dir_part_unique:
  assumes "dir_part f @ fs_basename f = dir_part g @ fs_basename g" and "CHR ''/'' \<notin> set (fs_basename f)" and "CHR ''/'' \<notin> set (fs_basename g)"
  shows "name_of f = name_of g"
proof -
  have "takeWhile (\<lambda>c. c \<noteq> CHR ''/'') (rev (dir_part h @ fs_basename h)) = rev (fs_basename h)" if "CHR ''/'' \<notin> set (fs_basename h)" for h
    using that by (cases "fs_dirname h") (auto simp: dir_part_def takeWhile_append2 takeWhile_tail)
  then have b: "fs_basename f = fs_basename g" using assms by (metis rev_rev_ident)
  then have "dir_part f = dir_part g" using assms(1) by simp
  with b show ?thesis by (auto simp: name_of_def dir_part_def split: option.splits)
qed

lemma rank_eq:
  assumes "29 \<le> pv" and "entry_name f" and "entry_name g"
  shows "name_rank pv f = name_rank pv g \<longleftrightarrow> name_of f = name_of g \<and> (S_ISDIR (fs_mode f) \<longleftrightarrow> S_ISDIR (fs_mode g))"
proof
  have a: "F_IS_ACTIVE f" "F_IS_ACTIVE g" using assms(2,3) by (simp_all add: entry_name_def)
  assume "name_of f = name_of g \<and> (S_ISDIR (fs_mode f) \<longleftrightarrow> S_ISDIR (fs_mode g))"
  then show "name_rank pv f = name_rank pv g"
    using a by (simp add: name_rank_def entry_key [OF assms(2,1)] entry_key [OF assms(3,1)] name_of_def dir_part_def)
next
  have n: "CHR ''/'' \<notin> set (fs_basename f)" "CHR ''/'' \<notin> set (fs_basename g)" "fs_basename f \<noteq> []" "fs_basename g \<noteq> []"
    using assms(2,3) by (simp_all add: entry_name_def F_IS_ACTIVE_def)
  have dot: "S_ISDIR (fs_mode f) \<Longrightarrow> fs_basename f = ''.'' \<Longrightarrow> dir_part f = []" "S_ISDIR (fs_mode g) \<Longrightarrow> fs_basename g = ''.'' \<Longrightarrow> dir_part g = []"
    using assms(2,3) by (simp_all add: entry_name_def name_sortable_def dir_part_def)
  assume "name_rank pv f = name_rank pv g"
  then have e: "path_key pv f = path_key pv g" using assms(2,3) by (simp add: name_rank_def entry_name_def)
  have "path_key pv x \<noteq> path_key pv y" if "entry_name x" "entry_name y" "S_ISDIR (fs_mode x)" "\<not> S_ISDIR (fs_mode y)" for x y
    using that ptok_itok_split [of "if fs_basename x = ''.'' then [] else dir_part x @ fs_basename x @ ''/''" "[]" "dir_part y" "fs_basename y"] assms(1)
    by (auto simp: entry_key entry_name_def F_IS_ACTIVE_def)
  with e assms(2,3) have d: "S_ISDIR (fs_mode f) \<longleftrightarrow> S_ISDIR (fs_mode g)" by metis
  have "dir_part f @ fs_basename f = dir_part g @ fs_basename g"
  proof (cases "S_ISDIR (fs_mode g)")
    case True
    then have m: "(if fs_basename f = ''.'' then [] else map ptok (dir_part f @ fs_basename f @ ''/'')) =
        (if fs_basename g = ''.'' then [] else map ptok (dir_part g @ fs_basename g @ ''/''))"
      using e d by (simp only: entry_key [OF assms(2,1)] entry_key [OF assms(3,1)] if_True)
    show ?thesis
    proof (cases "fs_basename f = ''.'' \<or> fs_basename g = ''.''")
      case dots: True
      then have "fs_basename f = ''.''" "fs_basename g = ''.''" using m by (auto split: if_splits)
      then show ?thesis using dot True d by simp
    next
      case False
      then have "dir_part f @ fs_basename f @ ''/'' = dir_part g @ fs_basename g @ ''/''" using m map_ptok_inj by metis
      then have "(dir_part f @ fs_basename f) @ ''/'' = (dir_part g @ fs_basename g) @ ''/''" by (simp only: append_assoc)
      then show ?thesis by (simp only: append_same_eq)
    qed
  next
    case False
    then show ?thesis using e d by (simp add: entry_key [OF assms(2,1)] entry_key [OF assms(3,1)] ptok_itok_split)
  qed
  from dir_part_unique [OF this n(1,2)] d show "name_of f = name_of g \<and> (S_ISDIR (fs_mode f) \<longleftrightarrow> S_ISDIR (fs_mode g))" by blast
qed

abbreviation S_IFREG :: int where
  "S_IFREG \<equiv> 0x8000"

lemma not_dir_reg [simp]: "\<not> S_ISDIR S_IFREG"
  by (simp add: S_ISDIR_def)

lemma entry_name_reg: "entry_name f \<Longrightarrow> entry_name (f\<lparr>fs_mode := S_IFREG\<rparr>)"
  by (simp add: entry_name_def name_sortable_def no_nul_def F_IS_ACTIVE_def)

lemma reg_less:
  assumes "29 \<le> pv" and "entry_name f" and "entry_name g" and "S_ISDIR (fs_mode f)" and "fs_basename f \<noteq> ''.''"
    and "\<not> S_ISDIR (fs_mode g)" and "name_of g = name_of f"
  shows "name_rank pv g < name_rank pv f"
proof -
  obtain a b where "fs_basename f = a # b" using assms(2) by (auto simp: entry_name_def F_IS_ACTIVE_def neq_Nil_conv)
  then show ?thesis
    using assms by (auto simp: name_rank_def entry_key name_of_def dir_part_def entry_name_def append_less tok_less type_dif_def)
qed

section \<open>Removing an entry\<close>

lemma clear_file_inactive [simp]: "\<not> F_IS_ACTIVE (clear_file f)" "fs_depth (clear_file f) = 1" "len32 (clear_file f) = 1"
  by (simp_all add: clear_file_def F_IS_ACTIVE_def len32_def)

lemma act_update: "0 \<le> i \<Longrightarrow> i < int (length s) \<Longrightarrow> act (s[nat i := f]) j \<longleftrightarrow> (if j = i then F_IS_ACTIVE f else act s j)"
  by (auto simp: act_def nth_list_update)

lemma sorted_at_update: "0 \<le> i \<Longrightarrow> i < int (length s) \<Longrightarrow> sorted_at (s[nat i := f]) j = (if j = i then Some f else sorted_at s j)"
  by (auto simp: sorted_at_def nth_list_update)

lemma nth_update: "0 \<le> i \<Longrightarrow> i < int (length s) \<Longrightarrow> 0 \<le> j \<Longrightarrow> s[nat i := f] ! nat j = (if j = i then f else s ! nat j)"
  by (auto simp: nth_list_update)

lemma jumps_clear:
  assumes "jumps_ok s" and "0 \<le> i" and "i < int (length s)"
  shows "jumps_ok (s[nat i := clear_file f])"
  unfolding jumps_ok_def
proof (intro allI impI, elim conjE)
  fix k g assume g: "sorted_at (s[nat i := clear_file f]) k = Some g" "\<not> F_IS_ACTIVE g"
  show "1 \<le> fs_depth g \<and> (\<forall>j. k \<le> j \<and> j < k + fs_depth g \<longrightarrow> \<not> act (s[nat i := clear_file f]) j) \<and>
    1 \<le> len32 g \<and> (\<forall>j. k - len32 g < j \<and> j \<le> k \<longrightarrow> \<not> act (s[nat i := clear_file f]) j)"
  proof (cases "k = i")
    case True
    then show ?thesis using g assms by (auto simp: sorted_at_update act_update)
  next
    case False
    then have "sorted_at s k = Some g" using g(1) assms by (simp add: sorted_at_update)
    then show ?thesis using assms(1) g(2) unfolding jumps_ok_def act_update [OF assms(2,3)] by auto
  qed
qed

lemma jumps_flags:
  assumes "jumps_ok s" and "act s i" and "F_IS_ACTIVE f"
  shows "jumps_ok (s[nat i := f])"
proof -
  have i: "0 \<le> i" "i < int (length s)" using assms(2) by (auto simp: act_def)
  have "act (s[nat i := f]) j = act s j" for j using assms(2,3) by (simp add: act_update [OF i])
  then show ?thesis
    using assms(1,3) unfolding jumps_ok_def sorted_at_update [OF i] by (auto split: if_splits)
qed

lemma next_low_act:
  assumes "act s t" and "0 \<le> j" and "j \<le> t" and "n = nat (t - j)"
  shows "j \<le> next_low s j n \<and> next_low s j n \<le> t \<and> act s (next_low s j n) \<and> (\<forall>k. j \<le> k \<and> k < next_low s j n \<longrightarrow> \<not> act s k)"
  using assms
proof (induction n arbitrary: j)
  case 0
  then have "j = t" by simp
  then show ?case using 0 by auto
next
  case (Suc n)
  then have "j < int (length s)" "j < t" by (auto simp: act_def)
  then have j: "sorted_at s j = Some (s ! nat j)" using Suc.prems by (simp add: sorted_at_def)
  show ?case
  proof (cases "F_IS_ACTIVE (s ! nat j)")
    case True
    then show ?thesis using j Suc.prems(1-3) sorted_at_active [OF j] by auto
  next
    case False
    then have "\<not> act s j" using sorted_at_active [OF j] by simp
    have "n = nat (t - (j + 1))" using Suc.prems(4) by linarith
    then have I: "j + 1 \<le> next_low s (j + 1) n" "next_low s (j + 1) n \<le> t" "act s (next_low s (j + 1) n)"
        "\<And>k. j + 1 \<le> k \<Longrightarrow> k < next_low s (j + 1) n \<Longrightarrow> \<not> act s k"
      using Suc.IH [of "j + 1"] Suc.prems(1,2) \<open>j < t\<close> by auto
    have "next_low s j (Suc n) = next_low s (j + 1) n" using j False by simp
    moreover have "\<not> act s k" if "j \<le> k" "k < next_low s (j + 1) n" for k
      using that I(4) [of k] \<open>\<not> act s j\<close> by (cases "k = j") auto
    ultimately show ?thesis using I(1-3) by simp
  qed
qed

section \<open>The loop\<close>

definition alike :: "file_struct \<Rightarrow> file_struct \<Rightarrow> bool" where
  "alike f g \<longleftrightarrow> name_of f = name_of g \<and> (S_ISDIR (fs_mode f) \<longleftrightarrow> S_ISDIR (fs_mode g))"

lemma alike_rank: "alike f g \<Longrightarrow> name_rank pv f = name_rank pv g"
  by (simp add: alike_def name_of_def name_rank_def F_IS_ACTIVE_def path_key_def start_cursor_def base_cursor_def Let_def split: option.split)

lemma alike_entry: "alike f g \<Longrightarrow> entry_name f = entry_name g"
  by (simp add: alike_def name_of_def entry_name_def name_sortable_def no_nul_def F_IS_ACTIVE_def)

text \<open>
  The state before the entry \<open>i\<close> is looked at; \<open>s0\<close> is the sorted list. What is left of the entries
  before \<open>i\<close> is between low and prev_i, in order and without a name twice, and has all their names.
\<close>

definition dup_inv :: "nat \<Rightarrow> file_struct list \<Rightarrow> int \<Rightarrow> file_struct list \<times> int \<times> int \<Rightarrow> bool" where
  "dup_inv pv s0 i st \<longleftrightarrow> (case st of (s, lo, prev_i) \<Rightarrow>
     length s = length s0 \<and> jumps_ok s \<and> act s lo \<and> act s prev_i \<and> prev_i < i \<and>
     (\<forall>k. i \<le> k \<longrightarrow> act s k = act s0 k \<and> (act s k \<longrightarrow> s ! nat k = s0 ! nat k)) \<and>
     (\<forall>k. act s k \<and> k < i \<longrightarrow> lo \<le> k \<and> k \<le> prev_i \<and> act s0 k \<and> alike (s ! nat k) (s0 ! nat k)) \<and>
     ranked pv s lo prev_i \<and>
     (\<forall>k l. act s k \<and> act s l \<and> k < i \<and> l < i \<and> name_of (s ! nat k) = name_of (s ! nat l) \<longrightarrow> k = l) \<and>
     (\<forall>k. act s0 k \<and> k < i \<longrightarrow>
        (\<exists>l. act s l \<and> l < i \<and> name_of (s ! nat l) = name_of (s0 ! nat k) \<and> (S_ISDIR (fs_mode (s0 ! nat k)) \<longrightarrow> S_ISDIR (fs_mode (s ! nat l))))))"

lemma dup_invD:
  assumes "dup_inv pv s0 i (s, lo, p)"
  shows "length s = length s0" "jumps_ok s" "act s lo" "act s p" "p < i"
    "\<And>k. i \<le> k \<Longrightarrow> act s k = act s0 k" "\<And>k. i \<le> k \<Longrightarrow> act s k \<Longrightarrow> s ! nat k = s0 ! nat k"
    "\<And>k. act s k \<Longrightarrow> k < i \<Longrightarrow> lo \<le> k" "\<And>k. act s k \<Longrightarrow> k < i \<Longrightarrow> k \<le> p" "\<And>k. act s k \<Longrightarrow> k < i \<Longrightarrow> act s0 k"
    "\<And>k. act s k \<Longrightarrow> k < i \<Longrightarrow> alike (s ! nat k) (s0 ! nat k)" "ranked pv s lo p"
    "\<And>k l. act s k \<Longrightarrow> act s l \<Longrightarrow> k < i \<Longrightarrow> l < i \<Longrightarrow> name_of (s ! nat k) = name_of (s ! nat l) \<Longrightarrow> k = l"
    "\<And>k. act s0 k \<Longrightarrow> k < i \<Longrightarrow>
      \<exists>l. act s l \<and> l < i \<and> name_of (s ! nat l) = name_of (s0 ! nat k) \<and> (S_ISDIR (fs_mode (s0 ! nat k)) \<longrightarrow> S_ISDIR (fs_mode (s ! nat l)))"
  using assms unfolding dup_inv_def prod.case by blast+

lemma dup_invI:
  assumes "length s = length s0" "jumps_ok s" "act s lo" "act s p" "p < i"
    "\<And>k. i \<le> k \<Longrightarrow> act s k = act s0 k" "\<And>k. i \<le> k \<Longrightarrow> act s k \<Longrightarrow> s ! nat k = s0 ! nat k"
    "\<And>k. act s k \<Longrightarrow> k < i \<Longrightarrow> lo \<le> k \<and> k \<le> p \<and> act s0 k \<and> alike (s ! nat k) (s0 ! nat k)" "ranked pv s lo p"
    "\<And>k l. act s k \<Longrightarrow> act s l \<Longrightarrow> k < i \<Longrightarrow> l < i \<Longrightarrow> name_of (s ! nat k) = name_of (s ! nat l) \<Longrightarrow> k = l"
    "\<And>k. act s0 k \<Longrightarrow> k < i \<Longrightarrow>
      \<exists>l. act s l \<and> l < i \<and> name_of (s ! nat l) = name_of (s0 ! nat k) \<and> (S_ISDIR (fs_mode (s0 ! nat k)) \<longrightarrow> S_ISDIR (fs_mode (s ! nat l)))"
  shows "dup_inv pv s0 i (s, lo, p)"
  using assms unfolding dup_inv_def prod.case by blast

lemma dup_inv_skip:
  assumes "dup_inv pv s0 i (s, lo, p)" and "\<not> act s i"
  shows "dup_inv pv s0 (i + 1) (s, lo, p)"
proof -
  have "\<not> act s0 i" using dup_invD(6) [OF assms(1)] assms(2) by simp
  with assms show ?thesis unfolding dup_inv_def prod.case zless_add1_eq by (auto 0 4)
qed

lemma dup_inv_jumps:
  assumes "dup_inv pv s0 i (s, lo, p)" and "only_jumps s s'" and "jumps_ok s'"
  shows "dup_inv pv s0 i (s', lo, p)"
proof -
  note D = dup_invD [OF assms(1)] and n = only_jumps_nth [OF assms(2)] and a = only_jumps_act [OF assms(2)]
  have "ranked pv s' lo p" using D(12) n unfolding ranked_def a by auto
  moreover have "length s' = length s" using assms(2) by (simp add: only_jumps_def)
  ultimately show ?thesis
    by (intro dup_invI) (use D n assms(3) in \<open>simp_all add: a\<close>, metis D(14))
qed

text \<open>The new entry becomes the last one.\<close>

lemma dup_inv_push:
  assumes inv: "dup_inv pv s0 i (s, lo, p)" and i: "act s i" and less: "name_rank pv (s ! nat p) < name_rank pv (s ! nat i)"
    and new: "\<And>k. act s k \<Longrightarrow> k < i \<Longrightarrow> name_of (s ! nat k) \<noteq> name_of (s ! nat i)"
  shows "dup_inv pv s0 (i + 1) (s, lo, i)"
proof -
  note D = dup_invD [OF inv]
  have i0: "act s0 i" "s ! nat i = s0 ! nat i" using D(6,7) i by auto
  have "ranked pv s lo i"
    unfolding ranked_def
  proof (intro allI impI, elim conjE)
    fix j k assume jk: "lo \<le> j" "j < k" "k \<le> i" "act s j" "act s k"
    show "name_rank pv (s ! nat j) < name_rank pv (s ! nat k)"
    proof (cases "k = i")
      case True
      have "j \<le> p" using D(9) jk True by simp
      then have "name_rank pv (s ! nat j) \<le> name_rank pv (s ! nat p)"
        using D(12,4) jk by (cases "j = p") (auto simp: ranked_def le_less)
      then show ?thesis using less True by (metis le_less_trans)
    next
      case False
      then show ?thesis using D(12,9) jk by (auto simp: ranked_def)
    qed
  qed
  moreover have "lo \<le> i" using D(8) [OF D(4,5)] D(5) by simp
  moreover have "alike (s ! nat i) (s0 ! nat i)" using i0 by (simp add: alike_def)
  ultimately show ?thesis
    apply (intro dup_invI)
    using D(1-7) i i0 apply simp_all
    subgoal for k using D(8,9,10,11)[of k] D(5) by (cases "k = i") auto
    subgoal for k l using D(13)[of k l] new[of k] new[of l] by (cases "k = i"; cases "l = i") auto
    subgoal premises prems for k
    proof (cases "k = i")
      case True
      then show ?thesis using i i0 by (intro exI [of _ i]) simp
    next
      case False
      then have "k < i" using prems by simp
      from D(14) [OF \<open>act s0 k\<close> this] show ?thesis by (metis less_le)
    qed
    done
qed

text \<open>The new entry has the name and kind of the last one and is removed; only flags of the last one change.\<close>

lemma dup_inv_dup:
  assumes inv: "dup_inv pv s0 i (s, lo, p)" and i: "act s i" and same: "alike (s ! nat i) (s ! nat p)" and f: "alike f (s ! nat p)"
  shows "dup_inv pv s0 (i + 1) (s[nat p := f, nat i := clear_file g], lo, p)"
proof -
  note D = dup_invD [OF inv]
  have pi: "0 \<le> p" "p < int (length s)" "0 \<le> i" "i < int (length s)" "i \<noteq> p" using D(4,5) i by (auto simp: act_def)
  have F: "F_IS_ACTIVE f" using f D(4) by (simp add: alike_def name_of_def act_def F_IS_ACTIVE_def)
  define s' where "s' = s[nat p := f, nat i := clear_file g]"
  have a: "act s' k \<longleftrightarrow> act s k \<and> k \<noteq> i" for k
    using pi F D(4) by (simp add: s'_def act_update)
  have n: "alike (s' ! nat k) (s ! nat k) \<and> (k \<noteq> p \<longrightarrow> s' ! nat k = s ! nat k)" if "act s' k" for k
  proof -
    have "0 \<le> k" "k \<noteq> i" using that a by (auto simp: act_def)
    then have "s' ! nat k = (if k = p then f else s ! nat k)" using pi by (simp add: s'_def nth_update)
    then show ?thesis using f by (simp add: alike_def)
  qed
  have j: "jumps_ok s'" unfolding s'_def by (intro jumps_clear jumps_flags D(2,4) F) (use pi in simp_all)
  have r: "ranked pv s' lo p"
    unfolding ranked_def
  proof (intro allI impI, elim conjE)
    fix k l assume kl: "lo \<le> k" "k < l" "l \<le> p" "act s' k" "act s' l"
    then have "name_rank pv (s ! nat k) < name_rank pv (s ! nat l)" using D(12) by (auto simp: ranked_def a)
    then show "name_rank pv (s' ! nat k) < name_rank pv (s' ! nat l)"
      using alike_rank [of "s' ! nat k" "s ! nat k"] alike_rank [of "s' ! nat l" "s ! nat l"] n [OF kl(4)] n [OF kl(5)] by simp
  qed
  have al: "alike x y \<Longrightarrow> alike y z \<Longrightarrow> alike x z" for x y z by (simp add: alike_def)
  have nm: "name_of (s' ! nat k) = name_of (s ! nat k) \<and> (S_ISDIR (fs_mode (s' ! nat k)) \<longleftrightarrow> S_ISDIR (fs_mode (s ! nat k)))" if "act s' k" for k
    using n [OF that] by (simp add: alike_def)
  have i0: "s ! nat i = s0 ! nat i" using D(7) i by simp
  have pl: "act s' lo" "act s' p" using D(3,4,5) D(8) [OF D(4,5)] pi by (auto simp: a)
  have "dup_inv pv s0 (i + 1) (s', lo, p)"
  proof (rule dup_invI)
    show "length s' = length s0" using D(1) by (simp add: s'_def)
    show "p < i + 1" using D(5) by simp
    show "act s' k = act s0 k" if "i + 1 \<le> k" for k using that D(6) by (simp add: a)
    show "s' ! nat k = s0 ! nat k" if "i + 1 \<le> k" "act s' k" for k using that D(5,7) n [of k] by (simp add: a)
    show "lo \<le> k \<and> k \<le> p \<and> act s0 k \<and> alike (s' ! nat k) (s0 ! nat k)" if "act s' k" "k < i + 1" for k
      using that D(8-11) [of k] n [of k] al by (auto simp: a)
    show "k = l" if "act s' k" "act s' l" "k < i + 1" "l < i + 1" "name_of (s' ! nat k) = name_of (s' ! nat l)" for k l
      using that D(13) [of k l] nm [of k] nm [of l] by (auto simp: a)
    show "\<exists>l. act s' l \<and> l < i + 1 \<and> name_of (s' ! nat l) = name_of (s0 ! nat k) \<and> (S_ISDIR (fs_mode (s0 ! nat k)) \<longrightarrow> S_ISDIR (fs_mode (s' ! nat l)))"
      if ki: "act s0 k" "k < i + 1" for k
    proof (cases "k = i")
      case True
      then show ?thesis using pl(2) D(5) nm [OF pl(2)] same i0 by (intro exI [of _ p]) (simp add: alike_def)
    next
      case False
      then obtain l where l: "act s l" "l < i" "name_of (s ! nat l) = name_of (s0 ! nat k)"
          "S_ISDIR (fs_mode (s0 ! nat k)) \<longrightarrow> S_ISDIR (fs_mode (s ! nat l))"
        using D(14) [of k] ki by auto
      then show ?thesis using nm [of l] by (intro exI [of _ l]) (simp add: a)
    qed
  qed (fact j pl r)+
  then show ?thesis by (simp add: s'_def)
qed

text \<open>The new entry is a directory and an earlier file with its name is removed.\<close>

lemma dup_inv_drop:
  assumes inv: "dup_inv pv s0 i (s, lo, p)" and i: "act s i" and less: "name_rank pv (s ! nat p) < name_rank pv (s ! nat i)"
    and j: "act s j" "j < i" "name_of (s ! nat j) = name_of (s ! nat i)" and dir: "S_ISDIR (fs_mode (s ! nat i))"
    and s': "s' = s[nat j := clear_file g]" and lo': "lo' = (if lo = j then next_low s' (j + 1) (nat (i - (j + 1))) else lo)"
  shows "dup_inv pv s0 (i + 1) (s', lo', i)"
proof -
  note D = dup_invD [OF inv]
  have pj: "0 \<le> j" "j < int (length s)" "0 \<le> i" "i < int (length s)" "i \<noteq> j" using j i by (auto simp: act_def)
  have a: "act s' k \<longleftrightarrow> act s k \<and> k \<noteq> j" for k using pj by (simp add: s' act_update)
  have n: "s' ! nat k = s ! nat k" if "act s' k" for k
    using that a pj by (auto simp: s' nth_update act_def)
  have jo: "jumps_ok s'" unfolding s' by (rule jumps_clear [OF D(2) pj(1,2)])
  have i': "act s' i" "s ! nat i = s0 ! nat i" "act s0 i" using i pj D(6,7) by (auto simp: a)
  have lo: "act s' lo'" "\<And>k. act s' k \<Longrightarrow> k < i \<Longrightarrow> lo' \<le> k" "lo' \<le> i" "lo \<le> lo'"
  proof -
    have "act s' lo' \<and> (\<forall>k. act s' k \<and> k < i \<longrightarrow> lo' \<le> k) \<and> lo' \<le> i \<and> lo \<le> lo'"
    proof (cases "lo = j")
      case True
      note N = next_low_act [OF i'(1), of "j + 1" "nat (i - (j + 1))"]
      have "lo' \<le> k" if "act s' k" "k < i" for k
      proof -
        have "j + 1 \<le> k" using that D(8) [of k] True by (auto simp: a le_less)
        then show ?thesis using N that pj(1) j(2) True by (auto simp: lo' not_le)
      qed
      then show ?thesis using N pj(1) j(2) True by (simp add: lo')
    next
      case False
      then show ?thesis using D(3,8) D(8) [OF D(4,5)] D(5) by (auto simp: lo' a)
    qed
    then show "act s' lo'" "\<And>k. act s' k \<Longrightarrow> k < i \<Longrightarrow> lo' \<le> k" "lo' \<le> i" "lo \<le> lo'" by blast+
  qed
  have r: "ranked pv s' lo' i"
    unfolding ranked_def
  proof (intro allI impI, elim conjE)
    fix k l assume kl: "lo' \<le> k" "k < l" "l \<le> i" "act s' k" "act s' l"
    then have K: "act s k" "act s l" "s' ! nat k = s ! nat k" "s' ! nat l = s ! nat l" "lo \<le> k" using n lo(4) by (auto simp: a)
    show "name_rank pv (s' ! nat k) < name_rank pv (s' ! nat l)"
    proof (cases "l = i")
      case True
      have "k \<le> p" using D(9) K kl True by simp
      then have "name_rank pv (s ! nat k) \<le> name_rank pv (s ! nat p)"
        using D(12,4) K by (cases "k = p") (auto simp: ranked_def le_less)
      then show ?thesis using less True K by (metis le_less_trans)
    next
      case False
      then show ?thesis using D(12,9) K kl by (auto simp: ranked_def)
    qed
  qed
  show ?thesis
  proof (rule dup_invI)
    show "length s' = length s0" using D(1) by (simp add: s')
    show "i < i + 1" by simp
    show "act s' k = act s0 k" if "i + 1 \<le> k" for k using that D(6) j(2) by (simp add: a)
    show "s' ! nat k = s0 ! nat k" if "i + 1 \<le> k" "act s' k" for k using that D(7) n [of k] by (simp add: a)
    show "lo' \<le> k \<and> k \<le> i \<and> act s0 k \<and> alike (s' ! nat k) (s0 ! nat k)" if "act s' k" "k < i + 1" for k
    proof (cases "k = i")
      case True
      then show ?thesis using i' n [OF i'(1)] lo(3) by (simp add: alike_def)
    next
      case False
      then show ?thesis using that D(10,11) [of k] n [of k] lo(2) by (simp add: a)
    qed
    show "k = l" if "act s' k" "act s' l" "k < i + 1" "l < i + 1" "name_of (s' ! nat k) = name_of (s' ! nat l)" for k l
      using that D(13) [of k l] D(13) [of k j] D(13) [of l j] n [of k] n [of l] j by (cases "k = i"; cases "l = i") (auto simp: a)
    show "\<exists>l. act s' l \<and> l < i + 1 \<and> name_of (s' ! nat l) = name_of (s0 ! nat k) \<and> (S_ISDIR (fs_mode (s0 ! nat k)) \<longrightarrow> S_ISDIR (fs_mode (s' ! nat l)))"
      if ki: "act s0 k" "k < i + 1" for k
    proof (cases "k = i")
      case True
      then show ?thesis using i' n [OF i'(1)] by (intro exI [of _ i]) simp
    next
      case False
      then obtain l where l: "act s l" "l < i" "name_of (s ! nat l) = name_of (s0 ! nat k)"
          "S_ISDIR (fs_mode (s0 ! nat k)) \<longrightarrow> S_ISDIR (fs_mode (s ! nat l))"
        using D(14) [of k] ki by auto
      show ?thesis
      proof (cases "l = j")
        case True
        then show ?thesis using l j(3) i' n [OF i'(1)] dir by (intro exI [of _ i]) simp
      next
        case False
        then show ?thesis using l n [of l] by (intro exI [of _ l]) (simp add: a)
      qed
    qed
  qed (fact jo lo(1) i'(1) r)+
qed

text \<open>What is asked of the sorted list.\<close>

definition cleanable :: "nat \<Rightarrow> file_struct list \<Rightarrow> bool" where
  "cleanable pv s0 \<longleftrightarrow> 29 \<le> pv \<and> int (length s0) < 2 ^ 31 \<and> sorted (map (name_rank pv) s0) \<and>
     (\<forall>k. act s0 k \<longrightarrow> entry_name (s0 ! nat k) \<and> (fs_basename (s0 ! nat k) = ''.'' \<longrightarrow> S_ISDIR (fs_mode (s0 ! nat k))))"

lemma entry_before:
  assumes "cleanable pv s0" and "dup_inv pv s0 i (s, lo, p)" and "act s k" and "k < i"
  shows "entry_name (s ! nat k)"
  using assms dup_invD(10,11) [OF assms(2), of k] alike_entry by (auto simp: cleanable_def)

lemma entry_new:
  assumes "cleanable pv s0" and "dup_inv pv s0 i (s, lo, p)" and "act s i"
  shows "entry_name (s ! nat i)" and "fs_basename (s ! nat i) = ''.'' \<Longrightarrow> S_ISDIR (fs_mode (s ! nat i))"
  using assms dup_invD(6,7) [OF assms(2), of i] by (auto simp: cleanable_def)

lemma rank_before:
  assumes "dup_inv pv s0 i (s, lo, p)" and "act s k" and "k < i"
  shows "name_rank pv (s ! nat k) \<le> name_rank pv (s ! nat p)"
proof (cases "k = p")
  case False
  note D = dup_invD [OF assms(1)]
  have "lo \<le> k" "k < p" using D(8,9) [OF assms(2,3)] False by auto
  then show ?thesis using D(4,12) assms(2) by (auto simp: ranked_def intro: less_imp_le)
qed simp

lemma rank_last:
  assumes "cleanable pv s0" and "dup_inv pv s0 i (s, lo, p)" and "act s i"
  shows "name_rank pv (s ! nat p) \<le> name_rank pv (s ! nat i)"
proof -
  note D = dup_invD [OF assms(2)]
  have i: "act s0 i" "s ! nat i = s0 ! nat i" using D(6,7) assms(3) by auto
  have p: "act s0 p" "alike (s ! nat p) (s0 ! nat p)" using D(4,5,10,11) by auto
  have "name_rank pv (s0 ! nat p) \<le> name_rank pv (s0 ! nat i)"
    using assms(1) i(1) p(1) D(5) by (intro sorted_ranks) (auto simp: cleanable_def act_def)
  then show ?thesis using alike_rank [OF p(2)] i(2) by simp
qed

lemma search_before:
  assumes "cleanable pv s0" and "dup_inv pv s0 i (s, lo, p)"
  shows "searchable pv s lo p"
  unfolding searchable_def
  using dup_invD(1-5,12) [OF assms(2)] assms(1) entry_before [OF assms] by (auto simp: cleanable_def entry_name_def)

text \<open>An entry after the last one repeats an earlier name only as a directory, after a file.\<close>

lemma name_new:
  assumes ok: "cleanable pv s0" and inv: "dup_inv pv s0 i (s, lo, p)"
    and i: "act s i" and less: "name_rank pv (s ! nat p) < name_rank pv (s ! nat i)" and k: "act s k" "k < i"
    and same: "name_of (s ! nat k) = name_of (s ! nat i)"
  shows "S_ISDIR (fs_mode (s ! nat i)) \<and> \<not> S_ISDIR (fs_mode (s ! nat k))"
proof -
  have pv: "29 \<le> pv" using ok by (simp add: cleanable_def)
  have lt: "name_rank pv (s ! nat k) < name_rank pv (s ! nat i)" using rank_before [OF inv k] less by (metis le_less_trans)
  note e = entry_before [OF ok inv k] entry_new [OF ok inv i]
  have "S_ISDIR (fs_mode (s ! nat k)) \<noteq> S_ISDIR (fs_mode (s ! nat i))"
    using rank_eq [OF pv e(1,2)] lt same by auto
  moreover have "\<not> S_ISDIR (fs_mode (s ! nat k))" if "\<not> S_ISDIR (fs_mode (s ! nat i))"
  proof
    assume d: "S_ISDIR (fs_mode (s ! nat k))"
    have "fs_basename (s ! nat k) \<noteq> ''.''" using e(3) that same by (auto simp: name_of_def)
    then have "name_rank pv (s ! nat i) < name_rank pv (s ! nat k)"
      using reg_less [OF pv e(1,2) d] that same by simp
    with lt show False by simp
  qed
  ultimately show ?thesis by blast
qed

lemma dup_step_dir:
  assumes ok: "cleanable pv s0" and inv: "dup_inv pv s0 i (s, lo, p)" and ai: "act s i"
    and less: "name_rank pv (s ! nat p) < name_rank pv (s ! nat i)" and dir: "S_ISDIR (fs_mode (s ! nat i))"
  shows "\<exists>st'. dup_step False pv ptr i (s, lo, p) = Some st' \<and> dup_inv pv s0 (i + 1) st'"
proof -
  note D = dup_invD [OF inv]
  have pv: "29 \<le> pv" using ok by (simp add: cleanable_def)
  define fi where "fi = s ! nat i"
  define rf where "rf = fi\<lparr>fs_mode := 0x8000\<rparr>"
  note e = entry_new(1) [OF ok inv ai, folded fi_def] and ep = entry_before [OF ok inv D(4,5)]
  have rf: "entry_name rf" "name_of rf = name_of fi" "\<not> S_ISDIR (fs_mode rf)"
    using e by (simp_all add: rf_def entry_name_reg name_of_def)
  obtain d where d: "file_compare pv ptr fi (s ! nat p) = Some d" "d \<noteq> 0"
    using names.cmp_key [of fi "s ! nat p" pv ptr] e ep less by (auto simp: entry_name_def fi_def)
  obtain r s1 where r: "find_loop (length s + 1) pv ptr rf s lo p = Some (r, s1)" "only_jumps s s1" "jumps_ok s1"
      "if r = -1 then \<forall>k. \<not> hit pv rf s lo p k else hit pv rf s lo p r"
    using find_spec [OF search_before [OF ok inv], of rf ptr] rf(1) by (auto simp: entry_name_def)
  note inv1 = dup_inv_jumps [OF inv r(2,3)] and a = only_jumps_act [OF r(2)] and n = only_jumps_nth [OF r(2)]
  have hit: "hit pv rf s lo p k \<longleftrightarrow> act s k \<and> k < i \<and> name_of (s ! nat k) = name_of fi" for k
  proof (cases "act s k \<and> k < i")
    case True
    then have "name_rank pv (s ! nat k) = name_rank pv rf \<longleftrightarrow> name_of (s ! nat k) = name_of fi \<and> \<not> S_ISDIR (fs_mode (s ! nat k))"
      using rank_eq [OF pv entry_before [OF ok inv] rf(1)] rf(2,3) by auto
    then show ?thesis
      using True D(8,9) [of k] name_new [OF ok inv ai less, of k] pv by (auto simp: hit_def fi_def)
  next
    case False
    then show ?thesis using D(5) by (auto simp: hit_def)
  qed
  have less1: "name_rank pv (s1 ! nat p) < name_rank pv (s1 ! nat i)" using less n ai D(4) by simp
  have sel: "sorted_at s i = Some fi" "F_IS_ACTIVE fi" "sorted_at s p = Some (s ! nat p)"
    using ai D(4) sorted_at_act by (auto simp: fi_def act_def)
  have ff: "flist_find pv ptr rf \<lparr>fl_sorted = s, fl_low = lo, fl_high = p\<rparr> = Some (r, \<lparr>fl_sorted = s1, fl_low = lo, fl_high = p\<rparr>)"
    using r(1) by (simp add: flist_find_def del: find_loop.simps)
  have step: "dup_step False pv ptr i (s, lo, p) =
    (if r \<ge> 0 then do { fp \<leftarrow> sorted_at s1 r;
       (keep_i, s1) \<leftarrow> (if \<not> S_ISDIR (fs_mode fp) then Some (True, s1) else Some (False, s1[nat r := merge_flags fp fi]));
       (let drop_i = (if keep_i then r else i); s1 = s1[nat drop_i := clear_file (s1 ! nat drop_i)]
        in if keep_i then Some (s1, if lo = drop_i then next_low s1 (drop_i + 1) (nat (i - (drop_i + 1))) else lo, i) else Some (s1, lo, p)) }
     else Some (s1, lo, i))"
    using sel d ff pv dir [folded fi_def] unfolding dup_step_def prod.case by (simp add: rf_def cong: if_cong)
  show ?thesis
  proof (cases "r = -1")
    case True
    then have "dup_inv pv s0 (i + 1) (s1, lo, i)"
      using dup_inv_push [OF inv1 _ less1] r(4) hit n ai by (auto simp: a fi_def)
    then show ?thesis using step True by auto
  next
    case False
    then have h: "hit pv rf s lo p r" using r(4) by simp
    then have j: "act s r" "r < i" "name_of (s ! nat r) = name_of (s ! nat i)" by (simp_all add: hit fi_def)
    have "0 \<le> r" using j(1) by (simp add: act_def)
    moreover have "sorted_at s1 r = Some (s ! nat r)" using j(1) n sorted_at_act [of s1 r] by (simp add: a)
    moreover have "\<not> S_ISDIR (fs_mode (s ! nat r))" using name_new [OF ok inv ai less j] by simp
    moreover have "dup_inv pv s0 (i + 1) (s1[nat r := clear_file (s1 ! nat r)],
        if lo = r then next_low (s1[nat r := clear_file (s1 ! nat r)]) (r + 1) (nat (i - (r + 1))) else lo, i)"
      by (rule dup_inv_drop [OF inv1 _ less1 _ j(2) _ _ refl refl]) (use j ai n dir in \<open>simp_all add: a\<close>)
    ultimately show ?thesis using step by (simp only: if_True simp_thms Option.bind.simps prod.case Let_def) simp
  qed
qed

lemma dup_step_inv:
  assumes ok: "cleanable pv s0" and inv: "dup_inv pv s0 i (s, lo, p)" and i: "0 \<le> i" "i < int (length s0)"
  shows "\<exists>st'. dup_step False pv ptr i (s, lo, p) = Some st' \<and> dup_inv pv s0 (i + 1) st'"
proof -
  note D = dup_invD [OF inv]
  define fi where "fi = s ! nat i"
  have f: "sorted_at s i = Some fi" using i D(1) by (simp add: sorted_at_def fi_def)
  show ?thesis
  proof (cases "F_IS_ACTIVE fi")
    case False
    then have "dup_step False pv ptr i (s, lo, p) = Some (s, lo, p)" by (simp add: dup_step_def f)
    then show ?thesis using dup_inv_skip [OF inv] sorted_at_active [OF f] False by auto
  next
    case True
    then have ai: "act s i" using sorted_at_active [OF f] by simp
    have pv: "29 \<le> pv" using ok by (simp add: cleanable_def)
    note e = entry_new [OF ok inv ai, folded fi_def] and ep = entry_before [OF ok inv D(4,5)]
    obtain d where d: "file_compare pv ptr fi (s ! nat p) = Some d" "d = 0 \<longleftrightarrow> name_rank pv fi = name_rank pv (s ! nat p)"
      using names.cmp_key [of fi "s ! nat p" pv ptr] e(1) ep by (auto simp: entry_name_def)
    have p: "sorted_at s p = Some (s ! nat p)" "0 \<le> p" using D(4) sorted_at_act by (auto simp: act_def)
    show ?thesis
    proof (cases "d = 0")
      case True
      then have al: "alike fi (s ! nat p)" using d rank_eq [OF pv e(1) ep] by (simp add: alike_def)
      define g where "g = (if S_ISDIR (fs_mode fi) then merge_flags (s ! nat p) fi else s ! nat p)"
      have "dup_step False pv ptr i (s, lo, p) = Some (s[nat p := g, nat i := clear_file fi], lo, p)"
        using \<open>F_IS_ACTIVE fi\<close> True d(1) p al D(5)
        by (simp add: dup_step_def f g_def alike_def fi_def nat_eq_iff)
      moreover have "alike g (s ! nat p)" by (simp add: g_def alike_def merge_flags_def name_of_def)
      ultimately show ?thesis using dup_inv_dup [OF inv ai al [unfolded fi_def]] by auto
    next
      case False
      then have less: "name_rank pv (s ! nat p) < name_rank pv (s ! nat i)"
        using rank_last [OF ok inv ai] d(2) by (auto simp: fi_def le_less)
      note new = name_new [OF ok inv ai less]
      show ?thesis
      proof (cases "S_ISDIR (fs_mode fi)")
        case nd: False
        then have "dup_step False pv ptr i (s, lo, p) = Some (s, lo, i)"
          using \<open>F_IS_ACTIVE fi\<close> False d(1) p by (simp add: dup_step_def f)
        moreover have "dup_inv pv s0 (i + 1) (s, lo, i)"
          using dup_inv_push [OF inv ai less] new nd by (auto simp: fi_def)
        ultimately show ?thesis by blast
      next
        case dir: True
        show ?thesis by (rule dup_step_dir [OF ok inv ai less dir [unfolded fi_def]])
      qed
    qed
  qed
qed

lemma dup_loop_inv:
  assumes "cleanable pv s0" and "dup_inv pv s0 i st" and "0 \<le> i" and "i + int n = int (length s0)"
  shows "\<exists>st'. dup_loop n False pv ptr i st = Some st' \<and> dup_inv pv s0 (int (length s0)) st'"
  using assms
proof (induction n arbitrary: i st)
  case (Suc n)
  obtain s lo p where st: "st = (s, lo, p)" by (cases st)
  obtain st1 where st1: "dup_step False pv ptr i st = Some st1" "dup_inv pv s0 (i + 1) st1"
    using dup_step_inv [OF Suc.prems(1) Suc.prems(2) [unfolded st] Suc.prems(3)] Suc.prems(4) unfolding st by fastforce
  with Suc.IH [of "i + 1" st1] Suc.prems show ?case by auto
qed simp

lemma first_active_eq:
  "first_active i fs = Some m \<Longrightarrow> i \<le> m \<and> m < i + int (length fs) \<and> F_IS_ACTIVE (fs ! nat (m - i)) \<and>
     (\<forall>k. i \<le> k \<and> k < m \<longrightarrow> \<not> F_IS_ACTIVE (fs ! nat (k - i)))"
proof (induction i fs rule: first_active.induct)
  case (2 i f fs)
  show ?case
  proof (cases "F_IS_ACTIVE f")
    case False
    then have I: "i + 1 \<le> m" "m < i + 1 + int (length fs)" "F_IS_ACTIVE (fs ! nat (m - (i + 1)))"
        "\<And>k. i + 1 \<le> k \<Longrightarrow> k < m \<Longrightarrow> \<not> F_IS_ACTIVE (fs ! nat (k - (i + 1)))"
      using 2 by auto
    have n: "(f # fs) ! nat (k - i) = fs ! nat (k - (i + 1))" if "i + 1 \<le> k" for k
    proof -
      have "nat (k - i) = Suc (nat (k - (i + 1)))" using that by linarith
      then show ?thesis by simp
    qed
    have "\<not> F_IS_ACTIVE ((f # fs) ! nat (k - i))" if "i \<le> k" "k < m" for k
      using that False I(4) [of k] n [of k] by (cases "k = i") auto
    then show ?thesis using I(1-3) n [OF I(1)] by auto
  qed (use 2 in auto)
qed simp


text \<open>A list with a name three times.\<close>

definition sample_dups :: "file_struct list" where
  "sample_dups = [plain_file None ''b'' 33188, plain_file None ''a'' 16877, plain_file None ''b'' 16877, plain_file None ''c'' 33188, plain_file None ''b'' 33188]"


text \<open>One duplicate is missed: a file called dot next to the directory called dot. The directory sorts before everything,
  so that the search for an earlier file of its name, which is made for every directory, finds
  nothing, and nothing is searched for when the file comes.\<close>

lemma dot_twice:
  "map_option (\<lambda>fl'. map (\<lambda>f. (fs_basename f, S_ISDIR (fs_mode f))) (filter F_IS_ACTIVE (fl_sorted fl')))
      (flist_sort_and_clean False False 30 (\<lambda>_. 0) False (\<lambda>_ _. None) [plain_file None ''.'' 33188] False
        \<lparr>fl_sorted = [plain_file None ''.'' 33188, plain_file None ''.'' 16877], fl_low = 0, fl_high = 0\<rparr>) =
    Some [(''.'', True), (''.'', False)]"
  by code_simp

end
