(* ===== verification/FilterRule.thy ===== *)
theory FilterRule
  imports Wildmatch Paths
begin

text \<open>
  The filter rules of exclude.c: how a rule is stored, when a name matches it, and how a list
  of rules decides about a name.

  The bits of rflags, of xflags and of name_flags are sets of their names. A rule of a list is
  either held there, or it is a per-directory merge rule and stands for a slot of
  mergelist_parents: the rule and its list of rules, which push_local_filters changes through
  that array, are in the slot. The list at a slot has its local part and the part it inherits
  from the parent directory; the C list is one behind the other.
\<close>

section \<open>Rules and lists\<close>

datatype rflag =
    FILTRULE_WILD | FILTRULE_WILD2 | FILTRULE_WILD2_PREFIX | FILTRULE_WILD3_SUFFIX
  | FILTRULE_ABS_PATH | FILTRULE_INCLUDE | FILTRULE_DIRECTORY | FILTRULE_WORD_SPLIT
  | FILTRULE_NO_INHERIT | FILTRULE_NO_PREFIXES | FILTRULE_MERGE_FILE | FILTRULE_PERDIR_MERGE
  | FILTRULE_EXCLUDE_SELF | FILTRULE_FINISH_SETUP | FILTRULE_NEGATE | FILTRULE_CVS_IGNORE
  | FILTRULE_SENDER_SIDE | FILTRULE_RECEIVER_SIDE | FILTRULE_CLEAR_LIST | FILTRULE_PERISHABLE
  | FILTRULE_XATTR

definition FILTRULES_SIDES :: "rflag set" where
  "FILTRULES_SIDES = {FILTRULE_SENDER_SIDE, FILTRULE_RECEIVER_SIDE}"

datatype xflag = XFLG_FATAL_ERRORS | XFLG_OLD_PREFIXES | XFLG_ANCHORED2ABS | XFLG_ABS_IF_SLASH | XFLG_DIR2WILD3

datatype name_flag = NAME_IS_DIR | NAME_IS_XATTR

text \<open>A rule of a list: pattern, rflags and slash_cnt, or the slot of a per-directory merge rule.\<close>

datatype filter_rule = Rule string "rflag set" nat | PerDir nat

record filter_rule_list =
  fl_local :: "filter_rule list"
  fl_inherited :: "filter_rule list"

text \<open>The rule of a slot with its u.mergelist.\<close>

record merge_rule =
  mr_pattern :: string
  mr_rflags :: "rflag set"
  mr_list :: filter_rule_list

definition fl_head :: "filter_rule_list \<Rightarrow> filter_rule list" where
  "fl_head l = fl_local l @ fl_inherited l"

definition empty_list :: filter_rule_list where
  "empty_list = \<lparr>fl_local = [], fl_inherited = []\<rparr>"

text \<open>The globals of exclude.c that the operations change, and what is left of the standard input.\<close>

record filter_state =
  mergelist_parents :: "merge_rule option list"
  cvs_filter_list :: filter_rule_list
  cvs_initialized :: bool
  saw_xattr_filter :: bool
  filter_stdin :: string

text \<open>The globals they only read.\<close>

record filter_env =
  fe_am_sender :: bool
  fe_protocol :: nat
  fe_delete_excluded :: bool
  fe_ignore_perishable :: bool
  fe_curr_dir :: string
  fe_module_dirlen :: nat
  fe_dirbuf :: string

text \<open>What a pointer to a rule reads; None when the rule of the slot was freed.\<close>

datatype rule_u = SlashCnt nat | Mergelist "filter_rule list"

fun u_slash_cnt :: "rule_u \<Rightarrow> nat option" where
  "u_slash_cnt (SlashCnt n) = Some n"
| "u_slash_cnt (Mergelist l) = None"

fun u_mergelist :: "rule_u \<Rightarrow> filter_rule list option" where
  "u_mergelist (SlashCnt n) = None"
| "u_mergelist (Mergelist l) = Some l"

definition slot :: "filter_state \<Rightarrow> nat \<Rightarrow> merge_rule option" where
  "slot st i = (if i < length (mergelist_parents st) then mergelist_parents st ! i else None)"

fun deref :: "filter_state \<Rightarrow> filter_rule \<Rightarrow> (string \<times> rflag set \<times> rule_u) option" where
  "deref st (Rule p f n) = Some (p, f, SlashCnt n)"
| "deref st (PerDir i) = map_option (\<lambda>m. (mr_pattern m, mr_rflags m, Mergelist (fl_head (mr_list m)))) (slot st i)"

section \<open>add_rule\<close>

definition c_slash :: "string \<Rightarrow> nat" where
  "c_slash s = count_list s (CHR ''/'')"

text \<open>The part of a path after its last slash, or all of it.\<close>

definition base_name :: "string \<Rightarrow> string" where
  "base_name s = rev (takeWhile (\<lambda>c. c \<noteq> CHR ''/'') (rev s))"

fun has_wild2 :: "string \<Rightarrow> bool" where
  "has_wild2 (c # d # s) = (c = CHR ''*'' \<and> d = CHR ''*'' \<or> has_wild2 (d # s))"
| "has_wild2 _ = False"

definition wild_flags :: "string \<Rightarrow> rflag set" where
  "wild_flags p =
     (if list_ex (\<lambda>c. c \<in> set ''*[?'') p then
        {FILTRULE_WILD} \<union>
        (if has_wild2 p then
           {FILTRULE_WILD2} \<union> (if take 2 p = ''**'' then {FILTRULE_WILD2_PREFIX} else {}) \<union>
           (if 3 \<le> length p \<and> drop (length p - 3) p = ''***'' then {FILTRULE_WILD3_SUFFIX} else {})
         else {})
      else {})"

text \<open>A rule that only the other side uses, in a list that is filtered as it is read.\<close>

definition other_side :: "filter_env \<Rightarrow> xflag set \<Rightarrow> rflag set \<Rightarrow> bool" where
  "other_side env xf f \<longleftrightarrow> (XFLG_ANCHORED2ABS \<in> xf \<or> XFLG_ABS_IF_SLASH \<in> xf) \<and>
     f \<inter> FILTRULES_SIDES = (if fe_am_sender env then {FILTRULE_RECEIVER_SIDE} else {FILTRULE_SENDER_SIDE})"

text \<open>The pattern, flags and slash count that add_rule stores.\<close>

definition build_rule :: "filter_env \<Rightarrow> xflag set \<Rightarrow> string \<Rightarrow> rflag set \<Rightarrow> string \<times> rflag set \<times> nat" where
  "build_rule env xf pat f =
     (let (pat, f) = (if 1 < length pat \<and> last pat = CHR ''/'' then (butlast pat, insert FILTRULE_DIRECTORY f) else (pat, f));
          abs = FILTRULE_ABS_PATH \<notin> f \<and> FILTRULE_MERGE_FILE \<notin> f \<and>
            ((XFLG_ANCHORED2ABS \<in> xf \<or> XFLG_ABS_IF_SLASH \<in> xf) \<and> at pat 0 = CHR ''/'' \<or> XFLG_ABS_IF_SLASH \<in> xf \<and> 0 < c_slash pat);
          f = (if abs then insert FILTRULE_ABS_PATH f else f);
          pre = (if abs \<and> at pat 0 = CHR ''/'' then
            take (length (fe_dirbuf env) - fe_module_dirlen env - 1) (drop (fe_module_dirlen env) (fe_dirbuf env)) else []);
          wild3 = XFLG_DIR2WILD3 \<in> xf \<and> FILTRULE_DIRECTORY \<in> f \<and> FILTRULE_INCLUDE \<notin> f;
          f = (if wild3 then f - {FILTRULE_DIRECTORY} else f);
          p = pre @ pat @ (if wild3 then ''/***'' else [])
      in (p, f \<union> wild_flags p, c_slash p))"

text \<open>The rule goes behind the local part; a merge file whose base name is active already is dropped.\<close>

definition append_rule :: "filter_rule \<Rightarrow> filter_rule_list \<Rightarrow> filter_rule_list" where
  "append_rule r l = l\<lparr>fl_local := fl_local l @ [r]\<rparr>"

definition add_rule :: "filter_env \<Rightarrow> xflag set \<Rightarrow> string \<Rightarrow> rflag set \<Rightarrow> filter_rule_list \<Rightarrow> filter_state \<Rightarrow> filter_rule_list \<times> filter_state" where
  "add_rule env xf pat f l st =
     (if other_side env xf f then (l, st)
      else let (p, f, n) = build_rule env xf pat f in
        if FILTRULE_PERDIR_MERGE \<in> f then
          if list_ex (\<lambda>m. case m of None \<Rightarrow> False | Some m \<Rightarrow> base_name (mr_pattern m) = base_name p) (mergelist_parents st) then (l, st)
          else (append_rule (PerDir (length (mergelist_parents st))) l,
            st\<lparr>mergelist_parents := mergelist_parents st @ [Some \<lparr>mr_pattern = p, mr_rflags = f, mr_list = empty_list\<rparr>]\<rparr>)
        else (append_rule (Rule p f n) l, st))"

section \<open>Freeing rules\<close>

text \<open>teardown_mergelist empties the slot, and mergelist_cnt goes down over the empty slots at the end.\<close>

definition trim_slots :: "merge_rule option list \<Rightarrow> merge_rule option list" where
  "trim_slots ps = rev (dropWhile (\<lambda>m. m = None) (rev ps))"

fun free_filter :: "filter_rule \<Rightarrow> filter_state \<Rightarrow> filter_state" where
  "free_filter (Rule p f n) st = st"
| "free_filter (PerDir i) st = st\<lparr>mergelist_parents := trim_slots ((mergelist_parents st)[i := None])\<rparr>"

definition free_filters :: "filter_rule list \<Rightarrow> filter_state \<Rightarrow> filter_state" where
  "free_filters rs st = fold free_filter rs st"

definition pop_filter_list :: "filter_rule_list \<Rightarrow> filter_state \<Rightarrow> filter_rule_list \<times> filter_state" where
  "pop_filter_list l st =
     (if fl_local l = [] then (l, st) else (l\<lparr>fl_local := []\<rparr>, free_filters (fl_local l) st))"

section \<open>Matching\<close>

text \<open>
  The array strings: with a pattern that has no slash and no double star the last element of
  the name, else the name with what is put before it, and a slash behind a directory for a
  final triple star.
\<close>

definition rule_strings :: "filter_env \<Rightarrow> string \<Rightarrow> rflag set \<Rightarrow> nat \<Rightarrow> name_flag set \<Rightarrow> string list" where
  "rule_strings env fname f slash_cnt nf =
     (let name = (if at fname 0 = CHR ''/'' then tl fname else fname) in
      (if slash_cnt = 0 \<and> FILTRULE_WILD2 \<notin> f then [base_name name]
       else if FILTRULE_ABS_PATH \<in> f \<and> at fname 0 \<noteq> CHR ''/'' \<and> length (fe_curr_dir env) > fe_module_dirlen env + 1
         then [drop (fe_module_dirlen env + 1) (fe_curr_dir env), ''/'', name]
       else if FILTRULE_WILD2_PREFIX \<in> f \<and> at fname 0 \<noteq> CHR ''/'' then [''/'', name]
       else [name])
      @ (if NAME_IS_DIR \<in> nf \<and> FILTRULE_WILD3_SUFFIX \<in> f then [''/''] else []))"

definition slash_handling :: "bool \<Rightarrow> rflag set \<Rightarrow> nat \<Rightarrow> int" where
  "slash_handling anchored_match f slash_cnt =
     (if \<not> anchored_match \<and> slash_cnt \<noteq> 0 \<and> FILTRULE_WILD2 \<notin> f then int slash_cnt + 1
      else if \<not> anchored_match \<and> FILTRULE_WILD2_PREFIX \<notin> f \<and> FILTRULE_WILD2 \<in> f then - 1
      else 0)"

definition strings_match :: "string \<Rightarrow> rflag set \<Rightarrow> nat \<Rightarrow> string list \<Rightarrow> bool" where
  "strings_match pattern f slash_cnt strings =
     (let anchored_match = (at pattern 0 = CHR ''/'');
          pattern = (if anchored_match then tl pattern else pattern);
          handling = slash_handling anchored_match f slash_cnt in
      if FILTRULE_WILD \<in> f then wildmatch_array pattern strings handling
      else if 1 < length strings then litmatch_array pattern strings handling
      else if anchored_match then hd strings = pattern
      else let name = hd strings; l1 = length name; l2 = length pattern in
        l2 \<le> l1 \<and> drop (l1 - l2) name = pattern \<and> (l1 = l2 \<or> name ! (l1 - (l2 + 1)) = CHR ''/''))"

definition rule_matches :: "filter_env \<Rightarrow> string \<Rightarrow> string \<Rightarrow> rflag set \<Rightarrow> nat \<Rightarrow> name_flag set \<Rightarrow> bool" where
  "rule_matches env fname pattern f slash_cnt nf =
     (let ret_match = (FILTRULE_NEGATE \<notin> f);
          name = (if at fname 0 = CHR ''/'' then tl fname else fname) in
      if name = [] then False
      else if (NAME_IS_XATTR \<in> nf) \<noteq> (FILTRULE_XATTR \<in> f) then False
      else if NAME_IS_DIR \<notin> nf \<and> FILTRULE_DIRECTORY \<in> f then \<not> ret_match
      else if strings_match pattern f slash_cnt (rule_strings env fname f slash_cnt nf) then ret_match
      else \<not> ret_match)"

text \<open>
  check_filter; no result when it does not return, reads a freed rule or reads the member of
  the union that the rule does not have.
\<close>

partial_function (option) check_filter ::
  "filter_env \<Rightarrow> filter_state \<Rightarrow> string \<Rightarrow> name_flag set \<Rightarrow> filter_rule list \<Rightarrow> int option" where
  "check_filter env st name nf l =
     (case l of [] \<Rightarrow> Some 0
      | ent # rest \<Rightarrow>
          Option.bind (deref st ent) (\<lambda>(p, f, u).
            if fe_ignore_perishable env \<and> FILTRULE_PERISHABLE \<in> f then check_filter env st name nf rest
            else if FILTRULE_PERDIR_MERGE \<in> f then
              Option.bind (u_mergelist u) (\<lambda>ml.
                Option.bind (check_filter env st name nf ml)
                  (\<lambda>rc. if rc \<noteq> 0 then Some rc else check_filter env st name nf rest))
            else if FILTRULE_CVS_IGNORE \<in> f then
              Option.bind (check_filter env st name nf (fl_head (cvs_filter_list st)))
                (\<lambda>rc. if rc \<noteq> 0 then Some rc else check_filter env st name nf rest)
            else
              Option.bind (u_slash_cnt u) (\<lambda>n.
                if rule_matches env name p f n nf then Some (if FILTRULE_INCLUDE \<in> f then 1 else - 1)
                else check_filter env st name nf rest)))"

datatype filter_level = SERVER_FILTERS | ALL_FILTERS

definition name_is_excluded :: "filter_env \<Rightarrow> filter_state \<Rightarrow> filter_rule_list \<Rightarrow> filter_rule_list \<Rightarrow> string \<Rightarrow> name_flag set \<Rightarrow> filter_level \<Rightarrow> bool option" where
  "name_is_excluded env st daemon_filter_list filter_list fname nf level =
     Option.bind (if fl_head daemon_filter_list = [] then Some 0 else check_filter env st fname nf (fl_head daemon_filter_list)) (\<lambda>d.
       if d < 0 then Some True
       else if level \<noteq> ALL_FILTERS then Some False
       else Option.bind (if fl_head filter_list = [] then Some 0 else check_filter env st fname nf (fl_head filter_list))
         (\<lambda>r. Some (r < 0)))"

section \<open>What a pattern means\<close>

text \<open>The flags and the slash count say what the pattern holds.\<close>

definition WILD_FLAGS :: "rflag set" where
  "WILD_FLAGS = {FILTRULE_WILD, FILTRULE_WILD2, FILTRULE_WILD2_PREFIX, FILTRULE_WILD3_SUFFIX}"

definition pattern_flags_ok :: "string \<Rightarrow> rflag set \<Rightarrow> nat \<Rightarrow> bool" where
  "pattern_flags_ok p f n \<longleftrightarrow> f \<inter> WILD_FLAGS = wild_flags p \<and> n = c_slash p"

lemma wild_flags_sub: "wild_flags p \<subseteq> WILD_FLAGS"
  by (auto simp: wild_flags_def WILD_FLAGS_def)

lemma build_rule_flags_ok:
  assumes "build_rule env xf pat f = (p, g, n)" and "f \<inter> WILD_FLAGS = {}"
  shows "pattern_flags_ok p g n"
  using assms wild_flags_sub
  by (auto simp: build_rule_def Let_def pattern_flags_ok_def WILD_FLAGS_def split: if_splits prod.splits)

text \<open>
  The meaning of a rule, as the manual page gives it: the text is the last element of the name
  when the pattern has neither a slash nor a double star, and else the whole path; a leading
  slash anchors the pattern at the start of the text, a pattern without it is matched against
  the last elements, or with a double star inside it after any slash.
\<close>

definition rule_text :: "filter_env \<Rightarrow> string \<Rightarrow> rflag set \<Rightarrow> nat \<Rightarrow> name_flag set \<Rightarrow> string" where
  "rule_text env fname f n nf =
     (let name = (if at fname 0 = CHR ''/'' then tl fname else fname) in
      (if n = 0 \<and> FILTRULE_WILD2 \<notin> f then base_name name
       else if at fname 0 = CHR ''/'' then name
       else if FILTRULE_ABS_PATH \<in> f \<and> fe_module_dirlen env + 1 < length (fe_curr_dir env)
         then drop (fe_module_dirlen env + 1) (fe_curr_dir env) @ ''/'' @ name
       else if FILTRULE_WILD2_PREFIX \<in> f then ''/'' @ name
       else name)
      @ (if NAME_IS_DIR \<in> nf \<and> FILTRULE_WILD3_SUFFIX \<in> f then ''/'' else []))"

definition text_fits :: "rflag set \<Rightarrow> string \<Rightarrow> string \<Rightarrow> bool" where
  "text_fits f p t \<longleftrightarrow> (if FILTRULE_WILD \<in> f then wild_match False p t else p = t)"

definition rule_meaning :: "string \<Rightarrow> rflag set \<Rightarrow> nat \<Rightarrow> string \<Rightarrow> bool" where
  "rule_meaning p f n t \<longleftrightarrow>
     (if at p 0 = CHR ''/'' then text_fits f (tl p) t
      else if FILTRULE_WILD2 \<notin> f then \<exists>u. last_elements (int n + 1) t u \<and> text_fits f p u
      else if FILTRULE_WILD2_PREFIX \<in> f then text_fits f p t
      else \<exists>k\<le>length t. (k = 0 \<or> t ! (k - 1) = CHR ''/'') \<and> text_fits f p (drop k t))"

lemma slashes_c_slash: "slashes s = int (c_slash s)"
  by (simp add: slashes_def c_slash_def)

lemma base_name_no_slash [simp]: "CHR ''/'' \<notin> set (base_name s)"
  unfolding base_name_def using set_takeWhileD by fastforce

lemma one_element:
  assumes "CHR ''/'' \<notin> set t"
  shows "last_elements 1 t u \<longleftrightarrow> u = t"
proof -
  have "c_slash t = 0" using assms by (simp add: c_slash_def count_list_0_iff)
  then have "last_elements 1 t t" by (simp add: last_elements_def slashes_c_slash)
  then show ?thesis using last_elements_unique by blast
qed

lemma literal_tail:
  assumes "n = c_slash p"
  shows "(length p \<le> length t \<and> drop (length t - length p) t = p \<and> (length t = length p \<or> t ! (length t - (length p + 1)) = CHR ''/''))
    \<longleftrightarrow> last_elements (int n + 1) t p"
proof
  assume h: "length p \<le> length t \<and> drop (length t - length p) t = p \<and> (length t = length p \<or> t ! (length t - (length p + 1)) = CHR ''/'')"
  let ?pre = "take (length t - length p) t"
  have "t = ?pre @ p" using h append_take_drop_id [of "length t - length p" t] by simp
  moreover have "?pre = [] \<or> last ?pre = CHR ''/''"
  proof (cases "length t = length p")
    case False
    then have n: "?pre \<noteq> []" "length ?pre = length t - length p" using h by auto
    have "last ?pre = ?pre ! (length t - length p - 1)" using last_conv_nth [OF n(1)] unfolding n(2) .
    also have "\<dots> = t ! (length t - length p - 1)" using False h by (intro nth_take) linarith
    finally show ?thesis using h False by simp
  qed simp
  ultimately show "last_elements (int n + 1) t p" using assms unfolding last_elements_def by (auto simp: slashes_c_slash)
next
  assume "last_elements (int n + 1) t p"
  then obtain pre where pre: "t = pre @ p" "pre = [] \<or> last pre = CHR ''/''" unfolding last_elements_def by blast
  then show "length p \<le> length t \<and> drop (length t - length p) t = p \<and> (length t = length p \<or> t ! (length t - (length p + 1)) = CHR ''/'')"
    by (cases "pre = []") (auto simp: last_conv_nth nth_append)
qed

lemma anchored_slash: "at p 0 = CHR ''/'' \<Longrightarrow> c_slash p \<noteq> 0"
  by (cases p) (auto simp: c_slash_def NUL_def)

lemma rule_strings_text: "concat (rule_strings env fname f n nf) = rule_text env fname f n nf" "rule_strings env fname f n nf \<noteq> []"
  by (simp_all add: rule_strings_def rule_text_def Let_def)

lemmas rule_arrays =
  wildmatch_array_joined [OF rule_strings_text(2), unfolded rule_strings_text(1)]
  litmatch_array_joined [OF rule_strings_text(2), unfolded rule_strings_text(1)]

lemma single_text:
  assumes "\<not> 1 < length (rule_strings env fname f n nf)"
  shows "hd (rule_strings env fname f n nf) = rule_text env fname f n nf"
proof -
  obtain s where "rule_strings env fname f n nf = [s]" using assms rule_strings_text(2) [of env fname f n nf]
    by (cases "rule_strings env fname f n nf") auto
  then show ?thesis using rule_strings_text(1) [of env fname f n nf] by simp
qed

lemma wild_flagsD:
  assumes "pattern_flags_ok p f n"
  shows "FILTRULE_WILD2 \<in> f \<Longrightarrow> FILTRULE_WILD \<in> f" "FILTRULE_WILD2_PREFIX \<in> f \<Longrightarrow> FILTRULE_WILD2 \<in> f"
    "FILTRULE_WILD3_SUFFIX \<in> f \<Longrightarrow> FILTRULE_WILD2 \<in> f" "n = c_slash p"
  using assms unfolding pattern_flags_ok_def wild_flags_def WILD_FLAGS_def by (auto split: if_splits)

lemma no_slash_text:
  assumes "n = 0" and "FILTRULE_WILD2 \<notin> f" and "pattern_flags_ok p f n"
  shows "CHR ''/'' \<notin> set (rule_text env fname f n nf)"
  using assms wild_flagsD(3) [OF assms(3)] by (auto simp: rule_text_def Let_def)

lemma strings_match_meaning:
  assumes ok: "pattern_flags_ok p f n"
  shows "strings_match p f n (rule_strings env fname f n nf) \<longleftrightarrow> rule_meaning p f n (rule_text env fname f n nf)"
proof -
  let ?s = "rule_strings env fname f n nf" and ?t = "rule_text env fname f n nf" and ?A = "at p 0 = CHR ''/''"
  note W = wild_flagsD [OF ok]
  have el: "last_elements (int n + 1) ?t u \<longleftrightarrow> u = ?t" if "n = 0" "FILTRULE_WILD2 \<notin> f" for u
    using one_element [OF no_slash_text [OF that ok]] that by simp
  have n0: "?A \<Longrightarrow> n \<noteq> 0" using anchored_slash W(4) by simp
  consider (wild) "FILTRULE_WILD \<in> f" | (several) "FILTRULE_WILD \<notin> f" "1 < length ?s" | (one) "FILTRULE_WILD \<notin> f" "\<not> 1 < length ?s"
    by blast
  then show ?thesis
  proof cases
    case wild
    have "strings_match p f n ?s \<longleftrightarrow> wildmatch_array (if ?A then tl p else p) ?s (slash_handling ?A f n)"
      using wild by (simp add: strings_match_def Let_def)
    also have "\<dots> \<longleftrightarrow> rule_meaning p f n ?t"
    proof (cases ?A)
      case True
      then show ?thesis using wild by (simp add: slash_handling_def rule_arrays rule_meaning_def text_fits_def)
    next
      case False
      then show ?thesis using wild el W(2)
        by (cases "FILTRULE_WILD2 \<in> f"; cases "n = 0"; cases "FILTRULE_WILD2_PREFIX \<in> f")
          (simp_all add: slash_handling_def rule_arrays rule_meaning_def text_fits_def)
    qed
    finally show ?thesis .
  next
    case several
    then have "FILTRULE_WILD2 \<notin> f" using W(1) by auto
    then show ?thesis using several el
      by (cases ?A; cases "n = 0")
        (simp_all add: strings_match_def Let_def slash_handling_def rule_arrays rule_meaning_def text_fits_def)
  next
    case one
    then have "FILTRULE_WILD2 \<notin> f" using W(1) by auto
    then show ?thesis using one literal_tail [OF W(4), of ?t] single_text [OF one(2)]
      by (cases ?A) (auto simp: strings_match_def Let_def rule_meaning_def text_fits_def)
  qed
qed

text \<open>C16: A rule with the flags that add_rule gives it matches a name exactly when its meaning says so
  (the text, chosen by the slashes and double stars of the pattern, fits the pattern at the
  start, at its last elements or after any slash), when the kind of name is right and, for a
  rule that wants a directory, the name is one; a negated rule matches exactly the names of its
  kind that the pattern does not.\<close>

theorem rule_matches_meaning:
  assumes "pattern_flags_ok p f n"
  shows "rule_matches env fname p f n nf \<longleftrightarrow>
    fname \<notin> {[], ''/''} \<and> (NAME_IS_XATTR \<in> nf \<longleftrightarrow> FILTRULE_XATTR \<in> f) \<and>
    (FILTRULE_NEGATE \<in> f \<longleftrightarrow>
      \<not> ((FILTRULE_DIRECTORY \<in> f \<longrightarrow> NAME_IS_DIR \<in> nf) \<and> rule_meaning p f n (rule_text env fname f n nf)))"
proof -
  have "(if at fname 0 = CHR ''/'' then tl fname else fname) = [] \<longleftrightarrow> fname \<in> {[], ''/''}"
    by (cases fname) (auto simp: NUL_def)
  then show ?thesis
    by (simp add: rule_matches_def Let_def strings_match_meaning [OF assms])
qed

theorem rule_matches_meaning_witness:
  "rule_matches \<lparr>fe_am_sender = True, fe_protocol = 31, fe_delete_excluded = False, fe_ignore_perishable = False,
     fe_curr_dir = ''/home'', fe_module_dirlen = 0, fe_dirbuf = ''/home/''\<rparr> ''a/b/c'' ''b/c'' {} 1 {}"
proof -
  have "pattern_flags_ok ''b/c'' {} 1" by code_simp
  moreover have "last_elements 2 ''a/b/c'' ''b/c''" unfolding last_elements_def by (auto intro!: exI [of _ "''a/''"])
  ultimately show ?thesis by (subst rule_matches_meaning) (simp_all add: rule_meaning_def rule_text_def text_fits_def)
qed

end
