(* ===== verification/FilterParse.thy ===== *)
theory FilterParse
  imports FilterRule
begin

text \<open>
  The text of a filter rule: parse_rule_tok reads a rule, get_rule_prefix writes the prefix under
  which it is sent. A pointer into the rule string is the string from there on.
\<close>

section \<open>parse_rule_tok\<close>

definition FILTRULES_FROM_CONTAINER :: "rflag set" where
  "FILTRULES_FROM_CONTAINER = {FILTRULE_ABS_PATH, FILTRULE_INCLUDE, FILTRULE_DIRECTORY, FILTRULE_NEGATE, FILTRULE_PERISHABLE}"

text \<open>A rule name ends before a space, an underscore or the end; a comma after it is skipped too.
  The result points at the last character read.\<close>

definition rule_strcmp :: "string \<Rightarrow> string \<Rightarrow> string option" where
  "rule_strcmp str rule =
     (let n = length rule in
      if take n str \<noteq> rule then None
      else if c_isspace (at str n) \<or> at str n = CHR ''_'' \<or> at str n = NUL then Some (drop (n - 1) str)
      else if at str n = CHR '','' then Some (drop n str)
      else None)"

text \<open>The character ch of the rule and s; None when a long name is misspelt.\<close>

definition rule_char :: "string \<Rightarrow> (char \<times> string) option" where
  "rule_char s =
     (let word = (\<lambda>name ch. map_option (Pair ch) (rule_strcmp s name)) in
      if at s 0 = CHR ''c'' then word ''clear'' (CHR ''!'')
      else if at s 0 = CHR ''d'' then word ''dir-merge'' (CHR '':'')
      else if at s 0 = CHR ''e'' then word ''exclude'' (CHR ''-'')
      else if at s 0 = CHR ''h'' then word ''hide'' (CHR ''H'')
      else if at s 0 = CHR ''i'' then word ''include'' (CHR ''+'')
      else if at s 0 = CHR ''m'' then word ''merge'' (CHR ''.'')
      else if at s 0 = CHR ''p'' then word ''protect'' (CHR ''P'')
      else if at s 0 = CHR ''r'' then word ''risk'' (CHR ''R'')
      else if at s 0 = CHR ''s'' then word ''show'' (CHR ''S'')
      else Some (at s 0, if at s 1 = CHR '','' then tl s else s))"

text \<open>The flags of the rule kind, and prefix_specifies_side.\<close>

definition rule_kind :: "char \<Rightarrow> rflag set \<Rightarrow> (rflag set \<times> bool) option" where
  "rule_kind ch f =
     (if ch = CHR '':'' then Some (f \<union> {FILTRULE_PERDIR_MERGE, FILTRULE_FINISH_SETUP, FILTRULE_MERGE_FILE}, False)
      else if ch = CHR ''.'' then Some (f \<union> {FILTRULE_MERGE_FILE}, False)
      else if ch = CHR ''+'' then Some (f \<union> {FILTRULE_INCLUDE}, False)
      else if ch = CHR ''-'' then Some (f, False)
      else if ch = CHR ''S'' then Some (f \<union> {FILTRULE_INCLUDE, FILTRULE_SENDER_SIDE}, True)
      else if ch = CHR ''H'' then Some (f \<union> {FILTRULE_SENDER_SIDE}, True)
      else if ch = CHR ''R'' then Some (f \<union> {FILTRULE_INCLUDE, FILTRULE_RECEIVER_SIDE}, True)
      else if ch = CHR ''P'' then Some (f \<union> {FILTRULE_RECEIVER_SIDE}, True)
      else if ch = CHR ''!'' then Some (f \<union> {FILTRULE_CLEAR_LIST}, False)
      else None)"

text \<open>One modifier; None for an invalid one.\<close>

definition modifier :: "bool \<Rightarrow> char \<Rightarrow> rflag set \<Rightarrow> rflag set option" where
  "modifier prefix_specifies_side c f =
     (if c = CHR ''-'' then
        if FILTRULE_MERGE_FILE \<in> f \<and> FILTRULE_NO_PREFIXES \<notin> f then Some (f \<union> {FILTRULE_NO_PREFIXES}) else None
      else if c = CHR ''+'' then
        if FILTRULE_MERGE_FILE \<in> f \<and> FILTRULE_NO_PREFIXES \<notin> f then Some (f \<union> {FILTRULE_NO_PREFIXES, FILTRULE_INCLUDE}) else None
      else if c = CHR ''/'' then Some (f \<union> {FILTRULE_ABS_PATH})
      else if c = CHR ''!'' then if FILTRULE_MERGE_FILE \<in> f then None else Some (f \<union> {FILTRULE_NEGATE})
      else if c = CHR ''C'' then
        if FILTRULE_NO_PREFIXES \<in> f \<or> prefix_specifies_side then None
        else Some (f \<union> {FILTRULE_NO_PREFIXES, FILTRULE_WORD_SPLIT, FILTRULE_NO_INHERIT, FILTRULE_CVS_IGNORE})
      else if c = CHR ''e'' then if FILTRULE_MERGE_FILE \<in> f then Some (f \<union> {FILTRULE_EXCLUDE_SELF}) else None
      else if c = CHR ''n'' then if FILTRULE_MERGE_FILE \<in> f then Some (f \<union> {FILTRULE_NO_INHERIT}) else None
      else if c = CHR ''p'' then Some (f \<union> {FILTRULE_PERISHABLE})
      else if c = CHR ''r'' then if prefix_specifies_side then None else Some (f \<union> {FILTRULE_RECEIVER_SIDE})
      else if c = CHR ''s'' then if prefix_specifies_side then None else Some (f \<union> {FILTRULE_SENDER_SIDE})
      else if c = CHR ''w'' then if FILTRULE_MERGE_FILE \<in> f then Some (f \<union> {FILTRULE_WORD_SPLIT}) else None
      else if c = CHR ''x'' then Some (f \<union> {FILTRULE_XATTR})
      else None)"

text \<open>
  The loop over the modifiers, from the character after s, with the \<open>if (*s) s++\<close> behind
  it: it stops after a space or an underscore, before other white space in a word-split list, or
  at the end.
\<close>

fun modifiers :: "bool \<Rightarrow> bool \<Rightarrow> string \<Rightarrow> rflag set \<Rightarrow> (rflag set \<times> string) result" where
  "modifiers ws side [] f = Inr (f, [])"
| "modifiers ws side (c # s) f =
     (if c = CHR '' '' \<or> c = CHR ''_'' then Inr (f, s)
      else if ws \<and> c_isspace c then Inr (f, c # s)
      else case modifier side c f of None \<Rightarrow> Inl RERR_SYNTAX | Some f \<Rightarrow> modifiers ws side s f)"

text \<open>The kind of the rule and its modifiers: the flags and the start of the pattern.\<close>

definition rule_start :: "rflag set \<Rightarrow> xflag set \<Rightarrow> string \<Rightarrow> (rflag set \<times> string) result" where
  "rule_start template xf s =
     (let f = template \<inter> FILTRULES_FROM_CONTAINER in
      if FILTRULE_NO_PREFIXES \<in> template then
        Inr (if at s 0 = CHR ''!'' \<and> FILTRULE_CVS_IGNORE \<in> template then f \<union> {FILTRULE_CLEAR_LIST} else f, s)
      else if XFLG_OLD_PREFIXES \<in> xf then
        Inr (if at s 0 = CHR ''-'' \<and> at s 1 = CHR '' '' then (f - {FILTRULE_INCLUDE}, drop 2 s)
             else if at s 0 = CHR ''+'' \<and> at s 1 = CHR '' '' then (f \<union> {FILTRULE_INCLUDE}, drop 2 s)
             else if at s 0 = CHR ''!'' then (f \<union> {FILTRULE_CLEAR_LIST}, s)
             else (f, s))
      else
        case rule_char s of None \<Rightarrow> Inl RERR_SYNTAX
        | Some (ch, s) \<Rightarrow>
            (case rule_kind ch f of None \<Rightarrow> Inl RERR_SYNTAX
             | Some (f, side) \<Rightarrow>
                 if ch = CHR ''!'' then Inr (f, tl s)
                 else modifiers (FILTRULE_WORD_SPLIT \<in> template) side (tl s) f))"

text \<open>The side of the template, the length of the pattern, and the checks on both.\<close>

definition rule_end :: "filter_env \<Rightarrow> rflag set \<Rightarrow> xflag set \<Rightarrow> rflag set \<Rightarrow> string \<Rightarrow> (rflag set \<times> string \<times> string) result" where
  "rule_end env template xf f s =
     (if template \<inter> FILTRULES_SIDES \<noteq> {} \<and> f \<inter> FILTRULES_SIDES \<noteq> {} then Inl RERR_SYNTAX
      else
        let f = f \<union> template \<inter> FILTRULES_SIDES;
            len = (if FILTRULE_WORD_SPLIT \<in> template then length (takeWhile (\<lambda>c. \<not> c_isspace c) s) else length s) in
        if FILTRULE_CLEAR_LIST \<in> f \<and> FILTRULE_NO_PREFIXES \<notin> f \<and> XFLG_OLD_PREFIXES \<notin> xf \<and> len \<noteq> 0 then Inl RERR_SYNTAX
        else if FILTRULE_CLEAR_LIST \<notin> f \<and> len = 0 \<and> FILTRULE_CVS_IGNORE \<notin> f then Inl RERR_SYNTAX
        else
          let f = (if FILTRULE_CLEAR_LIST \<in> f \<and> 1 < len then f - {FILTRULE_CLEAR_LIST} else f);
              f = (if fe_delete_excluded env \<and> f \<inter> (FILTRULES_SIDES \<union> {FILTRULE_MERGE_FILE, FILTRULE_PERDIR_MERGE}) = {}
                   then f \<union> {FILTRULE_SENDER_SIDE} else f)
          in Inr (f, take len s, drop len s))"

text \<open>The result: no more rules, or the flags, the pattern and the rest of the string.\<close>

definition parse_rule_tok :: "filter_env \<Rightarrow> rflag set \<Rightarrow> xflag set \<Rightarrow> string \<Rightarrow> (rflag set \<times> string \<times> string) option result" where
  "parse_rule_tok env template xf rulestr =
     (let s = (if FILTRULE_WORD_SPLIT \<in> template then dropWhile c_isspace rulestr else rulestr) in
      if s = [] then Inr None
      else res_bind (rule_start template xf s) (\<lambda>(f, s).
        res_bind (rule_end env template xf f s) (\<lambda>x. Inr (Some x))))"

section \<open>get_rule_prefix\<close>

definition opt_char :: "bool \<Rightarrow> char \<Rightarrow> string" where
  "opt_char b c = (if b then [c] else [])"

definition MAX_RULE_PREFIX :: nat where "MAX_RULE_PREFIX = 16"

text \<open>The first character and legal_len; None where protocol 28 has no merge files.\<close>

definition prefix_start :: "filter_env \<Rightarrow> rflag set \<Rightarrow> string \<Rightarrow> bool \<Rightarrow> (string \<times> nat) option" where
  "prefix_start env f pat for_xfer =
     (let legal_len = (if for_xfer \<and> fe_protocol env < 29 then 1 else MAX_RULE_PREFIX - 1) in
      if FILTRULE_PERDIR_MERGE \<in> f then if legal_len = 1 then None else Some ('':'', legal_len)
      else if FILTRULE_INCLUDE \<in> f then Some (''+'', legal_len)
      else if legal_len \<noteq> 1 \<or> (at pat 0 = CHR ''-'' \<or> at pat 0 = CHR ''+'') \<and> at pat 1 = CHR '' '' then Some (''-'', legal_len)
      else Some ([], 0))"

definition prefix_mods :: "filter_env \<Rightarrow> rflag set \<Rightarrow> bool \<Rightarrow> string" where
  "prefix_mods env f for_xfer =
     opt_char (FILTRULE_ABS_PATH \<in> f) (CHR ''/'') @
     opt_char (FILTRULE_NEGATE \<in> f) (CHR ''!'') @
     (if FILTRULE_CVS_IGNORE \<in> f then ''C''
      else opt_char (FILTRULE_NO_INHERIT \<in> f) (CHR ''n'') @
        opt_char (FILTRULE_WORD_SPLIT \<in> f) (CHR ''w'') @
        opt_char (FILTRULE_NO_PREFIXES \<in> f) (if FILTRULE_INCLUDE \<in> f then CHR ''+'' else CHR ''-'')) @
     opt_char (FILTRULE_EXCLUDE_SELF \<in> f) (CHR ''e'') @
     opt_char (FILTRULE_XATTR \<in> f) (CHR ''x'') @
     opt_char (FILTRULE_SENDER_SIDE \<in> f \<and> (\<not> for_xfer \<or> 29 \<le> fe_protocol env)) (CHR ''s'') @
     opt_char (FILTRULE_RECEIVER_SIDE \<in> f \<and> (\<not> for_xfer \<or> 29 \<le> fe_protocol env \<or> fe_delete_excluded env \<and> fe_am_sender env)) (CHR ''r'') @
     opt_char (FILTRULE_PERISHABLE \<in> f \<and> (\<not> for_xfer \<or> 30 \<le> fe_protocol env)) (CHR ''p'')"

definition get_rule_prefix :: "filter_env \<Rightarrow> rflag set \<Rightarrow> string \<Rightarrow> bool \<Rightarrow> string option" where
  "get_rule_prefix env f pat for_xfer =
     Option.bind (prefix_start env f pat for_xfer) (\<lambda>(start, legal_len).
       let buf = start @ prefix_mods env f for_xfer in
       if FILTRULE_PERISHABLE \<in> f \<and> for_xfer \<and> fe_protocol env < 30 \<and> fe_am_sender env then None
       else if legal_len < length buf then None
       else Some (buf @ (if legal_len \<noteq> 0 then '' '' else [])))"

section \<open>Writing and reading a rule\<close>

text \<open>The flags that the prefix can say: those of the rules that the parser puts into a list.\<close>

definition wire_flags :: "rflag set \<Rightarrow> bool" where
  "wire_flags f \<longleftrightarrow>
     FILTRULE_CLEAR_LIST \<notin> f \<and> FILTRULE_EXCLUDE_SELF \<notin> f \<and>
     (FILTRULE_MERGE_FILE \<in> f \<longleftrightarrow> FILTRULE_PERDIR_MERGE \<in> f) \<and> (FILTRULE_FINISH_SETUP \<in> f \<longleftrightarrow> FILTRULE_PERDIR_MERGE \<in> f) \<and>
     (FILTRULE_CVS_IGNORE \<in> f \<longrightarrow> FILTRULE_NO_PREFIXES \<in> f \<and> FILTRULE_WORD_SPLIT \<in> f \<and> FILTRULE_NO_INHERIT \<in> f) \<and>
     (FILTRULE_CVS_IGNORE \<notin> f \<and> FILTRULE_PERDIR_MERGE \<notin> f \<longrightarrow>
        FILTRULE_NO_PREFIXES \<notin> f \<and> FILTRULE_WORD_SPLIT \<notin> f \<and> FILTRULE_NO_INHERIT \<notin> f) \<and>
     (FILTRULE_PERDIR_MERGE \<in> f \<and> FILTRULE_INCLUDE \<in> f \<longrightarrow> FILTRULE_NO_PREFIXES \<in> f \<and> FILTRULE_CVS_IGNORE \<notin> f) \<and>
     (FILTRULE_NEGATE \<in> f \<longrightarrow> FILTRULE_PERDIR_MERGE \<notin> f)"

lemma modifiers_opt:
  assumes "x \<in> f \<Longrightarrow> modifier False c g = Some (g \<union> {x})" and "c \<noteq> CHR '' ''" and "c \<noteq> CHR ''_''"
  shows "modifiers False False (opt_char (x \<in> f) c @ s) g = modifiers False False s (g \<union> f \<inter> {x})"
  using assms by (simp add: opt_char_def)

lemma modifiers_middle:
  assumes "wire_flags f" and "FILTRULE_MERGE_FILE \<in> g \<longleftrightarrow> FILTRULE_PERDIR_MERGE \<in> f" and "FILTRULE_NO_PREFIXES \<notin> g"
    and "FILTRULE_PERDIR_MERGE \<notin> f \<Longrightarrow> FILTRULE_INCLUDE \<in> g \<longleftrightarrow> FILTRULE_INCLUDE \<in> f"
  shows "modifiers False False
      ((if FILTRULE_CVS_IGNORE \<in> f then ''C''
        else opt_char (FILTRULE_NO_INHERIT \<in> f) (CHR ''n'') @ opt_char (FILTRULE_WORD_SPLIT \<in> f) (CHR ''w'') @
          opt_char (FILTRULE_NO_PREFIXES \<in> f) (if FILTRULE_INCLUDE \<in> f then CHR ''+'' else CHR ''-'')) @ s) g =
    modifiers False False s (g \<union> f \<inter> {FILTRULE_NO_INHERIT, FILTRULE_WORD_SPLIT, FILTRULE_NO_PREFIXES, FILTRULE_CVS_IGNORE, FILTRULE_INCLUDE})"
proof (cases "FILTRULE_CVS_IGNORE \<in> f")
  case True
  then have f: "FILTRULE_NO_PREFIXES \<in> f" "FILTRULE_WORD_SPLIT \<in> f" "FILTRULE_NO_INHERIT \<in> f"
    and i: "FILTRULE_INCLUDE \<in> f \<Longrightarrow> FILTRULE_INCLUDE \<in> g" using assms by (auto simp: wire_flags_def)
  have "g \<union> f \<inter> {FILTRULE_NO_INHERIT, FILTRULE_WORD_SPLIT, FILTRULE_NO_PREFIXES, FILTRULE_CVS_IGNORE, FILTRULE_INCLUDE} =
      g \<union> {FILTRULE_NO_PREFIXES, FILTRULE_WORD_SPLIT, FILTRULE_NO_INHERIT, FILTRULE_CVS_IGNORE}"
    using True f i by auto
  then show ?thesis using True assms(3) by (simp add: modifier_def)
next
  case no: False
  show ?thesis
  proof (cases "FILTRULE_PERDIR_MERGE \<in> f")
    case True
    let ?g = "g \<union> f \<inter> {FILTRULE_NO_INHERIT} \<union> f \<inter> {FILTRULE_WORD_SPLIT}"
    have m: "FILTRULE_MERGE_FILE \<in> ?g" "FILTRULE_NO_PREFIXES \<notin> ?g" using True assms(2,3) by auto
    have "modifiers False False (opt_char (FILTRULE_NO_PREFIXES \<in> f) (if FILTRULE_INCLUDE \<in> f then CHR ''+'' else CHR ''-'') @ s) ?g =
        modifiers False False s (?g \<union> f \<inter> {FILTRULE_NO_PREFIXES, FILTRULE_INCLUDE})"
    proof (cases "FILTRULE_NO_PREFIXES \<in> f")
      case False
      then have "f \<inter> {FILTRULE_NO_PREFIXES, FILTRULE_INCLUDE} = {}" using True assms(1) by (auto simp: wire_flags_def)
      then show ?thesis using False by (simp add: opt_char_def)
    qed (use m in \<open>auto simp: opt_char_def modifier_def Int_insert_right\<close>)
    then show ?thesis using no True m assms(2)
      by (simp add: modifiers_opt modifier_def Int_insert_right Un_assoc no)
  next
    case False
    then have "opt_char (FILTRULE_NO_INHERIT \<in> f) c = []" "opt_char (FILTRULE_WORD_SPLIT \<in> f) c = []" "opt_char (FILTRULE_NO_PREFIXES \<in> f) c = []" for c
      using assms(1) no by (auto simp: wire_flags_def opt_char_def)
    moreover have "g \<union> f \<inter> {FILTRULE_NO_INHERIT, FILTRULE_WORD_SPLIT, FILTRULE_NO_PREFIXES, FILTRULE_CVS_IGNORE, FILTRULE_INCLUDE} = g"
      using False assms(1,4) no by (auto simp: wire_flags_def)
    ultimately show ?thesis using no by simp
  qed
qed

lemma modifiers_around:
  assumes "FILTRULE_NEGATE \<in> f \<Longrightarrow> FILTRULE_MERGE_FILE \<notin> g"
    and "\<And>s. modifiers False False (M @ s) (g \<union> f \<inter> {FILTRULE_ABS_PATH} \<union> f \<inter> {FILTRULE_NEGATE}) = modifiers False False s h"
  shows "modifiers False False (opt_char (FILTRULE_ABS_PATH \<in> f) (CHR ''/'') @ opt_char (FILTRULE_NEGATE \<in> f) (CHR ''!'') @ M @
      opt_char (FILTRULE_XATTR \<in> f) (CHR ''x'') @ opt_char (FILTRULE_SENDER_SIDE \<in> f) (CHR ''s'') @
      opt_char (FILTRULE_RECEIVER_SIDE \<in> f) (CHR ''r'') @ t) g =
    modifiers False False t (h \<union> f \<inter> {FILTRULE_XATTR} \<union> f \<inter> {FILTRULE_SENDER_SIDE} \<union> f \<inter> {FILTRULE_RECEIVER_SIDE})"
  using assms by (simp add: modifiers_opt modifier_def)

text \<open>The modifiers of a rule, read back after its kind.\<close>

lemma read_mods:
  assumes "wire_flags f" and "29 \<le> fe_protocol env"
    and g: "g = (if FILTRULE_PERDIR_MERGE \<in> f then {FILTRULE_PERDIR_MERGE, FILTRULE_FINISH_SETUP, FILTRULE_MERGE_FILE}
      else f \<inter> {FILTRULE_INCLUDE})"
  shows "modifiers False False (prefix_mods env f True @ CHR '' '' # s) g =
    Inr (f - WILD_FLAGS - {FILTRULE_DIRECTORY} - (if fe_protocol env < 30 then {FILTRULE_PERISHABLE} else {}), s)"
proof -
  let ?g = "g \<union> f \<inter> {FILTRULE_ABS_PATH} \<union> f \<inter> {FILTRULE_NEGATE}"
  let ?h = "?g \<union> f \<inter> {FILTRULE_NO_INHERIT, FILTRULE_WORD_SPLIT, FILTRULE_NO_PREFIXES, FILTRULE_CVS_IGNORE, FILTRULE_INCLUDE}"
  let ?f = "?h \<union> f \<inter> {FILTRULE_XATTR} \<union> f \<inter> {FILTRULE_SENDER_SIDE} \<union> f \<inter> {FILTRULE_RECEIVER_SIDE}"
  have neg: "FILTRULE_NEGATE \<in> f \<Longrightarrow> FILTRULE_MERGE_FILE \<notin> g" and e: "FILTRULE_EXCLUDE_SELF \<notin> f"
    using assms(1) by (auto simp: g wire_flags_def)
  have mid: "FILTRULE_MERGE_FILE \<in> ?g \<longleftrightarrow> FILTRULE_PERDIR_MERGE \<in> f" "FILTRULE_NO_PREFIXES \<notin> ?g"
    "FILTRULE_PERDIR_MERGE \<notin> f \<Longrightarrow> FILTRULE_INCLUDE \<in> ?g \<longleftrightarrow> FILTRULE_INCLUDE \<in> f" by (auto simp: g)
  have p: "modifiers False False (opt_char (FILTRULE_PERISHABLE \<in> f \<and> 30 \<le> fe_protocol env) (CHR ''p'') @ CHR '' '' # s) ?f =
      Inr (?f \<union> (if fe_protocol env < 30 then {} else f \<inter> {FILTRULE_PERISHABLE}), s)"
    by (auto simp: opt_char_def modifier_def)
  have "modifiers False False (prefix_mods env f True @ CHR '' '' # s) g =
      Inr (?f \<union> (if fe_protocol env < 30 then {} else f \<inter> {FILTRULE_PERISHABLE}), s)"
    using modifiers_around [OF neg modifiers_middle [OF assms(1) mid], of "opt_char (FILTRULE_PERISHABLE \<in> f \<and> 30 \<le> fe_protocol env) (CHR ''p'') @ CHR '' '' # s"]
      assms(2) e unfolding p prefix_mods_def append_assoc by (simp only: opt_char_def if_False append_Nil simp_thms)
  moreover have "?f \<union> (if fe_protocol env < 30 then {} else f \<inter> {FILTRULE_PERISHABLE}) =
      f - WILD_FLAGS - {FILTRULE_DIRECTORY} - (if fe_protocol env < 30 then {FILTRULE_PERISHABLE} else {})"
  proof (rule set_eqI)
    fix x show "x \<in> ?f \<union> (if fe_protocol env < 30 then {} else f \<inter> {FILTRULE_PERISHABLE}) \<longleftrightarrow>
      x \<in> f - WILD_FLAGS - {FILTRULE_DIRECTORY} - (if fe_protocol env < 30 then {FILTRULE_PERISHABLE} else {})"
      using assms(1) by (cases x) (auto simp: g WILD_FLAGS_def wire_flags_def)
  qed
  ultimately show ?thesis by simp
qed

definition arrived_flags :: "filter_env \<Rightarrow> nat \<Rightarrow> rflag set \<Rightarrow> rflag set" where
  "arrived_flags env pv f =
     (let g = f - WILD_FLAGS - {FILTRULE_DIRECTORY} - (if pv < 30 then {FILTRULE_PERISHABLE} else {}) in
      if fe_delete_excluded env \<and> g \<inter> (FILTRULES_SIDES \<union> {FILTRULE_MERGE_FILE, FILTRULE_PERDIR_MERGE}) = {}
      then g \<union> {FILTRULE_SENDER_SIDE} else g)"

lemma prefix_mods_no_comma: "CHR '','' \<notin> set (prefix_mods env f b)"
  by (simp add: prefix_mods_def opt_char_def)

lemma rule_start_kind:
  assumes "c \<in> set ''+-:''" and "at s 0 \<noteq> CHR '',''"
  shows "rule_start {} {} (c # s) = (case rule_kind c {} of None \<Rightarrow> Inl RERR_SYNTAX | Some (f, side) \<Rightarrow> modifiers False side s f)"
proof -
  have "rule_char (c # s) = Some (c, c # s)" "c \<noteq> CHR ''!''" using assms by (auto simp: rule_char_def Let_def)
  then show ?thesis by (simp add: rule_start_def Let_def split: option.split)
qed

lemma parse_after_start:
  assumes "rule_start {} {} s = Inr (f, q)" and "s \<noteq> []" and "FILTRULE_CLEAR_LIST \<notin> f" and "q \<noteq> [] \<or> FILTRULE_CVS_IGNORE \<in> f"
  shows "parse_rule_tok env {} {} s = Inr (Some (if fe_delete_excluded env \<and> f \<inter> (FILTRULES_SIDES \<union> {FILTRULE_MERGE_FILE, FILTRULE_PERDIR_MERGE}) = {}
      then f \<union> {FILTRULE_SENDER_SIDE} else f, q, []))"
  using assms by (simp add: parse_rule_tok_def rule_end_def Let_def)

lemma prefix_form:
  assumes "29 \<le> fe_protocol env" and "get_rule_prefix env f p True = Some pre"
  shows "pre = (if FILTRULE_PERDIR_MERGE \<in> f then CHR '':'' else if FILTRULE_INCLUDE \<in> f then CHR ''+'' else CHR ''-'') # prefix_mods env f True @ '' ''"
  using assms by (auto simp: get_rule_prefix_def prefix_start_def MAX_RULE_PREFIX_def Let_def bind_eq_Some_conv split: if_splits)

lemma parse_sent_rule:
  assumes f: "wire_flags f" and pv: "29 \<le> fe_protocol env" and pre: "get_rule_prefix env f p True = Some pre"
    and q: "q \<noteq> [] \<or> FILTRULE_CVS_IGNORE \<in> f"
  shows "parse_rule_tok env' {} {} (pre @ q) = Inr (Some (arrived_flags env' (fe_protocol env) f, q, []))"
proof -
  let ?c = "if FILTRULE_PERDIR_MERGE \<in> f then CHR '':'' else if FILTRULE_INCLUDE \<in> f then CHR ''+'' else CHR ''-''"
  let ?g = "if FILTRULE_PERDIR_MERGE \<in> f then {FILTRULE_PERDIR_MERGE, FILTRULE_FINISH_SETUP, FILTRULE_MERGE_FILE} else f \<inter> {FILTRULE_INCLUDE}"
  let ?r = "f - WILD_FLAGS - {FILTRULE_DIRECTORY} - (if fe_protocol env < 30 then {FILTRULE_PERISHABLE} else {})"
  have c: "?c \<in> set ''+-:''" "rule_kind ?c {} = Some (?g, False)" by (auto simp: rule_kind_def)
  have "at (prefix_mods env f True @ '' '' @ q) 0 \<noteq> CHR '',''"
    using prefix_mods_no_comma [of env f True] by (cases "prefix_mods env f True") auto
  then have "rule_start {} {} (pre @ q) = Inr (?r, q)"
    using rule_start_kind [OF c(1)] c(2) read_mods [OF f pv refl, of q] by (simp add: prefix_form [OF pv pre])
  moreover have "pre @ q \<noteq> []" by (simp add: prefix_form [OF pv pre])
  moreover have "FILTRULE_CLEAR_LIST \<notin> ?r" "FILTRULE_CVS_IGNORE \<in> f \<longleftrightarrow> FILTRULE_CVS_IGNORE \<in> ?r" using f by (auto simp: wire_flags_def WILD_FLAGS_def)
  ultimately show ?thesis unfolding arrived_flags_def Let_def using q by (intro parse_after_start) blast+
qed

text \<open>A prefix never needs more than the buffer: at most 12 of its 17 bytes with the final NUL.\<close>

lemma prefix_mods_length: "length (prefix_mods env f b) \<le> 10"
  by (simp add: prefix_mods_def opt_char_def)

lemma get_rule_prefix_Some:
  assumes "30 \<le> fe_protocol env"
  shows "\<exists>pre. get_rule_prefix env f p True = Some pre \<and> length pre \<le> MAX_RULE_PREFIX"
  using assms prefix_mods_length [of env f True] by (auto simp: get_rule_prefix_def prefix_start_def MAX_RULE_PREFIX_def Let_def)

section \<open>What the parser returns\<close>

text \<open>The flags of a rule before it is stored.\<close>

definition parsed_flags :: "rflag set \<Rightarrow> bool" where
  "parsed_flags f \<longleftrightarrow>
     f \<inter> WILD_FLAGS = {} \<and> FILTRULE_DIRECTORY \<notin> f \<and>
     (FILTRULE_PERDIR_MERGE \<in> f \<longrightarrow> FILTRULE_MERGE_FILE \<in> f) \<and> (FILTRULE_FINISH_SETUP \<in> f \<longleftrightarrow> FILTRULE_PERDIR_MERGE \<in> f) \<and>
     (FILTRULE_CVS_IGNORE \<in> f \<longrightarrow> FILTRULE_NO_PREFIXES \<in> f \<and> FILTRULE_WORD_SPLIT \<in> f \<and> FILTRULE_NO_INHERIT \<in> f) \<and>
     (FILTRULE_CVS_IGNORE \<notin> f \<and> FILTRULE_MERGE_FILE \<notin> f \<longrightarrow>
        FILTRULE_NO_PREFIXES \<notin> f \<and> FILTRULE_WORD_SPLIT \<notin> f \<and> FILTRULE_NO_INHERIT \<notin> f) \<and>
     (FILTRULE_MERGE_FILE \<in> f \<and> FILTRULE_INCLUDE \<in> f \<longrightarrow> FILTRULE_NO_PREFIXES \<in> f \<and> FILTRULE_CVS_IGNORE \<notin> f) \<and>
     (FILTRULE_NEGATE \<in> f \<longrightarrow> FILTRULE_MERGE_FILE \<notin> f) \<and>
     (FILTRULE_EXCLUDE_SELF \<in> f \<longrightarrow> FILTRULE_MERGE_FILE \<in> f)"

text \<open>The templates that fill the filter list: those of the options, and the merge rules read from it.\<close>

definition template_ok :: "rflag set \<Rightarrow> xflag set \<Rightarrow> bool" where
  "template_ok t xf \<longleftrightarrow> FILTRULE_DIRECTORY \<notin> t \<and>
     (FILTRULE_INCLUDE \<notin> t \<and> FILTRULE_NEGATE \<notin> t \<or> FILTRULE_NO_PREFIXES \<in> t \<or> XFLG_OLD_PREFIXES \<in> xf)"

lemma modifier_parsed: "modifier side c f = Some g \<Longrightarrow> parsed_flags f \<Longrightarrow> parsed_flags g"
  by (auto simp: modifier_def parsed_flags_def WILD_FLAGS_def split: if_splits)

lemma modifiers_parsed: "modifiers ws side s f = Inr (g, s') \<Longrightarrow> parsed_flags f \<Longrightarrow> parsed_flags g"
  by (induction ws side s f rule: modifiers.induct) (auto split: if_splits option.splits dest: modifier_parsed)

lemma rule_kind_parsed:
  "rule_kind ch f = Some (g, side) \<Longrightarrow> f \<subseteq> {FILTRULE_ABS_PATH, FILTRULE_PERISHABLE} \<Longrightarrow> parsed_flags g"
  by (auto simp: rule_kind_def parsed_flags_def WILD_FLAGS_def split: if_splits)

lemma container_parsed: "f \<subseteq> FILTRULES_FROM_CONTAINER \<union> {FILTRULE_CLEAR_LIST} \<Longrightarrow> FILTRULE_DIRECTORY \<notin> f \<Longrightarrow> parsed_flags f"
  by (auto simp: parsed_flags_def FILTRULES_FROM_CONTAINER_def WILD_FLAGS_def)

lemma rule_start_parsed:
  assumes "rule_start t xf s = Inr (f, q)" and "template_ok t xf"
  shows "parsed_flags f"
proof (cases "FILTRULE_NO_PREFIXES \<in> t \<or> XFLG_OLD_PREFIXES \<in> xf")
  case True
  then have "f \<subseteq> FILTRULES_FROM_CONTAINER \<union> {FILTRULE_CLEAR_LIST}" "FILTRULE_DIRECTORY \<notin> f"
    using assms by (auto simp: rule_start_def Let_def template_ok_def FILTRULES_FROM_CONTAINER_def split: if_splits)
  then show ?thesis by (rule container_parsed)
next
  case False
  then have t: "t \<inter> FILTRULES_FROM_CONTAINER \<subseteq> {FILTRULE_ABS_PATH, FILTRULE_PERISHABLE}"
    using assms(2) by (auto simp: template_ok_def FILTRULES_FROM_CONTAINER_def)
  obtain ch s' g side where "rule_char s = Some (ch, s')" and k: "rule_kind ch (t \<inter> FILTRULES_FROM_CONTAINER) = Some (g, side)"
    using assms(1) False by (auto simp: rule_start_def Let_def split: option.splits)
  then have "f = g \<or> modifiers (FILTRULE_WORD_SPLIT \<in> t) side (tl s') g = Inr (f, q)"
    using assms(1) False by (auto simp: rule_start_def Let_def split: if_splits)
  then show ?thesis using rule_kind_parsed [OF k t] modifiers_parsed by blast
qed

lemma no_wild: "f \<inter> WILD_FLAGS = {} \<longleftrightarrow>
    FILTRULE_WILD \<notin> f \<and> FILTRULE_WILD2 \<notin> f \<and> FILTRULE_WILD2_PREFIX \<notin> f \<and> FILTRULE_WILD3_SUFFIX \<notin> f"
  by (auto simp: WILD_FLAGS_def)

lemma parsed_flags_cong:
  assumes "\<And>x. x \<notin> FILTRULES_SIDES \<Longrightarrow> x \<noteq> FILTRULE_CLEAR_LIST \<Longrightarrow> x \<in> f \<longleftrightarrow> x \<in> g"
  shows "parsed_flags f \<longleftrightarrow> parsed_flags g"
  unfolding parsed_flags_def no_wild by (simp add: assms FILTRULES_SIDES_def)

text \<open>The end of a rule changes only the side and the list-clearing flag, and takes a part of the string.\<close>

lemma rule_end_flags:
  assumes "rule_end env t xf g q = Inr (f, pat, rest)" and "x \<notin> FILTRULES_SIDES" and "x \<noteq> FILTRULE_CLEAR_LIST"
  shows "x \<in> f \<longleftrightarrow> x \<in> g"
proof -
  let ?h = "g \<union> t \<inter> FILTRULES_SIDES"
  have "f \<in> {?h, ?h \<union> {FILTRULE_SENDER_SIDE}, ?h - {FILTRULE_CLEAR_LIST}, ?h - {FILTRULE_CLEAR_LIST} \<union> {FILTRULE_SENDER_SIDE}}"
    using assms(1) unfolding rule_end_def Let_def by (simp split: if_splits)
  then show ?thesis using assms(2,3) by (auto simp: FILTRULES_SIDES_def)
qed

lemma rule_end_pattern:
  assumes "rule_end env t xf g q = Inr (f, pat, rest)"
  shows "pat @ rest = q" "pat = [] \<Longrightarrow> q = [] \<or> FILTRULE_WORD_SPLIT \<in> t \<and> c_isspace (hd q)"
    "pat = [] \<Longrightarrow> FILTRULE_CLEAR_LIST \<notin> f \<Longrightarrow> FILTRULE_CVS_IGNORE \<in> f"
proof -
  let ?n = "if FILTRULE_WORD_SPLIT \<in> t then length (takeWhile (\<lambda>c. \<not> c_isspace c) q) else length q"
  have p: "pat = take ?n q" "rest = drop ?n q" using assms unfolding rule_end_def Let_def by (simp_all split: if_splits)
  then show "pat @ rest = q" by simp
  have "?n \<le> length q" by (simp add: length_takeWhile_le)
  then have n: "pat = [] \<longleftrightarrow> ?n = 0" unfolding p by auto
  then show "pat = [] \<Longrightarrow> q = [] \<or> FILTRULE_WORD_SPLIT \<in> t \<and> c_isspace (hd q)" by (cases q) (auto split: if_splits)
  assume "pat = []" "FILTRULE_CLEAR_LIST \<notin> f"
  moreover from this have "FILTRULE_CVS_IGNORE \<in> g" using assms n unfolding rule_end_def Let_def by (auto simp: FILTRULES_SIDES_def split: if_splits)
  ultimately show "FILTRULE_CVS_IGNORE \<in> f" using rule_end_flags [OF assms] by (simp add: FILTRULES_SIDES_def)
qed

lemma parse_rule_tokE:
  assumes "parse_rule_tok env t xf s = Inr (Some (f, pat, rest))"
  obtains s' g where "length s' \<le> length s" "set s' \<subseteq> set s" "s' \<noteq> []" "FILTRULE_WORD_SPLIT \<in> t \<longrightarrow> \<not> c_isspace (hd s')" "rule_start t xf s' = Inr (g, pat @ rest)" "rule_end env t xf g (pat @ rest) = Inr (f, pat, rest)"
proof -
  define s' where "s' = (if FILTRULE_WORD_SPLIT \<in> t then dropWhile c_isspace s else s)"
  have "s' \<noteq> []" and "res_bind (rule_start t xf s') (\<lambda>(f, s). res_bind (rule_end env t xf f s) (\<lambda>x. Inr (Some x))) = Inr (Some (f, pat, rest))"
    using assms unfolding parse_rule_tok_def Let_def s'_def [symmetric] by (simp_all split: if_splits)
  moreover from this obtain g q where "rule_start t xf s' = Inr (g, q)" "rule_end env t xf g q = Inr (f, pat, rest)"
    by (auto simp: res_bind_eq_Inr)
  moreover have "length s' \<le> length s" "set s' \<subseteq> set s" "FILTRULE_WORD_SPLIT \<in> t \<longrightarrow> \<not> c_isspace (hd s')"
    using \<open>s' \<noteq> []\<close> hd_dropWhile [of c_isspace s] by (auto simp: s'_def length_dropWhile_le dest: set_dropWhileD)
  ultimately show ?thesis using that rule_end_pattern(1) by blast
qed

lemma parse_rule_tok_flags:
  assumes "parse_rule_tok env t xf s = Inr (Some (f, pat, rest))" and "template_ok t xf"
  shows "parsed_flags f" "pat = [] \<Longrightarrow> FILTRULE_CLEAR_LIST \<notin> f \<Longrightarrow> FILTRULE_CVS_IGNORE \<in> f"
proof -
  obtain s' g where "rule_start t xf s' = Inr (g, pat @ rest)" and e: "rule_end env t xf g (pat @ rest) = Inr (f, pat, rest)"
    using parse_rule_tokE [OF assms(1)] .
  then have "parsed_flags g" using rule_start_parsed assms(2) by blast
  then show "parsed_flags f" using parsed_flags_cong rule_end_flags [OF e] by blast
  show "pat = [] \<Longrightarrow> FILTRULE_CLEAR_LIST \<notin> f \<Longrightarrow> FILTRULE_CVS_IGNORE \<in> f" by (rule rule_end_pattern(3) [OF e])
qed

text \<open>Every rule takes something of the string, so a list of rules ends.\<close>

lemma modifiers_shorter: "modifiers ws side s f = Inr (g, s') \<Longrightarrow> length s' \<le> length s"
  by (induction ws side s f rule: modifiers.induct) (auto split: if_splits option.splits)

lemma rule_strcmp_length: "rule_strcmp s r = Some s' \<Longrightarrow> length s' \<le> length s"
  by (auto simp: rule_strcmp_def Let_def split: if_splits)

lemma rule_char_length: "rule_char s = Some (ch, s') \<Longrightarrow> length s' \<le> length s"
  using rule_strcmp_length by (auto simp: rule_char_def Let_def split: if_splits)

lemma rule_start_shorter:
  assumes "rule_start t xf s = Inr (f, q)" and "s \<noteq> []"
  shows "q = s \<or> length q < length s"
proof (cases "FILTRULE_NO_PREFIXES \<in> t \<or> XFLG_OLD_PREFIXES \<in> xf")
  case True
  then show ?thesis using assms by (auto simp: rule_start_def Let_def split: if_splits)
next
  case False
  then obtain ch s' g side where c: "rule_char s = Some (ch, s')" and k: "rule_kind ch (t \<inter> FILTRULES_FROM_CONTAINER) = Some (g, side)"
    using assms(1) by (auto simp: rule_start_def Let_def split: option.splits)
  then have "q = tl s' \<or> modifiers (FILTRULE_WORD_SPLIT \<in> t) side (tl s') g = Inr (f, q)"
    using assms(1) False by (auto simp: rule_start_def Let_def split: if_splits)
  then have "length q \<le> length (tl s')" using modifiers_shorter by blast
  moreover have "length (tl s') < length s" using rule_char_length [OF c] assms(2) by (cases s; cases s') auto
  ultimately show ?thesis by simp
qed

lemma parse_rule_tok_shorter:
  assumes "parse_rule_tok env t xf s = Inr (Some (f, pat, rest))"
  shows "length rest < length s"
proof -
  obtain s' g where s': "length s' \<le> length s" "set s' \<subseteq> set s" "s' \<noteq> []" "FILTRULE_WORD_SPLIT \<in> t \<longrightarrow> \<not> c_isspace (hd s')"
    and q: "rule_start t xf s' = Inr (g, pat @ rest)" "rule_end env t xf g (pat @ rest) = Inr (f, pat, rest)"
    using parse_rule_tokE [OF assms] .
  show ?thesis
  proof (cases "pat @ rest = s'")
    case True
    then have "pat \<noteq> []" using rule_end_pattern(2) [OF q(2)] s'(3,4) by auto
    then have "0 < length pat" by simp
    then show ?thesis using s'(1) unfolding True [symmetric] length_append by linarith
  next
    case False
    then show ?thesis using rule_start_shorter [OF q(1) s'(3)] s'(1) by simp
  qed
qed

section \<open>A clearing token of a CVS file\<close>

text \<open>
  The manual says that a file read with the C modifier may hold the list-clearing token, and
  parse_rule_tok marks it. The check for trailing characters looks for FILTRULE_NO_PREFIXES in
  the flags of the rule, which do not inherit it from the template, so the token is refused.
\<close>

lemma cvs_clear_refused:
  assumes "{FILTRULE_NO_PREFIXES, FILTRULE_CVS_IGNORE} \<subseteq> t" and "XFLG_OLD_PREFIXES \<notin> xf"
  shows "parse_rule_tok env t xf ''!'' = Inl RERR_SYNTAX"
proof -
  have "\<not> c_isspace (CHR ''!'')" by (simp add: c_isspace_def)
  then show ?thesis using assms
    by (simp add: parse_rule_tok_def rule_start_def rule_end_def Let_def FILTRULES_FROM_CONTAINER_def FILTRULES_SIDES_def)
qed

end
