(* ===== verification/FilterCheck.thy ===== *)
theory FilterCheck
  imports FilterRule
begin

text \<open>
  How a list of filter rules decides: check_filter goes through the list, the lists of its merge
  rules and the CVS list, and the first rule of all of them that matches says whether the name
  is included. For lists as the parser builds them it always returns, and reads no freed rule.
\<close>

section \<open>The first rule that matches\<close>

text \<open>
  The lists as check_filter goes through them. A merge rule in the list of a slot stands for a
  later slot, since its slot was taken while that list was read; the rules for CVS do not merge.
\<close>

definition rule_from :: "filter_state \<Rightarrow> nat \<Rightarrow> filter_rule \<Rightarrow> bool" where
  "rule_from st k r \<longleftrightarrow> (case r of Rule p f n \<Rightarrow> FILTRULE_PERDIR_MERGE \<notin> f | PerDir i \<Rightarrow> k \<le> i \<and> slot st i \<noteq> None)"

definition slots_ok :: "filter_state \<Rightarrow> bool" where
  "slots_ok st \<longleftrightarrow>
     (\<forall>i m. slot st i = Some m \<longrightarrow> FILTRULE_PERDIR_MERGE \<in> mr_rflags m \<and> list_all (rule_from st (Suc i)) (fl_head (mr_list m)))"

definition cvs_ok :: "filter_state \<Rightarrow> bool" where
  "cvs_ok st \<longleftrightarrow> list_all (\<lambda>r. case r of Rule p f n \<Rightarrow> FILTRULE_PERDIR_MERGE \<notin> f \<and> FILTRULE_CVS_IGNORE \<notin> f | PerDir i \<Rightarrow> False)
     (fl_head (cvs_filter_list st))"

text \<open>The rules that count, in the order in which they are tried: merged lists in place of their rule.\<close>

type_synonym flat_rule = "string \<times> rflag set \<times> nat"

definition skipped :: "filter_env \<Rightarrow> rflag set \<Rightarrow> bool" where
  "skipped env f \<longleftrightarrow> fe_ignore_perishable env \<and> FILTRULE_PERISHABLE \<in> f"

fun cvs_rules :: "filter_env \<Rightarrow> filter_rule list \<Rightarrow> flat_rule list" where
  "cvs_rules env [] = []"
| "cvs_rules env (Rule p f n # rs) = (if skipped env f then [] else [(p, f, n)]) @ cvs_rules env rs"
| "cvs_rules env (PerDir i # rs) = cvs_rules env rs"

fun active_rules :: "filter_env \<Rightarrow> filter_state \<Rightarrow> nat \<Rightarrow> filter_rule list \<Rightarrow> flat_rule list" where
  "active_rules env st d [] = []"
| "active_rules env st d (Rule p f n # rs) =
     (if skipped env f then [] else if FILTRULE_CVS_IGNORE \<in> f then cvs_rules env (fl_head (cvs_filter_list st)) else [(p, f, n)])
     @ active_rules env st d rs"
| "active_rules env st 0 (PerDir i # rs) = active_rules env st 0 rs"
| "active_rules env st (Suc d) (PerDir i # rs) =
     (case slot st i of None \<Rightarrow> []
      | Some m \<Rightarrow> if skipped env (mr_rflags m) then [] else active_rules env st d (fl_head (mr_list m)))
     @ active_rules env st (Suc d) rs"

text \<open>All the rules: a list of a slot names later slots only, so as many levels as there are slots are enough.\<close>

definition all_rules :: "filter_env \<Rightarrow> filter_state \<Rightarrow> filter_rule list \<Rightarrow> flat_rule list" where
  "all_rules env st l = active_rules env st (length (mergelist_parents st)) l"

fun decide :: "filter_env \<Rightarrow> string \<Rightarrow> name_flag set \<Rightarrow> flat_rule list \<Rightarrow> int" where
  "decide env name nf [] = 0"
| "decide env name nf ((p, f, n) # rs) =
     (if rule_matches env name p f n nf then if FILTRULE_INCLUDE \<in> f then 1 else - 1 else decide env name nf rs)"

lemma decide_append: "decide env name nf (xs @ ys) = (if decide env name nf xs \<noteq> 0 then decide env name nf xs else decide env name nf ys)"
  by (induction xs rule: decide.induct) auto

lemma decide_find:
  "decide env name nf rs = (case find (\<lambda>(p, f, n). rule_matches env name p f n nf) rs of
     None \<Rightarrow> 0 | Some (p, f, n) \<Rightarrow> if FILTRULE_INCLUDE \<in> f then 1 else - 1)"
  by (induction rs) auto

lemma check_filter_Nil: "check_filter env st name nf [] = Some 0"
  by (subst check_filter.simps) simp

lemma check_filter_cvs:
  assumes "list_all (\<lambda>r. case r of Rule p f n \<Rightarrow> FILTRULE_PERDIR_MERGE \<notin> f \<and> FILTRULE_CVS_IGNORE \<notin> f | PerDir i \<Rightarrow> False) l"
  shows "check_filter env st name nf l = Some (decide env name nf (cvs_rules env l))"
  using assms
proof (induction l)
  case (Cons r l)
  then show ?case by (cases r; subst check_filter.simps) (auto simp: skipped_def)
qed (simp add: check_filter_Nil)

lemma check_filter_levels:
  assumes "slots_ok st" and "cvs_ok st" and "list_all (rule_from st k) l" and "length (mergelist_parents st) \<le> k + d"
  shows "check_filter env st name nf l = Some (decide env name nf (active_rules env st d l))"
  using assms
proof (induction env st d l arbitrary: k rule: active_rules.induct)
  case (1 env st d)
  then show ?case by (simp add: check_filter_Nil)
next
  case (2 env st d p f n rs)
  have "check_filter env st name nf rs = Some (decide env name nf (active_rules env st d rs))"
    using 2(1) [of k] 2(2-5) by simp
  then show ?case using 2(3,4)
    by (subst check_filter.simps) (auto simp: skipped_def rule_from_def decide_append cvs_ok_def check_filter_cvs)
next
  case (3 env st i rs)
  then show ?case by (auto simp: rule_from_def slot_def split: if_splits)
next
  case (4 env st d i rs)
  have rs: "check_filter env st name nf rs = Some (decide env name nf (active_rules env st (Suc d) rs))"
    using 4(2) [of k] 4(3-6) by simp
  obtain m where m: "slot st i = Some m" "k \<le> i" using 4(5) by (auto simp: rule_from_def)
  then have "FILTRULE_PERDIR_MERGE \<in> mr_rflags m" "list_all (rule_from st (Suc i)) (fl_head (mr_list m))"
    using 4(3) by (auto simp: slots_ok_def)
  moreover from this(2) have "check_filter env st name nf (fl_head (mr_list m)) = Some (decide env name nf (active_rules env st d (fl_head (mr_list m))))"
    if "\<not> skipped env (mr_rflags m)" using 4(1) [OF m(1) that, of "Suc i"] 4(3,4,6) m(2) by simp
  ultimately show ?case using rs m(1)
    by (subst check_filter.simps) (auto simp: skipped_def decide_append)
qed

text \<open>C15: The first matching rule decides. On lists as the parser keeps them check_filter always returns, and
  its result is that of the first rule that matches the name among all the rules in force, the
  merged and the CVS ones in their places: 1 for an include, -1 for an exclude, 0 for none. So
  it reads no freed rule and its recursion into merge lists ends.\<close>

theorem check_filter_first:
  assumes "slots_ok st" and "cvs_ok st" and "list_all (rule_from st 0) l"
  shows "check_filter env st name nf l =
    Some (case find (\<lambda>(p, f, n). rule_matches env name p f n nf) (all_rules env st l) of
      None \<Rightarrow> 0 | Some (p, f, n) \<Rightarrow> if FILTRULE_INCLUDE \<in> f then 1 else - 1)"
  unfolding all_rules_def decide_find [symmetric]
  using check_filter_levels [OF assms, of "length (mergelist_parents st)"] by simp

definition sample_fenv :: filter_env where
  "sample_fenv = \<lparr>fe_am_sender = True, fe_protocol = 31, fe_delete_excluded = False, fe_ignore_perishable = False,
     fe_curr_dir = ''/home'', fe_module_dirlen = 0, fe_dirbuf = ''/home/''\<rparr>"

definition sample_fstate :: filter_state where
  "sample_fstate = \<lparr>mergelist_parents = [Some \<lparr>mr_pattern = ''.rules'', mr_rflags = {FILTRULE_MERGE_FILE, FILTRULE_PERDIR_MERGE},
       mr_list = \<lparr>fl_local = [Rule ''*.c'' {FILTRULE_INCLUDE, FILTRULE_WILD} 0], fl_inherited = []\<rparr>\<rparr>],
     cvs_filter_list = empty_list, cvs_initialized = False, saw_xattr_filter = False, filter_stdin = []\<rparr>"

theorem check_filter_first_witness:
  "check_filter sample_fenv sample_fstate ''d/x.c'' {} [PerDir 0, Rule ''d/'' {FILTRULE_DIRECTORY} 1] = Some 1"
proof -
  have "slots_ok sample_fstate"
    unfolding slots_ok_def by (auto simp: slot_def sample_fstate_def fl_head_def rule_from_def split: if_splits)
  moreover have "cvs_ok sample_fstate" "list_all (rule_from sample_fstate 0) [PerDir 0, Rule ''d/'' {FILTRULE_DIRECTORY} 1]"
    by (simp_all add: cvs_ok_def sample_fstate_def empty_list_def fl_head_def rule_from_def slot_def)
  moreover have "all_rules sample_fenv sample_fstate [PerDir 0, Rule ''d/'' {FILTRULE_DIRECTORY} 1] =
      [(''*.c'', {FILTRULE_INCLUDE, FILTRULE_WILD}, 0), (''d/'', {FILTRULE_DIRECTORY}, 1)]"
    by (simp add: all_rules_def sample_fstate_def sample_fenv_def slot_def skipped_def fl_head_def)
  moreover have "rule_matches sample_fenv ''d/x.c'' ''*.c'' {FILTRULE_INCLUDE, FILTRULE_WILD} 0 {}" by code_simp
  ultimately show ?thesis using check_filter_first by simp
qed

end
