(* ===== verification/FilterList.thy ===== *)
theory FilterList
  imports FilterParse FilterCheck CleanName Streams
begin

text \<open>
  Lists of filter rules: reading them from strings and files (parse_filter_str,
  parse_filter_file, get_cvs_excludes), and the two ends of their transfer (send_filter_list,
  recv_filter_list).

  parse_filter_str reads a merge file with parse_filter_file, which calls parse_filter_str for
  its lines. The number of files that can still be opened goes down with every nested file; at
  zero fopen fails, as it does for a file that merges itself without end.
\<close>

section \<open>Reading rules\<close>

text \<open>
  What the code reads from outside: the files by name, the environment, the default list of
  default-cvsignore.h that the build generates, and settings.
\<close>

record filter_io =
  fi_files :: "string \<Rightarrow> string option"
  fi_am_server :: bool
  fi_local_server :: bool
  fi_cvs_exclude :: bool
  fi_eol_nulls :: bool
  fi_sanitize_paths :: bool
  fi_module_dir :: string
  fi_dirbuf_depth :: int
  fi_parent_dirscan :: bool
  fi_daemon_list :: filter_rule_list
  fi_chroot :: bool
  fi_HOME :: "string option"
  fi_CVSIGNORE :: "string option"
  fi_default_cvsignore :: string

definition BIGPATHBUFLEN :: nat where "BIGPATHBUFLEN = 4096 + 1024"

definition collapse_only :: cfn_flags where
  "collapse_only = \<lparr>CFN_KEEP_DOT_DIRS = False, CFN_KEEP_TRAILING_SLASH = False, CFN_DROP_TRAILING_DOT_DIR = False,
     CFN_COLLAPSE_DOT_DOT_DIRS = True, CFN_REFUSE_DOT_DOT_DIRS = False\<rparr>"

definition parse_merge_name :: "filter_env \<Rightarrow> filter_io \<Rightarrow> string \<Rightarrow> nat \<Rightarrow> string option" where
  "parse_merge_name env io merge_file prefix_skip =
     (if \<not> fi_parent_dirscan io \<and> CHR ''/'' \<notin> set merge_file then Some merge_file
      else
        Option.bind
          (if fi_sanitize_paths io then
             map_option (\<lambda>(root, out). root @ out)
               (sanitize_path False False (fi_module_dir io) True merge_file (if prefix_skip \<noteq> 0 then Some ''/'' else None) (fi_dirbuf_depth io))
           else clean_fname collapse_only merge_file)
          (\<lambda>fn.
             if at merge_file 0 = CHR ''/'' then Some fn
             else let dir = drop prefix_skip (fe_dirbuf env) in
               if MAXPATHLEN \<le> length dir + length fn then None else clean_fname collapse_only (dir @ fn)))"

text \<open>The name joined, and its length.\<close>

definition pathjoin :: "nat \<Rightarrow> string \<Rightarrow> string \<Rightarrow> string \<times> nat" where
  "pathjoin destsize p1 p2 =
     (if length p1 < destsize - 1 then
        let d = p1 @ (if p1 = [] \<or> last p1 \<noteq> CHR ''/'' then ''/'' else []) in
        (if length d < destsize - 1 then take (destsize - 1) (d @ p2) else d, length d + length p2)
      else (take (destsize - 1) p1, length p1 + length p2 + 1))"

text \<open>The lines of a file, or its words; one that does not fit the buffer is dropped, and a line ends at a NUL.\<close>

fun split_lines :: "bool \<Rightarrow> bool \<Rightarrow> string \<Rightarrow> string list" where
  "split_lines ws eol_nulls [] = [[]]"
| "split_lines ws eol_nulls (c # s) =
     (if ws \<and> c_isspace c \<or> (if eol_nulls then c = NUL else c = CHR 0x0A \<or> c = CHR 0x0D) then [] # split_lines ws eol_nulls s
      else case split_lines ws eol_nulls s of [] \<Rightarrow> [[c]] | l # ls \<Rightarrow> (c # l) # ls)"

definition line_text :: "string \<Rightarrow> string" where
  "line_text l = (if BIGPATHBUFLEN - 1 < length l then [] else takeWhile (\<lambda>c. c \<noteq> NUL) l)"

definition is_rule_line :: "bool \<Rightarrow> string \<Rightarrow> bool" where
  "is_rule_line ws l \<longleftrightarrow> l \<noteq> [] \<and> (ws \<or> hd l \<noteq> CHR '';'' \<and> hd l \<noteq> CHR ''#'')"

text \<open>The text of a filter file, with the rest of the standard input; None when it cannot be opened.\<close>

definition filter_open :: "filter_env \<Rightarrow> filter_io \<Rightarrow> string \<Rightarrow> filter_state \<Rightarrow> (string \<times> filter_state) option" where
  "filter_open env io fname st =
     (if fname = ''-'' \<and> \<not> fi_am_server io then Some (filter_stdin st, st\<lparr>filter_stdin := []\<rparr>)
      else if fl_head (fi_daemon_list io) \<noteq> [] then
        case clean_fname collapse_only (take (BIGPATHBUFLEN - 1) fname) of None \<Rightarrow> None
        | Some line \<Rightarrow>
            (case check_filter env st line {} (fl_head (fi_daemon_list io)) of
               Some rc \<Rightarrow> if rc < 0 then None else map_option (\<lambda>t. (t, st)) (fi_files io line)
             | None \<Rightarrow> None)
      else map_option (\<lambda>t. (t, st)) (fi_files io fname))"

type_synonym filter_op = "filter_rule_list \<Rightarrow> filter_state \<Rightarrow> (filter_rule_list \<times> filter_state) result"

text \<open>
  What parse_filter_str does with a rule: merge is parse_filter_file for a merge file, cvs is
  get_cvs_excludes.
\<close>

definition merge_rule_added :: "(rflag set \<Rightarrow> string \<Rightarrow> filter_op) \<Rightarrow> filter_env \<Rightarrow> filter_io \<Rightarrow> xflag set \<Rightarrow> rflag set \<Rightarrow> string \<Rightarrow> filter_op" where
  "merge_rule_added merge env io xf f pat l st =
     (let pat = (if pat = [] then ''.cvsignore'' else pat);
          (l, st) = (if FILTRULE_EXCLUDE_SELF \<in> f then add_rule env {} (base_name pat) {} l st else (l, st));
          g = f - {FILTRULE_EXCLUDE_SELF} in
      if FILTRULE_PERDIR_MERGE \<in> f then
        if fi_parent_dirscan io then
          (case parse_merge_name env io pat (fe_module_dirlen env) of
             Some p \<Rightarrow> Inr (add_rule env {} p g l st)
           | None \<Rightarrow> Inr (l, st))
        else Inr (add_rule env xf pat g l st)
      else
        (case parse_merge_name env io pat 0 of
           Some p \<Rightarrow> merge g p l st
         | None \<Rightarrow> Inr (l, st)))"

definition rule_added :: "(rflag set \<Rightarrow> string \<Rightarrow> filter_op) \<Rightarrow> (rflag set \<Rightarrow> filter_state \<Rightarrow> filter_state result) \<Rightarrow>
    filter_env \<Rightarrow> filter_io \<Rightarrow> xflag set \<Rightarrow> rflag set \<Rightarrow> string \<Rightarrow> filter_op" where
  "rule_added merge cvs env io xf f pat l st =
     (if MAXPATHLEN \<le> length pat then Inr (l, st)
      else if FILTRULE_CLEAR_LIST \<in> f then
        (let (l, st) = pop_filter_list l st in Inr (l\<lparr>fl_inherited := []\<rparr>, st))
      else if FILTRULE_MERGE_FILE \<in> f then merge_rule_added merge env io xf f pat l st
      else
        let (l, st) = add_rule env xf pat f l st in
        if FILTRULE_CVS_IGNORE \<in> f then res_bind (cvs f st) (\<lambda>st. Inr (l, st)) else Inr (l, st))"

text \<open>parse_rule_tok sets saw_xattr_filter for the modifier x, which alone gives FILTRULE_XATTR.\<close>

function parse_rules_with :: "(rflag set \<Rightarrow> string \<Rightarrow> filter_op) \<Rightarrow> (rflag set \<Rightarrow> filter_state \<Rightarrow> filter_state result) \<Rightarrow>
    filter_env \<Rightarrow> filter_io \<Rightarrow> rflag set \<Rightarrow> xflag set \<Rightarrow> string \<Rightarrow> filter_op" where
  "parse_rules_with merge cvs env io template xf rulestr l st =
     (case parse_rule_tok env template xf rulestr of
        Inl e \<Rightarrow> Inl e
      | Inr None \<Rightarrow> Inr (l, st)
      | Inr (Some (f, pat, rest)) \<Rightarrow>
          let st = (if FILTRULE_XATTR \<in> f then st\<lparr>saw_xattr_filter := True\<rparr> else st) in
          (case rule_added merge cvs env io xf f pat l st of
             Inl e \<Rightarrow> Inl e
           | Inr (l, st) \<Rightarrow> parse_rules_with merge cvs env io template xf rest l st))"
  by pat_completeness auto
termination
  by (relation "measure (\<lambda>(m, c, e, i, t, x, s, l, st). length s)") (auto dest: parse_rule_tok_shorter)

declare parse_rules_with.simps [simp del]

text \<open>
  get_cvs_excludes, with parse_filter_file for its files. The flag initialized is set before
  the lists are read, so a nested call would return at once.
\<close>

definition cvs_excludes_with :: "(rflag set \<Rightarrow> xflag set \<Rightarrow> string \<Rightarrow> filter_op) \<Rightarrow> filter_env \<Rightarrow> filter_io \<Rightarrow> rflag set \<Rightarrow> filter_state \<Rightarrow> filter_state result" where
  "cvs_excludes_with parse_file env io f st =
     (if cvs_initialized st then Inr st
      else
        let parse_str = (\<lambda>t. parse_rules_with (\<lambda>f. parse_file f {XFLG_FATAL_ERRORS}) (\<lambda>f st. Inr st) env io t {}) in
        res_bind (parse_str (f \<union> (if 30 \<le> fe_protocol env then {FILTRULE_PERISHABLE} else {})) (fi_default_cvsignore io)
          (cvs_filter_list st) (st\<lparr>cvs_initialized := True\<rparr>)) (\<lambda>(l, st).
        res_bind
          (case if fi_chroot io then Some ''/'' else fi_HOME io of None \<Rightarrow> Inr (l, st)
           | Some p \<Rightarrow> let (fname, len) = pathjoin MAXPATHLEN p ''.cvsignore'' in
               if len < MAXPATHLEN then parse_file f {} fname l st else Inr (l, st)) (\<lambda>(l, st).
        res_bind (case fi_CVSIGNORE io of None \<Rightarrow> Inr (l, st) | Some s \<Rightarrow> parse_str f s l st) (\<lambda>(l, st).
        Inr (st\<lparr>cvs_filter_list := l\<rparr>)))))"

fun parse_lines :: "(string \<Rightarrow> filter_op) \<Rightarrow> bool \<Rightarrow> string list \<Rightarrow> filter_op" where
  "parse_lines parse_str ws [] l st = Inr (l, st)"
| "parse_lines parse_str ws (line # lines) l st =
     (let text = line_text line in
      if is_rule_line ws text then
        res_bind (parse_str text l st) (\<lambda>(l, st). parse_lines parse_str ws lines l st)
      else parse_lines parse_str ws lines l st)"

text \<open>The first argument is how many files can still be open, the standard input counted.\<close>

primrec parse_filter_file :: "nat \<Rightarrow> filter_env \<Rightarrow> filter_io \<Rightarrow> rflag set \<Rightarrow> xflag set \<Rightarrow> string \<Rightarrow> filter_op" where
  "parse_filter_file 0 = (\<lambda>env io template xf fname l st.
     if fname = [] then Inr (l, st) else if XFLG_FATAL_ERRORS \<in> xf then Inl RERR_FILEIO else Inr (l, st))"
| "parse_filter_file (Suc n) = (\<lambda>env io template xf fname l st.
     if fname = [] then Inr (l, st)
     else case filter_open env io fname st of
       None \<Rightarrow> if XFLG_FATAL_ERRORS \<in> xf then Inl RERR_FILEIO else Inr (l, st)
     | Some (text, st) \<Rightarrow>
         parse_lines
           (parse_rules_with (\<lambda>f. parse_filter_file n env io f {XFLG_FATAL_ERRORS})
             (cvs_excludes_with (parse_filter_file n env io) env io) env io template xf)
           (FILTRULE_WORD_SPLIT \<in> template)
           (split_lines (FILTRULE_WORD_SPLIT \<in> template) (fi_eol_nulls io) text) l st)"

definition get_cvs_excludes :: "nat \<Rightarrow> filter_env \<Rightarrow> filter_io \<Rightarrow> rflag set \<Rightarrow> filter_state \<Rightarrow> filter_state result" where
  "get_cvs_excludes n env io = cvs_excludes_with (parse_filter_file n env io) env io"

definition parse_filter_str :: "nat \<Rightarrow> filter_env \<Rightarrow> filter_io \<Rightarrow> rflag set \<Rightarrow> xflag set \<Rightarrow> string \<Rightarrow> filter_op" where
  "parse_filter_str n env io =
     parse_rules_with (\<lambda>f. parse_filter_file n env io f {XFLG_FATAL_ERRORS}) (get_cvs_excludes n env io) env io"

section \<open>Sending and receiving the list\<close>

text \<open>Positive: not sent; negative: not kept; zero: sent and kept.\<close>

definition elide :: "filter_env \<Rightarrow> rflag set \<Rightarrow> int" where
  "elide env f =
     (let us = (if fe_am_sender env then 1 else - 1);
          e = (if FILTRULE_SENDER_SIDE \<in> f then us else 0) in
      if FILTRULE_RECEIVER_SIDE \<in> f then if e \<noteq> 0 then 0 else - us
      else if fe_delete_excluded env \<and> e = 0 \<and> (FILTRULE_PERDIR_MERGE \<notin> f \<or> FILTRULE_NO_PREFIXES \<in> f) then us
      else e)"

definition rule_bytes :: "rflag set \<Rightarrow> string \<Rightarrow> string \<Rightarrow> byte list" where
  "rule_bytes f pre p =
     (let text = pre @ p @ (if FILTRULE_DIRECTORY \<in> f then ''/'' else []) in
      if text = [] then [] else write_int (word_of_nat (length text)) @ to_bytes text)"

text \<open>
  The loop of send_rules: what is written, the rules that are kept, and the state. cvs sends the
  CVS list; out says that there is a connection to write to. A freed rule crashes the program.
\<close>

fun send_loop :: "(bool \<Rightarrow> filter_state \<Rightarrow> (byte list \<times> filter_state) result) \<Rightarrow> filter_env \<Rightarrow> bool \<Rightarrow> filter_rule list \<Rightarrow> filter_state \<Rightarrow>
    (byte list \<times> filter_rule list \<times> filter_state) result" where
  "send_loop cvs env out [] st = Inr ([], [], st)"
| "send_loop cvs env out (r # rs) st =
     (case deref st r of None \<Rightarrow> Inl RERR_CRASHED
      | Some (p, f, u) \<Rightarrow>
          let keep = (if elide env f < 0 then [] else [r]);
              here = (fe_am_sender env \<or> fe_protocol env < 29);
              is_cvs = (FILTRULE_CVS_IGNORE \<in> f \<and> FILTRULE_MERGE_FILE \<notin> f) in
          res_bind
            (if elide env f > 0 then Inr ([], st)
             else res_bind (if is_cvs then cvs (out \<and> here) st else Inr ([], st)) (\<lambda>(bs, st).
               if is_cvs \<and> here then Inr (bs, st)
               else case get_rule_prefix env f p True of None \<Rightarrow> Inl RERR_PROTOCOL
                 | Some pre \<Rightarrow> Inr (bs @ (if out then rule_bytes f pre p else []), st))) (\<lambda>(bs, st).
          res_bind (send_loop cvs env out rs st) (\<lambda>(bs', kept, st).
          Inr (bs @ bs', keep @ kept, st))))"

text \<open>
  send_rules on the CVS list, which has no CVS rule of its own: with one the recursion would
  not end, and the program crash.
\<close>

definition send_cvs_rules :: "filter_env \<Rightarrow> bool \<Rightarrow> filter_state \<Rightarrow> (byte list \<times> filter_state) result" where
  "send_cvs_rules env out st =
     res_bind (send_loop (\<lambda>out st. Inl RERR_CRASHED) env out (fl_head (cvs_filter_list st)) st) (\<lambda>(bs, kept, st).
       Inr (bs, st\<lparr>cvs_filter_list := \<lparr>fl_local = kept, fl_inherited = []\<rparr>\<rparr>))"

definition send_rules :: "filter_env \<Rightarrow> bool \<Rightarrow> filter_rule_list \<Rightarrow> filter_state \<Rightarrow> (byte list \<times> filter_rule_list \<times> filter_state) result" where
  "send_rules env out l st =
     res_bind (send_loop (send_cvs_rules env) env out (fl_head l) st) (\<lambda>(bs, kept, st).
       Inr (bs, \<lparr>fl_local = kept, fl_inherited = []\<rparr>, st))"

record filter_opts =
  fo_prune_empty_dirs :: bool
  fo_delete_mode :: bool

definition receiver_wants_list :: "filter_env \<Rightarrow> filter_opts \<Rightarrow> bool" where
  "receiver_wants_list env opts \<longleftrightarrow>
     fo_prune_empty_dirs opts \<or> fo_delete_mode opts \<and> (\<not> fe_delete_excluded env \<or> 29 \<le> fe_protocol env)"

definition add_str :: "nat \<Rightarrow> filter_env \<Rightarrow> filter_io \<Rightarrow> bool \<Rightarrow> string \<Rightarrow> filter_op" where
  "add_str n env io b s l st = (if b then parse_filter_str n env io {} {} s l st else Inr (l, st))"

definition send_filter_list :: "nat \<Rightarrow> filter_env \<Rightarrow> filter_io \<Rightarrow> filter_opts \<Rightarrow> filter_rule_list \<Rightarrow> filter_state \<Rightarrow>
    (byte list \<times> filter_rule_list \<times> filter_state) result" where
  "send_filter_list n env io opts l st =
     (let out = (\<not> (fi_local_server io \<or> fe_am_sender env \<and> \<not> receiver_wants_list env opts));
          cvs = fi_cvs_exclude io; sender = fe_am_sender env; pv = fe_protocol env in
      res_bind (add_str n env io (cvs \<and> sender \<and> 29 \<le> pv) '':C'' l st) (\<lambda>(l, st).
      res_bind (add_str n env io (cvs \<and> sender) ''-C'' l st) (\<lambda>(l, st).
      res_bind (send_rules env out l st) (\<lambda>(bs, l, st).
      res_bind (add_str n env io (cvs \<and> (\<not> sender \<or> pv < 29)) '':C'' l st) (\<lambda>(l, st).
      res_bind (add_str n env io (cvs \<and> \<not> sender) ''-C'' l st) (\<lambda>(l, st).
      Inr (bs @ (if out then write_int 0 else []), l, st)))))))"

function recv_rules :: "nat \<Rightarrow> filter_env \<Rightarrow> filter_io \<Rightarrow> xflag set \<Rightarrow> byte list \<Rightarrow> filter_rule_list \<Rightarrow> filter_state \<Rightarrow>
    (filter_rule_list \<times> filter_state \<times> byte list) result" where
  "recv_rules n env io xf s l st =
     (case read_int s of
        Inl e \<Rightarrow> Inl e
      | Inr (len, s) \<Rightarrow>
          if len = 0 then Inr (l, st, s)
          else if BIGPATHBUFLEN \<le> unat len then Inl RERR_MALLOC
          else case read_sbuf (unat len) s of
            Inl e \<Rightarrow> Inl e
          | Inr (line, s) \<Rightarrow>
              (case parse_filter_str n env io {} xf line l st of
                 Inl e \<Rightarrow> Inl e
               | Inr (l, st) \<Rightarrow> recv_rules n env io xf s l st))"
  by pat_completeness auto
termination
proof (relation "measure (\<lambda>(n, e, i, x, s, l, st). length s)", simp)
  fix n env io xf s l st x len s1 y line s2 z l' st'
  assume "read_int s = Inr x" "(len, s1) = x" "read_sbuf (unat len) s1 = Inr y" "(line, s2) = y"
  then have "length s1 < length s" "length s2 \<le> length s1"
    using read_sbuf_leaves [of s1 "length s1" "unat len"]
    by (auto simp: leaves_def read_int_def read_buf_def split: if_splits)
  then show "((n, env, io, xf, s2, l', st'), (n, env, io, xf, s, l, st)) \<in> measure (\<lambda>(n, e, i, x, s, l, st). length s)" by simp
qed

declare recv_rules.simps [simp del]

definition recv_filter_list :: "nat \<Rightarrow> filter_env \<Rightarrow> filter_io \<Rightarrow> filter_opts \<Rightarrow> byte list \<Rightarrow> filter_rule_list \<Rightarrow> filter_state \<Rightarrow>
    (filter_rule_list \<times> filter_state \<times> byte list) result" where
  "recv_filter_list n env io opts s l st =
     (let loc = fi_local_server io; sender = fe_am_sender env; pv = fe_protocol env; cvs = fi_cvs_exclude io in
      res_bind (if \<not> loc \<and> (sender \<or> receiver_wants_list env opts)
          then recv_rules n env io (if 29 \<le> pv then {} else {XFLG_OLD_PREFIXES}) s l st else Inr (l, st, s)) (\<lambda>(l, st, s).
      res_bind (add_str n env io (cvs \<and> (loc \<or> sender \<or> pv < 29)) '':C'' l st) (\<lambda>(l, st).
      res_bind (add_str n env io (cvs \<and> (loc \<or> sender)) ''-C'' l st) (\<lambda>(l, st).
      if loc then res_bind (send_rules env False l st) (\<lambda>(bs, l, st). Inr (l, st, s)) else Inr (l, st, s)))))"

end
