(* ===== verification/FilterInv.thy ===== *)
theory FilterInv
  imports FilterList
begin

text \<open>
  What the parser keeps of the filter list: every rule is stored as the wire format can carry
  it, every per-directory merge rule has a live slot of its own, and no two active merge files
  have the same base name. The loop of parse_filter_str is treated once, in a locale, for the
  filter list and for the CVS list.
\<close>

section \<open>Stored rules\<close>

definition stored :: "string \<Rightarrow> rflag set \<Rightarrow> nat \<Rightarrow> bool" where
  "stored p f n \<longleftrightarrow> pattern_flags_ok p f n \<and> wire_flags f \<and>
     (if FILTRULE_DIRECTORY \<in> f then p \<noteq> [] \<and> length p + 1 < MAXPATHLEN
      else \<not> (1 < length p \<and> last p = CHR ''/'') \<and> length p < MAXPATHLEN) \<and> NUL \<notin> set p"

definition plain_xflags :: "xflag set \<Rightarrow> bool" where
  "plain_xflags xf \<longleftrightarrow> XFLG_ANCHORED2ABS \<notin> xf \<and> XFLG_ABS_IF_SLASH \<notin> xf \<and> XFLG_DIR2WILD3 \<notin> xf"

text \<open>The rules that parse_filter_str adds.\<close>

definition addable :: "xflag set \<Rightarrow> rflag set \<Rightarrow> string \<Rightarrow> bool" where
  "addable xf f pat \<longleftrightarrow> plain_xflags xf \<and> parsed_flags f \<and> FILTRULE_CLEAR_LIST \<notin> f \<and> FILTRULE_EXCLUDE_SELF \<notin> f \<and>
     (FILTRULE_MERGE_FILE \<in> f \<longleftrightarrow> FILTRULE_PERDIR_MERGE \<in> f) \<and> length pat < MAXPATHLEN \<and> NUL \<notin> set pat"

lemma build_rule_plain:
  assumes "plain_xflags xf"
  shows "build_rule env xf pat f =
    (if 1 < length pat \<and> last pat = CHR ''/'' then (butlast pat, insert FILTRULE_DIRECTORY f \<union> wild_flags (butlast pat), c_slash (butlast pat))
     else (pat, f \<union> wild_flags pat, c_slash pat))"
  using assms by (simp add: build_rule_def Let_def plain_xflags_def)

lemma wire_flags_cong:
  assumes "\<And>x. x \<notin> WILD_FLAGS \<Longrightarrow> x \<noteq> FILTRULE_DIRECTORY \<Longrightarrow> x \<in> f \<longleftrightarrow> x \<in> g"
  shows "wire_flags f \<longleftrightarrow> wire_flags g"
  unfolding wire_flags_def by (simp add: assms WILD_FLAGS_def)

lemma addable_wire: "addable xf f pat \<Longrightarrow> wire_flags f"
  unfolding addable_def parsed_flags_def wire_flags_def by auto

lemma build_rule_stored:
  assumes "addable xf f pat" and "build_rule env xf pat f = (p, g, n)"
  shows "stored p g n" "FILTRULE_PERDIR_MERGE \<in> g \<longleftrightarrow> FILTRULE_PERDIR_MERGE \<in> f" "FILTRULE_CVS_IGNORE \<in> g \<longleftrightarrow> FILTRULE_CVS_IGNORE \<in> f"
proof -
  have x: "plain_xflags xf" and f: "f \<inter> WILD_FLAGS = {}" "FILTRULE_DIRECTORY \<notin> f" and pat: "length pat < MAXPATHLEN" "NUL \<notin> set pat"
    using assms(1) by (auto simp: addable_def parsed_flags_def)
  have b: "(p = butlast pat \<and> g = insert FILTRULE_DIRECTORY f \<union> wild_flags p \<and> 1 < length pat \<and> last pat = CHR ''/'') \<or>
      (p = pat \<and> g = f \<union> wild_flags p \<and> \<not> (1 < length pat \<and> last pat = CHR ''/''))"
    using assms(2) unfolding build_rule_plain [OF x] by (auto split: if_splits)
  have same: "x \<in> g \<longleftrightarrow> x \<in> f" if "x \<notin> WILD_FLAGS" "x \<noteq> FILTRULE_DIRECTORY" for x
    using b that wild_flags_sub [of p] by auto
  then show "FILTRULE_PERDIR_MERGE \<in> g \<longleftrightarrow> FILTRULE_PERDIR_MERGE \<in> f" "FILTRULE_CVS_IGNORE \<in> g \<longleftrightarrow> FILTRULE_CVS_IGNORE \<in> f"
    by (simp_all add: WILD_FLAGS_def)
  have "wire_flags g" using addable_wire [OF assms(1)] wire_flags_cong same by blast
  moreover have "pattern_flags_ok p g n" using build_rule_flags_ok [OF assms(2) f(1)] .
  moreover have "NUL \<notin> set p" using b pat(2) in_set_butlastD by fastforce
  moreover have "FILTRULE_DIRECTORY \<notin> wild_flags p" using wild_flags_sub [of p] by (auto simp: WILD_FLAGS_def)
  then have "if FILTRULE_DIRECTORY \<in> g then p \<noteq> [] \<and> length p + 1 < MAXPATHLEN else \<not> (1 < length p \<and> last p = CHR ''/'') \<and> length p < MAXPATHLEN"
    using b f(2) pat(1) by (cases pat) auto
  ultimately show "stored p g n" by (simp add: stored_def)
qed

section \<open>Where the pattern comes from\<close>

lemma modifiers_suffix: "modifiers ws side s f = Inr (g, s') \<Longrightarrow> set s' \<subseteq> set s"
  by (induction ws side s f rule: modifiers.induct) (auto split: if_splits option.splits)

lemma rule_strcmp_suffix: "rule_strcmp s r = Some s' \<Longrightarrow> set s' \<subseteq> set s"
  using set_drop_subset by (fastforce simp: rule_strcmp_def Let_def split: if_splits)

lemma set_tl: "set (tl s) \<subseteq> set s"
  by (cases s) auto

lemma rule_char_suffix: "rule_char s = Some (ch, s') \<Longrightarrow> set s' \<subseteq> set s"
  using rule_strcmp_suffix [of s] set_tl [of s] by (auto simp: rule_char_def Let_def split: if_splits)

lemma rule_start_suffix:
  assumes "rule_start t xf s = Inr (f, q)"
  shows "set q \<subseteq> set s"
proof (cases "FILTRULE_NO_PREFIXES \<in> t \<or> XFLG_OLD_PREFIXES \<in> xf")
  case True
  then have "q = s \<or> q = drop 2 s" using assms by (simp add: rule_start_def Let_def split: if_splits)
  then show ?thesis using set_drop_subset [of 2 s] by auto
next
  case False
  then obtain ch s' g side where c: "rule_char s = Some (ch, s')" and k: "rule_kind ch (t \<inter> FILTRULES_FROM_CONTAINER) = Some (g, side)"
    using assms(1) by (auto simp: rule_start_def Let_def split: option.splits)
  then have "q = tl s' \<or> modifiers (FILTRULE_WORD_SPLIT \<in> t) side (tl s') g = Inr (f, q)"
    using assms(1) False by (auto simp: rule_start_def Let_def split: if_splits)
  then have "set q \<subseteq> set (tl s')" using modifiers_suffix by blast
  then show ?thesis using rule_char_suffix [OF c] set_tl [of s'] by blast
qed

lemma parse_rule_tok_suffix:
  assumes "parse_rule_tok env t xf s = Inr (Some (f, pat, rest))"
  shows "set pat \<subseteq> set s" "set rest \<subseteq> set s"
proof -
  obtain s' g where "set s' \<subseteq> set s" "rule_start t xf s' = Inr (g, pat @ rest)" using parse_rule_tokE [OF assms] .
  then have "set (pat @ rest) \<subseteq> set s" using rule_start_suffix by blast
  then show "set pat \<subseteq> set s" "set rest \<subseteq> set s" by simp_all
qed

section \<open>The loop of the parser\<close>

text \<open>
  A list that is read rule by rule: keeps is kept by adding a rule of ok and by emptying the list,
  tmpl are the templates that may be used, cvs those of its CVS rules.
\<close>

definition merge_keeps :: "(filter_rule_list \<Rightarrow> filter_state \<Rightarrow> bool) \<Rightarrow> (rflag set \<Rightarrow> xflag set \<Rightarrow> bool) \<Rightarrow> (rflag set \<Rightarrow> string \<Rightarrow> filter_op) \<Rightarrow> bool" where
  "merge_keeps keeps tmpl merge \<longleftrightarrow> (\<forall>f p l st l' st'. tmpl f {XFLG_FATAL_ERRORS} \<and> keeps l st \<and> merge f p l st = Inr (l', st') \<longrightarrow> keeps l' st')"

definition cvs_keeps :: "(filter_rule_list \<Rightarrow> filter_state \<Rightarrow> bool) \<Rightarrow> (rflag set \<Rightarrow> bool) \<Rightarrow> (rflag set \<Rightarrow> filter_state \<Rightarrow> filter_state result) \<Rightarrow> bool" where
  "cvs_keeps keeps cvs_tmpl cvs \<longleftrightarrow> (\<forall>f l st st'. cvs_tmpl f \<and> keeps l st \<and> cvs f st = Inr st' \<longrightarrow> keeps l st')"

locale filter_reader =
  fixes env :: filter_env
    and keeps :: "filter_rule_list \<Rightarrow> filter_state \<Rightarrow> bool"
    and ok :: "xflag set \<Rightarrow> rflag set \<Rightarrow> string \<Rightarrow> bool"
    and tmpl :: "rflag set \<Rightarrow> xflag set \<Rightarrow> bool"
    and cvs_tmpl :: "rflag set \<Rightarrow> bool"
  assumes add_keeps: "keeps l st \<Longrightarrow> ok xf f pat \<Longrightarrow> add_rule env xf pat f l st = (l', st') \<Longrightarrow> keeps l' st'"
    and clear_keeps: "keeps l st \<Longrightarrow> pop_filter_list l st = (l', st') \<Longrightarrow> keeps (l'\<lparr>fl_inherited := []\<rparr>) st'"
    and saw_keeps: "keeps l st \<Longrightarrow> keeps l (st\<lparr>saw_xattr_filter := b\<rparr>)"
    and stdin_keeps: "keeps l st \<Longrightarrow> keeps l (st\<lparr>filter_stdin := s\<rparr>)"
    and rule_ok: "tmpl t xf \<Longrightarrow> NUL \<notin> set s \<Longrightarrow> parse_rule_tok env t xf s = Inr (Some (f, pat, rest)) \<Longrightarrow>
      length pat < MAXPATHLEN \<Longrightarrow> FILTRULE_CLEAR_LIST \<notin> f \<Longrightarrow> FILTRULE_MERGE_FILE \<notin> f \<Longrightarrow>
      ok xf f pat \<and> (FILTRULE_CVS_IGNORE \<in> f \<longrightarrow> cvs_tmpl f)"
    and merge_ok: "tmpl t xf \<Longrightarrow> NUL \<notin> set s \<Longrightarrow> parse_rule_tok env t xf s = Inr (Some (f, pat, rest)) \<Longrightarrow>
      length pat < MAXPATHLEN \<Longrightarrow> FILTRULE_CLEAR_LIST \<notin> f \<Longrightarrow> FILTRULE_MERGE_FILE \<in> f \<Longrightarrow> q = (if pat = [] then ''.cvsignore'' else pat) \<Longrightarrow>
      ok {} {} (base_name q) \<and>
      (if FILTRULE_PERDIR_MERGE \<in> f then ok xf (f - {FILTRULE_EXCLUDE_SELF}) q else tmpl (f - {FILTRULE_EXCLUDE_SELF}) {XFLG_FATAL_ERRORS})"
begin

lemma merge_rule_keeps:
  assumes "\<not> fi_parent_dirscan io" and "tmpl t xf" and "NUL \<notin> set s" and "parse_rule_tok env t xf s = Inr (Some (f, pat, rest))"
    and "length pat < MAXPATHLEN" and "FILTRULE_CLEAR_LIST \<notin> f" and "FILTRULE_MERGE_FILE \<in> f"
    and merge: "merge_keeps keeps tmpl merge"
    and "keeps l st" and r: "merge_rule_added merge env io xf f pat l st = Inr (l', st')"
  shows "keeps l' st'"
proof -
  define q where "q = (if pat = [] then ''.cvsignore'' else pat)"
  note M = merge_ok [OF assms(2-7) q_def]
  obtain l1 st1 where a: "(if FILTRULE_EXCLUDE_SELF \<in> f then add_rule env {} (base_name q) {} l st else (l, st)) = (l1, st1)"
    by fastforce
  have i: "keeps l1 st1" using a assms(9) M add_keeps by (auto split: if_splits)
  have r': "(if FILTRULE_PERDIR_MERGE \<in> f then Inr (add_rule env xf q (f - {FILTRULE_EXCLUDE_SELF}) l1 st1)
      else case parse_merge_name env io q 0 of Some p \<Rightarrow> merge (f - {FILTRULE_EXCLUDE_SELF}) p l1 st1 | None \<Rightarrow> Inr (l1, st1)) = Inr (l', st')"
    using r assms(1) unfolding merge_rule_added_def Let_def q_def [symmetric] a by (auto split: if_splits)
  show ?thesis
  proof (cases "FILTRULE_PERDIR_MERGE \<in> f")
    case True
    then have "ok xf (f - {FILTRULE_EXCLUDE_SELF}) q" using M by simp
    then show ?thesis using r' True add_keeps [OF i] by simp
  next
    case False
    then have "tmpl (f - {FILTRULE_EXCLUDE_SELF}) {XFLG_FATAL_ERRORS}" using M by simp
    then show ?thesis using r' False i merge unfolding merge_keeps_def by (auto split: option.splits)
  qed
qed

lemma rule_keeps:
  assumes "\<not> fi_parent_dirscan io" and "tmpl t xf" and "NUL \<notin> set s" and "parse_rule_tok env t xf s = Inr (Some (f, pat, rest))"
    and merge: "merge_keeps keeps tmpl merge"
    and cvs: "cvs_keeps keeps cvs_tmpl cvs"
    and "keeps l st" and r: "rule_added merge cvs env io xf f pat l st = Inr (l', st')"
  shows "keeps l' st'"
proof -
  consider (long) "MAXPATHLEN \<le> length pat" | (clear) "length pat < MAXPATHLEN" "FILTRULE_CLEAR_LIST \<in> f"
    | (merged) "length pat < MAXPATHLEN" "FILTRULE_CLEAR_LIST \<notin> f" "FILTRULE_MERGE_FILE \<in> f"
    | (rule) "length pat < MAXPATHLEN" "FILTRULE_CLEAR_LIST \<notin> f" "FILTRULE_MERGE_FILE \<notin> f" by fastforce
  then show ?thesis
  proof cases
    case long
    then show ?thesis using r assms(7) by (simp add: rule_added_def)
  next
    case clear
    obtain l1 st1 where p: "pop_filter_list l st = (l1, st1)" by fastforce
    then show ?thesis using r clear clear_keeps [OF assms(7) p] by (simp add: rule_added_def)
  next
    case merged
    then have "merge_rule_added merge env io xf f pat l st = Inr (l', st')" using r by (simp add: rule_added_def)
    then show ?thesis using merge_rule_keeps [OF assms(1-4) merged merge assms(7)] by blast
  next
    case rule
    note R = rule_ok [OF assms(2-4) rule]
    obtain l1 st1 where p: "add_rule env xf pat f l st = (l1, st1)" by fastforce
    then have "keeps l1 st1" using add_keeps assms(7) R by blast
    then show ?thesis using r rule p R cvs unfolding cvs_keeps_def by (auto simp: rule_added_def res_bind_eq_Inr split: if_splits)
  qed
qed

lemma parse_rules_keeps:
  assumes "\<not> fi_parent_dirscan io" and "tmpl t xf"
    and "merge_keeps keeps tmpl merge"
    and "cvs_keeps keeps cvs_tmpl cvs"
    and "NUL \<notin> set s" and "keeps l st" and "parse_rules_with merge cvs env io t xf s l st = Inr (l', st')"
  shows "keeps l' st'"
  using assms(5-7)
proof (induction "length s" arbitrary: s l st rule: less_induct)
  case less
  show ?case
  proof (cases "parse_rule_tok env t xf s")
    case (Inr x)
    show ?thesis
    proof (cases x)
      case None
      then show ?thesis using less.prems Inr by (simp add: parse_rules_with.simps)
    next
      case (Some y)
      obtain f pat rest where y: "y = (f, pat, rest)" by (cases y)
      define st0 where "st0 = (if FILTRULE_XATTR \<in> f then st\<lparr>saw_xattr_filter := True\<rparr> else st)"
      obtain l1 st1 where a: "rule_added merge cvs env io xf f pat l st0 = Inr (l1, st1)"
        and r: "parse_rules_with merge cvs env io t xf rest l1 st1 = Inr (l', st')"
        using less.prems(3) Inr Some y unfolding parse_rules_with.simps [of merge cvs env io t xf s]
        by (simp add: Let_def st0_def [symmetric] split: sum.splits prod.splits)
      have tok: "parse_rule_tok env t xf s = Inr (Some (f, pat, rest))" using Inr Some y by simp
      have "keeps l st0" using less.prems(2) saw_keeps by (simp add: st0_def)
      then have "keeps l1 st1" using rule_keeps [OF assms(1,2) less.prems(1) tok assms(3,4) _ a] by blast
      moreover have "NUL \<notin> set rest" using parse_rule_tok_suffix(2) [OF tok] less.prems(1) by blast
      ultimately show ?thesis using less.hyps [OF parse_rule_tok_shorter [OF tok] _ _ r] by blast
    qed
  qed (use less.prems in \<open>simp add: parse_rules_with.simps\<close>)
qed

lemma parse_lines_keeps:
  assumes "\<And>s l st l' st'. NUL \<notin> set s \<Longrightarrow> keeps l st \<Longrightarrow> parse_str s l st = Inr (l', st') \<Longrightarrow> keeps l' st'"
    and "keeps l st" and "parse_lines parse_str ws lines l st = Inr (l', st')"
  shows "keeps l' st'"
  using assms(2,3)
proof (induction lines arbitrary: l st)
  case (Cons line lines)
  have n: "NUL \<notin> set (line_text line)" by (auto simp: line_text_def dest: set_takeWhileD)
  show ?case
  proof (cases "is_rule_line ws (line_text line)")
    case True
    then obtain l1 st1 where "parse_str (line_text line) l st = Inr (l1, st1)" "parse_lines parse_str ws lines l1 st1 = Inr (l', st')"
      using Cons.prems(2) by (auto simp: res_bind_eq_Inr)
    then show ?thesis using assms(1) [OF n Cons.prems(1)] Cons.IH by blast
  next
    case False
    then show ?thesis using Cons by simp
  qed
qed simp

lemma parse_file_keeps:
  assumes "\<not> fi_parent_dirscan io" and cvs: "\<And>n. cvs_keeps keeps cvs_tmpl (get_cvs_excludes n env io)"
    and "tmpl t xf" and "keeps l st" and "parse_filter_file n env io t xf fname l st = Inr (l', st')"
  shows "keeps l' st'"
  using assms(3-5)
proof (induction n arbitrary: t xf fname l st l' st')
  case 0
  then show ?case by (simp split: if_splits)
next
  case (Suc n)
  show ?case
  proof (cases "fname = [] \<or> filter_open env io fname st = None")
    case True
    then show ?thesis using Suc.prems by (auto split: if_splits)
  next
    case False
    then obtain body st0 where o: "filter_open env io fname st = Some (body, st0)" and fn: "fname \<noteq> []" by force
    have "keeps l st0"
      using o Suc.prems(2) stdin_keeps unfolding filter_open_def by (auto split: if_splits option.splits)
    moreover have m: "merge_keeps keeps tmpl (\<lambda>f. parse_filter_file n env io f {XFLG_FATAL_ERRORS})"
      using Suc.IH unfolding merge_keeps_def by blast
    have "keeps l' st'" if "NUL \<notin> set s" "keeps l st"
      "parse_rules_with (\<lambda>f. parse_filter_file n env io f {XFLG_FATAL_ERRORS}) (get_cvs_excludes n env io) env io t xf s l st = Inr (l', st')"
      for s l st l' st' using parse_rules_keeps [OF assms(1) Suc.prems(1) m cvs that] .
    moreover have "parse_lines (parse_rules_with (\<lambda>f. parse_filter_file n env io f {XFLG_FATAL_ERRORS}) (get_cvs_excludes n env io) env io t xf)
        (FILTRULE_WORD_SPLIT \<in> t) (split_lines (FILTRULE_WORD_SPLIT \<in> t) (fi_eol_nulls io) body) l st0 = Inr (l', st')"
      using Suc.prems(3) o fn by (simp add: get_cvs_excludes_def)
    ultimately show ?thesis using parse_lines_keeps by blast
  qed
qed

lemma parse_str_keeps:
  assumes "\<not> fi_parent_dirscan io" and "\<And>n. cvs_keeps keeps cvs_tmpl (get_cvs_excludes n env io)"
    and "tmpl t xf" and "NUL \<notin> set s" and "keeps l st" and "parse_filter_str n env io t xf s l st = Inr (l', st')"
  shows "keeps l' st'"
proof -
  have "merge_keeps keeps tmpl (\<lambda>f. parse_filter_file n env io f {XFLG_FATAL_ERRORS})"
    using parse_file_keeps [OF assms(1,2)] unfolding merge_keeps_def by blast
  then show ?thesis
    using parse_rules_keeps [OF assms(1,3) _ assms(2,4,5)] assms(6) unfolding parse_filter_str_def by blast
qed

end

section \<open>The CVS list\<close>

text \<open>The list of get_cvs_excludes: rules without prefixes, so no merge file and no CVS rule.\<close>

definition cvs_rule :: "filter_rule \<Rightarrow> bool" where
  "cvs_rule r \<longleftrightarrow> (case r of Rule p f n \<Rightarrow> stored p f n \<and> FILTRULE_PERDIR_MERGE \<notin> f \<and> FILTRULE_CVS_IGNORE \<notin> f | PerDir i \<Rightarrow> False)"

definition cvs_inv :: "merge_rule option list \<Rightarrow> filter_rule_list \<Rightarrow> filter_state \<Rightarrow> bool" where
  "cvs_inv ps l st \<longleftrightarrow> list_all cvs_rule (fl_head l) \<and> mergelist_parents st = ps"

definition cvs_addable :: "xflag set \<Rightarrow> rflag set \<Rightarrow> string \<Rightarrow> bool" where
  "cvs_addable xf f pat \<longleftrightarrow> addable xf f pat \<and> FILTRULE_PERDIR_MERGE \<notin> f \<and> FILTRULE_CVS_IGNORE \<notin> f"

definition cvs_template :: "rflag set \<Rightarrow> xflag set \<Rightarrow> bool" where
  "cvs_template t xf \<longleftrightarrow> FILTRULE_NO_PREFIXES \<in> t \<and> template_ok t xf \<and> plain_xflags xf"

lemma no_prefix_flags:
  assumes "parse_rule_tok env t xf s = Inr (Some (f, pat, rest))" and "FILTRULE_NO_PREFIXES \<in> t" and "x \<in> f"
  shows "x \<in> FILTRULES_FROM_CONTAINER \<union> FILTRULES_SIDES \<union> {FILTRULE_CLEAR_LIST}"
proof -
  obtain s' g where "rule_start t xf s' = Inr (g, pat @ rest)" and e: "rule_end env t xf g (pat @ rest) = Inr (f, pat, rest)"
    using parse_rule_tokE [OF assms(1)] .
  then have "g \<subseteq> FILTRULES_FROM_CONTAINER \<union> {FILTRULE_CLEAR_LIST}"
    using assms(2) by (auto simp: rule_start_def Let_def split: if_splits)
  then show ?thesis using rule_end_flags [OF e] assms(3) by auto
qed

lemma free_plain: "list_all cvs_rule rs \<Longrightarrow> free_filters rs st = st"
  unfolding free_filters_def by (induction rs arbitrary: st) (auto simp: cvs_rule_def split: filter_rule.splits)

lemma list_all_head [simp]:
  "fl_head (append_rule r l) = fl_local l @ r # fl_inherited l" "fl_head (l\<lparr>fl_local := xs\<rparr>) = xs @ fl_inherited l"
  "fl_head (l\<lparr>fl_inherited := ys\<rparr>) = fl_local l @ ys"
  by (simp_all add: fl_head_def append_rule_def)

lemma addable_parsed:
  assumes "template_ok t xf" and "plain_xflags xf" and "NUL \<notin> set s" and "parse_rule_tok env t xf s = Inr (Some (f, pat, rest))"
    and "length pat < MAXPATHLEN" and "FILTRULE_CLEAR_LIST \<notin> f" and "FILTRULE_MERGE_FILE \<notin> f"
  shows "addable xf f pat"
  using parse_rule_tok_flags(1) [OF assms(4,1)] parse_rule_tok_suffix(1) [OF assms(4)] assms
  unfolding addable_def parsed_flags_def by auto

interpretation cvs: filter_reader env "cvs_inv ps" cvs_addable cvs_template "\<lambda>_. False" for env ps
proof
  fix l st xf f pat l' st'
  assume "cvs_inv ps l st" "cvs_addable xf f pat" "add_rule env xf pat f l st = (l', st')"
  then show "cvs_inv ps l' st'"
    using build_rule_stored [of xf f pat env]
    by (auto simp: add_rule_def cvs_addable_def cvs_inv_def cvs_rule_def fl_head_def append_rule_def split: if_splits prod.splits)
next
  fix l st l' st'
  assume "cvs_inv ps l st" "pop_filter_list l st = (l', st')"
  then show "cvs_inv ps (l'\<lparr>fl_inherited := []\<rparr>) st'"
    using free_plain by (auto simp: pop_filter_list_def cvs_inv_def fl_head_def split: if_splits)
next
  fix t xf s f pat rest
  assume a: "cvs_template t xf" "NUL \<notin> set s" "parse_rule_tok env t xf s = Inr (Some (f, pat, rest))"
    "length pat < MAXPATHLEN" "FILTRULE_CLEAR_LIST \<notin> f" "FILTRULE_MERGE_FILE \<notin> f"
  have "FILTRULE_PERDIR_MERGE \<notin> f" "FILTRULE_CVS_IGNORE \<notin> f"
    using no_prefix_flags [OF a(3)] a(1) by (auto simp: cvs_template_def FILTRULES_FROM_CONTAINER_def FILTRULES_SIDES_def)
  then show "cvs_addable xf f pat \<and> (FILTRULE_CVS_IGNORE \<in> f \<longrightarrow> False)"
    using addable_parsed [OF _ _ a(2-6)] a(1) by (simp add: cvs_addable_def cvs_template_def)
next
  fix t xf s f pat rest q
  assume a: "cvs_template t xf" "parse_rule_tok env t xf s = Inr (Some (f, pat, rest))" "FILTRULE_MERGE_FILE \<in> f"
  have False using no_prefix_flags [OF a(2) _ a(3)] a(1) by (auto simp: cvs_template_def FILTRULES_FROM_CONTAINER_def FILTRULES_SIDES_def)
  then show "cvs_addable {} {} (base_name q) \<and>
      (if FILTRULE_PERDIR_MERGE \<in> f then cvs_addable xf (f - {FILTRULE_EXCLUDE_SELF}) q else cvs_template (f - {FILTRULE_EXCLUDE_SELF}) {XFLG_FATAL_ERRORS})" ..
qed (simp_all add: cvs_inv_def)

lemma cvs_never [simp]: "cvs_keeps I (\<lambda>_. False) c"
  by (simp add: cvs_keeps_def)

text \<open>The strings of the environment are C strings.\<close>

definition io_ok :: "filter_io \<Rightarrow> bool" where
  "io_ok io \<longleftrightarrow> \<not> fi_parent_dirscan io \<and> NUL \<notin> set (fi_default_cvsignore io) \<and> (\<forall>s. fi_CVSIGNORE io = Some s \<longrightarrow> NUL \<notin> set s)"

definition cvs_stored :: "filter_state \<Rightarrow> bool" where
  "cvs_stored st \<longleftrightarrow> list_all cvs_rule (fl_head (cvs_filter_list st))"

text \<open>The flags of a CVS rule as a template.\<close>

definition cvs_flags :: "rflag set \<Rightarrow> bool" where
  "cvs_flags f \<longleftrightarrow> FILTRULE_NO_PREFIXES \<in> f \<and> FILTRULE_DIRECTORY \<notin> f"

lemma cvs_flags_template: "cvs_flags f \<Longrightarrow> cvs_template f {}" "cvs_flags f \<Longrightarrow> cvs_template (f \<union> {FILTRULE_PERISHABLE}) {}"
  by (simp_all add: cvs_flags_def cvs_template_def template_ok_def plain_xflags_def)

lemma get_cvs_excludes_keeps:
  assumes io: "io_ok io" and f: "cvs_flags f" and st: "cvs_stored st" and r: "get_cvs_excludes n env io f st = Inr st'"
  shows "cvs_stored st' \<and> mergelist_parents st' = mergelist_parents st"
proof (cases "cvs_initialized st")
  case True
  then show ?thesis using r st by (simp add: get_cvs_excludes_def cvs_excludes_with_def)
next
  case False
  let ?I = "cvs_inv (mergelist_parents st)"
  let ?str = "\<lambda>t. parse_rules_with (\<lambda>f. parse_filter_file n env io f {XFLG_FATAL_ERRORS}) (\<lambda>f st. Inr st) env io t {}"
  have io': "\<not> fi_parent_dirscan io" using io by (simp add: io_ok_def)
  note file_keeps = cvs.parse_file_keeps [where env = env, OF io' cvs_never]
  have "merge_keeps ?I cvs_template (\<lambda>f. parse_filter_file n env io f {XFLG_FATAL_ERRORS})"
    using file_keeps unfolding merge_keeps_def by blast
  note str_keeps = cvs.parse_rules_keeps [where env = env, OF io' _ this cvs_never]
  let ?t = "f \<union> (if 30 \<le> fe_protocol env then {FILTRULE_PERISHABLE} else {})"
  have t: "cvs_template ?t {}" using cvs_flags_template [OF f] by simp
  obtain l1 st1 l2 st2 l3 st3 where
    s1: "?str ?t (fi_default_cvsignore io) (cvs_filter_list st) (st\<lparr>cvs_initialized := True\<rparr>) = Inr (l1, st1)" and
    s2: "(case if fi_chroot io then Some ''/'' else fi_HOME io of None \<Rightarrow> Inr (l1, st1)
       | Some p \<Rightarrow> let (fname, len) = pathjoin MAXPATHLEN p ''.cvsignore'' in
           if len < MAXPATHLEN then parse_filter_file n env io f {} fname l1 st1 else Inr (l1, st1)) = Inr (l2, st2)" and
    s3: "(case fi_CVSIGNORE io of None \<Rightarrow> Inr (l2, st2) | Some s \<Rightarrow> ?str f s l2 st2) = Inr (l3, st3)" and
    st': "st' = st3\<lparr>cvs_filter_list := l3\<rparr>"
    using r False unfolding get_cvs_excludes_def cvs_excludes_with_def Let_def by (auto simp: res_bind_eq_Inr)
  have "?I (cvs_filter_list st) (st\<lparr>cvs_initialized := True\<rparr>)" using st by (simp add: cvs_inv_def cvs_stored_def)
  then have "?I l1 st1" using str_keeps [OF t _ _ s1] io by (simp add: io_ok_def)
  then have "?I l2 st2"
  proof (cases "if fi_chroot io then Some ''/'' else fi_HOME io")
    case (Some p)
    obtain fname len where "pathjoin MAXPATHLEN p ''.cvsignore'' = (fname, len)" by fastforce
    then have "(if len < MAXPATHLEN then parse_filter_file n env io f {} fname l1 st1 else Inr (l1, st1)) = Inr (l2, st2)" using s2 Some by simp
    then show ?thesis using \<open>?I l1 st1\<close> file_keeps [OF cvs_flags_template(1) [OF f] \<open>?I l1 st1\<close>] by (cases "len < MAXPATHLEN") auto
  qed (use s2 in simp)
  then have "?I l3 st3"
  proof (cases "fi_CVSIGNORE io")
    case (Some s)
    then have "?str f s l2 st2 = Inr (l3, st3)" "NUL \<notin> set s" using s3 io by (simp_all add: io_ok_def)
    then show ?thesis using str_keeps [OF cvs_flags_template(1) [OF f] _ \<open>?I l2 st2\<close>] by blast
  qed (use s3 in simp)
  then show ?thesis by (simp add: st' cvs_stored_def cvs_inv_def)
qed

section \<open>The filter list\<close>

fun perdirs :: "filter_rule list \<Rightarrow> nat list" where
  "perdirs [] = []"
| "perdirs (Rule p f n # rs) = perdirs rs"
| "perdirs (PerDir i # rs) = i # perdirs rs"

lemma perdirs_append [simp]: "perdirs (xs @ ys) = perdirs xs @ perdirs ys"
  by (induction xs rule: perdirs.induct) simp_all

definition list_rule :: "filter_rule \<Rightarrow> bool" where
  "list_rule r \<longleftrightarrow> (case r of Rule p f n \<Rightarrow> stored p f n \<and> FILTRULE_PERDIR_MERGE \<notin> f | PerDir i \<Rightarrow> True)"

definition merge_stored :: "merge_rule \<Rightarrow> bool" where
  "merge_stored m \<longleftrightarrow> (\<exists>n. stored (mr_pattern m) (mr_rflags m) n) \<and> FILTRULE_PERDIR_MERGE \<in> mr_rflags m"

text \<open>
  The slots, before the first directory is entered: no rules of directories yet, and no two
  files with the same base name. D are the slots of the daemon's list.
\<close>

definition slots_inv :: "nat set \<Rightarrow> (nat \<Rightarrow> merge_rule option) \<Rightarrow> bool" where
  "slots_inv D sl \<longleftrightarrow>
     (\<forall>i m. sl i = Some m \<longrightarrow> FILTRULE_PERDIR_MERGE \<in> mr_rflags m \<and> fl_head (mr_list m) = [] \<and> (i \<notin> D \<longrightarrow> merge_stored m)) \<and>
     (\<forall>i j m m'. sl i = Some m \<and> sl j = Some m' \<and> base_name (mr_pattern m) = base_name (mr_pattern m') \<longrightarrow> i = j)"

definition filter_inv :: "nat set \<Rightarrow> filter_rule_list \<Rightarrow> filter_state \<Rightarrow> bool" where
  "filter_inv D l st \<longleftrightarrow>
     distinct (perdirs (fl_head l)) \<and> set (perdirs (fl_head l)) \<inter> D = {} \<and>
     (\<forall>i \<in> set (perdirs (fl_head l)) \<union> D. slot st i \<noteq> None) \<and>
     list_all list_rule (fl_head l) \<and> slots_inv D (slot st) \<and> cvs_stored st"

definition list_template :: "rflag set \<Rightarrow> xflag set \<Rightarrow> bool" where
  "list_template t xf \<longleftrightarrow> template_ok t xf \<and> plain_xflags xf"

text \<open>The slots after a slot is taken or given back; the empty slots at the end do not matter.\<close>

lemma slot_cong: "mergelist_parents st = mergelist_parents st' \<Longrightarrow> slot st = slot st'"
  by (simp add: slot_def fun_eq_iff)

lemma slot_other [simp]: "slot (st\<lparr>saw_xattr_filter := b\<rparr>) = slot st" "slot (st\<lparr>filter_stdin := s\<rparr>) = slot st"
  by (rule slot_cong; simp)+

lemma slot_append: "slot (st\<lparr>mergelist_parents := mergelist_parents st @ [Some m]\<rparr>) = (slot st)(length (mergelist_parents st) := Some m)"
  by (auto simp: slot_def fun_eq_iff nth_append)

lemma slot_trim: "slot (st\<lparr>mergelist_parents := trim_slots ps\<rparr>) = slot (st\<lparr>mergelist_parents := ps\<rparr>)"
proof (induction ps rule: rev_induct)
  case (snoc x ps)
  then show ?case by (cases x) (auto simp: trim_slots_def slot_def fun_eq_iff nth_append)
qed (simp add: trim_slots_def)

lemma slot_free: "slot (free_filter r st) = (case r of Rule p f n \<Rightarrow> slot st | PerDir i \<Rightarrow> (slot st)(i := None))"
  by (cases r) (auto simp: slot_trim slot_def fun_eq_iff nth_list_update)

lemma cvs_free [simp]: "cvs_filter_list (free_filters rs st) = cvs_filter_list st"
proof -
  have "cvs_filter_list (free_filter r st) = cvs_filter_list st" for r st by (cases r) simp_all
  then show ?thesis unfolding free_filters_def by (induction rs arbitrary: st) simp_all
qed

lemma slot_free_filters: "slot (free_filters rs st) = (\<lambda>i. if i \<in> set (perdirs rs) then None else slot st i)"
  unfolding free_filters_def
proof (induction rs arbitrary: st)
  case (Cons r rs)
  show ?case unfolding fold_Cons comp_def Cons.IH slot_free by (cases r) auto
qed simp

lemma slots_inv_free: "slots_inv D sl \<Longrightarrow> slots_inv D (\<lambda>i. if i \<in> X then None else sl i)"
  unfolding slots_inv_def by (auto split: if_splits)

lemma slots_inv_add:
  assumes "slots_inv D sl" and "merge_stored m" and "fl_head (mr_list m) = []" and "\<And>j m'. sl j = Some m' \<Longrightarrow> base_name (mr_pattern m') \<noteq> base_name (mr_pattern m)"
  shows "slots_inv D (sl(k := Some m))"
  unfolding slots_inv_def
proof (intro conjI allI impI)
  fix i m' assume h: "(sl(k := Some m)) i = Some m'"
  show "FILTRULE_PERDIR_MERGE \<in> mr_rflags m'" "fl_head (mr_list m') = []" "i \<notin> D \<Longrightarrow> merge_stored m'"
    using h assms(1-3) by (auto simp: slots_inv_def merge_stored_def split: if_splits)
next
  fix i j m1 m2
  assume h: "(sl(k := Some m)) i = Some m1 \<and> (sl(k := Some m)) j = Some m2 \<and> base_name (mr_pattern m1) = base_name (mr_pattern m2)"
  have inj: "i = j" if "sl i = Some m1" "sl j = Some m2"
    using assms(1) that h unfolding slots_inv_def by blast
  have i: "if i = k then m1 = m else sl i = Some m1" and j: "if j = k then m2 = m else sl j = Some m2" using h by (auto split: if_splits)
  have eq: "base_name (mr_pattern m1) = base_name (mr_pattern m2)" using h by blast
  consider "i = k" "j = k" | "i = k" "j \<noteq> k" | "i \<noteq> k" "j = k" | "i \<noteq> k" "j \<noteq> k" by blast
  then show "i = j"
  proof cases
    case 2
    then show ?thesis using i j eq assms(4) [of j m2] by simp
  next
    case 3
    then show ?thesis using i j eq assms(4) [of i m1] by simp
  next
    case 4
    then show ?thesis using i j inj by simp
  qed simp
qed

lemma no_base:
  assumes "\<not> list_ex (\<lambda>m. case m of None \<Rightarrow> False | Some m \<Rightarrow> base_name (mr_pattern m) = b) (mergelist_parents st)" and "slot st j = Some m"
  shows "base_name (mr_pattern m) \<noteq> b"
proof -
  have "j < length (mergelist_parents st)" "mergelist_parents st ! j = Some m" using assms(2) by (auto simp: slot_def split: if_splits)
  then have "Some m \<in> set (mergelist_parents st)" using nth_mem by metis
  then show ?thesis using assms(1) by (auto simp: list_ex_iff)
qed

text \<open>A rule that is added goes behind the local rules, in the list or in a slot of its own.\<close>

lemma add_rule_keeps:
  assumes I: "filter_inv D l st" and ok: "addable xf f pat" and r: "add_rule env xf pat f l st = (l', st')"
  shows "filter_inv D l' st'"
proof -
  obtain p g n where b: "build_rule env xf pat f = (p, g, n)" by (cases "build_rule env xf pat f")
  note B = build_rule_stored [OF ok b]
  have os: "\<not> other_side env xf f" using ok by (simp add: other_side_def addable_def plain_xflags_def)
  let ?dup = "list_ex (\<lambda>m. case m of None \<Rightarrow> False | Some m \<Rightarrow> base_name (mr_pattern m) = base_name p) (mergelist_parents st)"
  consider (plain) "FILTRULE_PERDIR_MERGE \<notin> g" | (dup) "FILTRULE_PERDIR_MERGE \<in> g" ?dup | (new) "FILTRULE_PERDIR_MERGE \<in> g" "\<not> ?dup" by blast
  then show ?thesis
  proof cases
    case plain
    then have "l' = append_rule (Rule p g n) l" "st' = st" using r os b by (simp_all add: add_rule_def)
    then show ?thesis using I plain B(1) by (auto simp: filter_inv_def list_rule_def fl_head_def append_rule_def)
  next
    case dup
    then have "l' = l" "st' = st" using r os b by (simp_all add: add_rule_def)
    then show ?thesis using I by simp
  next
    case new
    let ?k = "length (mergelist_parents st)" and ?m = "\<lparr>mr_pattern = p, mr_rflags = g, mr_list = empty_list\<rparr>"
    have l': "l' = append_rule (PerDir ?k) l" and st': "st' = st\<lparr>mergelist_parents := mergelist_parents st @ [Some ?m]\<rparr>"
      using r os b new by (simp_all add: add_rule_def)
    have k: "slot st ?k = None" by (simp add: slot_def)
    have h: "fl_head l' = fl_local l @ PerDir ?k # fl_inherited l" by (simp add: l')
    have "?k \<notin> set (perdirs (fl_head l)) \<union> D" using I k unfolding filter_inv_def by blast
    moreover have "slots_inv D (slot st')"
      unfolding st' slot_append using I B(1) new no_base [OF new(2)]
      by (intro slots_inv_add) (auto simp: filter_inv_def merge_stored_def empty_list_def fl_head_def)
    moreover have "cvs_stored st'" using I by (simp add: st' filter_inv_def cvs_stored_def)
    ultimately show ?thesis using I unfolding filter_inv_def h st' slot_append by (auto simp: fl_head_def list_rule_def)
  qed
qed

lemma pop_list_keeps:
  assumes I: "filter_inv D l st" and r: "pop_filter_list l st = (l', st')"
  shows "filter_inv D (l'\<lparr>fl_inherited := []\<rparr>) st'"
proof -
  have l: "fl_local l' = []" and st': "st' = free_filters (fl_local l) st"
    using r by (auto simp: pop_filter_list_def free_filters_def split: if_splits)
  have "set (perdirs (fl_local l)) \<inter> D = {}" using I by (auto simp: filter_inv_def fl_head_def)
  moreover have "slots_inv D (slot st')" unfolding st' slot_free_filters using I by (intro slots_inv_free) (simp add: filter_inv_def)
  ultimately show ?thesis using I l unfolding filter_inv_def st' slot_free_filters by (auto simp: fl_head_def cvs_stored_def)
qed

lemma merge_rule_flags:
  assumes "list_template t xf" and "NUL \<notin> set s" and "parse_rule_tok env t xf s = Inr (Some (f, pat, rest))"
    and "length pat < MAXPATHLEN" and "FILTRULE_CLEAR_LIST \<notin> f" and "FILTRULE_MERGE_FILE \<in> f" and "q = (if pat = [] then ''.cvsignore'' else pat)"
  shows "addable {} {} (base_name q)"
    "if FILTRULE_PERDIR_MERGE \<in> f then addable xf (f - {FILTRULE_EXCLUDE_SELF}) q else list_template (f - {FILTRULE_EXCLUDE_SELF}) {XFLG_FATAL_ERRORS}"
proof -
  have p: "parsed_flags f" using parse_rule_tok_flags(1) [OF assms(3)] assms(1) by (simp add: list_template_def)
  have q: "length q < MAXPATHLEN" "NUL \<notin> set q"
    using assms(2,4,7) parse_rule_tok_suffix(1) [OF assms(3)] by (auto simp: MAXPATHLEN_def NUL_def)
  have "set (base_name q) \<subseteq> set q" "length (base_name q) \<le> length q"
    using length_takeWhile_le [of _ "rev q"] by (auto simp: base_name_def dest: set_takeWhileD)
  then show "addable {} {} (base_name q)" using q by (auto simp: addable_def parsed_flags_def plain_xflags_def)
  have "parsed_flags (f - {FILTRULE_EXCLUDE_SELF})" using p by (auto simp: parsed_flags_def)
  then show "if FILTRULE_PERDIR_MERGE \<in> f then addable xf (f - {FILTRULE_EXCLUDE_SELF}) q else list_template (f - {FILTRULE_EXCLUDE_SELF}) {XFLG_FATAL_ERRORS}"
    using q assms(1,5,6) p by (auto simp: addable_def list_template_def template_ok_def plain_xflags_def parsed_flags_def)
qed

interpretation flist: filter_reader env "filter_inv D" addable list_template cvs_flags for env D
proof
  show "\<And>l st xf f pat l' st'. filter_inv D l st \<Longrightarrow> addable xf f pat \<Longrightarrow> add_rule env xf pat f l st = (l', st') \<Longrightarrow> filter_inv D l' st'"
    by (rule add_rule_keeps)
  show "\<And>l st l' st'. filter_inv D l st \<Longrightarrow> pop_filter_list l st = (l', st') \<Longrightarrow> filter_inv D (l'\<lparr>fl_inherited := []\<rparr>) st'"
    by (rule pop_list_keeps)
  fix t xf s f pat rest
  assume a: "list_template t xf" "NUL \<notin> set s" "parse_rule_tok env t xf s = Inr (Some (f, pat, rest))"
    "length pat < MAXPATHLEN" "FILTRULE_CLEAR_LIST \<notin> f"
  show "FILTRULE_MERGE_FILE \<notin> f \<Longrightarrow> addable xf f pat \<and> (FILTRULE_CVS_IGNORE \<in> f \<longrightarrow> cvs_flags f)"
    using addable_parsed [OF _ _ a(2-5)] parse_rule_tok_flags(1) [OF a(3)] a(1) by (auto simp: list_template_def cvs_flags_def parsed_flags_def)
  show "\<And>q. FILTRULE_MERGE_FILE \<in> f \<Longrightarrow> q = (if pat = [] then ''.cvsignore'' else pat) \<Longrightarrow> addable {} {} (base_name q) \<and>
      (if FILTRULE_PERDIR_MERGE \<in> f then addable xf (f - {FILTRULE_EXCLUDE_SELF}) q else list_template (f - {FILTRULE_EXCLUDE_SELF}) {XFLG_FATAL_ERRORS})"
    using merge_rule_flags [OF a] by blast
qed (simp_all add: filter_inv_def cvs_stored_def)

lemma cvs_excludes_keep: "io_ok io \<Longrightarrow> cvs_keeps (filter_inv D) cvs_flags (get_cvs_excludes n env io)"
  unfolding cvs_keeps_def
proof (intro allI impI, elim conjE)
  fix f l st st'
  assume "io_ok io" "cvs_flags f" and I: "filter_inv D l st" and "get_cvs_excludes n env io f st = Inr st'"
  then have "cvs_stored st'" "mergelist_parents st' = mergelist_parents st" using get_cvs_excludes_keeps by (auto simp: filter_inv_def)
  then show "filter_inv D l st'" using I slot_cong [of st' st] by (simp add: filter_inv_def)
qed

text \<open>A list that is well-formed in this sense is one that check_filter can go through.\<close>

lemma list_rule_from: "list_all list_rule rs \<Longrightarrow> (\<forall>i \<in> set (perdirs rs). slot st i \<noteq> None) \<Longrightarrow> list_all (rule_from st 0) rs"
  by (induction rs rule: perdirs.induct) (auto simp: list_rule_def rule_from_def)

lemma filter_inv_checkable:
  assumes "filter_inv D l st"
  shows "slots_ok st" "cvs_ok st" "list_all (rule_from st 0) (fl_head l)"
proof -
  show "slots_ok st" using assms by (auto simp: filter_inv_def slots_inv_def slots_ok_def)
  show "cvs_ok st" using assms unfolding filter_inv_def cvs_stored_def cvs_ok_def
    by (auto simp: list_all_iff cvs_rule_def split: filter_rule.splits)
  show "list_all (rule_from st 0) (fl_head l)" using assms by (intro list_rule_from) (auto simp: filter_inv_def)
qed

lemma filter_inv_decides: "filter_inv D l st \<Longrightarrow> \<exists>rc. check_filter env st name nf (fl_head l) = Some rc"
  using check_filter_levels [of st 0 "fl_head l" "length (mergelist_parents st)"] filter_inv_checkable by fastforce

text \<open>C17: parse_filter_str keeps the filter list well-formed, whatever rules it reads, from the string or from
  the files they merge, nested as deep as files can be opened: every rule is stored with the
  flags of its pattern and in a form that can be sent, every per-directory merge rule has a
  live slot that no other rule has, the slots of the daemon's list stay as they are, no two
  active merge files have the same base name, and the CVS list has plain rules only. A
  list-clearing rule frees exactly the slots of the rules it drops. So check_filter on the list
  returns for every name.\<close>

theorem parse_filter_str_keeps:
  assumes "io_ok io" and "list_template t xf" and "NUL \<notin> set s" and "filter_inv D l st"
    and "parse_filter_str n env io t xf s l st = Inr (l', st')"
  shows "filter_inv D l' st' \<and> (\<exists>rc. check_filter env st' name nf (fl_head l') = Some rc)"
proof -
  have "filter_inv D l' st'"
    using flist.parse_str_keeps [OF _ cvs_excludes_keep [OF assms(1)] assms(2-5)] assms(1) by (simp add: io_ok_def)
  then show ?thesis using filter_inv_decides by blast
qed

definition sample_io :: filter_io where
  "sample_io = \<lparr>fi_files = Map.empty, fi_am_server = False, fi_local_server = False, fi_cvs_exclude = False, fi_eol_nulls = False,
     fi_sanitize_paths = False, fi_module_dir = [], fi_dirbuf_depth = 0, fi_parent_dirscan = False, fi_daemon_list = empty_list,
     fi_chroot = False, fi_HOME = None, fi_CVSIGNORE = None, fi_default_cvsignore = ''core *.o''\<rparr>"

definition filter_start :: filter_state where
  "filter_start = \<lparr>mergelist_parents = [], cvs_filter_list = empty_list, cvs_initialized = False, saw_xattr_filter = False, filter_stdin = []\<rparr>"

lemma filter_start_inv: "filter_inv {} empty_list filter_start"
  by (simp add: filter_inv_def empty_list_def fl_head_def filter_start_def slots_inv_def slot_def cvs_stored_def)

theorem parse_filter_str_keeps_witness:
  "filter_inv {} \<lparr>fl_local = [Rule ''*.c'' {FILTRULE_INCLUDE, FILTRULE_WILD} 0], fl_inherited = []\<rparr> filter_start"
proof -
  have "parse_filter_str 0 sample_fenv sample_io {} {} ''+ *.c'' empty_list filter_start =
      Inr (\<lparr>fl_local = [Rule ''*.c'' {FILTRULE_INCLUDE, FILTRULE_WILD} 0], fl_inherited = []\<rparr>, filter_start)"
    by code_simp
  moreover have "io_ok sample_io" "list_template {} {}" "NUL \<notin> set ''+ *.c''"
    by (simp_all add: io_ok_def sample_io_def NUL_def list_template_def template_ok_def plain_xflags_def)
  ultimately show ?thesis using parse_filter_str_keeps filter_start_inv by blast
qed

text \<open>
  A merge rule with the modifier e whose name ends with a slash adds a rule with an empty
  pattern, which no other rule can be: sent, it is refused as the unexpected end of a rule.
\<close>

lemma exclude_self_empty:
  "parse_filter_str 0 sample_fenv sample_io {} {} '':e d/'' empty_list filter_start =
     Inr (\<lparr>fl_local = [Rule [] {} 0, PerDir 0], fl_inherited = []\<rparr>,
       filter_start\<lparr>mergelist_parents := [Some \<lparr>mr_pattern = ''d'',
         mr_rflags = {FILTRULE_PERDIR_MERGE, FILTRULE_FINISH_SETUP, FILTRULE_MERGE_FILE, FILTRULE_DIRECTORY}, mr_list = empty_list\<rparr>]\<rparr>)"
  "get_rule_prefix sample_fenv {} [] True = Some ''- ''"
  "parse_rule_tok sample_fenv {} {} ''- '' = Inl RERR_SYNTAX"
  by code_simp+

end
