(* ===== verification/FilterWire.thy ===== *)
theory FilterWire
  imports FilterInv
begin

text \<open>
  The transfer of the filter list: every rule that the client sends is rebuilt by the server's
  parser with its pattern and flags, and between them the two sides have every rule where it
  applies.
\<close>

section \<open>One rule\<close>

text \<open>What a rule of a list says, wherever it is kept.\<close>

definition rule_of :: "filter_state \<Rightarrow> filter_rule \<Rightarrow> string \<times> rflag set" where
  "rule_of st r = (case deref st r of Some (p, f, u) \<Rightarrow> (p, f) | None \<Rightarrow> ([], {}))"

definition live :: "filter_state \<Rightarrow> filter_rule \<Rightarrow> bool" where
  "live st r \<longleftrightarrow> deref st r \<noteq> None"

text \<open>The rules that go over the wire as such: not those that stand for the CVS list, and none with an empty pattern.\<close>

definition rule_sendable :: "string \<times> rflag set \<Rightarrow> bool" where
  "rule_sendable pf \<longleftrightarrow> (case pf of (p, f) \<Rightarrow> (\<exists>n. stored p f n) \<and> p \<noteq> [] \<and> (FILTRULE_CVS_IGNORE \<in> f \<longrightarrow> FILTRULE_MERGE_FILE \<in> f))"

text \<open>The rule at the other side: with delete_excluded there, a rule for no side is one for the sender.\<close>

definition arrived :: "filter_env \<Rightarrow> string \<times> rflag set \<Rightarrow> string \<times> rflag set" where
  "arrived env pf = (case pf of (p, f) \<Rightarrow> (p,
     if fe_delete_excluded env \<and> f \<inter> (FILTRULES_SIDES \<union> {FILTRULE_MERGE_FILE, FILTRULE_PERDIR_MERGE}) = {}
     then f \<union> {FILTRULE_SENDER_SIDE} else f))"

definition rule_line :: "string \<Rightarrow> rflag set \<Rightarrow> string" where
  "rule_line p f = p @ (if FILTRULE_DIRECTORY \<in> f then ''/'' else [])"

lemma arrived_flags_more:
  assumes "30 \<le> pv" and "pattern_flags_ok p f n"
  shows "arrived_flags env pv f \<union> f \<inter> {FILTRULE_DIRECTORY} \<union> wild_flags p = snd (arrived env (p, f))"
proof -
  have w: "wild_flags p = f \<inter> WILD_FLAGS" using assms(2) by (simp add: pattern_flags_ok_def)
  have "(f - WILD_FLAGS - {FILTRULE_DIRECTORY}) \<inter> (FILTRULES_SIDES \<union> {FILTRULE_MERGE_FILE, FILTRULE_PERDIR_MERGE}) =
      f \<inter> (FILTRULES_SIDES \<union> {FILTRULE_MERGE_FILE, FILTRULE_PERDIR_MERGE})"
    by (auto simp: FILTRULES_SIDES_def WILD_FLAGS_def)
  then show ?thesis using assms(1) unfolding arrived_flags_def arrived_def Let_def w by auto
qed

lemma build_arrived:
  assumes "30 \<le> pv" and "stored p f n"
  shows "build_rule env {} (rule_line p f) (arrived_flags env pv f) = (p, snd (arrived env (p, f)), c_slash p)"
proof -
  have ok: "pattern_flags_ok p f n" using assms(2) by (simp add: stored_def)
  note A = arrived_flags_more [OF assms(1) ok, symmetric]
  show ?thesis
  proof (cases "FILTRULE_DIRECTORY \<in> f")
    case True
    then have "1 < length (rule_line p f)" "last (rule_line p f) = CHR ''/''" "butlast (rule_line p f) = p"
      using assms(2) by (cases p; simp add: stored_def rule_line_def)+
    then show ?thesis using True A by (simp add: build_rule_plain plain_xflags_def)
  next
    case False
    then have "rule_line p f = p" "\<not> (1 < length p \<and> last p = CHR ''/'')" using assms(2) by (auto simp: stored_def rule_line_def)
    then show ?thesis using False A unfolding build_rule_plain [of "{}", unfolded plain_xflags_def, simplified] by auto
  qed
qed

lemma arrived_same: "x \<notin> FILTRULES_SIDES \<Longrightarrow> x \<in> snd (arrived env (p, f)) \<longleftrightarrow> x \<in> f"
  by (auto simp: arrived_def FILTRULES_SIDES_def)

lemma arrived_flags_same:
  "x \<notin> FILTRULES_SIDES \<Longrightarrow> x \<notin> WILD_FLAGS \<Longrightarrow> x \<noteq> FILTRULE_DIRECTORY \<Longrightarrow> 30 \<le> pv \<Longrightarrow> x \<in> arrived_flags env pv f \<longleftrightarrow> x \<in> f"
  by (auto simp: arrived_flags_def Let_def FILTRULES_SIDES_def)

text \<open>The server's parser on the line of a rule.\<close>

lemma parse_arrived:
  assumes "rule_sendable (p, f)" and pv: "30 \<le> fe_protocol env" and pre: "get_rule_prefix env f p True = Some pre" and "\<not> fi_parent_dirscan io"
    and "length (rule_line p f) < MAXPATHLEN"
  shows "parse_filter_str n env' io {} {} (pre @ rule_line p f) l st =
    Inr (add_rule env' {} (rule_line p f) (arrived_flags env' (fe_protocol env) f) l (if FILTRULE_XATTR \<in> f then st\<lparr>saw_xattr_filter := True\<rparr> else st))"
proof -
  let ?g = "arrived_flags env' (fe_protocol env) f"
  have w: "wire_flags f" and p: "p \<noteq> []" using assms(1) by (auto simp: rule_sendable_def stored_def)
  then have q: "rule_line p f \<noteq> []" by (simp add: rule_line_def)
  have "29 \<le> fe_protocol env" using pv by simp
  note P = parse_sent_rule [OF w this pre, of "rule_line p f" env'] q
  note S = arrived_flags_same [OF _ _ _ pv, of _ env' f, unfolded FILTRULES_SIDES_def WILD_FLAGS_def, simplified]
  have "FILTRULE_XATTR \<in> ?g \<longleftrightarrow> FILTRULE_XATTR \<in> f" "FILTRULE_CLEAR_LIST \<notin> ?g" "FILTRULE_EXCLUDE_SELF \<notin> ?g"
    "FILTRULE_MERGE_FILE \<in> ?g \<longleftrightarrow> FILTRULE_PERDIR_MERGE \<in> ?g" "FILTRULE_CVS_IGNORE \<in> ?g \<Longrightarrow> FILTRULE_MERGE_FILE \<in> ?g"
    using w assms(1) S by (auto simp: wire_flags_def rule_sendable_def)
  moreover have "parse_rules_with m c env' io {} {} [] l st = Inr (l, st)" for m c l st
    by (simp add: parse_rules_with.simps parse_rule_tok_def)
  ultimately show ?thesis
    using P assms(4,5) unfolding parse_filter_str_def
    by (subst parse_rules_with.simps) (auto simp: rule_added_def merge_rule_added_def Let_def split: prod.split)
qed

text \<open>Slots are only added, so what the rules of a list say stays.\<close>

definition grows :: "filter_state \<Rightarrow> filter_state \<Rightarrow> bool" where
  "grows st st' \<longleftrightarrow> (\<forall>i m. slot st i = Some m \<longrightarrow> slot st' i = Some m)"

lemma growsD: "grows st st' \<Longrightarrow> live st r \<Longrightarrow> live st' r \<and> rule_of st' r = rule_of st r"
  by (cases r) (auto simp: grows_def live_def rule_of_def)

lemma grows_refl [simp]: "grows st st"
  by (simp add: grows_def)

lemma known_base:
  assumes "list_ex (\<lambda>m. case m of None \<Rightarrow> False | Some m \<Rightarrow> base_name (mr_pattern m) = b) (mergelist_parents st)"
  shows "\<exists>j m. slot st j = Some m \<and> base_name (mr_pattern m) = b"
proof -
  obtain j m where "j < length (mergelist_parents st)" "mergelist_parents st ! j = Some m" "base_name (mr_pattern m) = b"
    using assms by (auto simp: list_ex_iff in_set_conv_nth split: option.splits)
  then show ?thesis by (auto simp: slot_def)
qed

text \<open>A received rule is added to the list, unless it merges a file of a base name that is known.\<close>

lemma recv_rule:
  assumes "rule_sendable (p, f)" and "30 \<le> fe_protocol env" and "get_rule_prefix env f p True = Some pre" and "\<not> fi_parent_dirscan io"
    and "FILTRULE_PERDIR_MERGE \<in> f \<longrightarrow> (\<forall>j m. slot st j = Some m \<longrightarrow> base_name (mr_pattern m) \<noteq> base_name p)"
  shows "\<exists>r st'. parse_filter_str n env' io {} {} (pre @ rule_line p f) l st = Inr (append_rule r l, st') \<and>
    rule_of st' r = arrived env' (p, f) \<and> live st' r \<and> grows st st' \<and>
    (\<forall>j m. slot st' j = Some m \<longrightarrow> slot st j = Some m \<or> FILTRULE_PERDIR_MERGE \<in> f \<and> mr_pattern m = p)"
proof -
  obtain n0 where sto: "stored p f n0" using assms(1) by (auto simp: rule_sendable_def)
  then have len: "length (rule_line p f) < MAXPATHLEN" by (auto simp: stored_def rule_line_def split: if_splits)
  define st0 where "st0 = (if FILTRULE_XATTR \<in> f then st\<lparr>saw_xattr_filter := True\<rparr> else st)"
  have s0: "slot st0 = slot st" by (simp add: st0_def)
  note P = parse_arrived [OF assms(1-4) len, of n env' l st, folded st0_def]
  note B = build_arrived [OF assms(2) sto, of env']
  let ?F = "snd (arrived env' (p, f))"
  have pd: "FILTRULE_PERDIR_MERGE \<in> ?F \<longleftrightarrow> FILTRULE_PERDIR_MERGE \<in> f" using arrived_same by (simp add: FILTRULES_SIDES_def)
  have F: "arrived env' (p, f) = (p, ?F)" by (simp add: arrived_def)
  show ?thesis
  proof (cases "FILTRULE_PERDIR_MERGE \<in> f")
    case False
    then have "add_rule env' {} (rule_line p f) (arrived_flags env' (fe_protocol env) f) l st0 = (append_rule (Rule p ?F (c_slash p)) l, st0)"
      using B pd by (simp add: add_rule_def other_side_def)
    then show ?thesis using P F s0 by (intro exI [of _ "Rule p ?F (c_slash p)"] exI [of _ st0]) (simp add: rule_of_def live_def grows_def)
  next
    case True
    let ?k = "length (mergelist_parents st0)" and ?m = "\<lparr>mr_pattern = p, mr_rflags = ?F, mr_list = empty_list\<rparr>"
    define st1 where "st1 = st0\<lparr>mergelist_parents := mergelist_parents st0 @ [Some ?m]\<rparr>"
    have "\<not> list_ex (\<lambda>m. case m of None \<Rightarrow> False | Some m \<Rightarrow> base_name (mr_pattern m) = base_name p) (mergelist_parents st0)"
      using known_base assms(5) True unfolding s0 [symmetric] by blast
    then have "add_rule env' {} (rule_line p f) (arrived_flags env' (fe_protocol env) f) l st0 = (append_rule (PerDir ?k) l, st1)"
      using B pd True by (simp add: add_rule_def other_side_def st1_def)
    moreover have sl: "slot st1 = (slot st)(?k := Some ?m)" unfolding st1_def slot_append s0 ..
    moreover have "slot st ?k = None" unfolding s0 [symmetric] by (simp add: slot_def)
    ultimately show ?thesis using P F True
      by (intro exI [of _ "PerDir ?k"] exI [of _ st1]) (auto simp: rule_of_def live_def grows_def)
  qed
qed

section \<open>The whole list\<close>

text \<open>The base names of the merge rules.\<close>

definition merge_bases :: "(string \<times> rflag set) list \<Rightarrow> string list" where
  "merge_bases rs = map (\<lambda>(p, f). base_name p) (filter (\<lambda>(p, f). FILTRULE_PERDIR_MERGE \<in> f) rs)"

lemma rule_line_bytes:
  assumes "rule_sendable (p, f)" and "30 \<le> fe_protocol env" and "get_rule_prefix env f p True = Some pre"
  shows "recv_rules n env' io {} (rule_bytes f pre p @ s) l st =
    (case parse_filter_str n env' io {} {} (pre @ rule_line p f) l st of Inl e \<Rightarrow> Inl e | Inr (l, st) \<Rightarrow> recv_rules n env' io {} s l st)"
proof -
  let ?t = "pre @ rule_line p f"
  obtain n0 where "stored p f n0" "p \<noteq> []" using assms(1) by (auto simp: rule_sendable_def)
  then have len: "length (rule_line p f) < MAXPATHLEN" "NUL \<notin> set (rule_line p f)" "rule_line p f \<noteq> []"
    by (auto simp: stored_def rule_line_def NUL_def split: if_splits)
  have "length pre \<le> MAX_RULE_PREFIX" using get_rule_prefix_Some [OF assms(2), of f p] assms(3) by simp
  then have t: "0 < length ?t" "length ?t < BIGPATHBUFLEN" using len by (simp_all add: MAX_RULE_PREFIX_def BIGPATHBUFLEN_def MAXPATHLEN_def)
  have "NUL \<notin> set (prefix_mods env f True)" by (simp add: prefix_mods_def opt_char_def NUL_def)
  then have nul: "NUL \<notin> set ?t" using prefix_form [OF _ assms(3)] assms(2) len(2) by (auto simp: NUL_def)
  have u: "unat (word_of_nat (length ?t) :: int32) = length ?t" using t(2) by (intro small_unat) (simp add: BIGPATHBUFLEN_def)
  then have "(word_of_nat (length ?t) :: int32) \<noteq> 0" using t(1) by (metis less_nat_zero_code unat_0)
  moreover have "rule_bytes f pre p = write_int (word_of_nat (length ?t)) @ to_bytes ?t"
    using t(1) unfolding rule_bytes_def Let_def rule_line_def by auto
  ultimately show ?thesis
    using u t nul by (subst recv_rules.simps) (simp add: read_sbuf_to_bytes split: sum.split prod.split)
qed

text \<open>What the server has to have before it reads: live rules, and no merge file that is to come.\<close>

definition ready :: "filter_rule_list \<Rightarrow> filter_state \<Rightarrow> string list \<Rightarrow> bool" where
  "ready l st bases \<longleftrightarrow> fl_inherited l = [] \<and> (\<forall>r \<in> set (fl_local l). live st r) \<and>
     (\<forall>j m. slot st j = Some m \<longrightarrow> base_name (mr_pattern m) \<notin> set bases)"

definition kept_rules :: "filter_env \<Rightarrow> filter_state \<Rightarrow> filter_rule list \<Rightarrow> filter_rule list" where
  "kept_rules env st rs = filter (\<lambda>r. 0 \<le> elide env (snd (rule_of st r))) rs"

definition sent_rules :: "filter_env \<Rightarrow> (string \<times> rflag set) list \<Rightarrow> (string \<times> rflag set) list" where
  "sent_rules env pfs = filter (\<lambda>(p, f). elide env f \<le> 0) pfs"

text \<open>The bytes of a list of rules, and the server that has read them.\<close>

definition received :: "nat \<Rightarrow> filter_env \<Rightarrow> filter_io \<Rightarrow> byte list \<Rightarrow> string list \<Rightarrow> (string \<times> rflag set) list \<Rightarrow> bool" where
  "received n env io bs bases pfs \<longleftrightarrow> (\<forall>l st s. ready l st bases \<longrightarrow>
     (\<exists>l' st'. recv_rules n env io {} (bs @ write_int 0 @ s) l st = Inr (l', st', s) \<and> ready l' st' [] \<and>
       map (rule_of st') (fl_local l') = map (rule_of st) (fl_local l) @ map (arrived env) pfs))"

lemma received_Nil: "received n env io [] bases []"
  unfolding received_def by (subst recv_rules.simps) (auto simp: ready_def)

lemma received_Cons:
  assumes "rule_sendable (p, f)" and "30 \<le> fe_protocol env" and pre: "get_rule_prefix env f p True = Some pre" and "\<not> fi_parent_dirscan io"
    and bases: "set bases \<subseteq> set bases'" "FILTRULE_PERDIR_MERGE \<in> f \<Longrightarrow> base_name p \<in> set bases' \<and> base_name p \<notin> set bases"
    and rest: "received n env' io bs bases pfs"
  shows "received n env' io (rule_bytes f pre p @ bs) bases' ((p, f) # pfs)"
  unfolding received_def
proof (intro allI impI)
  fix l st s
  assume R: "ready l st bases'"
  then have "FILTRULE_PERDIR_MERGE \<in> f \<longrightarrow> (\<forall>j m. slot st j = Some m \<longrightarrow> base_name (mr_pattern m) \<noteq> base_name p)"
    using bases(2) unfolding ready_def by metis
  from recv_rule [OF assms(1-4) this] obtain r st1 where
    p: "parse_filter_str n env' io {} {} (pre @ rule_line p f) l st = Inr (append_rule r l, st1)" and
    r: "rule_of st1 r = arrived env' (p, f)" "live st1 r" and g: "grows st st1" and
    new: "\<And>j m. slot st1 j = Some m \<Longrightarrow> slot st j = Some m \<or> FILTRULE_PERDIR_MERGE \<in> f \<and> mr_pattern m = p" by blast
  have "ready (append_rule r l) st1 bases"
    unfolding ready_def
  proof (intro conjI ballI allI impI)
    show "fl_inherited (append_rule r l) = []" using R by (simp add: ready_def append_rule_def)
    show "live st1 x" if "x \<in> set (fl_local (append_rule r l))" for x
      using that R r(2) growsD [OF g, of x] by (auto simp: ready_def append_rule_def)
    show "base_name (mr_pattern m) \<notin> set bases" if "slot st1 j = Some m" for j m
      using new [OF that] R bases by (auto simp: ready_def)
  qed
  then obtain l' st' where "recv_rules n env' io {} (bs @ write_int 0 @ s) (append_rule r l) st1 = Inr (l', st', s)" "ready l' st' []"
    "map (rule_of st') (fl_local l') = map (rule_of st1) (fl_local (append_rule r l)) @ map (arrived env') pfs"
    using rest unfolding received_def by blast
  moreover have "map (rule_of st1) (fl_local (append_rule r l)) = map (rule_of st) (fl_local l) @ [arrived env' (p, f)]"
    using R r(1) growsD [OF g] by (auto simp: ready_def append_rule_def)
  ultimately show "\<exists>l' st'. recv_rules n env' io {} ((rule_bytes f pre p @ bs) @ write_int 0 @ s) l st = Inr (l', st', s) \<and> ready l' st' [] \<and>
      map (rule_of st') (fl_local l') = map (rule_of st) (fl_local l) @ map (arrived env') ((p, f) # pfs)"
    using rule_line_bytes [OF assms(1-3)] p by simp
qed

lemma send_loop_received:
  assumes pv: "30 \<le> fe_protocol env" and io: "\<not> fi_parent_dirscan io"
    and "\<forall>r \<in> set rs. live st r \<and> rule_sendable (rule_of st r)" and "distinct (merge_bases (map (rule_of st) rs))"
  shows "\<exists>bs. send_loop cvs env True rs st = Inr (bs, kept_rules env st rs, st) \<and>
    received n env' io bs (merge_bases (map (rule_of st) rs)) (sent_rules env (map (rule_of st) rs))"
  using assms(3,4)
proof (induction rs)
  case Nil
  then show ?case using received_Nil by (simp add: kept_rules_def sent_rules_def merge_bases_def)
next
  case (Cons r rs)
  obtain p f where pf: "rule_of st r = (p, f)" by (cases "rule_of st r")
  then obtain u where d: "deref st r = Some (p, f, u)" using Cons.prems(1) by (auto simp: live_def rule_of_def)
  have s: "rule_sendable (p, f)" using Cons.prems(1) pf by simp
  have ncvs: "\<not> (FILTRULE_CVS_IGNORE \<in> f \<and> FILTRULE_MERGE_FILE \<notin> f)" using s by (auto simp: rule_sendable_def)
  have "distinct (merge_bases (map (rule_of st) rs))" using Cons.prems(2) by (auto simp: merge_bases_def split: if_splits)
  then obtain bs where bs: "send_loop cvs env True rs st = Inr (bs, kept_rules env st rs, st)"
    "received n env' io bs (merge_bases (map (rule_of st) rs)) (sent_rules env (map (rule_of st) rs))"
    using Cons by fastforce
  obtain pre where pre: "get_rule_prefix env f p True = Some pre" using get_rule_prefix_Some [OF pv] by blast
  have bases: "set (merge_bases (map (rule_of st) rs)) \<subseteq> set (merge_bases (map (rule_of st) (r # rs)))"
    "FILTRULE_PERDIR_MERGE \<in> f \<Longrightarrow> base_name p \<in> set (merge_bases (map (rule_of st) (r # rs))) \<and> base_name p \<notin> set (merge_bases (map (rule_of st) rs))"
    using Cons.prems(2) pf by (auto simp: merge_bases_def)
  show ?case
  proof (cases "0 < elide env f")
    case True
    have "received n env' io bs (merge_bases (map (rule_of st) (r # rs))) (sent_rules env (map (rule_of st) rs))"
      using bs(2) bases(1) unfolding received_def ready_def by blast
    then show ?thesis using True bs(1) d pf by (simp add: kept_rules_def sent_rules_def Let_def)
  next
    case False
    have "received n env' io (rule_bytes f pre p @ bs) (merge_bases (map (rule_of st) (r # rs))) ((p, f) # sent_rules env (map (rule_of st) rs))"
      using received_Cons [OF s pv pre io bases bs(2)] by blast
    then show ?thesis using False bs(1) d pf pre ncvs by (auto simp: kept_rules_def sent_rules_def Let_def)
  qed
qed

section \<open>The two ends\<close>

text \<open>
  The side where a rule applies: a rule for no side applies to both, with delete_excluded to the
  sender only, unless it merges files whose rules say it themselves.
\<close>

definition applies :: "bool \<Rightarrow> bool \<Rightarrow> rflag set \<Rightarrow> bool" where
  "applies sender del_excl f \<longleftrightarrow>
     (if sender then FILTRULE_SENDER_SIDE \<in> f \<or> FILTRULE_RECEIVER_SIDE \<notin> f
      else FILTRULE_RECEIVER_SIDE \<in> f \<or>
        FILTRULE_SENDER_SIDE \<notin> f \<and> \<not> (del_excl \<and> (FILTRULE_PERDIR_MERGE \<notin> f \<or> FILTRULE_NO_PREFIXES \<in> f)))"

lemma elide_applies:
  "0 \<le> elide env f \<longleftrightarrow> applies (fe_am_sender env) (fe_delete_excluded env) f"
  "elide env f \<le> 0 \<longleftrightarrow> applies (\<not> fe_am_sender env) (fe_delete_excluded env) f"
  by (auto simp: elide_def applies_def Let_def)

lemma rule_of_PerDir: "slot st i = Some m \<Longrightarrow> rule_of st (PerDir i) = (mr_pattern m, mr_rflags m)"
  by (simp add: rule_of_def)

lemma distinct_bases:
  assumes "slots_inv D (slot st)" and "list_all list_rule rs" and "distinct (perdirs rs)" and "\<forall>i \<in> set (perdirs rs). slot st i \<noteq> None"
  shows "distinct (merge_bases (map (rule_of st) rs)) \<and>
    set (merge_bases (map (rule_of st) rs)) = (\<lambda>i. base_name (mr_pattern (the (slot st i)))) ` set (perdirs rs)"
  using assms(2-4)
proof (induction rs rule: perdirs.induct)
  case (2 p f n rs)
  then show ?case by (simp add: list_rule_def merge_bases_def rule_of_def)
next
  case (3 i rs)
  let ?b = "\<lambda>i. base_name (mr_pattern (the (slot st i)))"
  obtain m where m: "slot st i = Some m" using 3(4) by auto
  then have "FILTRULE_PERDIR_MERGE \<in> mr_rflags m" using assms(1) by (auto simp: slots_inv_def)
  then have b: "merge_bases (map (rule_of st) (PerDir i # rs)) = ?b i # merge_bases (map (rule_of st) rs)"
    using m by (simp add: merge_bases_def rule_of_PerDir)
  have "?b i \<notin> ?b ` set (perdirs rs)"
  proof
    assume "?b i \<in> ?b ` set (perdirs rs)"
    then obtain j where j: "j \<in> set (perdirs rs)" "?b i = ?b j" by blast
    then obtain m' where "slot st j = Some m'" using 3(4) by auto
    then have "i = j" using assms(1) m j(2) unfolding slots_inv_def by (metis option.sel)
    then show False using j(1) 3(3) by simp
  qed
  then show ?case using 3 unfolding b by simp
qed (simp add: merge_bases_def)

lemma in_perdirs: "PerDir i \<in> set rs \<longleftrightarrow> i \<in> set (perdirs rs)"
  by (induction rs rule: perdirs.induct) auto

lemma inv_sendable:
  assumes "filter_inv {} l st" and "r \<in> set (fl_head l)"
  shows "live st r" "\<exists>n. stored (fst (rule_of st r)) (snd (rule_of st r)) n"
proof -
  have lr: "list_rule r" using assms by (auto simp: filter_inv_def list_all_iff)
  show "live st r"
  proof (cases r)
    case (PerDir i)
    then have "i \<in> set (perdirs (fl_head l))" using assms(2) in_perdirs by simp
    then show ?thesis using assms(1) PerDir by (auto simp: filter_inv_def live_def)
  qed (simp add: live_def)
  then show "\<exists>n. stored (fst (rule_of st r)) (snd (rule_of st r)) n"
    using assms(1) lr by (cases r) (auto simp: live_def rule_of_def list_rule_def filter_inv_def slots_inv_def merge_stored_def)
qed

text \<open>C14: The filter rules reach the side where they apply. From a filter list as the parser builds it, of rules
  with patterns and without the CVS list, the client's send_filter_list returns (it never meets a
  freed rule or one that the prefix cannot say), keeps the rules that apply to its own side, in
  order, and writes the ones that apply to the other; recv_filter_list at the server reads
  exactly these bytes and has exactly these rules, in order, with the same patterns and flags
  (and, with delete_excluded, the mark that a rule for no side is now one for the sender).\<close>

theorem filter_list_arrives:
  assumes inv: "filter_inv {} l st" and rules: "\<forall>r \<in> set (fl_head l). case rule_of st r of (p, f) \<Rightarrow> p \<noteq> [] \<and> (FILTRULE_CVS_IGNORE \<in> f \<longrightarrow> FILTRULE_MERGE_FILE \<in> f)"
    and pv: "30 \<le> fe_protocol env" "fe_protocol env' = fe_protocol env"
    and sides: "fe_am_sender env' = (\<not> fe_am_sender env)" "fe_delete_excluded env' = fe_delete_excluded env"
    and wanted: "fe_am_sender env \<Longrightarrow> receiver_wants_list env opts"
    and io: "\<not> fi_local_server io" "\<not> fi_cvs_exclude io" "\<not> fi_local_server io'" "\<not> fi_cvs_exclude io'" "\<not> fi_parent_dirscan io'"
  shows "\<exists>bs kept l' st'. send_filter_list n env io opts l st = Inr (bs, \<lparr>fl_local = kept, fl_inherited = []\<rparr>, st) \<and>
    kept = filter (\<lambda>r. applies (fe_am_sender env) (fe_delete_excluded env) (snd (rule_of st r))) (fl_head l) \<and>
    recv_filter_list n' env' io' opts (bs @ s) empty_list filter_start = Inr (l', st', s) \<and>
    map (rule_of st') (fl_head l') =
      map (arrived env') (filter (\<lambda>(p, f). applies (fe_am_sender env') (fe_delete_excluded env) f) (map (rule_of st) (fl_head l)))"
proof -
  have "\<forall>r \<in> set (fl_head l). live st r \<and> rule_sendable (rule_of st r)"
    using inv_sendable [OF inv] rules by (fastforce simp: rule_sendable_def)
  moreover have "distinct (merge_bases (map (rule_of st) (fl_head l)))"
    using distinct_bases [of "{}" st "fl_head l"] inv by (simp add: filter_inv_def)
  ultimately obtain bs where bs: "send_loop (send_cvs_rules env) env True (fl_head l) st = Inr (bs, kept_rules env st (fl_head l), st)"
    "received n' env' io' bs (merge_bases (map (rule_of st) (fl_head l))) (sent_rules env (map (rule_of st) (fl_head l)))"
    using send_loop_received [OF pv(1) io(5)] by blast
  have "ready empty_list filter_start (merge_bases (map (rule_of st) (fl_head l)))"
    by (simp add: ready_def empty_list_def filter_start_def slot_def)
  then obtain l' st' where r: "recv_rules n' env' io' {} (bs @ write_int 0 @ s) empty_list filter_start = Inr (l', st', s)" "ready l' st' []"
    "map (rule_of st') (fl_local l') = map (arrived env') (sent_rules env (map (rule_of st) (fl_head l)))"
    using bs(2) unfolding received_def by (fastforce simp: empty_list_def)
  have w: "fe_am_sender env' \<or> receiver_wants_list env' opts" using wanted sides pv by (auto simp: receiver_wants_list_def)
  have "send_filter_list n env io opts l st = Inr (bs @ write_int 0, \<lparr>fl_local = kept_rules env st (fl_head l), fl_inherited = []\<rparr>, st)"
    using bs(1) io(1,2) wanted by (auto simp: send_filter_list_def send_rules_def add_str_def Let_def)
  moreover have "recv_filter_list n' env' io' opts ((bs @ write_int 0) @ s) empty_list filter_start = Inr (l', st', s)"
    using r(1) w pv io(3,4) by (simp add: recv_filter_list_def add_str_def Let_def)
  moreover have "map (rule_of st') (fl_head l') = map (arrived env') (filter (\<lambda>(p, f). applies (fe_am_sender env') (fe_delete_excluded env) f) (map (rule_of st) (fl_head l)))"
    using r(2,3) sides(1) by (simp add: ready_def fl_head_def sent_rules_def elide_applies)
  ultimately show ?thesis unfolding kept_rules_def elide_applies by blast
qed

definition sample_filter_list :: filter_rule_list where
  "sample_filter_list = \<lparr>fl_local = [Rule ''*.c'' {FILTRULE_INCLUDE, FILTRULE_WILD} 0, Rule ''tmp'' {FILTRULE_RECEIVER_SIDE, FILTRULE_DIRECTORY} 0], fl_inherited = []\<rparr>"

lemma sample_filter_list_inv: "filter_inv {} sample_filter_list filter_start"
  by (simp add: sample_filter_list_def filter_inv_def fl_head_def filter_start_def slots_inv_def slot_def cvs_stored_def empty_list_def
    list_rule_def stored_def pattern_flags_ok_def wild_flags_def WILD_FLAGS_def c_slash_def wire_flags_def MAXPATHLEN_def NUL_def)

theorem filter_list_arrives_witness:
  "\<exists>bs l' st'. send_filter_list 0 sample_fenv sample_io \<lparr>fo_prune_empty_dirs = True, fo_delete_mode = False\<rparr> sample_filter_list filter_start =
      Inr (bs, \<lparr>fl_local = [Rule ''*.c'' {FILTRULE_INCLUDE, FILTRULE_WILD} 0], fl_inherited = []\<rparr>, filter_start) \<and>
    recv_filter_list 0 (sample_fenv\<lparr>fe_am_sender := False\<rparr>) sample_io \<lparr>fo_prune_empty_dirs = True, fo_delete_mode = False\<rparr> bs empty_list filter_start =
      Inr (l', st', []) \<and>
    map (rule_of st') (fl_head l') = [(''*.c'', {FILTRULE_INCLUDE, FILTRULE_WILD}), (''tmp'', {FILTRULE_RECEIVER_SIDE, FILTRULE_DIRECTORY})]"
  using filter_list_arrives [OF sample_filter_list_inv, where env = sample_fenv and env' = "sample_fenv\<lparr>fe_am_sender := False\<rparr>" and
    opts = "\<lparr>fo_prune_empty_dirs = True, fo_delete_mode = False\<rparr>" and io = sample_io and io' = sample_io and n = 0 and n' = 0 and s = "[]"]
  by (simp add: sample_filter_list_def fl_head_def rule_of_def sample_fenv_def sample_io_def receiver_wants_list_def applies_def arrived_def)

end
