(* ===== verification/HashTable.thy ===== *)
theory HashTable
  imports Byteorder
begin

text \<open>
  The hash tables of hashtable.c, which hlink.c, xattrs.c and generator.c use: open addressing
  with linear probing in an array whose size is a power of two, doubled when it is three quarters
  full. A table implements a map from its keys to their data.

  A node is its key, as HT_KEY reads it, and its data; the key 0 marks a free node. A pointer to
  a node is its index.
\<close>

section \<open>Tables\<close>

text \<open>The data of a node: NULL, the empty string that callers use as data_when_new, or their own.\<close>

datatype 'd ht_data = Null | Mark | Data 'd

type_synonym 'd ht_node = "int64 \<times> 'd ht_data"

record 'd hashtable =
  ht_nodes :: "'d ht_node list"
  ht_size :: nat
  ht_entries :: nat
  ht_key64 :: bool

definition HASH_LOAD_LIMIT :: "nat \<Rightarrow> nat" where
  "HASH_LOAD_LIMIT sz = sz * 3 div 4"

text \<open>The smallest power of two that is at least 16 and the requested size.\<close>

function create_size :: "nat \<Rightarrow> nat \<Rightarrow> nat" where
  "create_size sz req = (if 0 < sz \<and> sz < req then create_size (sz * 2) req else sz)"
  by pat_completeness auto
termination
  by (relation "measure (\<lambda>(sz, req). req - sz)") auto

declare create_size.simps [simp del]

definition hashtable_create :: "int32 \<Rightarrow> bool \<Rightarrow> 'd hashtable" where
  "hashtable_create sz key64 =
     (let n = (if sz AND (sz - 1) \<noteq> 0 \<or> sint sz < 16 then create_size 16 (nat (sint sz)) else unat sz) in
      \<lparr>ht_nodes = replicate n (0, Null), ht_size = n, ht_entries = 0, ht_key64 = key64\<rparr>)"

section \<open>Hashing\<close>

text \<open>The one-at-a-time hash of the four bytes of a 32-bit key.\<close>

definition hash_step :: "uint32 \<Rightarrow> byte \<Rightarrow> uint32" where
  "hash_step ndx b =
     (let ndx = ndx + ucast b; ndx = ndx + push_bit 10 ndx in ndx XOR drop_bit 6 ndx)"

definition hash32 :: "int64 \<Rightarrow> uint32" where
  "hash32 key =
     (let ndx = foldl hash_step 0 (SIVALu (replicate 4 0) 0 (ucast key));
          ndx = ndx + push_bit 3 ndx;
          ndx = ndx XOR drop_bit 11 ndx
      in ndx + push_bit 15 ndx)"

definition rot :: "uint32 \<Rightarrow> nat \<Rightarrow> uint32" where
  "rot x k = push_bit k x XOR drop_bit (32 - k) x"

text \<open>The mixing steps that hashtable_find has written out.\<close>

definition hash_final :: "uint32 \<Rightarrow> uint32 \<Rightarrow> uint32 \<Rightarrow> uint32" where
  "hash_final a b c =
     (let c = (c XOR b) - rot b 14;
          a = (a XOR c) - rot c 11;
          b = (b XOR a) - rot a 25;
          c = (c XOR b) - rot b 16;
          a = (a XOR c) - rot c 4;
          b = (b XOR a) - rot a 14
      in (c XOR b) - rot b 24)"

definition hash64 :: "int64 \<Rightarrow> uint32" where
  "hash64 key = (let i = 0xdeadbeef + 32 in hash_final (i + ucast key) (i + ucast (drop_bit 32 key)) i)"

definition ht_hash :: "bool \<Rightarrow> int64 \<Rightarrow> uint32" where
  "ht_hash key64 key = (if key64 then hash64 key else hash32 key)"

section \<open>hashtable_find\<close>

text \<open>
  The loop over the nodes from the hash on: the index of the key or of a free node. After as
  many steps as there are nodes it has seen them all, and goes on for ever: no result.
\<close>

fun probe :: "nat \<Rightarrow> 'd ht_node list \<Rightarrow> nat \<Rightarrow> int64 \<Rightarrow> uint32 \<Rightarrow> nat option" where
  "probe 0 nodes sz key ndx = None"
| "probe (Suc n) nodes sz key ndx =
     (let ndx = ndx AND (word_of_nat sz - 1);
          nkey = fst (nodes ! unat ndx) in
      if nkey = key \<or> nkey = 0 then Some (unat ndx) else probe n nodes sz key (ndx + 1))"

text \<open>The key that a node keeps: 32 bits of it, sign-extended when read, or all of it.\<close>

definition node_key :: "bool \<Rightarrow> int64 \<Rightarrow> int64" where
  "node_key key64 key = (if key64 then key else scast (ucast key :: int32))"

text \<open>The nodes of the old array, from the last to the first, are put into the new one.\<close>

fun move_nodes :: "('d hashtable \<Rightarrow> int64 \<Rightarrow> 'd ht_data \<Rightarrow> (nat option \<times> 'd hashtable) result option) \<Rightarrow>
    'd ht_node list \<Rightarrow> 'd hashtable \<Rightarrow> 'd hashtable result option" where
  "move_nodes fnd [] tbl = Some (Inr tbl)"
| "move_nodes fnd ((key, data) # nodes) tbl =
     (if key = 0 then move_nodes fnd nodes tbl
      else case fnd tbl key (if data \<noteq> Null then data else Mark) of
        None \<Rightarrow> None
      | Some (Inl e) \<Rightarrow> Some (Inl e)
      | Some (Inr (None, tbl)) \<Rightarrow> None
      | Some (Inr (Some i, tbl)) \<Rightarrow>
          move_nodes fnd nodes (if data \<noteq> Null then tbl else tbl\<lparr>ht_nodes := (ht_nodes tbl)[i := (key, Null)]\<rparr>))"

text \<open>
  hashtable_find calls itself to fill a larger table; the first argument bounds the nesting. No
  result means that the bound was too small or that the loop does not end.
\<close>

primrec hashtable_find :: "nat \<Rightarrow> 'd hashtable \<Rightarrow> int64 \<Rightarrow> 'd ht_data \<Rightarrow> (nat option \<times> 'd hashtable) result option" where
  "hashtable_find 0 = (\<lambda>tbl key data_when_new. None)"
| "hashtable_find (Suc n) = (\<lambda>tbl key data_when_new.
     if (if ht_key64 tbl then key = 0 else (ucast key :: int32) = 0) then Some (Inl RERR_MESSAGEIO)
     else
       case (if data_when_new \<noteq> Null \<and> HASH_LOAD_LIMIT (ht_size tbl) < ht_entries tbl
             then move_nodes (hashtable_find n) (rev (ht_nodes tbl))
               (tbl\<lparr>ht_nodes := replicate (ht_size tbl * 2) (0, Null), ht_size := ht_size tbl * 2, ht_entries := 0\<rparr>)
             else Some (Inr tbl)) of
         None \<Rightarrow> None
       | Some (Inl e) \<Rightarrow> Some (Inl e)
       | Some (Inr tbl) \<Rightarrow>
           (case probe (ht_size tbl) (ht_nodes tbl) (ht_size tbl) key (ht_hash (ht_key64 tbl) key) of
              None \<Rightarrow> None
            | Some i \<Rightarrow>
                if fst (ht_nodes tbl ! i) = key then Some (Inr (Some i, tbl))
                else if data_when_new = Null then Some (Inr (None, tbl))
                else Some (Inr (Some i, tbl\<lparr>ht_nodes := (ht_nodes tbl)[i := (node_key (ht_key64 tbl) key, data_when_new)],
                  ht_entries := ht_entries tbl + 1\<rparr>))))"

section \<open>Linear probing\<close>

text \<open>The index j steps after the hash of a key in an array of a given size.\<close>

definition nth_probe :: "nat \<Rightarrow> uint32 \<Rightarrow> nat \<Rightarrow> nat" where
  "nth_probe sz h j = (unat h + j) mod sz"

text \<open>The size is a power of two that an int can hold three times.\<close>

definition size_ok :: "nat \<Rightarrow> bool" where
  "size_ok sz \<longleftrightarrow> (\<exists>n. 4 \<le> n \<and> n \<le> 29 \<and> sz = 2 ^ n)"

lemma size_okD: "size_ok sz \<Longrightarrow> 16 \<le> sz \<and> sz \<le> 2 ^ 29"
proof -
  assume "size_ok sz"
  then obtain n where n: "4 \<le> n" "n \<le> 29" "sz = 2 ^ n" by (auto simp: size_ok_def)
  have "(2::nat) ^ 4 \<le> 2 ^ n" "(2::nat) ^ n \<le> 2 ^ 29" using n(1,2) by (simp_all only: power_increasing)
  then show ?thesis using n(3) by simp
qed

lemma masked_index:
  assumes "size_ok sz"
  shows "unat ((h :: uint32) AND (word_of_nat sz - 1)) = unat h mod sz"
proof -
  obtain n where n: "n \<le> 29" "sz = 2 ^ n" using assms by (auto simp: size_ok_def)
  have "(word_of_nat sz - 1 :: uint32) = mask n" by (simp add: n(2) mask_eq_exp_minus_1)
  then have "h AND (word_of_nat sz - 1) = take_bit n h" by (simp add: take_bit_eq_mask)
  then have "unat (h AND (word_of_nat sz - 1)) = take_bit n (unat h)" by (simp only: unsigned_take_bit_eq)
  then show ?thesis by (simp add: n(2) take_bit_eq_mod)
qed

lemma nth_probe_less: "0 < sz \<Longrightarrow> nth_probe sz h j < sz"
  by (simp add: nth_probe_def)

text \<open>The probe stops at the first index, in this order, that is free or has the key.\<close>

lemma probe_first:
  assumes "size_ok sz" and "unat ndx mod sz = nth_probe sz h i" and "i \<le> j" and "j < i + n"
    and "fst (nodes ! nth_probe sz h j) \<in> {key, 0}" and "\<And>k. i \<le> k \<Longrightarrow> k < j \<Longrightarrow> fst (nodes ! nth_probe sz h k) \<notin> {key, 0}"
  shows "probe n nodes sz key ndx = Some (nth_probe sz h j)"
  using assms(2-4,6)
proof (induction n arbitrary: i ndx)
  case (Suc n)
  let ?m = "ndx AND (word_of_nat sz - 1)"
  have m: "unat ?m = nth_probe sz h i" using masked_index [OF assms(1)] Suc.prems(1) by simp
  show ?case
  proof (cases "i = j")
    case True
    then show ?thesis using m assms(5) by (auto simp: Let_def)
  next
    case False
    have "nth_probe sz h i < 2 ^ 29" using size_okD [OF assms(1)] nth_probe_less [of sz h i] by linarith
    then have "unat (?m + 1) = nth_probe sz h i + 1" by (subst unat_plus_if_size) (simp add: m word_size)
    then have "unat (?m + 1) mod sz = nth_probe sz h (Suc i)" by (simp add: nth_probe_def mod_Suc_eq)
    moreover have "fst (nodes ! nth_probe sz h i) \<notin> {key, 0}" using Suc.prems(2,4) False by simp
    ultimately show ?thesis using Suc.IH [of "?m + 1" "Suc i"] Suc.prems False m by (simp add: Let_def)
  qed
qed simp

text \<open>Every index is probed at some step below the size.\<close>

lemma nth_probe_onto:
  assumes "i < sz"
  shows "\<exists>j. j < sz \<and> nth_probe sz h j = i"
proof -
  let ?h = "unat h mod sz"
  have h: "?h < sz" using assms by simp
  have "(unat h + (sz - ?h + i) mod sz) mod sz = (?h + (sz - ?h + i)) mod sz" by (metis mod_add_left_eq mod_add_right_eq)
  also have "?h + (sz - ?h + i) = sz + i" using h by simp
  also have "(sz + i) mod sz = i" using assms by simp
  finally show ?thesis using assms unfolding nth_probe_def by (intro exI [of _ "(sz - ?h + i) mod sz"]) simp
qed

section \<open>The invariant\<close>

text \<open>A node is found from its hash: the nodes probed before it are taken.\<close>

definition reached :: "'d ht_node list \<Rightarrow> nat \<Rightarrow> uint32 \<Rightarrow> nat \<Rightarrow> bool" where
  "reached nodes sz h i \<longleftrightarrow> (\<exists>j. j < sz \<and> nth_probe sz h j = i \<and> (\<forall>k<j. fst (nodes ! nth_probe sz h k) \<noteq> 0))"

definition used :: "'d ht_node list \<Rightarrow> 'd ht_node list" where
  "used nodes = filter (\<lambda>(k, d). k \<noteq> 0) nodes"

definition nodes_ok :: "bool \<Rightarrow> nat \<Rightarrow> 'd ht_node list \<Rightarrow> bool" where
  "nodes_ok key64 sz nodes \<longleftrightarrow> size_ok sz \<and> length nodes = sz \<and> distinct (map fst (used nodes)) \<and>
     (\<forall>i < sz. fst (nodes ! i) \<noteq> 0 \<longrightarrow> reached nodes sz (ht_hash key64 (fst (nodes ! i))) i)"

definition ht_ok :: "'d hashtable \<Rightarrow> bool" where
  "ht_ok t \<longleftrightarrow> nodes_ok (ht_key64 t) (ht_size t) (ht_nodes t) \<and> ht_entries t = length (used (ht_nodes t)) \<and>
     ht_entries t \<le> HASH_LOAD_LIMIT (ht_size t) + 1 \<and> list_all (\<lambda>(k, d). node_key (ht_key64 t) k = k) (ht_nodes t)"

text \<open>The map of a table.\<close>

definition ht_map :: "'d hashtable \<Rightarrow> int64 \<Rightarrow> 'd ht_data option" where
  "ht_map t = map_of (used (ht_nodes t))"

lemma used_mem: "(k, d) \<in> set (used nodes) \<longleftrightarrow> k \<noteq> 0 \<and> (\<exists>i < length nodes. nodes ! i = (k, d))"
  by (auto simp: used_def in_set_conv_nth)

text \<open>A table that is not full has a free node.\<close>

lemma free_node:
  assumes "length (used nodes) < length nodes"
  shows "\<exists>i < length nodes. fst (nodes ! i) = 0"
proof (rule ccontr)
  assume "\<not> ?thesis"
  then have "\<forall>x \<in> set nodes. fst x \<noteq> 0" by (metis in_set_conv_nth)
  then have "used nodes = nodes" unfolding used_def by (intro filter_True) auto
  then show False using assms by simp
qed

text \<open>Distinct keys stand at distinct indices.\<close>

lemma index_unique:
  assumes "distinct (map fst (used nodes))" and "i < length nodes" and "j < length nodes" and "fst (nodes ! i) = fst (nodes ! j)" and "fst (nodes ! i) \<noteq> 0"
  shows "i = j"
  using assms
proof (induction nodes arbitrary: i j)
  case (Cons x nodes)
  have d: "distinct (map fst (used nodes))" using Cons.prems(1) by (auto simp: used_def split: if_splits)
  have x: "fst x \<noteq> 0 \<Longrightarrow> fst x \<noteq> fst (nodes ! k)" if "k < length nodes" for k
  proof
    assume "fst x \<noteq> 0" "fst x = fst (nodes ! k)"
    then have "fst x \<in> fst ` set (used nodes)" using that unfolding used_def by (force simp: in_set_conv_nth)
    then show False using Cons.prems(1) \<open>fst x \<noteq> 0\<close> by (cases x) (auto simp: used_def)
  qed
  show ?case
  proof (cases i)
    case 0
    then show ?thesis using Cons.prems x [of "j - 1"] by (cases j) auto
  next
    case (Suc i')
    then show ?thesis using Cons.prems x [of i'] Cons.IH [OF d, of i' "j - 1"] by (cases j) auto
  qed
qed simp

text \<open>What the probe finds: the node of the key, or the free node where it belongs.\<close>

lemma probe_finds:
  assumes ok: "nodes_ok key64 sz nodes" and full: "length (used nodes) < sz" and key: "key \<noteq> 0"
  obtains i where "probe sz nodes sz key (ht_hash key64 key) = Some i" "i < sz"
    "(\<exists>m < sz. fst (nodes ! m) = key) \<longrightarrow> fst (nodes ! i) = key"
    "\<not> (\<exists>m < sz. fst (nodes ! m) = key) \<longrightarrow> fst (nodes ! i) = 0 \<and> reached nodes sz (ht_hash key64 key) i"
proof -
  let ?h = "ht_hash key64 key"
  let ?stop = "\<lambda>j. fst (nodes ! nth_probe sz ?h j) \<in> {key, 0}"
  have sz: "size_ok sz" "length nodes = sz" using ok by (simp_all add: nodes_ok_def)
  obtain e where "e < sz" "fst (nodes ! e) = 0" using free_node full sz(2) by metis
  then obtain j0 where "j0 < sz" "?stop j0" using nth_probe_onto [of e sz ?h] by auto
  define j where "j = (LEAST j. ?stop j)"
  have j: "?stop j" "j \<le> j0" "\<And>k. k < j \<Longrightarrow> \<not> ?stop k"
    unfolding j_def by (rule LeastI [of ?stop, OF \<open>?stop j0\<close>], rule Least_le [of ?stop, OF \<open>?stop j0\<close>], rule not_less_Least)
  let ?i = "nth_probe sz ?h j"
  have i: "?i < sz" using nth_probe_less size_okD [OF sz(1)] by simp
  have p: "probe sz nodes sz key ?h = Some ?i"
    using probe_first [OF sz(1), of ?h ?h 0 j sz nodes key] j \<open>j0 < sz\<close> by (simp add: nth_probe_def)
  have r: "reached nodes sz ?h ?i" unfolding reached_def using j \<open>j0 < sz\<close> by (intro exI [of _ j]) auto
  show ?thesis
  proof (rule that [OF p i]; rule impI)
    assume "\<exists>m < sz. fst (nodes ! m) = key"
    then obtain m where m: "m < sz" "fst (nodes ! m) = key" by blast
    then obtain q where q: "q < sz" "nth_probe sz ?h q = m" "\<forall>k<q. fst (nodes ! nth_probe sz ?h k) \<noteq> 0"
      using ok key by (auto simp: nodes_ok_def reached_def)
    have "j \<le> q" using j(3) [of q] q(2) m(2) by (metis insertI1 not_le)
    show "fst (nodes ! ?i) = key"
      using j(1) q(2,3) m(2) \<open>j \<le> q\<close> by (cases "j = q") auto
  next
    assume "\<not> (\<exists>m < sz. fst (nodes ! m) = key)"
    then show "fst (nodes ! ?i) = 0 \<and> reached nodes sz ?h ?i" using j(1) i r by auto
  qed
qed

text \<open>Taking a free node, and changing the data of a node.\<close>

lemma nodes_split: "i < length nodes \<Longrightarrow> nodes = take i nodes @ nodes ! i # drop (Suc i) nodes"
  by (simp add: id_take_nth_drop)

lemma used_append [simp]: "used [] = []" "used (xs @ ys) = used xs @ used ys" "used (x # ys) = (if fst x = 0 then used ys else x # used ys)"
  by (auto simp: used_def)

lemma map_of_mid: "key \<notin> fst ` set xs \<Longrightarrow> map_of (xs @ (key, d) # ys) = (map_of (xs @ ys))(key \<mapsto> d)"
  by (induction xs) (auto simp: fun_upd_twist)

lemma take_node:
  assumes ok: "nodes_ok key64 sz nodes" and key: "key \<noteq> 0" "\<not> (\<exists>m < sz. fst (nodes ! m) = key)"
    and i: "i < sz" "fst (nodes ! i) = 0" "reached nodes sz (ht_hash key64 key) i"
  shows "nodes_ok key64 sz (nodes[i := (key, d)])" "length (used (nodes[i := (key, d)])) = length (used nodes) + 1"
    "map_of (used (nodes[i := (key, d)])) = (map_of (used nodes))(key \<mapsto> d)"
proof -
  let ?new = "nodes[i := (key, d)]" and ?xs = "used (take i nodes)" and ?ys = "used (drop (Suc i) nodes)"
  have len: "length nodes = sz" using ok by (simp add: nodes_ok_def)
  have old: "used nodes = ?xs @ ?ys"
    using nodes_split [of i nodes] i(1,2) len used_append by (metis append_Nil)
  have new: "used ?new = ?xs @ (key, d) # ?ys" using i(1) len key(1) by (simp add: upd_conv_take_nth_drop)
  have "key \<notin> fst ` set (used nodes)" using key len unfolding used_def by (force simp: in_set_conv_nth)
  then have k: "key \<notin> fst ` set ?xs" "key \<notin> fst ` set ?ys" by (auto simp: old)
  show "length (used ?new) = length (used nodes) + 1" by (simp add: old new)
  show "map_of (used ?new) = (map_of (used nodes))(key \<mapsto> d)" unfolding old new map_of_mid [OF k(1)] by simp
  have "distinct (map fst (used ?new))" using ok k unfolding nodes_ok_def new old by auto
  moreover have taken: "fst (?new ! m) \<noteq> 0" if "fst (nodes ! m) \<noteq> 0" for m using that key(1) i(1) len by (cases "m = i") auto
  have "reached ?new sz h m" if "reached nodes sz h m" for h m
    using that taken unfolding reached_def by blast
  then have "reached ?new sz (ht_hash key64 (fst (?new ! m))) m" if "m < sz" "fst (?new ! m) \<noteq> 0" for m
    using that i ok len by (cases "m = i") (auto simp: nodes_ok_def)
  ultimately show "nodes_ok key64 sz ?new" using ok by (simp add: nodes_ok_def)
qed

lemma set_data:
  assumes ok: "nodes_ok key64 sz nodes" and i: "i < sz" "fst (nodes ! i) = key" "key \<noteq> 0"
  shows "nodes_ok key64 sz (nodes[i := (key, d)])" "length (used (nodes[i := (key, d)])) = length (used nodes)"
    "map_of (used (nodes[i := (key, d)])) = (map_of (used nodes))(key \<mapsto> d)"
proof -
  let ?new = "nodes[i := (key, d)]" and ?xs = "used (take i nodes)" and ?ys = "used (drop (Suc i) nodes)"
  have len: "length nodes = sz" using ok by (simp add: nodes_ok_def)
  obtain d0 where d0: "nodes ! i = (key, d0)" using i(2) by (cases "nodes ! i") auto
  have old: "used nodes = ?xs @ (key, d0) # ?ys"
    using nodes_split [of i nodes] i(1,3) len d0 used_append by (metis fst_conv)
  have new: "used ?new = ?xs @ (key, d) # ?ys" using i(1,3) len by (simp add: upd_conv_take_nth_drop)
  have "distinct (map fst (used nodes))" using ok by (simp add: nodes_ok_def)
  then have k: "key \<notin> fst ` set ?xs" "key \<notin> fst ` set ?ys" by (auto simp: old)
  show "length (used ?new) = length (used nodes)" by (simp add: old new)
  show "map_of (used ?new) = (map_of (used nodes))(key \<mapsto> d)" unfolding old new map_of_mid [OF k(1)] by simp
  have same: "fst (?new ! m) = fst (nodes ! m)" for m using i len by (cases "m = i") auto
  have "map fst (used ?new) = map fst (used nodes)" by (simp add: old new)
  then show "nodes_ok key64 sz ?new" using ok unfolding nodes_ok_def reached_def same by simp
qed

section \<open>A table is a map\<close>

definition key_ok :: "bool \<Rightarrow> int64 \<Rightarrow> bool" where
  "key_ok key64 key \<longleftrightarrow> key \<noteq> 0 \<and> node_key key64 key = key"

text \<open>What hashtable_find promises: the node of the key, with the data it has or the new data.\<close>

definition find_result :: "'d hashtable \<Rightarrow> int64 \<Rightarrow> 'd ht_data \<Rightarrow> nat option \<Rightarrow> 'd hashtable \<Rightarrow> bool" where
  "find_result t key d r t' \<longleftrightarrow> ht_ok t' \<and> ht_key64 t' = ht_key64 t \<and>
     (case ht_map t key of
        Some d0 \<Rightarrow> ht_map t' = ht_map t \<and> ht_entries t' = ht_entries t \<and> (\<exists>i. r = Some i \<and> i < ht_size t' \<and> ht_nodes t' ! i = (key, d0))
      | None \<Rightarrow>
          if d = Null then r = None \<and> t' = t
          else ht_map t' = (ht_map t)(key \<mapsto> d) \<and> ht_entries t' = ht_entries t + 1 \<and> (\<exists>i. r = Some i \<and> i < ht_size t' \<and> ht_nodes t' ! i = (key, d)))"

lemma limit_double: "size_ok sz \<Longrightarrow> HASH_LOAD_LIMIT sz + 1 \<le> HASH_LOAD_LIMIT (sz * 2)"
proof -
  assume "size_ok sz"
  then have "16 \<le> sz" using size_okD by blast
  then have "sz * 3 div 4 + 1 \<le> sz * 2 * 3 div 4" by arith
  then show ?thesis by (simp only: HASH_LOAD_LIMIT_def)
qed

lemma limit_less: "size_ok sz \<Longrightarrow> HASH_LOAD_LIMIT sz + 1 < sz"
  using size_okD [of sz] by (auto simp: HASH_LOAD_LIMIT_def)

lemma ht_map_node:
  assumes "ht_ok t" and "i < ht_size t" and "ht_nodes t ! i = (key, d)" and "key \<noteq> 0"
  shows "ht_map t key = Some d"
proof -
  have "(key, d) \<in> set (used (ht_nodes t))" using assms by (auto simp: used_mem ht_ok_def nodes_ok_def)
  then show ?thesis using assms(1) by (simp add: ht_map_def ht_ok_def nodes_ok_def)
qed

lemma ht_map_None:
  assumes "ht_ok t" and "key \<noteq> 0"
  shows "ht_map t key = None \<longleftrightarrow> \<not> (\<exists>m < ht_size t. fst (ht_nodes t ! m) = key)"
proof -
  have "ht_size t = length (ht_nodes t)" using assms(1) by (simp add: ht_ok_def nodes_ok_def)
  moreover have "key \<in> fst ` set (used ns) \<longleftrightarrow> (\<exists>m < length ns. fst (ns ! m) = key)" for ns :: "'a ht_node list"
    using assms(2) by (force simp: used_def in_set_conv_nth)
  ultimately show ?thesis by (simp add: ht_map_def map_of_eq_None_iff)
qed

lemma find_stays:
  assumes ok: "ht_ok t" and key: "key_ok (ht_key64 t) key" and room: "d = Null \<or> ht_entries t \<le> HASH_LOAD_LIMIT (ht_size t)"
  shows "\<exists>r t'. hashtable_find (Suc n) t key d = Some (Inr (r, t')) \<and> find_result t key d r t' \<and> ht_size t' = ht_size t"
proof -
  let ?k = "ht_key64 t" and ?sz = "ht_size t" and ?ns = "ht_nodes t"
  have k0: "key \<noteq> 0" and nk: "node_key ?k key = key" using key by (simp_all add: key_ok_def)
  have legal: "\<not> (if ?k then key = 0 else (ucast key :: int32) = 0)" using k0 nk by (auto simp: node_key_def)
  have no: "nodes_ok ?k ?sz ?ns" "ht_entries t = length (used ?ns)" "length (used ?ns) < ?sz"
    using ok limit_less [of ?sz] by (auto simp: ht_ok_def nodes_ok_def)
  obtain i where i: "probe ?sz ?ns ?sz key (ht_hash ?k key) = Some i" "i < ?sz"
    "(\<exists>m < ?sz. fst (?ns ! m) = key) \<longrightarrow> fst (?ns ! i) = key"
    "\<not> (\<exists>m < ?sz. fst (?ns ! m) = key) \<longrightarrow> fst (?ns ! i) = 0 \<and> reached ?ns ?sz (ht_hash ?k key) i"
    using probe_finds [OF no(1,3) k0] .
  have f: "hashtable_find (Suc n) t key d =
      (if fst (?ns ! i) = key then Some (Inr (Some i, t)) else if d = Null then Some (Inr (None, t))
       else Some (Inr (Some i, t\<lparr>ht_nodes := ?ns[i := (key, d)], ht_entries := ht_entries t + 1\<rparr>)))"
    using legal room i(1) nk by (auto simp: not_less)
  show ?thesis
  proof (cases "\<exists>m < ?sz. fst (?ns ! m) = key")
    case True
    then have "fst (?ns ! i) = key" by (rule mp [OF i(3)])
    then obtain d0 where d0: "?ns ! i = (key, d0)" by (cases "?ns ! i") auto
    then have "ht_map t key = Some d0" using ht_map_node [OF ok i(2) _ k0] by simp
    then show ?thesis using f d0 ok i(2) by (simp add: find_result_def)
  next
    case False
    note e = mp [OF i(4) False]
    have none: "ht_map t key = None" using ht_map_None [OF ok k0] False by simp
    have nf: "fst (?ns ! i) \<noteq> key" using e k0 by simp
    show ?thesis
    proof (cases "d = Null")
      case True
      then show ?thesis using f nf none ok by (simp add: find_result_def)
    next
      case dn: False
      define t' where "t' = t\<lparr>ht_nodes := ?ns[i := (key, d)], ht_entries := ht_entries t + 1\<rparr>"
      note T = take_node [OF no(1) k0 False i(2) conjunct1 [OF e] conjunct2 [OF e], of d]
      have "list_all (\<lambda>(k, d). node_key ?k k = k) (?ns[i := (key, d)])"
        using ok nk set_update_subset_insert [of ?ns i "(key, d)"] by (auto simp: ht_ok_def list_all_iff)
      then have "ht_ok t'" using T(1,2) no(2) room dn unfolding t'_def ht_ok_def by simp
      moreover have "ht_map t' = (ht_map t)(key \<mapsto> d)" using T(3) by (simp add: t'_def ht_map_def)
      moreover have "ht_nodes t' ! i = (key, d)" using i(2) no(1) by (simp add: t'_def nodes_ok_def)
      ultimately have "find_result t key d (Some i) t'" using none dn i(2) by (simp add: find_result_def t'_def)
      then show ?thesis using f nf dn by (intro exI [of _ "Some i"] exI [of _ t']) (simp add: t'_def)
    qed
  qed
qed

declare hashtable_find.simps [simp del]

text \<open>The data of a node can be overwritten, as the callers of hashtable_find do.\<close>

definition set_node_data :: "nat \<Rightarrow> 'd ht_data \<Rightarrow> 'd hashtable \<Rightarrow> 'd hashtable" where
  "set_node_data i d t = t\<lparr>ht_nodes := (ht_nodes t)[i := (fst (ht_nodes t ! i), d)]\<rparr>"

lemma set_node_data_sel [simp]:
  "ht_size (set_node_data i d t) = ht_size t" "ht_entries (set_node_data i d t) = ht_entries t" "ht_key64 (set_node_data i d t) = ht_key64 t"
  by (simp_all add: set_node_data_def)

lemma set_node_data_ok:
  assumes ok: "ht_ok t" and i: "i < ht_size t" "fst (ht_nodes t ! i) = key" "key \<noteq> 0"
  shows "ht_ok (set_node_data i d t)" "ht_map (set_node_data i d t) = (ht_map t)(key \<mapsto> d)" "ht_nodes (set_node_data i d t) ! i = (key, d)"
proof -
  have no: "nodes_ok (ht_key64 t) (ht_size t) (ht_nodes t)" and len: "length (ht_nodes t) = ht_size t"
    using ok by (simp_all add: ht_ok_def nodes_ok_def)
  note S = set_data [OF no i, of d]
  have "ht_nodes t ! i \<in> set (ht_nodes t)" using i(1) len by simp
  then have "node_key (ht_key64 t) key = key" using ok i(2) by (auto simp: ht_ok_def list_all_iff)
  then have "list_all (\<lambda>(k, d). node_key (ht_key64 t) k = k) ((ht_nodes t)[i := (key, d)])"
    using ok set_update_subset_insert [of "ht_nodes t" i "(key, d)"] by (auto simp: ht_ok_def list_all_iff)
  then show "ht_ok (set_node_data i d t)" using ok S(1,2) i(2) by (simp add: ht_ok_def set_node_data_def)
  show "ht_map (set_node_data i d t) = (ht_map t)(key \<mapsto> d)" using S(3) i(2) by (simp add: ht_map_def set_node_data_def)
  show "ht_nodes (set_node_data i d t) ! i = (key, d)" using i len by (simp add: set_node_data_def)
qed

section \<open>Growing\<close>

lemma grow_step:
  assumes ok: "ht_ok t" and key: "key_ok (ht_key64 t) key" and new: "ht_map t key = None"
    and room: "ht_entries t \<le> HASH_LOAD_LIMIT (ht_size t)"
  obtains i t1 where "hashtable_find (Suc n) t key (if d \<noteq> Null then d else Mark) = Some (Inr (Some i, t1))"
    "let t2 = (if d \<noteq> Null then t1 else t1\<lparr>ht_nodes := (ht_nodes t1)[i := (key, Null)]\<rparr>) in
     ht_ok t2 \<and> ht_key64 t2 = ht_key64 t \<and> ht_size t2 = ht_size t \<and> ht_entries t2 = Suc (ht_entries t) \<and> ht_map t2 = (ht_map t)(key \<mapsto> d)"
proof -
  let ?d = "if d \<noteq> Null then d else Mark"
  obtain r t1 where f: "hashtable_find (Suc n) t key ?d = Some (Inr (r, t1))" "find_result t key ?d r t1" "ht_size t1 = ht_size t"
    using find_stays [OF ok key, of ?d n] room by blast
  then obtain i where i: "r = Some i" "i < ht_size t1" "ht_nodes t1 ! i = (key, ?d)" and t1: "ht_ok t1" "ht_key64 t1 = ht_key64 t"
      "ht_entries t1 = Suc (ht_entries t)" "ht_map t1 = (ht_map t)(key \<mapsto> ?d)"
    using new by (auto simp: find_result_def split: if_splits)
  have "fst (ht_nodes t1 ! i) = key" "key \<noteq> 0" using i(3) key by (simp_all add: key_ok_def)
  then have s: "ht_ok (set_node_data i Null t1)" "ht_map (set_node_data i Null t1) = (ht_map t1)(key \<mapsto> Null)"
      "set_node_data i Null t1 = t1\<lparr>ht_nodes := (ht_nodes t1)[i := (key, Null)]\<rparr>"
    using set_node_data_ok [OF t1(1) i(2)] by (simp_all add: set_node_data_def)
  show ?thesis
  proof (rule that)
    show "hashtable_find (Suc n) t key ?d = Some (Inr (Some i, t1))" using f(1) i(1) by simp
    show "let t2 = (if d \<noteq> Null then t1 else t1\<lparr>ht_nodes := (ht_nodes t1)[i := (key, Null)]\<rparr>) in
      ht_ok t2 \<and> ht_key64 t2 = ht_key64 t \<and> ht_size t2 = ht_size t \<and> ht_entries t2 = Suc (ht_entries t) \<and> ht_map t2 = (ht_map t)(key \<mapsto> d)"
      using t1 f(3) s by (cases "d = Null") (simp_all add: Let_def)
  qed
qed

lemma move_nodes_map:
  assumes "ht_ok t" and "distinct (map fst (used nodes))" and "\<forall>k \<in> fst ` set (used nodes). node_key (ht_key64 t) k = k \<and> ht_map t k = None"
    and "ht_entries t + length (used nodes) \<le> HASH_LOAD_LIMIT (ht_size t)"
  shows "\<exists>t'. move_nodes (hashtable_find (Suc n)) nodes t = Some (Inr t') \<and> ht_ok t' \<and> ht_key64 t' = ht_key64 t \<and> ht_size t' = ht_size t \<and>
     ht_entries t' = ht_entries t + length (used nodes) \<and> ht_map t' = ht_map t ++ map_of (used nodes)"
  using assms
proof (induction nodes arbitrary: t)
  case (Cons x nodes)
  obtain key d where x: "x = (key, d)" by force
  show ?case
  proof (cases "key = 0")
    case True
    then show ?thesis using Cons.IH [of t] Cons.prems x by simp
  next
    case False
    have key: "key_ok (ht_key64 t) key" "ht_map t key = None" "key \<notin> fst ` set (used nodes)" using Cons.prems x False by (auto simp: key_ok_def)
    obtain i t1 where f: "hashtable_find (Suc n) t key (if d \<noteq> Null then d else Mark) = Some (Inr (Some i, t1))"
      and s: "let t2 = (if d \<noteq> Null then t1 else t1\<lparr>ht_nodes := (ht_nodes t1)[i := (key, Null)]\<rparr>) in
        ht_ok t2 \<and> ht_key64 t2 = ht_key64 t \<and> ht_size t2 = ht_size t \<and> ht_entries t2 = Suc (ht_entries t) \<and> ht_map t2 = (ht_map t)(key \<mapsto> d)"
      by (rule grow_step [OF Cons.prems(1) key(1,2), of n d]) (use Cons.prems(4) x False in auto)
    define t2 where "t2 = (if d \<noteq> Null then t1 else t1\<lparr>ht_nodes := (ht_nodes t1)[i := (key, Null)]\<rparr>)"
    have t2: "ht_ok t2" "ht_key64 t2 = ht_key64 t" "ht_size t2 = ht_size t" "ht_entries t2 = Suc (ht_entries t)" "ht_map t2 = (ht_map t)(key \<mapsto> d)"
      using s unfolding Let_def t2_def by auto
    have "move_nodes (hashtable_find (Suc n)) (x # nodes) t = move_nodes (hashtable_find (Suc n)) nodes t2"
      unfolding x t2_def using False f by simp
    moreover have "length (used (x # nodes)) = Suc (length (used nodes))" "distinct (map fst (used nodes))" using x False Cons.prems(2) by simp_all
    moreover have "\<forall>k \<in> fst ` set (used nodes). node_key (ht_key64 t2) k = k \<and> ht_map t2 k = None"
    proof
      fix k
      assume k: "k \<in> fst ` set (used nodes)"
      then have "k \<in> fst ` set (used (x # nodes))" "k \<noteq> key" using key(3) by auto
      then show "node_key (ht_key64 t2) k = k \<and> ht_map t2 k = None" using bspec [OF Cons.prems(3)] t2(2,5) by simp
    qed
    moreover have "ht_map t ++ map_of (used (x # nodes)) = (ht_map t)(key \<mapsto> d) ++ map_of (used nodes)"
      using x False key(3) by (simp add: map_add_upd_left dom_map_of_conv_image_fst)
    ultimately show ?thesis using Cons.IH [of t2] Cons.prems(4) t2 by (simp del: fun_upd_apply)
  qed
qed simp

lemma used_replicate [simp]: "used (replicate n (0, d)) = []"
  by (simp add: used_def)

lemma used_rev [simp]: "used (rev nodes) = rev (used nodes)"
  by (simp add: used_def rev_filter)

lemma empty_ok:
  assumes "size_ok sz"
  shows "ht_ok \<lparr>ht_nodes = replicate sz (0, Null), ht_size = sz, ht_entries = 0, ht_key64 = k\<rparr>"
    "ht_map \<lparr>ht_nodes = replicate sz (0, Null), ht_size = sz, ht_entries = 0, ht_key64 = k\<rparr> = Map.empty"
  using assms by (auto simp: ht_ok_def nodes_ok_def ht_map_def list_all_iff node_key_def)

lemma size_ok_double: "size_ok sz \<Longrightarrow> sz < 2 ^ 29 \<Longrightarrow> size_ok (sz * 2)"
proof -
  assume a: "size_ok sz" "sz < 2 ^ 29"
  then obtain n where n: "4 \<le> n" "n \<le> 29" "sz = 2 ^ n" by (auto simp: size_ok_def)
  then have "n \<noteq> 29" using a(2) by auto
  then show ?thesis unfolding size_ok_def using n by (intro exI [of _ "Suc n"]) auto
qed

lemma grow_map:
  assumes ok: "ht_ok t" and sz: "ht_size t < 2 ^ 29"
  shows "\<exists>t'. move_nodes (hashtable_find (Suc n)) (rev (ht_nodes t))
      (t\<lparr>ht_nodes := replicate (ht_size t * 2) (0, Null), ht_size := ht_size t * 2, ht_entries := 0\<rparr>) = Some (Inr t') \<and>
    ht_ok t' \<and> ht_key64 t' = ht_key64 t \<and> ht_size t' = ht_size t * 2 \<and> ht_entries t' = ht_entries t \<and> ht_map t' = ht_map t"
proof -
  let ?e = "t\<lparr>ht_nodes := replicate (ht_size t * 2) (0, Null), ht_size := ht_size t * 2, ht_entries := 0\<rparr>"
  let ?u = "used (ht_nodes t)"
  have s: "size_ok (ht_size t)" "distinct (map fst ?u)" "length ?u \<le> HASH_LOAD_LIMIT (ht_size t) + 1" "ht_entries t = length ?u"
    using ok by (auto simp: ht_ok_def nodes_ok_def)
  have e: "ht_ok ?e" "ht_map ?e = Map.empty"
    using empty_ok [OF size_ok_double [OF s(1) sz], of "ht_key64 t"] by (simp_all add: ht_ok_def ht_map_def)
  have k: "\<forall>k \<in> fst ` set ?u. node_key (ht_key64 t) k = k" using ok by (auto simp: ht_ok_def list_all_iff used_def)
  have l: "length ?u \<le> HASH_LOAD_LIMIT (ht_size t * 2)" using s(3) limit_double [OF s(1)] by (rule order.trans)
  have "map_of (rev ?u) = map_of ?u" using s(2) by (intro map_of_inject_set [THEN iffD2]) (simp_all add: rev_map [symmetric])
  then show ?thesis using move_nodes_map [OF e(1), of "rev (ht_nodes t)" n] e(2) s(2,4) k l by (auto simp: ht_map_def rev_map [symmetric])
qed

lemma find_unfold:
  assumes "d \<noteq> Null" and "HASH_LOAD_LIMIT (ht_size t) < ht_entries t" and "ht_entries t1 \<le> HASH_LOAD_LIMIT (ht_size t1)" and "ht_key64 t1 = ht_key64 t"
    and "move_nodes (hashtable_find n) (rev (ht_nodes t))
      (t\<lparr>ht_nodes := replicate (ht_size t * 2) (0, Null), ht_size := ht_size t * 2, ht_entries := 0\<rparr>) = Some (Inr t1)"
  shows "hashtable_find (Suc n) t key d = hashtable_find (Suc n) t1 key d"
  using assms by (simp add: hashtable_find.simps)

lemma hashtable_find_ok:
  assumes ok: "ht_ok t" and key: "key_ok (ht_key64 t) key" and room: "ht_entries t < 2 ^ 28"
  shows "\<exists>r t'. hashtable_find (Suc (Suc n)) t key d = Some (Inr (r, t')) \<and> find_result t key d r t'"
proof (cases "d = Null \<or> ht_entries t \<le> HASH_LOAD_LIMIT (ht_size t)")
  case True
  then show ?thesis using find_stays [OF ok key] by blast
next
  case False
  have s: "size_ok (ht_size t)" "ht_entries t \<le> HASH_LOAD_LIMIT (ht_size t) + 1" using ok by (auto simp: ht_ok_def nodes_ok_def)
  have "ht_size t < 2 ^ 29" using False room by (auto simp: HASH_LOAD_LIMIT_def)
  from grow_map [OF ok this, of n] obtain t1 where t1: "move_nodes (hashtable_find (Suc n)) (rev (ht_nodes t))
      (t\<lparr>ht_nodes := replicate (ht_size t * 2) (0, Null), ht_size := ht_size t * 2, ht_entries := 0\<rparr>) = Some (Inr t1)"
    "ht_ok t1" "ht_key64 t1 = ht_key64 t" "ht_size t1 = ht_size t * 2" "ht_entries t1 = ht_entries t" "ht_map t1 = ht_map t" by blast
  have l: "ht_entries t1 \<le> HASH_LOAD_LIMIT (ht_size t1)" unfolding t1(4,5) using s(2) limit_double [OF s(1)] by (rule order.trans)
  have "hashtable_find (Suc (Suc n)) t key d = hashtable_find (Suc (Suc n)) t1 key d"
    by (rule find_unfold [OF _ _ l t1(3,1)]) (use False in auto)
  moreover have "find_result t key d r t' = find_result t1 key d r t'" for r t'
    using False t1(3,5,6) by (simp add: find_result_def split: option.split)
  ultimately show ?thesis using find_stays [OF t1(2), of key d "Suc n"] key t1(3) l by auto
qed

section \<open>Properties\<close>

lemma create_size_power: "sz = 2 ^ n \<Longrightarrow> n \<le> m \<Longrightarrow> req \<le> 2 ^ m \<Longrightarrow> \<exists>k. n \<le> k \<and> k \<le> m \<and> create_size sz req = 2 ^ k \<and> req \<le> 2 ^ k"
proof (induction sz req arbitrary: n rule: create_size.induct)
  case (1 sz req)
  show ?case
  proof (cases "sz < req")
    case True
    then have "n < m" using "1.prems" by (metis le_neq_implies_less linorder_not_le)
    then have "\<exists>k. Suc n \<le> k \<and> k \<le> m \<and> create_size (sz * 2) req = 2 ^ k \<and> req \<le> 2 ^ k"
      using "1.IH" [of "Suc n"] "1.prems" True by simp
    then show ?thesis using True "1.prems"(1) by (subst create_size.simps) (auto intro: Suc_leD)
  next
    case False
    then show ?thesis using "1.prems" by (subst create_size.simps) (auto intro: exI [of _ n])
  qed
qed

lemma power_of_two_and: "0 < m \<Longrightarrow> m AND (m - 1) = 0 \<Longrightarrow> \<exists>n. m = 2 ^ n" for m :: nat
proof (induction m rule: less_induct)
  case (less m)
  have rec: "m AND (m - 1) = of_bool (odd m \<and> odd (m - 1)) + 2 * ((m div 2) AND ((m - 1) div 2))" by (rule and_rec)
  show ?case
  proof (cases "even m")
    case True
    then obtain k where k: "m = 2 * k" by blast
    then have "(m - 1) div 2 = k - 1" "m div 2 = k" by simp_all
    then have "k AND (k - 1) = 0" "0 < k" "k < m" using rec less.prems k by simp_all
    then obtain n where "k = 2 ^ n" using less.IH by blast
    then show ?thesis using k by (intro exI [of _ "Suc n"]) simp
  next
    case False
    then obtain k where k: "m = 2 * k + 1" by (elim oddE)
    then have "k = 0" using rec less.prems(2) by simp
    then show ?thesis using k by (intro exI [of _ 0]) simp
  qed
qed

lemma requested_power:
  fixes w :: int32
  assumes "w AND (w - 1) = 0" and "16 \<le> sint w"
  shows "\<exists>n \<ge> 4. unat w = 2 ^ n \<and> int (2 ^ n) = sint w"
proof -
  have s: "int (unat w) = sint w" using assms(2) sint_less [of w] by (simp add: uint_sint take_bit_int_eq_self)
  then have p: "16 \<le> unat w" using assms(2) by linarith
  then have "w \<noteq> 0" by auto
  then have "unat (w - 1) = unat w - 1" by (simp add: unat_minus_one)
  then have "unat w AND (unat w - 1) = 0" using arg_cong [OF assms(1), of unat] by (simp add: unsigned_and_eq)
  then obtain n where n: "unat w = 2 ^ n" using power_of_two_and [of "unat w"] p by auto
  then have "(2::nat) ^ 4 \<le> 2 ^ n" using p by simp
  then have "4 \<le> n" by (simp only: power_increasing_iff)
  then show ?thesis using n s by auto
qed

text \<open>
  A new table is empty, and its size is a power of two that is at least 16 and the requested size.
\<close>

lemma hashtable_create_ok:
  assumes "sint sz \<le> 2 ^ 29"
  shows "ht_ok (hashtable_create sz key64 :: 'd hashtable)" "ht_map (hashtable_create sz key64 :: 'd hashtable) = Map.empty"
    "sint sz \<le> int (ht_size (hashtable_create sz key64 :: 'd hashtable))" "ht_entries (hashtable_create sz key64 :: 'd hashtable) = 0"
    "ht_key64 (hashtable_create sz key64 :: 'd hashtable) = key64"
proof -
  let ?t = "hashtable_create sz key64 :: 'd hashtable"
  have "size_ok (ht_size ?t) \<and> sint sz \<le> int (ht_size ?t)"
  proof (cases "sz AND (sz - 1) \<noteq> 0 \<or> sint sz < 16")
    case True
    have "nat (sint sz) \<le> 2 ^ 29" using assms by simp
    then obtain k where k: "4 \<le> k" "k \<le> 29" "create_size 16 (nat (sint sz)) = 2 ^ k" "nat (sint sz) \<le> 2 ^ k"
      using create_size_power [of 16 4 29 "nat (sint sz)"] by auto
    have "sint sz \<le> int (2 ^ k)" using k(4) by linarith
    then show ?thesis using True k by (auto simp: hashtable_create_def size_ok_def Let_def)
  next
    case False
    then obtain n where n: "4 \<le> n" "unat sz = 2 ^ n" "int (2 ^ n) = sint sz" using requested_power [of sz] by auto
    have "int (2 ^ n) \<le> int (2 ^ 29)" using assms n(3) by simp
    then have "(2::nat) ^ n \<le> 2 ^ 29" by (simp only: of_nat_le_iff)
    then have "n \<le> 29" by (simp only: power_increasing_iff)
    then show ?thesis using False n by (auto simp: hashtable_create_def size_ok_def Let_def)
  qed
  then show "ht_ok ?t" "ht_map ?t = Map.empty" "sint sz \<le> int (ht_size ?t)" "ht_entries ?t = 0" "ht_key64 ?t = key64"
    using empty_ok [of "ht_size ?t"] by (auto simp: hashtable_create_def Let_def)
qed

text \<open>The key 0 is refused.\<close>

lemma hashtable_find_illegal:
  "hashtable_find (Suc n) t 0 d = Some (Inl RERR_MESSAGEIO)"
  by (simp add: hashtable_find.simps)

text \<open>C32: a hash table is a map. A lookup of a legal key in a table that satisfies the invariant, with
  fewer than 2^28 entries, ends with a node; two levels of the function are enough. A key that is
  there has its own data and the map is unchanged, whether or not the table had to grow, also
  where the data of some nodes is NULL. A new key is given a node with data_when_new, and all
  other keys keep their data, or is not found when data_when_new is NULL; the invariant holds again.\<close>

theorem hashtable_find_map:
  assumes "ht_ok t" and "key_ok (ht_key64 t) key" and "ht_entries t < 2 ^ 28"
  shows "\<exists>r t'. hashtable_find (Suc (Suc n)) t key d = Some (Inr (r, t')) \<and> ht_ok t' \<and> ht_key64 t' = ht_key64 t \<and>
     (case ht_map t key of
        Some d0 \<Rightarrow> ht_map t' = ht_map t \<and> ht_entries t' = ht_entries t \<and> (\<exists>i. r = Some i \<and> i < ht_size t' \<and> ht_nodes t' ! i = (key, d0))
      | None \<Rightarrow>
          if d = Null then r = None \<and> t' = t
          else ht_map t' = (ht_map t)(key \<mapsto> d) \<and> ht_entries t' = ht_entries t + 1 \<and> (\<exists>i. r = Some i \<and> i < ht_size t' \<and> ht_nodes t' ! i = (key, d)))"
  using hashtable_find_ok [OF assms] unfolding find_result_def .

lemma hashtable_find_map_witness:
  "\<exists>i t'. hashtable_find 2 (hashtable_create 16 True) 7 (Data (3::nat)) = Some (Inr (Some i, t')) \<and> ht_map t' = [7 \<mapsto> Data 3] \<and> ht_nodes t' ! i = (7, Data 3)"
proof -
  let ?t = "hashtable_create 16 True :: nat hashtable"
  have t: "ht_ok ?t" "ht_map ?t = Map.empty" "ht_entries ?t = 0" "ht_key64 ?t" using hashtable_create_ok [of 16 True] by simp_all
  then have "key_ok (ht_key64 ?t) 7" by (simp add: key_ok_def node_key_def)
  then show ?thesis using hashtable_find_map [OF t(1), of 7 0 "Data 3"] t(2,3) by (auto simp: numeral_2_eq_2)
qed

end
