(* ===== verification/HardLinks.thy ===== *)
theory HardLinks
  imports HashTable FlistList
begin

text \<open>
  The table of hard links of hlink.c: idev_find, which keeps a hash table of inodes for every
  device, and its use in send_file_entry and recv_file_entry of flist.c, which look up the index
  of the first file with a device and inode and enter the index of a new one. The tables implement
  the map from devices and inodes to indices that the file list entries are modelled with.
\<close>

section \<open>The tables\<close>

text \<open>
  dev_tbl, the static dev_node of idev_find (the index of its node) and prior_hlinks. The data of
  an inode is an index, as a pointer: 0 is NULL.
\<close>

record hlink_vars =
  dev_tbl :: "int hashtable hashtable option"
  dev_node :: "nat option"
  prior_hlinks :: "byte list hashtable option"

text \<open>The static variables at the start.\<close>

definition no_hlinks :: hlink_vars where
  "no_hlinks = \<lparr>dev_tbl = None, dev_node = None, prior_hlinks = None\<rparr>"

definition init_hard_links :: "bool \<Rightarrow> flist_cfg \<Rightarrow> hlink_vars \<Rightarrow> hlink_vars" where
  "init_hard_links am_sender cfg v =
     (if am_sender \<or> fc_protocol_version cfg < 30 then v\<lparr>dev_tbl := Some (hashtable_create 16 True)\<rparr>
      else if inc_recurse cfg then v\<lparr>prior_hlinks := Some (hashtable_create 1024 False)\<rparr>
      else v)"

definition link_data :: "int \<Rightarrow> int ht_data" where
  "link_data ndx = (if ndx = 0 then Null else Data ndx)"

text \<open>\<open>(long)np->data\<close>; the address of the empty string has no value here.\<close>

fun data_long :: "int ht_data \<Rightarrow> int option" where
  "data_long Null = Some 0"
| "data_long (Data n) = Some n"
| "data_long Mark = None"

text \<open>The node of a device that is not the one of the last call; a new one is given a table.\<close>

definition dev_entry :: "int hashtable hashtable \<Rightarrow> int64 \<Rightarrow> (nat \<times> int hashtable hashtable) result option" where
  "dev_entry tbl dev =
     (case hashtable_find 2 tbl (dev + 1) Mark of
        Some (Inr (Some i, tbl)) \<Rightarrow>
          Some (Inr (i, case snd (ht_nodes tbl ! i) of Mark \<Rightarrow> set_node_data i (Data (hashtable_create 512 True)) tbl | _ \<Rightarrow> tbl))
      | Some (Inl e) \<Rightarrow> Some (Inl e)
      | _ \<Rightarrow> None)"

text \<open>The result is the node of the device and the node in its table, at which the caller may change the data.\<close>

definition idev_find :: "hlink_vars \<Rightarrow> int64 \<Rightarrow> int64 \<Rightarrow> ((nat \<times> nat) \<times> hlink_vars) result option" where
  "idev_find v dev ino =
     (case dev_tbl v of
        None \<Rightarrow> None
      | Some tbl \<Rightarrow>
          (case (case dev_node v of
                   Some i \<Rightarrow> if fst (ht_nodes tbl ! i) \<noteq> dev + 1 then dev_entry tbl dev else Some (Inr (i, tbl))
                 | None \<Rightarrow> dev_entry tbl dev) of
             Some (Inr (i, tbl)) \<Rightarrow>
               (case snd (ht_nodes tbl ! i) of
                  Data inodes \<Rightarrow>
                    (case hashtable_find 2 inodes ino (Data (-1)) of
                       Some (Inr (Some j, inodes)) \<Rightarrow>
                         Some (Inr ((i, j), v\<lparr>dev_tbl := Some (set_node_data i (Data inodes) tbl), dev_node := Some i\<rparr>))
                     | Some (Inl e) \<Rightarrow> Some (Inl e)
                     | _ \<Rightarrow> None)
                | _ \<Rightarrow> None)
           | Some (Inl e) \<Rightarrow> Some (Inl e)
           | None \<Rightarrow> None))"

text \<open>\<open>np->data\<close>, read and written.\<close>

definition np_data :: "nat \<times> nat \<Rightarrow> hlink_vars \<Rightarrow> int option" where
  "np_data np v =
     (case dev_tbl v of
        Some tbl \<Rightarrow>
          (case snd (ht_nodes tbl ! fst np) of Data inodes \<Rightarrow> data_long (snd (ht_nodes inodes ! snd np)) | _ \<Rightarrow> None)
      | None \<Rightarrow> None)"

definition set_np_data :: "nat \<times> nat \<Rightarrow> int \<Rightarrow> hlink_vars \<Rightarrow> hlink_vars" where
  "set_np_data np ndx v =
     (case dev_tbl v of
        Some tbl \<Rightarrow>
          (case snd (ht_nodes tbl ! fst np) of
             Data inodes \<Rightarrow>
               v\<lparr>dev_tbl := Some (set_node_data (fst np) (Data (set_node_data (snd np) (link_data ndx) inodes)) tbl)\<rparr>
           | _ \<Rightarrow> v)
      | None \<Rightarrow> v)"

text \<open>What send_file_entry and recv_file_entry do: the index that is there, -1 when it is new, and then the new index is entered.\<close>

definition link_ndx :: "hlink_vars \<Rightarrow> int64 \<times> int64 \<Rightarrow> int \<Rightarrow> (int \<times> hlink_vars) result option" where
  "link_ndx v dev_ino new_ndx =
     (case idev_find v (fst dev_ino) (snd dev_ino) of
        Some (Inr (np, v)) \<Rightarrow>
          (case np_data np v of
             Some ndx \<Rightarrow> Some (Inr (ndx, if ndx < 0 then set_np_data np new_ndx v else v))
           | None \<Rightarrow> None)
      | Some (Inl e) \<Rightarrow> Some (Inl e)
      | None \<Rightarrow> None)"

section \<open>The tables as a map\<close>

definition inodes_ok :: "nat \<Rightarrow> int hashtable \<Rightarrow> bool" where
  "inodes_ok n t \<longleftrightarrow> ht_ok t \<and> ht_key64 t \<and> ht_entries t \<le> n \<and>
     (\<forall>k d. ht_map t k = Some d \<longrightarrow> (\<exists>m \<ge> 0. data_long d = Some m))"

definition devs_ok :: "nat \<Rightarrow> int hashtable hashtable \<Rightarrow> bool" where
  "devs_ok n tbl \<longleftrightarrow> ht_ok tbl \<and> ht_key64 tbl \<and> ht_entries tbl \<le> n \<and>
     (\<forall>k d. ht_map tbl k = Some d \<longrightarrow> (\<exists>t. d = Data t \<and> inodes_ok n t))"

definition idev_ok :: "nat \<Rightarrow> hlink_vars \<Rightarrow> bool" where
  "idev_ok n v \<longleftrightarrow> (\<exists>tbl. dev_tbl v = Some tbl \<and> devs_ok n tbl \<and>
     (case dev_node v of None \<Rightarrow> True | Some i \<Rightarrow> i < ht_size tbl \<and> fst (ht_nodes tbl ! i) \<noteq> 0))"

definition devs_map :: "int hashtable hashtable \<Rightarrow> int64 \<times> int64 \<Rightarrow> int option" where
  "devs_map tbl dev_ino =
     (case ht_map tbl (fst dev_ino + 1) of
        Some (Data t) \<Rightarrow> (case ht_map t (snd dev_ino) of Some d \<Rightarrow> data_long d | None \<Rightarrow> None)
      | _ \<Rightarrow> None)"

definition idev_map :: "hlink_vars \<Rightarrow> int64 \<times> int64 \<Rightarrow> int option" where
  "idev_map v = (case dev_tbl v of Some tbl \<Rightarrow> devs_map tbl | None \<Rightarrow> Map.empty)"

text \<open>A device is stored as its number plus one, and an inode as it is: neither may be 0.\<close>

definition link_key :: "int64 \<times> int64 \<Rightarrow> bool" where
  "link_key dev_ino \<longleftrightarrow> fst dev_ino \<noteq> -1 \<and> snd dev_ino \<noteq> 0"

lemma key_ok_64 [simp]: "key_ok True key \<longleftrightarrow> key \<noteq> 0"
  by (simp add: key_ok_def node_key_def)

lemma data_long_link [simp]: "data_long (link_data n) = Some n"
  by (simp add: link_data_def)

lemma dev_plus_one: "dev + 1 = (0 :: int64) \<longleftrightarrow> dev = -1"
  by (metis add.right_inverse add_right_cancel ab_group_add_class.ab_left_minus)

lemma inodes_ok_mono: "inodes_ok m t \<Longrightarrow> m \<le> n \<Longrightarrow> inodes_ok n t"
  by (auto simp: inodes_ok_def)

lemma devs_ok_mono: "devs_ok m tbl \<Longrightarrow> m \<le> n \<Longrightarrow> devs_ok n tbl"
  unfolding devs_ok_def using inodes_ok_mono by (metis order.trans)

text \<open>The inode in the table of its device.\<close>

lemma inode_step:
  assumes ok: "inodes_ok n t" and room: "n < 2 ^ 28" and ino: "ino \<noteq> 0" and new: "0 \<le> ndx"
  shows "\<exists>j t'. hashtable_find 2 t ino (Data (-1)) = Some (Inr (Some j, t')) \<and>
    (case ht_map t ino of
       Some d \<Rightarrow> snd (ht_nodes t' ! j) = d \<and> inodes_ok n t' \<and> ht_map t' = ht_map t
     | None \<Rightarrow> snd (ht_nodes t' ! j) = Data (-1) \<and> inodes_ok (Suc n) (set_node_data j (link_data ndx) t') \<and>
         ht_map (set_node_data j (link_data ndx) t') = (ht_map t)(ino \<mapsto> link_data ndx))"
proof -
  have t: "ht_ok t" "ht_key64 t" "ht_entries t < 2 ^ 28" "ht_entries t \<le> n" using ok room by (auto simp: inodes_ok_def)
  obtain r t' where f: "hashtable_find 2 t ino (Data (-1)) = Some (Inr (r, t'))" "find_result t ino (Data (-1)) r t'"
    using hashtable_find_ok [OF t(1) _ t(3), of ino 0 "Data (-1)"] ino t(2) by (auto simp: numeral_2_eq_2)
  show ?thesis
  proof (cases "ht_map t ino")
    case None
    then obtain j where j: "r = Some j" "j < ht_size t'" "ht_nodes t' ! j = (ino, Data (-1))" "ht_ok t'" "ht_key64 t'"
        "ht_map t' = (ht_map t)(ino \<mapsto> Data (-1))" "ht_entries t' = Suc (ht_entries t)"
      using f(2) t(2) by (auto simp: find_result_def)
    note s = set_node_data_ok [OF j(4,2), of ino "link_data ndx"]
    have m: "ht_map (set_node_data j (link_data ndx) t') = (ht_map t)(ino \<mapsto> link_data ndx)" using s(2) j(3,6) ino by simp
    have "inodes_ok (Suc n) (set_node_data j (link_data ndx) t')"
      using s(1) j(3,5,7) t(4) ino ok new unfolding inodes_ok_def m by auto
    then show ?thesis using None f(1) j(1,3) m by auto
  next
    case (Some d)
    then show ?thesis using f ok by (auto simp: find_result_def inodes_ok_def)
  qed
qed

text \<open>The table of the device.\<close>

lemma devs_map_upd:
  assumes "ht_map tbl' = (ht_map tbl)(dev + 1 \<mapsto> Data t)" and "\<And>ino. devs_map tbl (dev, ino) = (case ht_map t ino of Some d \<Rightarrow> data_long d | None \<Rightarrow> None)"
  shows "devs_map tbl' = devs_map tbl"
proof
  fix p
  show "devs_map tbl' p = devs_map tbl p"
    using assms(2) [of "snd p"] by (cases p) (auto simp: devs_map_def assms(1))
qed

lemma dev_step:
  assumes ok: "devs_ok n tbl" and room: "n < 2 ^ 28" and dev: "dev \<noteq> -1"
  shows "\<exists>i tbl' t. dev_entry tbl dev = Some (Inr (i, tbl')) \<and> devs_ok (Suc n) tbl' \<and> devs_map tbl' = devs_map tbl \<and>
    i < ht_size tbl' \<and> ht_nodes tbl' ! i = (dev + 1, Data t)  \<and> inodes_ok n t"
proof -
  have t: "ht_ok tbl" "ht_key64 tbl" "ht_entries tbl < 2 ^ 28" "ht_entries tbl \<le> n" using ok room by (auto simp: devs_ok_def)
  have k: "dev + 1 \<noteq> 0" using dev dev_plus_one by simp
  obtain r tbl1 where f: "hashtable_find 2 tbl (dev + 1) Mark = Some (Inr (r, tbl1))" "find_result tbl (dev + 1) Mark r tbl1"
    using hashtable_find_ok [OF t(1) _ t(3), of "dev + 1" 0 Mark] k t(2) by (auto simp: numeral_2_eq_2)
  show ?thesis
  proof (cases "ht_map tbl (dev + 1)")
    case None
    let ?new = "hashtable_create 512 True :: int hashtable"
    have new: "inodes_ok n ?new" "ht_map ?new = Map.empty" using hashtable_create_ok [where 'd = int, of 512 True] by (simp_all add: inodes_ok_def)
    obtain i where i: "r = Some i" "i < ht_size tbl1" "ht_nodes tbl1 ! i = (dev + 1, Mark)" "ht_ok tbl1" "ht_key64 tbl1"
        "ht_map tbl1 = (ht_map tbl)(dev + 1 \<mapsto> Mark)" "ht_entries tbl1 = Suc (ht_entries tbl)"
      using f(2) t(2) None by (auto simp: find_result_def)
    let ?t2 = "set_node_data i (Data ?new) tbl1"
    note s = set_node_data_ok [OF i(4,2), of "dev + 1" "Data ?new"]
    have m: "ht_map ?t2 = (ht_map tbl)(dev + 1 \<mapsto> Data ?new)" using s(2) i(3,6) k by simp
    have "devs_map ?t2 = devs_map tbl" by (rule devs_map_upd [OF m]) (simp add: devs_map_def None new(2))
    moreover have "devs_ok (Suc n) ?t2"
      using s(1) i(3,5,7) t(4) k new(1) devs_ok_mono [OF ok, of "Suc n"] inodes_ok_mono [of n _ "Suc n"] unfolding devs_ok_def m by (auto split: if_splits)
    moreover have "ht_nodes ?t2 ! i = (dev + 1, Data ?new)" using s(3) i(3) k by simp
    moreover have "dev_entry tbl dev = Some (Inr (i, ?t2))" by (simp add: dev_entry_def f(1) i(1,3))
    ultimately show ?thesis using i(2) new(1) by auto
  next
    case (Some d)
    then obtain t' where t': "d = Data t'" "inodes_ok n t'" using ok by (auto simp: devs_ok_def)
    obtain i where i: "r = Some i" "i < ht_size tbl1" "ht_nodes tbl1 ! i = (dev + 1, Data t')" "ht_ok tbl1" "ht_key64 tbl1"
        "ht_map tbl1 = ht_map tbl" "ht_entries tbl1 = ht_entries tbl"
      using f(2) t(2) Some t'(1) by (auto simp: find_result_def)
    have "devs_ok n tbl1" using i(4,5,7) ok unfolding devs_ok_def i(6) by simp
    moreover have "devs_map tbl1 = devs_map tbl" by (rule ext) (simp add: devs_map_def i(6))
    moreover have "dev_entry tbl dev = Some (Inr (i, tbl1))" by (simp add: dev_entry_def f(1) i(1,3))
    ultimately show ?thesis using i(2,3) t'(2) devs_ok_mono [of n _ "Suc n"] by auto
  qed
qed

text \<open>Writing back the table of a device.\<close>

lemma put_table:
  assumes ok: "devs_ok n tbl" and i: "i < ht_size tbl" "ht_nodes tbl ! i = (dev + 1, Data t)" "dev \<noteq> -1" and t': "inodes_ok n t'"
  shows "devs_ok n (set_node_data i (Data t') tbl)" "ht_nodes (set_node_data i (Data t') tbl) ! i = (dev + 1, Data t')"
    "devs_map (set_node_data i (Data t') tbl) =
       (\<lambda>(d, ino). if d = dev then (case ht_map t' ino of Some d \<Rightarrow> data_long d | None \<Rightarrow> None) else devs_map tbl (d, ino))"
proof -
  have h: "ht_ok tbl" "ht_key64 tbl" using ok by (simp_all add: devs_ok_def)
  have k: "dev + 1 \<noteq> 0" using i(3) dev_plus_one by simp
  note s = set_node_data_ok [OF h(1) i(1), of "dev + 1" "Data t'"]
  have m: "ht_map (set_node_data i (Data t') tbl) = (ht_map tbl)(dev + 1 \<mapsto> Data t')" using s(2) i(2) k by simp
  show "devs_ok n (set_node_data i (Data t') tbl)" using s(1) i(2) k ok t' unfolding devs_ok_def m by auto
  show "ht_nodes (set_node_data i (Data t') tbl) ! i = (dev + 1, Data t')" using s(3) i(2) k by simp
  show "devs_map (set_node_data i (Data t') tbl) =
       (\<lambda>(d, ino). if d = dev then (case ht_map t' ino of Some d \<Rightarrow> data_long d | None \<Rightarrow> None) else devs_map tbl (d, ino))"
    by (rule ext) (auto simp: devs_map_def m)
qed

lemma set_node_data_twice: "set_node_data i d (set_node_data i d' t) = set_node_data i d t"
  by (cases "i < length (ht_nodes t)") (simp_all add: set_node_data_def list_update_beyond)

text \<open>The node of the device, from the last call or from the table.\<close>

lemma dev_node_step:
  assumes ok: "idev_ok n v" and room: "n < 2 ^ 28" and dev: "dev \<noteq> -1" and tbl: "dev_tbl v = Some tbl"
  shows "\<exists>i tbl' t. (case dev_node v of
       Some i \<Rightarrow> if fst (ht_nodes tbl ! i) \<noteq> dev + 1 then dev_entry tbl dev else Some (Inr (i, tbl))
     | None \<Rightarrow> dev_entry tbl dev) = Some (Inr (i, tbl')) \<and> devs_ok (Suc n) tbl' \<and> devs_map tbl' = devs_map tbl \<and>
    i < ht_size tbl' \<and> ht_nodes tbl' ! i = (dev + 1, Data t) \<and> inodes_ok n t"
proof -
  have d: "devs_ok n tbl" and c: "case dev_node v of None \<Rightarrow> True | Some i \<Rightarrow> i < ht_size tbl \<and> fst (ht_nodes tbl ! i) \<noteq> 0"
    using ok tbl by (auto simp: idev_ok_def)
  note new = dev_step [OF d room dev]
  show ?thesis
  proof (cases "\<exists>i. dev_node v = Some i \<and> fst (ht_nodes tbl ! i) = dev + 1")
    case True
    then obtain i d0 where i: "dev_node v = Some i" "ht_nodes tbl ! i = (dev + 1, d0)" by (metis prod.collapse)
    have l: "i < ht_size tbl" "dev + 1 \<noteq> 0" using c i by simp_all
    have "ht_map tbl (dev + 1) = Some d0" using ht_map_node [OF _ l(1) i(2) l(2)] d by (simp add: devs_ok_def)
    then obtain t where t: "d0 = Data t" "inodes_ok n t" using d by (auto simp: devs_ok_def)
    then show ?thesis using i l devs_ok_mono [OF d, of "Suc n"] by auto
  next
    case False
    then show ?thesis using new by (auto split: option.split)
  qed
qed

text \<open>A lookup and the entry of a new index are a lookup and an update of the map.\<close>

lemma link_ndx_step:
  assumes ok: "idev_ok n v" and room: "n < 2 ^ 28" and key: "link_key p" and new: "0 \<le> ndx"
  shows "\<exists>v'. link_ndx v p ndx = Some (Inr (case idev_map v p of Some m \<Rightarrow> m | None \<Rightarrow> -1, v')) \<and> idev_ok (Suc n) v' \<and>
    idev_map v' = (case idev_map v p of Some m \<Rightarrow> idev_map v | None \<Rightarrow> (idev_map v)(p \<mapsto> ndx)) \<and>
    (\<forall>m. idev_map v p = Some m \<longrightarrow> 0 \<le> m)"
proof -
  obtain dev ino where p: "p = (dev, ino)" "dev \<noteq> -1" "ino \<noteq> 0" using key by (cases p) (auto simp: link_key_def)
  obtain tbl where tbl: "dev_tbl v = Some tbl" using ok by (auto simp: idev_ok_def)
  obtain i tbl' t where d: "(case dev_node v of
       Some i \<Rightarrow> if fst (ht_nodes tbl ! i) \<noteq> dev + 1 then dev_entry tbl dev else Some (Inr (i, tbl))
     | None \<Rightarrow> dev_entry tbl dev) = Some (Inr (i, tbl'))" "devs_ok (Suc n) tbl'" "devs_map tbl' = devs_map tbl"
    "i < ht_size tbl'" "ht_nodes tbl' ! i = (dev + 1, Data t)" "inodes_ok n t"
    using dev_node_step [OF ok room p(2) tbl] by auto
  have dm: "devs_map tbl (dev, ino') = (case ht_map t ino' of Some d \<Rightarrow> data_long d | None \<Rightarrow> None)" for ino'
  proof -
    have "ht_map tbl' (dev + 1) = Some (Data t)"
      using ht_map_node [OF _ d(4,5)] d(2) p(2) dev_plus_one by (simp add: devs_ok_def)
    then have "devs_map tbl' (dev, ino') = (case ht_map t ino' of Some d \<Rightarrow> data_long d | None \<Rightarrow> None)" by (simp add: devs_map_def)
    then show ?thesis by (simp add: d(3))
  qed
  obtain j t' where f: "hashtable_find 2 t ino (Data (-1)) = Some (Inr (Some j, t'))"
    "case ht_map t ino of
       Some d \<Rightarrow> snd (ht_nodes t' ! j) = d \<and> inodes_ok n t' \<and> ht_map t' = ht_map t
     | None \<Rightarrow> snd (ht_nodes t' ! j) = Data (-1) \<and> inodes_ok (Suc n) (set_node_data j (link_data ndx) t') \<and>
         ht_map (set_node_data j (link_data ndx) t') = (ht_map t)(ino \<mapsto> link_data ndx)"
    using inode_step [OF d(6) room p(3) new] by blast
  let ?w = "\<lambda>x. v\<lparr>dev_tbl := Some (set_node_data i (Data x) tbl'), dev_node := Some i\<rparr>"
  have find: "idev_find v dev ino = Some (Inr ((i, j), ?w t'))"
    unfolding idev_find_def tbl by (simp add: d(1,5) f(1))
  have nd: "ht_nodes (set_node_data i (Data x) tbl') ! i = (dev + 1, Data x)" for x
    using set_node_data_ok(3) [OF _ d(4), of "dev + 1" "Data x"] d(2,5) p(2) dev_plus_one by (simp add: devs_ok_def)
  have np: "np_data (i, j) (?w t') = data_long (snd (ht_nodes t' ! j))" by (simp add: np_data_def nd)
  have set: "set_np_data (i, j) ndx (?w t') = ?w (set_node_data j (link_data ndx) t')"
    by (simp add: set_np_data_def nd set_node_data_twice)
  have ok': "idev_ok (Suc n) (?w x)" "idev_map (?w x) = (\<lambda>(e, ino). if e = dev then (case ht_map x ino of Some d \<Rightarrow> data_long d | None \<Rightarrow> None) else devs_map tbl (e, ino))"
    if "inodes_ok (Suc n) x" for x
    using put_table [OF d(2,4,5) p(2) that] d(4) p(2) dev_plus_one unfolding d(3) by (simp_all add: idev_ok_def idev_map_def)
  have im: "idev_map v = devs_map tbl" by (simp add: idev_map_def tbl)
  show ?thesis
  proof (cases "ht_map t ino")
    case None
    then have x: "inodes_ok (Suc n) (set_node_data j (link_data ndx) t')" "ht_map (set_node_data j (link_data ndx) t') = (ht_map t)(ino \<mapsto> link_data ndx)"
        "snd (ht_nodes t' ! j) = Data (-1)" using f(2) by simp_all
    have "link_ndx v p ndx = Some (Inr (-1, ?w (set_node_data j (link_data ndx) t')))" using find np set x(3) p(1) by (simp add: link_ndx_def)
    moreover have "idev_map v p = None" using None by (simp add: im p(1) dm)
    moreover have "idev_map (?w (set_node_data j (link_data ndx) t')) = (idev_map v)(p \<mapsto> ndx)"
      unfolding ok'(2) [OF x(1)] x(2) im p(1) by (rule ext) (simp add: dm split: prod.split)
    ultimately show ?thesis using ok'(1) [OF x(1)] by simp
  next
    case (Some dt)
    then have x: "inodes_ok n t'" "ht_map t' = ht_map t" "snd (ht_nodes t' ! j) = dt" using f(2) by simp_all
    then obtain m where m: "data_long dt = Some m" "0 \<le> m" using Some by (auto simp: inodes_ok_def)
    have x1: "inodes_ok (Suc n) t'" using inodes_ok_mono [OF x(1)] by simp
    have "link_ndx v p ndx = Some (Inr (m, ?w t'))" using find np x(3) p(1) m by (simp add: link_ndx_def)
    moreover have "idev_map v p = Some m" using Some m(1) by (simp add: im p(1) dm)
    moreover have "idev_map (?w t') = idev_map v" by (rule ext) (auto simp: ok'(2) [OF x1] x(2) im dm)
    ultimately show ?thesis using ok'(1) [OF x1] m(2) by simp
  qed
qed

section \<open>Finding the first link\<close>

lemma map_of_first:
  "map_of xs k = Some m \<longleftrightarrow> (\<exists>j < length xs. xs ! j = (k, m) \<and> (\<forall>i < j. fst (xs ! i) \<noteq> k))"
  by (induction xs) (auto simp: Ex_less_Suc2 All_less_Suc2)

text \<open>A sequence of lookups, each with a key and its index.\<close>

primrec lookups :: "('s \<Rightarrow> 'k \<Rightarrow> int \<Rightarrow> (int \<times> 's) result option) \<Rightarrow> 's \<Rightarrow> ('k \<times> int) list \<Rightarrow> (int list \<times> 's) result option" where
  "lookups lookup s [] = Some (Inr ([], s))"
| "lookups lookup s (x # xs) =
     (case lookup s (fst x) (snd x) of
        Some (Inr (r, s)) \<Rightarrow>
          (case lookups lookup s xs of Some (Inr (rs, s)) \<Rightarrow> Some (Inr (r # rs, s)) | e \<Rightarrow> e)
      | Some (Inl e) \<Rightarrow> Some (Inl e)
      | None \<Rightarrow> None)"

text \<open>
  What the file list needs of the tables: a lookup gives the index that was entered for the key
  and enters the new one for a key that was not seen before. The number of lookups is bounded.
\<close>

locale seen_table =
  fixes lookup :: "'s \<Rightarrow> 'k \<Rightarrow> int \<Rightarrow> (int \<times> 's) result option"
    and ok :: "nat \<Rightarrow> 's \<Rightarrow> bool"
    and seen :: "'s \<Rightarrow> 'k \<Rightarrow> int option"
    and legal :: "'k \<Rightarrow> bool"
    and limit :: nat
  assumes lookup_step: "ok n s \<Longrightarrow> n < limit \<Longrightarrow> legal k \<Longrightarrow> 0 \<le> ndx \<Longrightarrow>
      \<exists>s'. lookup s k ndx = Some (Inr (case seen s k of Some m \<Rightarrow> m | None \<Rightarrow> -1, s')) \<and> ok (Suc n) s' \<and>
        seen s' = (case seen s k of Some m \<Rightarrow> seen s | None \<Rightarrow> (seen s)(k \<mapsto> ndx)) \<and> (\<forall>m. seen s k = Some m \<longrightarrow> 0 \<le> m)"
begin

lemma lookups_results:
  assumes "ok n s" and "n + length xs \<le> limit" and "\<forall>x \<in> set xs. legal (fst x) \<and> 0 \<le> snd x"
  shows "\<exists>rs s'. lookups lookup s xs = Some (Inr (rs, s')) \<and> ok (n + length xs) s' \<and> length rs = length xs \<and>
    seen s' = map_of xs ++ seen s \<and>
    (\<forall>i < length xs. rs ! i = (case (map_of (take i xs) ++ seen s) (fst (xs ! i)) of Some m \<Rightarrow> m | None \<Rightarrow> -1))"
  using assms
proof (induction xs arbitrary: n s)
  case (Cons x xs)
  obtain k ndx where x: "x = (k, ndx)" by force
  obtain s1 where s1: "lookup s k ndx = Some (Inr (case seen s k of Some m \<Rightarrow> m | None \<Rightarrow> -1, s1))" "ok (Suc n) s1"
    "seen s1 = (case seen s k of Some m \<Rightarrow> seen s | None \<Rightarrow> (seen s)(k \<mapsto> ndx))"
    using lookup_step [OF Cons.prems(1), of k ndx] Cons.prems(2,3) x by auto
  have seen1: "m ++ seen s1 = (m(k \<mapsto> ndx)) ++ seen s" for m
    by (rule ext) (auto simp: s1(3) map_add_def split: option.split)
  obtain rs s2 where r: "lookups lookup s1 xs = Some (Inr (rs, s2))" "ok (Suc n + length xs) s2" "length rs = length xs" "seen s2 = map_of xs ++ seen s1"
    "\<forall>i < length xs. rs ! i = (case (map_of (take i xs) ++ seen s1) (fst (xs ! i)) of Some m \<Rightarrow> m | None \<Rightarrow> -1)"
    using Cons.IH [OF s1(2)] Cons.prems(2,3) by auto
  let ?rs = "(case seen s k of Some m \<Rightarrow> m | None \<Rightarrow> -1) # rs"
  have "?rs ! i = (case (map_of (take i (x # xs)) ++ seen s) (fst ((x # xs) ! i)) of Some m \<Rightarrow> m | None \<Rightarrow> -1)" if "i < length (x # xs)" for i
  proof (cases i)
    case (Suc j)
    then show ?thesis using r(5) that by (simp add: seen1 x del: fun_upd_apply)
  qed (simp add: x)
  moreover have "seen s2 = map_of (x # xs) ++ seen s" by (simp add: r(4) seen1 x)
  moreover have "lookups lookup s (x # xs) = Some (Inr (?rs, s2))" by (simp add: x s1(1) r(1))
  moreover have "ok (n + length (x # xs)) s2" "length ?rs = length (x # xs)" using r(2,3) by simp_all
  ultimately show ?case by blast
qed simp

end

interpretation links: seen_table link_ndx idev_ok idev_map link_key "2 ^ 28"
  by unfold_locales (rule link_ndx_step)

section \<open>Properties\<close>

lemma init_idev_ok:
  assumes "am_sender \<or> fc_protocol_version cfg < 30"
  shows "idev_ok 0 (init_hard_links am_sender cfg no_hlinks)"
    "idev_map (init_hard_links am_sender cfg no_hlinks) = Map.empty"
  using assms hashtable_create_ok [where 'd = "int hashtable", of 16 True]
  by (auto simp: init_hard_links_def idev_ok_def devs_ok_def idev_map_def devs_map_def no_hlinks_def)

text \<open>C33: the hash tables implement the map of the file list model. Where the static variables of
  send_file_entry have the map of the tables, one call of idev_find with the entry of a new index
  gives the index and the flags that send_file_entry computes, and the map of the new tables is the
  new map. The lookup always ends with an index; the tables may have up to 2^28 entries.\<close>

theorem send_hlink_refines:
  assumes "idev_ok n v" and "n < 2 ^ 28" and "link_key p" and "0 \<le> ndx" and "30 \<le> fc_protocol_version cfg"
  shows "\<exists>first v'. link_ndx v p ndx = Some (Inr (first, v')) \<and> idev_ok (Suc n) v' \<and>
    send_hlink_flags cfg (Some p) ndx (st\<lparr>sv_idev := idev_map v\<rparr>) =
      (if first < 0 then XMIT_HLINK_FIRST OR XMIT_HLINKED else XMIT_HLINKED, first, st\<lparr>sv_idev := idev_map v'\<rparr>)"
proof -
  obtain v' where v': "link_ndx v p ndx = Some (Inr (case idev_map v p of Some m \<Rightarrow> m | None \<Rightarrow> -1, v'))" "idev_ok (Suc n) v'"
    "idev_map v' = (case idev_map v p of Some m \<Rightarrow> idev_map v | None \<Rightarrow> (idev_map v)(p \<mapsto> ndx))" "\<forall>m. idev_map v p = Some m \<longrightarrow> 0 \<le> m"
    using links.lookup_step [OF assms(1-4)] by blast
  then show ?thesis using assms(5) by (cases p) (auto simp: send_hlink_flags_def Let_def split: option.split)
qed

lemma send_hlink_refines_witness:
  "\<exists>first v'. link_ndx (init_hard_links True sample_cfg no_hlinks) (0, 5) 7 = Some (Inr (first, v')) \<and> idev_ok 1 v' \<and>
    send_hlink_flags sample_cfg (Some (0, 5)) 7 (send_vars0\<lparr>sv_idev := Map.empty\<rparr>) =
      (if first < 0 then XMIT_HLINK_FIRST OR XMIT_HLINKED else XMIT_HLINKED, first, send_vars0\<lparr>sv_idev := idev_map v'\<rparr>)"
  using send_hlink_refines [OF init_idev_ok(1) [of True sample_cfg], of "(0, 5)" 7 sample_cfg send_vars0] init_idev_ok(2) [of True sample_cfg]
  by (simp del: if_split add: link_key_def sample_cfg_def)

text \<open>C34: hard links are recognised. From the tables that init_hard_links makes, a sequence of fewer
  than 2^28 lookups, with the index of each file, gives -1 for a file whose device and inode have not
  been seen, and otherwise the index of the first file that has them, however the tables grow.\<close>

theorem first_link_found:
  assumes "am_sender \<or> fc_protocol_version cfg < 30" and "length xs < 2 ^ 28" and "\<forall>x \<in> set xs. link_key (fst x) \<and> 0 \<le> snd x"
  shows "\<exists>rs v'. lookups link_ndx (init_hard_links am_sender cfg no_hlinks) xs = Some (Inr (rs, v')) \<and>
    length rs = length xs \<and>
    (\<forall>i < length xs. if \<exists>j < i. fst (xs ! j) = fst (xs ! i)
       then \<exists>j < i. fst (xs ! j) = fst (xs ! i) \<and> (\<forall>k < j. fst (xs ! k) \<noteq> fst (xs ! i)) \<and> rs ! i = snd (xs ! j)
       else rs ! i = -1)"
proof -
  let ?v = "init_hard_links am_sender cfg no_hlinks"
  note v = init_idev_ok [OF assms(1)]
  have "0 + length xs \<le> 2 ^ 28" using assms(2) by linarith
  then obtain rs v' where r: "lookups link_ndx ?v xs = Some (Inr (rs, v'))" "length rs = length xs"
      "\<forall>i < length xs. rs ! i = (case map_of (take i xs) (fst (xs ! i)) of Some m \<Rightarrow> m | None \<Rightarrow> -1)"
    using links.lookups_results [OF v(1) _ assms(3)] v(2) by auto
  have "if \<exists>j < i. fst (xs ! j) = fst (xs ! i)
       then \<exists>j < i. fst (xs ! j) = fst (xs ! i) \<and> (\<forall>k < j. fst (xs ! k) \<noteq> fst (xs ! i)) \<and> rs ! i = snd (xs ! j)
       else rs ! i = -1" if i: "i < length xs" for i
  proof (cases "map_of (take i xs) (fst (xs ! i))")
    case None
    then have "\<not> (\<exists>j < i. fst (xs ! j) = fst (xs ! i))" using i
      unfolding map_of_eq_None_iff by (metis image_eqI in_set_conv_nth length_take min.absorb4 nth_take)
    then show ?thesis using r(3) i None by auto
  next
    case (Some m)
    then obtain j where "j < i" "xs ! j = (fst (xs ! i), m)" "\<forall>k < j. fst (xs ! k) \<noteq> fst (xs ! i)"
      using i by (auto simp: map_of_first)
    then show ?thesis using r(3) i Some by auto
  qed
  then show ?thesis using r(1,2) by blast
qed

lemma first_link_found_witness:
  "\<exists>rs v'. lookups link_ndx (init_hard_links True sample_cfg no_hlinks) [((0, 5), 0), ((0, 6), 1), ((0, 5), 2)] = Some (Inr (rs, v')) \<and>
    rs ! 0 = -1 \<and> rs ! 1 = -1 \<and> rs ! 2 = 0"
proof -
  let ?xs = "[((0, 5), 0), ((0, 6), 1), ((0, 5), 2)] :: ((int64 \<times> int64) \<times> int) list"
  obtain rs v' where r: "lookups link_ndx (init_hard_links True sample_cfg no_hlinks) ?xs = Some (Inr (rs, v'))"
    "\<forall>i < length ?xs. if \<exists>j < i. fst (?xs ! j) = fst (?xs ! i)
       then \<exists>j < i. fst (?xs ! j) = fst (?xs ! i) \<and> (\<forall>k < j. fst (?xs ! k) \<noteq> fst (?xs ! i)) \<and> rs ! i = snd (?xs ! j)
       else rs ! i = -1"
    using first_link_found [of True sample_cfg ?xs] by (auto simp: link_key_def simp del: lookups.simps)
  from r(2) have "rs ! 0 = -1" "rs ! 1 = -1" "rs ! 2 = 0"
    by (simp_all add: Ex_less_Suc All_less_Suc numeral_3_eq_3 numeral_2_eq_2)
  then show ?thesis using r(1) by blast
qed

end
