(* ===== verification/HardLinkGroups.thy ===== *)
theory HardLinkGroups
  imports HashTable
begin

text \<open>
  match_hard_links and match_gnums (hlink.c): the receiver links the files of every group of hard
  links of a list into a chain, from the last to the first.

  A file is known by its index on the wire: a pointer to a file is that index, and the files in
  memory are a map from indices. Without incremental recursion F_HL_GNUM and F_HL_PREV are the same
  cell of a file.
\<close>

section \<open>Files and lists\<close>

record hl_file =
  hf_num0 :: int             \<comment> \<open>the cell at START_BUMP\<close>
  hf_num1 :: int             \<comment> \<open>the cell after it\<close>
  hf_ndx :: int              \<comment> \<open>F_NDX\<close>
  hf_linked :: bool          \<comment> \<open>FLAG_HLINKED\<close>
  hf_first :: bool           \<comment> \<open>FLAG_HLINK_FIRST\<close>
  hf_last :: bool            \<comment> \<open>FLAG_HLINK_LAST\<close>
  hf_done :: bool            \<comment> \<open>FLAG_HLINK_DONE\<close>

abbreviation F_HL_GNUM :: "hl_file \<Rightarrow> int" where
  "F_HL_GNUM \<equiv> hf_num0"

definition F_HL_PREV :: "bool \<Rightarrow> hl_file \<Rightarrow> int" where
  "F_HL_PREV inc_rec f = (if inc_rec then hf_num1 f else hf_num0 f)"

definition set_F_HL_PREV :: "bool \<Rightarrow> int \<Rightarrow> hl_file \<Rightarrow> hl_file" where
  "set_F_HL_PREV inc_rec prev f = (if inc_rec then f\<lparr>hf_num1 := prev\<rparr> else f\<lparr>hf_num0 := prev\<rparr>)"

type_synonym hl_files = "int \<Rightarrow> hl_file option"

text \<open>The list that is matched: ndx_start and the pointers of sorted.\<close>

record hl_list =
  hl_start :: int
  hl_sorted :: "int list"

record hl_cfg =
  hc_inc_recurse :: bool
  hc_unsort_ndx :: bool

definition at_file :: "int \<Rightarrow> (hl_file \<Rightarrow> hl_file) \<Rightarrow> hl_files \<Rightarrow> hl_files" where
  "at_file p f fs = fs(p := map_option f (fs p))"

abbreviation sorted_file :: "hl_list \<Rightarrow> hl_files \<Rightarrow> nat \<Rightarrow> hl_file" where
  "sorted_file fl fs i \<equiv> the (fs (hl_sorted fl ! i))"

section \<open>Matching\<close>

definition hlink_compare_gnum :: "hl_list \<Rightarrow> hl_files \<Rightarrow> nat \<Rightarrow> nat \<Rightarrow> int" where
  "hlink_compare_gnum fl fs int1 int2 =
     (let gnum1 = F_HL_GNUM (sorted_file fl fs int1); gnum2 = F_HL_GNUM (sorted_file fl fs int2) in
      if gnum1 \<noteq> gnum2 then (if gnum1 > gnum2 then 1 else -1)
      else if int1 > int2 then 1 else -1)"

text \<open>qsort(3). The comparison never calls two indices equal, so there is only one sorted order.\<close>

primrec insert_by :: "('a \<Rightarrow> 'a \<Rightarrow> int) \<Rightarrow> 'a \<Rightarrow> 'a list \<Rightarrow> 'a list" where
  "insert_by cmp x [] = [x]"
| "insert_by cmp x (y # ys) = (if cmp x y \<le> 0 then x # y # ys else y # insert_by cmp x ys)"

definition qsort_by :: "('a \<Rightarrow> 'a \<Rightarrow> int) \<Rightarrow> 'a list \<Rightarrow> 'a list" where
  "qsort_by cmp xs = foldr (insert_by cmp) xs []"

text \<open>The index of a file of the list on the wire.\<close>

definition wire_ndx :: "hl_cfg \<Rightarrow> hl_list \<Rightarrow> hl_files \<Rightarrow> nat \<Rightarrow> int" where
  "wire_ndx cfg fl fs i = (if hc_unsort_ndx cfg then hf_ndx (sorted_file fl fs i) else int i + hl_start fl)"

text \<open>
  The start of a group: prev, and with incremental recursion the node of the group in prior_hlinks,
  whose data is the index of the last file of the group so far, or a name. A failed assertion and a
  null pointer have no result.
\<close>

definition group_start :: "hl_cfg \<Rightarrow> hl_list \<Rightarrow> hl_files \<Rightarrow> byte list hashtable \<Rightarrow> nat \<Rightarrow> int \<Rightarrow>
    (int \<times> nat option \<times> hl_files \<times> byte list hashtable) result option" where
  "group_start cfg fl fs prior i gnum =
     (let p = hl_sorted fl ! i; first = at_file p (\<lambda>f. f\<lparr>hf_first := True\<rparr>) fs in
      if hc_inc_recurse cfg then
        (case hashtable_find 2 prior (word_of_int gnum) Mark of
           Some (Inr (Some n, prior)) \<Rightarrow>
             (case snd (ht_nodes prior ! n) of
                Mark \<Rightarrow> if gnum \<ge> hl_start fl then Some (Inr (-1, Some n, first, set_node_data n (Data (replicate 5 0)) prior)) else None
              | Data d \<Rightarrow>
                  if d ! 0 = 0 then
                    let prev = sint (IVALu d 1) in
                    (case fs prev of
                       Some _ \<Rightarrow> Some (Inr (prev, Some n, at_file prev (\<lambda>f. f\<lparr>hf_last := False\<rparr>) fs, prior))
                     | None \<Rightarrow> Some (Inr (-1, Some n, first, prior)))
                  else Some (Inr (-1, Some n, fs, prior))
              | Null \<Rightarrow> None)
         | Some (Inl e) \<Rightarrow> Some (Inl e)
         | _ \<Rightarrow> None)
      else Some (Inr (-1, None, first, prior)))"

text \<open>The inner loop: the files of the group but its last, which it returns with what is left of the list.\<close>

fun group_chain :: "hl_cfg \<Rightarrow> hl_list \<Rightarrow> hl_files \<Rightarrow> int \<Rightarrow> int \<Rightarrow> nat \<Rightarrow> nat list \<Rightarrow> int \<times> nat \<times> nat list \<times> hl_files" where
  "group_chain cfg fl fs gnum prev i [] = (prev, i, [], fs)"
| "group_chain cfg fl fs gnum prev i (j # rest) =
     (let gnum_next = F_HL_GNUM (sorted_file fl fs j) in
      if gnum \<noteq> gnum_next then (prev, i, j # rest, fs)
      else let fs = at_file (hl_sorted fl ! i) (set_F_HL_PREV (hc_inc_recurse cfg) prev) fs in
        group_chain cfg fl fs gnum_next (wire_ndx cfg fl fs i) j rest)"

text \<open>The last file of the group.\<close>

definition group_end :: "hl_cfg \<Rightarrow> hl_list \<Rightarrow> int \<Rightarrow> nat option \<Rightarrow> nat \<Rightarrow> hl_files \<Rightarrow> byte list hashtable \<Rightarrow> hl_files \<times> byte list hashtable" where
  "group_end cfg fl prev node i fs prior =
     (let p = hl_sorted fl ! i; inc = hc_inc_recurse cfg in
      if prev < 0 \<and> \<not> inc then (at_file p (\<lambda>f. f\<lparr>hf_linked := False, hf_first := False, hf_done := True\<rparr>) fs, prior)
      else
        let fs = at_file p (\<lambda>f. set_F_HL_PREV inc prev (f\<lparr>hf_last := True\<rparr>)) fs in
        (fs, case node of
               Some n \<Rightarrow>
                 (case snd (ht_nodes prior ! n) of
                    Data d \<Rightarrow> if d ! 0 = 0 then set_node_data n (Data (SIVALu d 1 (word_of_int (wire_ndx cfg fl fs i)))) prior else prior
                  | _ \<Rightarrow> prior)
             | None \<Rightarrow> prior))"

lemma group_chain_length: "group_chain cfg fl fs gnum prev i rest = (prev', i', rest', fs') \<Longrightarrow> length rest' \<le> length rest"
  by (induction cfg fl fs gnum prev i rest rule: group_chain.induct) (auto simp: Let_def split: if_splits intro: le_SucI)

function match_groups :: "hl_cfg \<Rightarrow> hl_list \<Rightarrow> nat list \<Rightarrow> hl_files \<Rightarrow> byte list hashtable \<Rightarrow> (hl_files \<times> byte list hashtable) result option" where
  "match_groups cfg fl [] fs prior = Some (Inr (fs, prior))"
| "match_groups cfg fl (i # rest) fs prior =
     (let gnum = F_HL_GNUM (sorted_file fl fs i) in
      case group_start cfg fl fs prior i gnum of
        None \<Rightarrow> None
      | Some (Inl e) \<Rightarrow> Some (Inl e)
      | Some (Inr (prev, node, fs, prior)) \<Rightarrow>
          (case group_chain cfg fl fs gnum prev i rest of
             (prev, i, rest, fs) \<Rightarrow>
               (case group_end cfg fl prev node i fs prior of (fs, prior) \<Rightarrow> match_groups cfg fl rest fs prior)))"
  by pat_completeness auto
termination
  by (relation "measure (\<lambda>(cfg, fl, is, fs, prior). length is)") (auto dest!: group_chain_length [OF sym])

definition match_gnums :: "hl_cfg \<Rightarrow> hl_list \<Rightarrow> nat list \<Rightarrow> hl_files \<Rightarrow> byte list hashtable \<Rightarrow> (hl_files \<times> byte list hashtable) result option" where
  "match_gnums cfg fl ndx_list fs prior = match_groups cfg fl (qsort_by (hlink_compare_gnum fl fs) ndx_list) fs prior"

definition match_hard_links :: "bool \<Rightarrow> hl_cfg \<Rightarrow> hl_list \<Rightarrow> hl_files \<Rightarrow> byte list hashtable \<Rightarrow> (hl_files \<times> byte list hashtable) result option" where
  "match_hard_links list_only cfg fl fs prior =
     (if \<not> list_only \<and> hl_sorted fl \<noteq> [] then
        let ndx_list = filter (\<lambda>i. hf_linked (sorted_file fl fs i)) [0..<length (hl_sorted fl)] in
        if ndx_list \<noteq> [] then match_gnums cfg fl ndx_list fs prior else Some (Inr (fs, prior))
      else Some (Inr (fs, prior)))"

section \<open>Sorting the links\<close>

lemma insert_by_set [simp]: "set (insert_by cmp x ys) = insert x (set ys)"
  by (induction ys) auto

lemma insert_by_sorted:
  assumes "\<And>a b. a \<in> insert x (set ys) \<Longrightarrow> b \<in> insert x (set ys) \<Longrightarrow> a \<noteq> b \<Longrightarrow> cmp a b \<le> 0 \<longleftrightarrow> P a b"
    and "\<And>a b. a \<noteq> b \<Longrightarrow> P a b \<or> P b a" and "transp P" and "x \<notin> set ys" and "sorted_wrt P ys"
  shows "sorted_wrt P (insert_by cmp x ys)"
  using assms(1,4,5)
proof (induction ys)
  case (Cons y ys)
  show ?case
  proof (cases "cmp x y \<le> 0")
    case True
    then have "P x y" using Cons.prems(1) [of x y] Cons.prems(2) by auto
    then show ?thesis using True Cons.prems(3) assms(3) by (auto dest: transpD)
  next
    case False
    then have "P y x" using Cons.prems(1) [of x y] Cons.prems(2) assms(2) [of x y] by auto
    then show ?thesis using False Cons by auto
  qed
qed simp

lemma qsort_by_simps [simp]: "qsort_by cmp [] = []" "qsort_by cmp (x # xs) = insert_by cmp x (qsort_by cmp xs)"
  by (simp_all add: qsort_by_def)

lemma qsort_by_set [simp]: "set (qsort_by cmp xs) = set xs"
  by (induction xs) auto

lemma insert_by_distinct: "distinct (insert_by cmp x ys) \<longleftrightarrow> x \<notin> set ys \<and> distinct ys"
  by (induction ys) auto

lemma qsort_by_distinct: "distinct xs \<Longrightarrow> distinct (qsort_by cmp xs)"
  by (induction xs) (auto simp: insert_by_distinct)

lemma qsort_by_sorted:
  assumes "\<And>a b. a \<in> set xs \<Longrightarrow> b \<in> set xs \<Longrightarrow> a \<noteq> b \<Longrightarrow> cmp a b \<le> 0 \<longleftrightarrow> P a b"
    and "\<And>a b. a \<noteq> b \<Longrightarrow> P a b \<or> P b a" and "transp P" and "distinct xs"
  shows "sorted_wrt P (qsort_by cmp xs)"
  using assms(1,4)
proof (induction xs)
  case (Cons x xs)
  have "sorted_wrt P (qsort_by cmp xs)" by (rule Cons.IH) (use Cons.prems in auto)
  then show ?case unfolding qsort_by_simps using Cons.prems by (intro insert_by_sorted [OF _ assms(2,3)]) auto
qed simp

text \<open>The order of the links: by group, then by index.\<close>

definition group_less :: "hl_list \<Rightarrow> hl_files \<Rightarrow> nat \<Rightarrow> nat \<Rightarrow> bool" where
  "group_less fl fs i j \<longleftrightarrow> F_HL_GNUM (sorted_file fl fs i) < F_HL_GNUM (sorted_file fl fs j) \<or>
     F_HL_GNUM (sorted_file fl fs i) = F_HL_GNUM (sorted_file fl fs j) \<and> i < j"

lemma links_sorted:
  assumes "distinct xs"
  shows "sorted_wrt (group_less fl fs) (qsort_by (hlink_compare_gnum fl fs) xs)"
proof (rule qsort_by_sorted [OF _ _ _ assms])
  show "transp (group_less fl fs)" by (rule transpI) (auto simp: group_less_def)
qed (auto simp: group_less_def hlink_compare_gnum_def Let_def)

section \<open>A group\<close>

lemma at_file_other [simp]: "q \<noteq> p \<Longrightarrow> at_file p u fs q = fs q"
  by (simp add: at_file_def)

lemma at_file_same [simp]: "at_file p u fs p = map_option u (fs p)"
  by (simp add: at_file_def)

definition wire_ok :: "hl_cfg \<Rightarrow> hl_list \<Rightarrow> hl_files \<Rightarrow> bool" where
  "wire_ok cfg fl fs \<longleftrightarrow> distinct (hl_sorted fl) \<and>
     (\<forall>i < length (hl_sorted fl). 0 \<le> hl_sorted fl ! i \<and> fs (hl_sorted fl ! i) \<noteq> None \<and> wire_ndx cfg fl fs i = hl_sorted fl ! i)"

lemma wire_ok_at_file:
  assumes "\<And>f. hf_ndx (u f) = hf_ndx f" and "wire_ok cfg fl fs"
  shows "wire_ok cfg fl (at_file p u fs)"
proof -
  have "hf_ndx (the (at_file p u fs q)) = hf_ndx (the (fs q))" if "fs q \<noteq> None" for q
    using that assms(1) by (cases "q = p") auto
  moreover have "at_file p u fs q \<noteq> None \<longleftrightarrow> fs q \<noteq> None" for q by (cases "q = p") auto
  ultimately show ?thesis using assms(2) by (cases "hc_unsort_ndx cfg") (simp_all add: wire_ok_def wire_ndx_def)
qed

primrec link_prevs :: "bool \<Rightarrow> hl_list \<Rightarrow> int \<Rightarrow> nat list \<Rightarrow> hl_files \<Rightarrow> hl_files" where
  "link_prevs inc fl prev [] fs = fs"
| "link_prevs inc fl prev (i # is) fs = link_prevs inc fl (hl_sorted fl ! i) is (at_file (hl_sorted fl ! i) (set_F_HL_PREV inc prev) fs)"

lemma link_prevs_other: "p \<notin> (!) (hl_sorted fl) ` set is \<Longrightarrow> link_prevs inc fl prev is fs p = fs p"
  by (induction "is" arbitrary: prev fs) auto

lemma ptr_inj: "wire_ok cfg fl fs \<Longrightarrow> i < length (hl_sorted fl) \<Longrightarrow> j < length (hl_sorted fl) \<Longrightarrow> hl_sorted fl ! i = hl_sorted fl ! j \<longleftrightarrow> i = j"
  by (simp add: wire_ok_def nth_eq_iff_index_eq)

lemma link_prevs_nth:
  assumes "distinct (map ((!) (hl_sorted fl)) is)" and "m < length is"
  shows "link_prevs inc fl prev is fs (hl_sorted fl ! (is ! m)) =
    map_option (set_F_HL_PREV inc (if m = 0 then prev else hl_sorted fl ! (is ! (m - 1)))) (fs (hl_sorted fl ! (is ! m)))"
  using assms
proof (induction "is" arbitrary: prev fs m)
  case (Cons i "is")
  show ?case
  proof (cases m)
    case 0
    then show ?thesis using Cons.prems by (simp add: link_prevs_other)
  next
    case (Suc k)
    have "hl_sorted fl ! i \<notin> (!) (hl_sorted fl) ` set is" "is ! k \<in> set is" using Cons.prems Suc by auto
    then have "hl_sorted fl ! (is ! k) \<noteq> hl_sorted fl ! i" by (metis image_eqI)
    then show ?thesis using Cons Suc by (cases k) auto
  qed
qed simp

lemma set_prev_ndx [simp]: "hf_ndx (set_F_HL_PREV inc prev f) = hf_ndx f"
  by (simp add: set_F_HL_PREV_def)

lemma group_chain_links:
  assumes "wire_ok cfg fl fs" and "distinct (i # qs @ rest)" and "set (i # qs @ rest) \<subseteq> {..<length (hl_sorted fl)}"
    and "\<forall>j \<in> set qs. F_HL_GNUM (sorted_file fl fs j) = g" and "rest \<noteq> [] \<longrightarrow> F_HL_GNUM (sorted_file fl fs (hd rest)) \<noteq> g"
  shows "group_chain cfg fl fs g prev i (qs @ rest) =
    (if qs = [] then prev else hl_sorted fl ! last (butlast (i # qs)), last (i # qs), rest, link_prevs (hc_inc_recurse cfg) fl prev (butlast (i # qs)) fs)"
  using assms
proof (induction qs arbitrary: i fs prev)
  case Nil
  then show ?case by (cases rest) auto
next
  case (Cons q qs)
  let ?fs = "at_file (hl_sorted fl ! i) (set_F_HL_PREV (hc_inc_recurse cfg) prev) fs"
  have w: "wire_ok cfg fl ?fs" using Cons.prems(1) by (rule wire_ok_at_file [rotated]) simp
  have n: "wire_ndx cfg fl ?fs i = hl_sorted fl ! i" using w Cons.prems(3) by (simp add: wire_ok_def)
  have same: "?fs (hl_sorted fl ! j) = fs (hl_sorted fl ! j)" if "j \<in> set (qs @ rest)" for j
  proof -
    have "j \<noteq> i" "i < length (hl_sorted fl)" "j < length (hl_sorted fl)" using that Cons.prems(2,3) by auto
    then show ?thesis using ptr_inj [OF Cons.prems(1)] by simp
  qed
  have "group_chain cfg fl fs g prev i ((q # qs) @ rest) = group_chain cfg fl ?fs g (hl_sorted fl ! i) q (qs @ rest)"
    using Cons.prems(4) n by simp
  also have "\<dots> = (if qs = [] then hl_sorted fl ! i else hl_sorted fl ! last (butlast (q # qs)), last (q # qs), rest,
      link_prevs (hc_inc_recurse cfg) fl (hl_sorted fl ! i) (butlast (q # qs)) ?fs)"
    using Cons.prems(2-5) same by (intro Cons.IH [OF w]) auto
  finally show ?case by auto
qed

text \<open>A file of a group, without incremental recursion: a single link is none.\<close>

definition linked_file :: "hl_list \<Rightarrow> nat list \<Rightarrow> nat \<Rightarrow> hl_file \<Rightarrow> hl_file" where
  "linked_file fl ps m f =
     (if length ps = 1 then f\<lparr>hf_linked := False, hf_first := False, hf_done := True\<rparr>
      else f\<lparr>hf_num0 := (if m = 0 then -1 else hl_sorted fl ! (ps ! (m - 1))), hf_first := (m = 0 \<or> hf_first f),
             hf_last := (Suc m = length ps \<or> hf_last f)\<rparr>)"

text \<open>The files of a group after the start of the group and the inner loop.\<close>

lemma nth_below: "set ps \<subseteq> {..<n} \<Longrightarrow> a < length ps \<Longrightarrow> ps ! a < n"
  using nth_mem by blast

lemma group_ptr_inj:
  assumes "wire_ok cfg fl fs" and "distinct ps" and "set ps \<subseteq> {..<length (hl_sorted fl)}" and "a < length ps" and "b < length ps"
  shows "hl_sorted fl ! (ps ! a) = hl_sorted fl ! (ps ! b) \<longleftrightarrow> a = b"
proof -
  have "ps ! a < length (hl_sorted fl)" "ps ! b < length (hl_sorted fl)" using nth_below [OF assms(3)] assms(4,5) by simp_all
  then show ?thesis using ptr_inj [OF assms(1)] assms(2,4,5) by (simp add: nth_eq_iff_index_eq)
qed

lemma group_linked:
  assumes w: "wire_ok cfg fl fs" and ps: "ps \<noteq> []" "distinct ps" "set ps \<subseteq> {..<length (hl_sorted fl)}" and m: "m < length ps"
  shows "link_prevs False fl (-1) (butlast ps) (at_file (hl_sorted fl ! hd ps) (\<lambda>f. f\<lparr>hf_first := True\<rparr>) fs) (hl_sorted fl ! (ps ! m)) =
    map_option (\<lambda>f. f\<lparr>hf_num0 := (if Suc m = length ps then hf_num0 f else if m = 0 then -1 else hl_sorted fl ! (ps ! (m - 1))),
      hf_first := (m = 0 \<or> hf_first f)\<rparr>) (fs (hl_sorted fl ! (ps ! m)))"
proof -
  let ?first = "at_file (hl_sorted fl ! hd ps) (\<lambda>f. f\<lparr>hf_first := True\<rparr>) fs" and ?ptr = "\<lambda>m. hl_sorted fl ! (ps ! m)"
  note inj = group_ptr_inj [OF w ps(2,3)]
  have first: "?first (?ptr m) = map_option (\<lambda>f. f\<lparr>hf_first := (m = 0 \<or> hf_first f)\<rparr>) (fs (?ptr m))"
    using ps(1) inj [of m 0] m unfolding hd_conv_nth [OF ps(1)] by (cases "m = 0") (auto simp: option.map_ident_strong)
  show ?thesis
  proof (cases "m = length ps - 1")
    case True
    have "?ptr m \<notin> (!) (hl_sorted fl) ` set (butlast ps)"
    proof
      assume "?ptr m \<in> (!) (hl_sorted fl) ` set (butlast ps)"
      then obtain a where "a < length ps - 1" "?ptr m = ?ptr a" by (auto simp: in_set_conv_nth nth_butlast)
      then show False using inj [of m a] True m by simp
    qed
    then show ?thesis using first True ps(1) by (simp add: link_prevs_other)
  next
    case False
    have "distinct (map ((!) (hl_sorted fl)) (butlast ps))" using inj by (auto simp: distinct_conv_nth nth_butlast)
    from link_prevs_nth [OF this, of m False "-1" ?first] False m show ?thesis
      by (auto simp: nth_butlast first option.map_comp comp_def set_F_HL_PREV_def intro!: option.map_cong)
  qed
qed

lemma group_ended:
  assumes cfg: "\<not> hc_inc_recurse cfg" and w: "wire_ok cfg fl fs" and ps: "ps \<noteq> []" "distinct ps" "set ps \<subseteq> {..<length (hl_sorted fl)}"
    and prev: "prev = (if length ps = 1 then -1 else hl_sorted fl ! last (butlast ps))"
    and fs': "(fs', prior') = group_end cfg fl prev node (last ps)
      (link_prevs False fl (-1) (butlast ps) (at_file (hl_sorted fl ! hd ps) (\<lambda>f. f\<lparr>hf_first := True\<rparr>) fs)) prior"
  shows "m < length ps \<Longrightarrow> fs' (hl_sorted fl ! (ps ! m)) = map_option (linked_file fl ps m) (fs (hl_sorted fl ! (ps ! m)))"
    "p \<notin> (!) (hl_sorted fl) ` set ps \<Longrightarrow> fs' p = fs p"
proof -
  let ?ptr = "\<lambda>m. hl_sorted fl ! (ps ! m)"
  let ?fs1 = "link_prevs False fl (-1) (butlast ps) (at_file (hl_sorted fl ! hd ps) (\<lambda>f. f\<lparr>hf_first := True\<rparr>) fs)"
  note link = group_linked [OF w ps]
  have l: "last ps = ps ! (length ps - 1)" using ps(1) by (simp add: last_conv_nth)
  show "fs' (?ptr m) = map_option (linked_file fl ps m) (fs (?ptr m))" if m: "m < length ps"
  proof (cases "length ps = 1")
    case True
    then have "fs' = at_file (?ptr 0) (\<lambda>f. f\<lparr>hf_linked := False, hf_first := False, hf_done := True\<rparr>) ?fs1"
      using fs' cfg prev l by (simp add: group_end_def)
    then show ?thesis using True m link [of 0] by (auto simp: option.map_comp comp_def linked_file_def intro!: option.map_cong)
  next
    case False
    have "1 < length ps" using False ps(1) by (cases ps) auto
    moreover from this have "butlast ps \<noteq> []" by (simp flip: length_greater_0_conv)
    ultimately have bl: "last (butlast ps) = ps ! (length ps - 2)" "1 < length ps"
      by (simp_all add: last_conv_nth nth_butlast numeral_2_eq_2)
    have "ps ! (length ps - 2) < length (hl_sorted fl)" using bl(2) by (intro nth_below [OF ps(3)]) linarith
    then have "0 \<le> hl_sorted fl ! last (butlast ps)" using w bl(1) by (simp add: wire_ok_def)
    then have f: "fs' = at_file (?ptr (length ps - 1)) (\<lambda>f. set_F_HL_PREV False prev (f\<lparr>hf_last := True\<rparr>)) ?fs1"
      using fs' cfg prev l False by (simp add: group_end_def Let_def)
    show ?thesis
    proof (cases "m = length ps - 1")
      case True
      then have "fs' (?ptr m) = map_option (\<lambda>f. set_F_HL_PREV False prev (f\<lparr>hf_last := True\<rparr>)) (?fs1 (?ptr m))" using f by simp
      moreover have "Suc m = length ps" "last (butlast ps) = ps ! (m - 1)" using True bl by (simp_all add: numeral_2_eq_2)
      ultimately show ?thesis using False prev link [OF m]
        by (auto simp: option.map_comp comp_def linked_file_def set_F_HL_PREV_def numeral_2_eq_2 intro!: option.map_cong)
    next
      case last: False
      have "fs' (?ptr m) = ?fs1 (?ptr m)" unfolding f using group_ptr_inj [OF w ps(2,3), of m "length ps - 1"] m last ps(1) by simp
      then show ?thesis using link [OF m] m last False
        by (auto simp: linked_file_def intro!: option.map_cong)
    qed
  qed
  show "fs' p = fs p" if "p \<notin> (!) (hl_sorted fl) ` set ps"
  proof -
    have n: "p \<noteq> hl_sorted fl ! last ps" "p \<noteq> hl_sorted fl ! hd ps" "p \<notin> (!) (hl_sorted fl) ` set (butlast ps)"
      using that ps(1) by (auto dest: in_set_butlastD)
    then have "?fs1 p = fs p" by (simp add: link_prevs_other)
    then show ?thesis using fs' n(1) by (auto simp: group_end_def Let_def split: if_splits)
  qed
qed

section \<open>All groups\<close>

text \<open>One round of the outer loop.\<close>

lemma match_groups_round:
  assumes cfg: "\<not> hc_inc_recurse cfg" and w: "wire_ok cfg fl fs" and d: "distinct (ps @ rest)" "set (ps @ rest) \<subseteq> {..<length (hl_sorted fl)}"
    and ps: "ps \<noteq> []" "\<forall>j \<in> set ps. F_HL_GNUM (sorted_file fl fs j) = g" and rest: "\<forall>j \<in> set rest. F_HL_GNUM (sorted_file fl fs j) \<noteq> g"
  shows "\<exists>fs'. match_groups cfg fl (ps @ rest) fs prior = match_groups cfg fl rest fs' prior \<and>
    (\<forall>m < length ps. fs' (hl_sorted fl ! (ps ! m)) = map_option (linked_file fl ps m) (fs (hl_sorted fl ! (ps ! m)))) \<and>
    (\<forall>p. p \<notin> (!) (hl_sorted fl) ` set ps \<longrightarrow> fs' p = fs p) \<and> wire_ok cfg fl fs'"
proof -
  obtain i qs where i: "ps = i # qs" using ps(1) by (cases ps) auto
  let ?fs0 = "at_file (hl_sorted fl ! i) (\<lambda>f. f\<lparr>hf_first := True\<rparr>) fs"
  let ?prev = "if length ps = 1 then -1 else hl_sorted fl ! last (butlast ps)"
  have w0: "wire_ok cfg fl ?fs0" using w by (rule wire_ok_at_file [rotated]) simp
  have g0: "F_HL_GNUM (sorted_file fl ?fs0 j) = F_HL_GNUM (sorted_file fl fs j)" if "j < length (hl_sorted fl)" for j
    using w that by (cases "hl_sorted fl ! j = hl_sorted fl ! i") (auto simp: wire_ok_def)
  have chain: "group_chain cfg fl ?fs0 g (-1) i (qs @ rest) = (?prev, last ps, rest, link_prevs False fl (-1) (butlast ps) ?fs0)"
  proof -
    have "\<forall>j \<in> set qs. F_HL_GNUM (sorted_file fl ?fs0 j) = g" using g0 ps(2) d(2) i by auto
    moreover have "rest \<noteq> [] \<longrightarrow> F_HL_GNUM (sorted_file fl ?fs0 (hd rest)) \<noteq> g" using g0 rest d(2) by (cases rest) auto
    moreover have "distinct (i # qs @ rest)" "set (i # qs @ rest) \<subseteq> {..<length (hl_sorted fl)}" using d i by auto
    ultimately have "group_chain cfg fl ?fs0 g (-1) i (qs @ rest) = (if qs = [] then -1 else hl_sorted fl ! last (butlast (i # qs)), last (i # qs), rest,
      link_prevs (hc_inc_recurse cfg) fl (-1) (butlast (i # qs)) ?fs0)" by (intro group_chain_links [OF w0])
    then show ?thesis using cfg i by simp
  qed
  obtain fs' prior' where e: "group_end cfg fl ?prev None (last ps) (link_prevs False fl (-1) (butlast ps) ?fs0) prior = (fs', prior')" by force
  then have "prior' = prior" by (auto simp: group_end_def Let_def split: if_splits)
  have gi: "F_HL_GNUM (sorted_file fl fs i) = g" using ps(2) i by simp
  have "match_groups cfg fl (ps @ rest) fs prior = match_groups cfg fl rest fs' prior"
    unfolding i append_Cons match_groups.simps Let_def gi using cfg chain e \<open>prior' = prior\<close> by (simp add: group_start_def i)
  moreover have l: "\<forall>m < length ps. fs' (hl_sorted fl ! (ps ! m)) = map_option (linked_file fl ps m) (fs (hl_sorted fl ! (ps ! m)))"
      "\<forall>p. p \<notin> (!) (hl_sorted fl) ` set ps \<longrightarrow> fs' p = fs p"
    using group_ended [OF cfg w ps(1) _ _ refl, of fs' prior' None prior] e d i by auto
  moreover have "wire_ok cfg fl fs'"
  proof -
    have "\<exists>u. fs' p = map_option u (fs p) \<and> (\<forall>f. hf_ndx (u f) = hf_ndx f)" for p
    proof (cases "p \<in> (!) (hl_sorted fl) ` set ps")
      case True
      then obtain m where "m < length ps" "p = hl_sorted fl ! (ps ! m)" by (auto simp: in_set_conv_nth)
      then show ?thesis using l(1) by (intro exI [of _ "linked_file fl ps m"]) (simp add: linked_file_def)
    next
      case False
      then show ?thesis using l(2) by (intro exI [of _ id]) (simp add: option.map_id0)
    qed
    then have "fs' p \<noteq> None \<longleftrightarrow> fs p \<noteq> None" "fs p \<noteq> None \<Longrightarrow> hf_ndx (the (fs' p)) = hf_ndx (the (fs p))" for p
      by (metis option.map_disc_iff, metis option.map_sel)
    then show ?thesis using w by (cases "hc_unsort_ndx cfg") (simp_all add: wire_ok_def wire_ndx_def)
  qed
  ultimately show ?thesis by blast
qed

lemma first_group:
  "sorted_wrt (group_less fl fs) is \<Longrightarrow> \<forall>j \<in> set is. g \<le> F_HL_GNUM (sorted_file fl fs j) \<Longrightarrow>
    is = filter (\<lambda>j. F_HL_GNUM (sorted_file fl fs j) = g) is @ filter (\<lambda>j. F_HL_GNUM (sorted_file fl fs j) \<noteq> g) is"
proof (induction "is")
  case (Cons i "is")
  show ?case
  proof (cases "F_HL_GNUM (sorted_file fl fs i) = g")
    case True
    then show ?thesis using Cons by simp
  next
    case False
    then have "\<forall>j \<in> set is. F_HL_GNUM (sorted_file fl fs j) \<noteq> g" using Cons.prems by (fastforce simp: group_less_def)
    then show ?thesis using False by (simp add: filter_empty_conv)
  qed
qed simp

lemma match_groups_links:
  assumes "\<not> hc_inc_recurse cfg" and "wire_ok cfg fl fs" and "distinct is" and "set is \<subseteq> {..<length (hl_sorted fl)}"
    and "sorted_wrt (group_less fl fs) is"
  shows "\<exists>fs'. match_groups cfg fl is fs prior = Some (Inr (fs', prior)) \<and>
    (\<forall>g m. let ps = filter (\<lambda>j. F_HL_GNUM (sorted_file fl fs j) = g) is in
       m < length ps \<longrightarrow> fs' (hl_sorted fl ! (ps ! m)) = map_option (linked_file fl ps m) (fs (hl_sorted fl ! (ps ! m)))) \<and>
    (\<forall>p. p \<notin> (!) (hl_sorted fl) ` set is \<longrightarrow> fs' p = fs p)"
  using assms(2-5)
proof (induction "length is" arbitrary: "is" fs rule: less_induct)
  case less
  let ?gn = "\<lambda>fs j. F_HL_GNUM (sorted_file fl fs j)"
  show ?case
  proof (cases "is")
    case (Cons i js)
    define g where "g = ?gn fs i"
    define ps where "ps = filter (\<lambda>j. ?gn fs j = g) is"
    define rest where "rest = filter (\<lambda>j. ?gn fs j \<noteq> g) is"
    have "\<forall>j \<in> set is. g \<le> ?gn fs j" using less.prems(4) unfolding Cons g_def by (auto simp: group_less_def)
    then have split: "is = ps @ rest" unfolding ps_def rest_def using first_group [OF less.prems(4)] by blast
    have p: "ps \<noteq> []" "\<forall>j \<in> set ps. ?gn fs j = g" "\<forall>j \<in> set rest. ?gn fs j \<noteq> g" by (auto simp: ps_def rest_def Cons g_def)
    obtain fs1 where f1: "match_groups cfg fl is fs prior = match_groups cfg fl rest fs1 prior"
        "\<forall>m < length ps. fs1 (hl_sorted fl ! (ps ! m)) = map_option (linked_file fl ps m) (fs (hl_sorted fl ! (ps ! m)))"
        "\<forall>p. p \<notin> (!) (hl_sorted fl) ` set ps \<longrightarrow> fs1 p = fs p" "wire_ok cfg fl fs1"
      using match_groups_round [OF assms(1) less.prems(1) _ _ p, of prior] less.prems(2,3) split by auto
    have out: "hl_sorted fl ! j \<notin> (!) (hl_sorted fl) ` set ps" if "j \<in> set rest" for j
    proof
      assume "hl_sorted fl ! j \<in> (!) (hl_sorted fl) ` set ps"
      then obtain x where x: "x \<in> set ps" "hl_sorted fl ! j = hl_sorted fl ! x" by blast
      then have "j < length (hl_sorted fl)" "x < length (hl_sorted fl)" "j \<noteq> x" using that less.prems(2,3) unfolding split by auto
      then show False using ptr_inj [OF less.prems(1)] x(2) by simp
    qed
    then have same: "fs1 (hl_sorted fl ! j) = fs (hl_sorted fl ! j)" if "j \<in> set rest" for j using that f1(3) by simp
    have "sorted_wrt (group_less fl fs1) rest"
      using less.prems(4) unfolding split by (auto simp: sorted_wrt_append group_less_def same elim!: sorted_wrt_mono_rel [rotated])
    moreover have "length rest < length is" "distinct rest" "set rest \<subseteq> {..<length (hl_sorted fl)}" using less.prems(2,3) p(1) split by auto
    ultimately obtain fs2 where f2: "match_groups cfg fl rest fs1 prior = Some (Inr (fs2, prior))"
        "\<forall>g m. let qs = filter (\<lambda>j. ?gn fs1 j = g) rest in
           m < length qs \<longrightarrow> fs2 (hl_sorted fl ! (qs ! m)) = map_option (linked_file fl qs m) (fs1 (hl_sorted fl ! (qs ! m)))"
        "\<forall>p. p \<notin> (!) (hl_sorted fl) ` set rest \<longrightarrow> fs2 p = fs1 p"
      using less.hyps [OF _ f1(4)] by blast
    have "fs2 (hl_sorted fl ! (qs ! m)) = map_option (linked_file fl qs m) (fs (hl_sorted fl ! (qs ! m)))"
      if qs: "qs = filter (\<lambda>j. ?gn fs j = h) is" and m: "m < length qs" for h qs m
    proof (cases "h = g")
      case True
      then have "qs = ps" using qs by (simp add: ps_def)
      moreover have "hl_sorted fl ! (ps ! m) \<notin> (!) (hl_sorted fl) ` set rest" using out m calculation by (metis image_iff nth_mem rev_image_eqI)
      ultimately show ?thesis using f1(2) f2(3) m by simp
    next
      case False
      have "filter (\<lambda>j. ?gn fs j = h) ps = []" using False p(2) by (auto simp: filter_empty_conv)
      moreover have "filter (\<lambda>j. ?gn fs j = h) rest = filter (\<lambda>j. ?gn fs1 j = h) rest" by (rule filter_cong) (simp_all add: same)
      ultimately have "qs = filter (\<lambda>j. ?gn fs1 j = h) rest" using qs split by simp
      moreover have "qs ! m \<in> set rest" using m calculation nth_mem [of m qs] by auto
      ultimately show ?thesis using f2(2) m same by (simp add: Let_def)
    qed
    moreover have "fs2 p = fs p" if "p \<notin> (!) (hl_sorted fl) ` set is" for p
    proof -
      have "p \<notin> (!) (hl_sorted fl) ` set ps" "p \<notin> (!) (hl_sorted fl) ` set rest" using that split by (simp_all add: image_Un)
      then show ?thesis using f1(3) f2(3) by simp
    qed
    ultimately show ?thesis using f1(1) f2(1) by (auto simp: Let_def)
  qed simp
qed

section \<open>Properties\<close>

text \<open>The links of a group, in the order of the list.\<close>

definition group_links :: "hl_list \<Rightarrow> hl_files \<Rightarrow> int \<Rightarrow> nat list" where
  "group_links fl fs g = filter (\<lambda>i. hf_linked (sorted_file fl fs i) \<and> F_HL_GNUM (sorted_file fl fs i) = g) [0..<length (hl_sorted fl)]"

text \<open>What becomes of the file at a place of its group.\<close>

definition chained :: "hl_list \<Rightarrow> nat list \<Rightarrow> nat \<Rightarrow> hl_file \<Rightarrow> hl_file \<Rightarrow> bool" where
  "chained fl ps m f f' \<longleftrightarrow>
     (if length ps = 1 then \<not> hf_linked f' \<and> \<not> hf_first f' \<and> hf_done f'
      else hf_linked f' \<and> F_HL_PREV False f' = (if m = 0 then -1 else hl_sorted fl ! (ps ! (m - 1))) \<and>
        hf_first f' = (m = 0 \<or> hf_first f) \<and> hf_last f' = (Suc m = length ps \<or> hf_last f))"

lemma sorted_group:
  assumes "sorted_wrt (group_less fl fs) is" and "set is = {i. i < length (hl_sorted fl) \<and> hf_linked (sorted_file fl fs i)}"
  shows "filter (\<lambda>j. F_HL_GNUM (sorted_file fl fs j) = g) is = group_links fl fs g"
proof (rule strict_sorted_equal)
  have "sorted_wrt (group_less fl fs) (filter (\<lambda>j. F_HL_GNUM (sorted_file fl fs j) = g) is)" using assms(1) by (rule sorted_wrt_filter)
  then show "sorted_wrt (<) (filter (\<lambda>j. F_HL_GNUM (sorted_file fl fs j) = g) is)"
    by (rule sorted_wrt_mono_rel [rotated]) (auto simp: group_less_def)
  show "sorted_wrt (<) (group_links fl fs g)" unfolding group_links_def by (intro sorted_wrt_filter) simp
qed (use assms(2) in \<open>auto simp: group_links_def\<close>)

text \<open>C35: hard links are chained. Without incremental recursion match_hard_links links the files with the
  same group number, in the order of the list, each to the index of the one before it and the first to -1, and
  marks the first and the last of them, although F_HL_PREV overwrites the group number that the sorting and the
  loops read. A file that is alone in its group is no longer a hard link, and no other file is changed.\<close>

theorem match_hard_links_chains:
  assumes "\<not> hc_inc_recurse cfg" and "wire_ok cfg fl fs"
  shows "\<exists>fs'. match_hard_links False cfg fl fs prior = Some (Inr (fs', prior)) \<and>
    (\<forall>g. \<forall>m < length (group_links fl fs g).
       chained fl (group_links fl fs g) m (sorted_file fl fs (group_links fl fs g ! m)) (sorted_file fl fs' (group_links fl fs g ! m))) \<and>
    (\<forall>p. (\<forall>i < length (hl_sorted fl). hf_linked (sorted_file fl fs i) \<longrightarrow> hl_sorted fl ! i \<noteq> p) \<longrightarrow> fs' p = fs p)"
proof -
  let ?nl = "filter (\<lambda>i. hf_linked (sorted_file fl fs i)) [0..<length (hl_sorted fl)]"
  let ?is = "qsort_by (hlink_compare_gnum fl fs) ?nl"
  have d: "distinct ?nl" by simp
  have set: "set ?is = {i. i < length (hl_sorted fl) \<and> hf_linked (sorted_file fl fs i)}" by auto
  note sw = links_sorted [OF d, of fl fs]
  have m: "match_hard_links False cfg fl fs prior = match_groups cfg fl ?is fs prior"
    by (auto simp: match_hard_links_def match_gnums_def Let_def qsort_by_def)
  obtain fs' where f: "match_groups cfg fl ?is fs prior = Some (Inr (fs', prior))"
      "\<forall>g m. let ps = group_links fl fs g in
         m < length ps \<longrightarrow> fs' (hl_sorted fl ! (ps ! m)) = map_option (linked_file fl ps m) (fs (hl_sorted fl ! (ps ! m)))"
      "\<forall>p. p \<notin> (!) (hl_sorted fl) ` set ?is \<longrightarrow> fs' p = fs p"
    using match_groups_links [OF assms qsort_by_distinct [OF d] _ sw, of prior] set sorted_group [OF sw set] by auto
  have "chained fl ps m (sorted_file fl fs (ps ! m)) (sorted_file fl fs' (ps ! m))"
    if ps: "ps = group_links fl fs g" and lt: "m < length ps" for g ps m
  proof -
    have "ps ! m \<in> set (group_links fl fs g)" using ps lt by simp
    then have i: "ps ! m < length (hl_sorted fl)" "hf_linked (sorted_file fl fs (ps ! m))" by (auto simp: group_links_def)
    then obtain f0 where "fs (hl_sorted fl ! (ps ! m)) = Some f0" "hf_linked f0" using assms(2) by (auto simp: wire_ok_def)
    moreover from this have "fs' (hl_sorted fl ! (ps ! m)) = Some (linked_file fl ps m f0)" using f(2) ps lt by (simp add: Let_def)
    ultimately show ?thesis by (simp add: chained_def linked_file_def F_HL_PREV_def)
  qed
  moreover have "fs' p = fs p" if "\<forall>i < length (hl_sorted fl). hf_linked (sorted_file fl fs i) \<longrightarrow> hl_sorted fl ! i \<noteq> p" for p
  proof -
    have "p \<notin> (!) (hl_sorted fl) ` set ?is" using that unfolding set by auto
    then show ?thesis using f(3) by simp
  qed
  ultimately show ?thesis using m f(1) by auto
qed

text \<open>Three links of one file among five files, and one link alone.\<close>

definition sample_links :: hl_files where
  "sample_links p = (if p \<in> {0..4} then Some \<lparr>hf_num0 = (if p = 3 then 3 else 0), hf_num1 = 0, hf_ndx = p, hf_linked = (p \<noteq> 1), hf_first = False,
     hf_last = False, hf_done = False\<rparr> else None)"

lemma match_hard_links_chains_witness:
  "\<exists>fs'. match_hard_links False \<lparr>hc_inc_recurse = False, hc_unsort_ndx = True\<rparr> \<lparr>hl_start = 0, hl_sorted = [0, 1, 4, 2, 3]\<rparr> sample_links
      (hashtable_create 16 False) = Some (Inr (fs', hashtable_create 16 False)) \<and>
    F_HL_PREV False (the (fs' 0)) = -1 \<and> F_HL_PREV False (the (fs' 4)) = 0 \<and> F_HL_PREV False (the (fs' 2)) = 4 \<and> hf_last (the (fs' 2)) \<and>
    \<not> hf_linked (the (fs' 3)) \<and> fs' 1 = sample_links 1"
proof -
  let ?cfg = "\<lparr>hc_inc_recurse = False, hc_unsort_ndx = True\<rparr>" and ?fl = "\<lparr>hl_start = 0, hl_sorted = [0, 1, 4, 2, 3]\<rparr>"
  have w: "wire_ok ?cfg ?fl sample_links" by (simp add: wire_ok_def wire_ndx_def sample_links_def All_less_Suc2 numeral_eq_Suc)
  have g: "group_links ?fl sample_links 0 = [0, 2, 3]" "group_links ?fl sample_links 3 = [4]"
    by (simp_all add: group_links_def sample_links_def upt_rec)
  obtain fs' where f: "match_hard_links False ?cfg ?fl sample_links (hashtable_create 16 False) = Some (Inr (fs', hashtable_create 16 False))"
      "\<forall>g. \<forall>m < length (group_links ?fl sample_links g).
         chained ?fl (group_links ?fl sample_links g) m (sorted_file ?fl sample_links (group_links ?fl sample_links g ! m)) (sorted_file ?fl fs' (group_links ?fl sample_links g ! m))"
      "\<forall>p. (\<forall>i < length (hl_sorted ?fl). hf_linked (sorted_file ?fl sample_links i) \<longrightarrow> hl_sorted ?fl ! i \<noteq> p) \<longrightarrow> fs' p = sample_links p"
    using match_hard_links_chains [of ?cfg ?fl sample_links "hashtable_create 16 False"] w by auto
  have "fs' 1 = sample_links 1" using f(3) by (simp add: sample_links_def All_less_Suc2 numeral_eq_Suc)
  moreover have "F_HL_PREV False (the (fs' 0)) = -1" using f(2) [rule_format, of 0 0] by (simp add: g chained_def)
  moreover have "F_HL_PREV False (the (fs' 4)) = 0" using f(2) [rule_format, of 1 0] by (simp add: g chained_def)
  moreover have "F_HL_PREV False (the (fs' 2)) = 4" "hf_last (the (fs' 2))" using f(2) [rule_format, of 2 0] by (simp_all add: g chained_def)
  moreover have "\<not> hf_linked (the (fs' 3))" using f(2) [rule_format, of 0 3] by (simp add: g chained_def)
  ultimately show ?thesis using f(1) by blast
qed

end
