(* ===== verification/Spec2Isabelle.thy ===== *)
theory Spec2Isabelle
  imports FileTransfer FileWrite CleanName Chmod FlistBehaviour FlistClean FilterWire HardLinks HardLinkGroups
begin

text \<open>
  A verification development for the transfer core of rsync, the C program under src/rsync.

  \<^bold>\<open>The program.\<close> A transfer has three processes. The sender walks the source and sends a list of
  files. On the other side the generator sends, for every file that may have changed, the
  checksums of the blocks of the old copy; the sender searches its file for these blocks and answers
  with a stream of tokens, literal data or the number of a block; the receiver puts the new file
  together from the tokens and the old copy. Everything goes over one byte stream in each direction.

  \<^bold>\<open>The theories.\<close> One theory per part, in the order of their dependencies:

  \<^item> \<open>Prelude\<close>: C types, exit codes (errcode.h), the result type of code that may call exit_cleanup
    (an exit code or a value), characters and bytes.
  \<^item> \<open>Codec\<close>: the interface of an encoding, as two locales: with and without state between the values.
  \<^item> \<open>Byteorder\<close>, \<open>Varint\<close>, \<open>Wire\<close>: the readers and writers of io.c and byteorder.h. A writer is the bytes
    it writes, a reader a function of the bytes still to come. \<open>Wire\<close> interprets the codec
    locales for every encoding. \<open>Streams\<close>: strings, the integers of io.h, and the lemmas that a
    reader never leaves more than it got.
  \<^item> \<open>Checksum\<close>: get_checksum1 (checksum.c) and the rolling update of match.c. The strong
    checksums (get_checksum2, sum_update) are parameters.
  \<^item> \<open>MapFile\<close>: map_ptr and its window (fileio.c), over a read(2) that may return any part of what
    was asked for. \<open>FileWrite\<close>: write_file, write_sparse, flush_write_file, sparse_end and
    skip_matched (fileio.c), over a write(2) that follows a script of short, interrupted and
    failed calls.
  \<^item> \<open>Token\<close>: the uncompressed stream of token.c. \<open>Receiver\<close>: receive_data (receiver.c).
  \<^item> \<open>Match\<close>: build_hash_table, matched, hash_search and match_sums (match.c); \<open>Match_Correct\<close> and
    \<open>Search_Loop\<close> hold their invariant and its proof. \<open>Generator\<close>: sum_sizes_sqroot and
    generate_and_send_sums (generator.c), receive_sums (sender.c). \<open>FileTransfer\<close> puts the parts
    together as send_files does for one file.
  \<^item> \<open>Paths\<close>: sanitize_path and unsafe_symlink (util.c). \<open>CleanName\<close>: clean_fname (util.c).
  \<^item> \<open>Wildmatch\<close>: the whole of lib/wildmatch.c.
  \<^item> \<open>FilterRule\<close>: the filter rules of exclude.c: add_rule, rule_matches, check_filter. The rule of a
    per-directory merge file is held in a slot of mergelist_parents, and lists refer to it by the
    number of the slot, so that what one list frees another can no longer read. \<open>FilterCheck\<close>: the
    first matching rule decides. \<open>FilterParse\<close>: parse_rule_tok and get_rule_prefix. \<open>FilterList\<close>:
    parse_filter_str, parse_filter_file, get_cvs_excludes, send_filter_list and recv_filter_list.
    \<open>FilterInv\<close>: what the parser keeps of the lists; the locale \<open>filter_reader\<close> is what its loop needs of an
    invariant, interpreted for the filter list and for the CVS list. \<open>FilterWire\<close>: the rules arrive.
  \<^item> \<open>HashTable\<close>: hashtable_create and hashtable_find (hashtable.c). A table is a list of nodes, and a pointer to a
    node its index. \<open>HardLinks\<close>: idev_find (hlink.c), a table of tables, and what send_file_entry does with it; the locale
    \<open>seen_table\<close> is what the file list needs of it. \<open>HardLinkGroups\<close>: match_hard_links and match_gnums (hlink.c).
  \<^item> \<open>Chmod\<close>: parse_chmod and tweak_mode (chmod.c).
  \<^item> \<open>Uidlist\<close>: the id lists and name maps of uidlist.c; the locale \<open>id_table\<close> is what a list of files
    needs of a table that translates ids, interpreted for owners and for groups.
  \<^item> \<open>FlistEntry\<close>: send_file_entry, recv_file_entry, write_end_of_flist and the loop of recv_file_list
    (flist.c), for every protocol version. Their static variables are the records \<open>send_vars\<close> and
    \<open>recv_vars\<close>. \<open>FlistRoundtrip\<close>, \<open>FlistAttrs\<close> and \<open>FlistList\<close> prove that a list arrives;
    \<open>FlistBehaviour\<close> that reading one ends, and what the static variables get wrong.
  \<^item> \<open>FlistOrder\<close>: f_name_cmp (flist.c), the order of a list, as a key. \<open>FlistSort\<close>: the merge sort of flist.c; the
    locale \<open>three_way\<close> is what it needs of a comparison, interpreted for f_name_cmp. \<open>FlistFind\<close>: flist_find, on a
    list with removed entries. \<open>FlistClean\<close>: flist_sort_and_clean, which removes duplicates.

  \<^bold>\<open>What is shown.\<close> The main theorem is \<open>delta_transfer\<close>: generator, sender and receiver together
  rebuild the source file. It rests on the theorems of the parts, also stated here: the search ends
  and accounts for every byte, the sums arrive, the rolling checksum is the checksum of the window, the
  window over a file shows the file, buffered and sparse writing leave the file that plain
  writing would. Then: every encoding is read back; names from the other side stay inside the tree;
  patterns mean what they should; filter rules are parsed into well-formed lists, the first rule that matches a name
  decides, and every rule reaches the side of the transfer where it applies; a file list arrives with all its attributes, hard links and
  translated ids; it is sorted, searched and freed of duplicates; hard links
  are recognised by the sender and chained by the receiver; option strings are parsed clause by clause.
  Some theorems compute inputs on which the code does what it does not mean to; they say so.

  \<^bold>\<open>Bounds and fuel.\<close> Machine integers are words where they can wrap, and integers with \<open>cast32\<close>
  where the source narrows. The loops of match.c have fuel: the search gets one step for every
  byte of the file and one more, and \<open>match_sums_finishes\<close> shows that this is enough; the loop of
  recv_file_list gets one step for every byte of the input (\<open>recv_entries_ends\<close>); flist_find gets one round for
  every entry (\<open>flist_find_finds\<close>). hashtable_find calls itself when it grows a table: two levels are enough
  (\<open>hashtable_find_map\<close>). check_filter is a partial function, and \<open>check_filter_first\<close> shows that it
  returns. A merge file that merges itself is read until no more files can be opened: the number of files is
  an argument of parse_filter_file, and the theorems hold for every number. The other loops are
  total functions with a measure.

  \<^bold>\<open>Hypotheses.\<close> No collision of strong checksums between a piece of the source and a block of the
  basis (\<open>delta_transfer\<close>); read(2) returns a non-empty part of the file; a caller of send_file_entry
  passes a name that recv_file_entry accepts and hard links with the same attributes; the strings of the
  environment are C strings; a hash table has fewer than 2^28 entries, and no inode is 0, which hashtable_find refuses, and for the transfer of the filter list protocol 30 or later and no CVS rules
  (\<open>filter_list_arrives\<close>).

  \<^bold>\<open>Not modelled.\<close> The compressed token streams (zlib, zstd and lz4 are libraries), reading
  directories and every other system call that only has an effect on the disk, sockets and
  processes, the filter rules that a directory brings along (push_local_filters), creating hard links on the disk, option tables (popt), ACLs and extended attributes, the log and progress output, the
  Go wrapper around the program. Of the modelled functions: debug output, statistics, iconv,
  preallocation and the name-converter process of a daemon are left out.
\<close>

section \<open>A stand-in for the strong checksum\<close>

text \<open>
  The witnesses below instantiate the parameter for get_checksum2 by a function that is
  injective on short inputs: the input padded to 15 bytes, and its length.
\<close>

definition demo_csum2 :: "byte list \<Rightarrow> byte list" where
  "demo_csum2 d = take 15 (d @ replicate 15 0) @ [of_nat (length d)]"

lemma length_demo_csum2 [simp]: "length (demo_csum2 d) = 16"
  by (simp add: demo_csum2_def)

lemma demo_csum2_inject:
  assumes "length a \<le> 15" and "length b \<le> 15" and "demo_csum2 a = demo_csum2 b"
  shows "a = b"
proof -
  have "(of_nat (length a) :: byte) = of_nat (length b)" using assms(3) by (simp add: demo_csum2_def)
  then have "unat (of_nat (length a) :: byte) = unat (of_nat (length b) :: byte)" by simp
  then have "length a = length b" using assms(1,2) by (simp add: unat_of_nat)
  then show ?thesis using assms by (simp add: demo_csum2_def)
qed

lemma demo_collision_free:
  assumes "s_s2length s = 16" and "length src \<le> 15" and "s_blength s \<le> 15" and "s_remainder s \<le> 15"
  shows "collision_free upd s F demo_csum2 src"
  unfolding collision_free_def
proof (intro allI impI, elim conjE)
  fix i off l
  assume "off + l \<le> int (length src)" "0 \<le> off" "0 < l"
    and eq: "sum2_eq s (demo_csum2 (file_bytes src off l)) (demo_csum2 (basis_block s F (int i)))"
  then have "length (file_bytes src off l) \<le> 15" using assms(2) by simp
  moreover have "length (basis_block s F (int i)) \<le> 15"
    using assms(3,4) by (auto simp: basis_block_def block_len_def)
  moreover have "demo_csum2 (file_bytes src off l) = demo_csum2 (basis_block s F (int i))"
    using eq assms(1) take_all [of "demo_csum2 _" 16] unfolding sum2_eq_def by simp
  ultimately show "file_bytes src off l = basis_block s F (int i)"
    by (rule demo_csum2_inject)
qed

definition demo_cfg :: recv_cfg where
  "demo_cfg = \<lparr>rc_protocol_version = 31, rc_csum_length = 16, rc_append_mode = 0, rc_updating = False,
     rc_same_file = False, rc_inplace_sizing = False, rc_fd_open = True\<rparr>"

section \<open>A file, end to end\<close>



text \<open>C3: The sums survive the trip: what the generator sends of a basis file, receive_sums
  accepts, and the sender then holds the offset, length, weak and strong checksum of every
  block of the file.\<close>

theorem sums_arrive:
  assumes "int (length F) < 2 ^ 62" and "0 \<le> bs" "bs \<le> (if pv < 30 then OLD_MAX_BLOCK_SIZE else MAX_BLOCK_SIZE)"
    and "0 \<le> csl" "csl \<le> SUM_LENGTH" and "\<And>d. length (csum2 d) = nat SUM_LENGTH"
    and "generate_and_send_sums pv csl bs csum2 0 False F (int (length F)) = Some (out, copy)"
  shows "\<exists>s. receive_sums pv csl 0 (out @ rest) = Inr (s, rest) \<and> covers s (int (length F)) \<and>
    (s_count s = 0 \<longleftrightarrow> F = []) \<and> (F \<noteq> [] \<longrightarrow> sums_ok s F csum2)"
  using receive_sums_generated [OF assms, of rest] by blast

theorem sums_arrive_witness:
  "\<exists>out s. generate_and_send_sums 31 16 4 demo_csum2 0 False [1, 2, 3, 4, 5, 6, 7, 8] 8 = Some (out, []) \<and>
     receive_sums 31 16 0 (out @ [9]) = Inr (s, [9]) \<and> sums_ok s [1, 2, 3, 4, 5, 6, 7, 8] demo_csum2"
proof -
  let ?F = "[1, 2, 3, 4, 5, 6, 7, 8] :: byte list"
  let ?gen = "generate_and_send_sums 31 16 4 demo_csum2 0 False ?F 8"
  have "map_option snd ?gen = Some []" by code_simp
  then obtain out where gen: "?gen = Some (out, [])" by auto
  show ?thesis
    using gen sums_arrive [of ?F 4 31 16 demo_csum2 out "[]" "[9]"]
    by (auto simp: MAX_BLOCK_SIZE_def SUM_LENGTH_def)
qed



definition wb_sum :: sum_struct where
  "wb_sum = \<lparr>s_flength = 20,
     s_sums = map (\<lambda>(off, d). \<lparr>sb_offset = off, sb_len = 4, sb_sum1 = get_checksum1 d, sb_chain = -1,
                                sb_same_offset = False, sb_sum2 = d\<rparr>)
       [(0, [9, 8, 7, 6]), (4, [5, 5, 1, 5]), (8, [0, 0, 0, 0]), (12, [1, 2, 3, 4]), (16, [0, 1, 254, 1])],
     s_count = 5, s_blength = 4, s_remainder = 0, s_s2length = 4\<rparr>"

definition wb_cfg :: search_cfg where
  "wb_cfg = \<lparr>c_updating = True, c_csum2 = (\<lambda>d. d), c_sum = wb_sum,
     c_src = [7, 1, 2, 3, 4, 0, 0, 0, 0, 1, 254, 1], c_len = 12, c_tablesize = TRADITIONAL_TABLESIZE\<rparr>"

definition wb_state :: search_state where
  "wb_state = \<lparr>m_last_match = 5, m_calls = [(3, 0, 1)], m_summed = [7, 1, 2, 3, 4], m_data_transfer = 1,
     m_matched_data = 4, m_false_alarms = 0, m_hash_hits = 1, m_matches = 1, h_sums = s_sums wb_sum,
     h_table = (\<lambda>_. -1), h_offset = 5, h_k = 4, h_s1 = 0, h_s2 = 0, h_want_i = 4,
     h_aligned_offset = 4, h_aligned_i = 1\<rparr>"


section \<open>Numbers and headers on the wire\<close>

text \<open>C23: a list of 32-bit integers written with write_varint one after the other, followed by
  any bytes, is read back by as many calls of read_varint, which leave exactly what followed.\<close>

theorem varint_stream:
  "read_seq read_varint (length xs) (concat (map write_varint xs) @ rest) = Inr (xs, rest)"
  by (rule varint.read_seq_enc) (simp add: list_all_iff)

text \<open>C24: any sequence of file indices (INT32_MIN apart, which has no negation) sent with
  write_ndx is received by read_ndx in order; both ends go through the same states.\<close>

theorem ndx_stream:
  assumes "list_all (\<lambda>n. n \<noteq> push_bit 31 1) ns"
    and "write_seq_st (write_ndx pv False) ndx_init ns = (bs, st)"
  shows "read_seq_st (read_ndx pv) ndx_init (length ns) (bs @ rest) = Inr (ns, rest, st)"
  using ndx.read_seq_write_seq [OF TrueI assms] .

theorem ndx_stream_witness:
  "\<exists>bs st. write_seq_st (write_ndx 31 False) ndx_init [0, 1, 5, 500, NDX_DONE, 3] = (bs, st) \<and>
     read_seq_st (read_ndx 31) ndx_init 6 (bs @ [7]) = Inr ([0, 1, 5, 500, NDX_DONE, 3], [7], st)"
proof -
  let ?ns = "[0, 1, 5, 500, NDX_DONE, 3] :: int32 list"
  obtain bs st where w: "write_seq_st (write_ndx 31 False) ndx_init ?ns = (bs, st)"
    by fastforce
  have "list_all (\<lambda>n. n \<noteq> push_bit 31 1) ?ns" by (simp add: NDX_DONE_def)
  note r = ndx_stream [OF this w, of "[7]"]
  have "length ?ns = 6" by simp
  with r have "read_seq_st (read_ndx 31) ndx_init 6 (bs @ [7]) = Inr (?ns, [7], st)" by (simp only:)
  with w show ?thesis by blast
qed


text \<open>A vstring is read back by a reader with room for it and its NUL, with what followed left
  in the stream; one longer than 0x7FFF bytes is refused by the writer with a protocol error.\<close>

lemma vstring_roundtrip:
  assumes "length str \<le> 0x7FFF" and "length str < bufsize"
  shows "\<exists>b. write_vstring str = Inr b \<and> read_vstring bufsize (b @ rest) = Inr ((int (length str), str), rest)"
  using assms read_vstring_write_vstring [of str _ bufsize rest] write_vstring_error [of str]
  by (cases "write_vstring str") auto

lemma vstring_roundtrip_ABC:
  "\<exists>b. write_vstring [65, 66, 67] = Inr b \<and> read_vstring 4 (b @ [1]) = Inr ((3, [65, 66, 67]), [1])"
  using vstring_roundtrip [of "[65, 66, 67]" 4 "[1]"] by simp

text \<open>C22: read_sum_head accepts only headers within the limits of the protocol: whatever bytes a
  peer sends, a header that is accepted has a count, a block length, a checksum length and a
  remainder in range; a header in range that write_sum_head wrote is accepted unchanged.\<close>

theorem sum_head_checked:
  "(case read_sum_head pv csl sm bs of Inl e \<Rightarrow> True | Inr (sm', _) \<Rightarrow> sum_head_ok pv sm') \<and>
   (sum_head_ok pv hd' \<and> (pv < 27 \<longrightarrow> s_s2length hd' = csl) \<longrightarrow>
    read_sum_head pv csl sm (write_sum_head pv (Some hd') @ rest) =
      Inr (sm\<lparr>s_count := s_count hd', s_blength := s_blength hd', s_s2length := s_s2length hd',
        s_remainder := s_remainder hd'\<rparr>, rest))"
  using read_sum_head_ok [of pv csl sm bs] read_sum_head_write_sum_head [of pv hd' csl sm rest]
  by (auto split: sum.splits)

theorem sum_head_checked_witness:
  "read_sum_head 31 16 null_sum (write_sum_head 31 (Some (null_sum\<lparr>s_count := 3, s_blength := 700, s_s2length := 2,
      s_remainder := 9\<rparr>)) @ [5]) =
   Inr (null_sum\<lparr>s_count := 3, s_blength := 700, s_s2length := 2, s_remainder := 9\<rparr>, [5])"
proof -
  let ?h = "null_sum\<lparr>s_count := 3, s_blength := 700, s_s2length := 2, s_remainder := 9\<rparr>"
  have "sum_head_ok 31 ?h" by code_simp
  then show ?thesis
    using sum_head_checked [of 31 16 null_sum "[]" ?h "[5]"] by (simp add: null_sum_def)
qed

section \<open>Checksums and block sizes\<close>

text \<open>C19: The four-way unrolled get_checksum1 computes the two sums of the rsync algorithm: the sum of
  the signed bytes, and the sum weighted by the distance from the end, each modulo 2^16.\<close>

theorem checksum1_reference:
  "get_checksum1 bs = checksum1_of (csum_s1 bs) (csum_s2 bs)"
  by (rule get_checksum1_sums)

text \<open>Sliding a window over the bytes that follow it, as the search does it.\<close>

fun roll_over :: "byte list \<Rightarrow> byte list \<Rightarrow> uint32 \<times> uint32 \<Rightarrow> byte list \<times> uint32 \<times> uint32" where
  "roll_over w [] s = (w, s)"
| "roll_over w (c # cs) s = roll_over (tl w @ [c]) cs (roll_add c (roll_drop (int (length w)) (hd w) s))"

lemma roll_over_inv:
  "w \<noteq> [] \<Longrightarrow> roll_inv w s1 s2 \<Longrightarrow> roll_over w cs (s1, s2) = (w', s1', s2') \<Longrightarrow> roll_inv w' s1' s2'"
proof (induction cs arbitrary: w s1 s2)
  case Nil
  then show ?case by simp
next
  case (Cons c cs)
  obtain t1 t2 where d: "roll_drop (int (length w)) (hd w) (s1, s2) = (t1, t2)" by fastforce
  obtain u1 u2 where a: "roll_add c (t1, t2) = (u1, u2)" by fastforce
  have "roll_inv (tl w) t1 t2"
    using roll_drop_inv [of "hd w" "tl w" s1 s2, OF _ _ d] Cons.prems(1,2) by simp
  then have "roll_inv (tl w @ [c]) u1 u2" by (rule roll_add_inv [OF _ a])
  with Cons.IH [of "tl w @ [c]" u1 u2] Cons.prems(3) d a show ?case by simp
qed

lemma roll_over_window: "w \<noteq> [] \<Longrightarrow> fst (roll_over w cs s) = drop (length cs) (w @ cs)"
proof (induction cs arbitrary: w s)
  case (Cons c cs)
  then show ?case by (cases w) (simp_all del: drop_append)
qed simp

text \<open>C18: The rolling checksum never drifts: starting from the checksum of a window and sliding it over
  any further bytes, the two sums kept by the search always combine to what get_checksum1
  computes for the current window from scratch.\<close>

theorem rolling_checksum:
  assumes "w \<noteq> []"
    and "roll_over w cs (get_checksum1 w AND 0xFFFF, drop_bit 16 (get_checksum1 w)) = (w', s1, s2)"
  shows "w' = drop (length cs) (w @ cs) \<and> checksum1_of s1 s2 = get_checksum1 w'"
proof
  show "w' = drop (length cs) (w @ cs)"
    using roll_over_window [OF assms(1), of cs "(get_checksum1 w AND 0xFFFF, drop_bit 16 (get_checksum1 w))"]
    unfolding assms(2) by simp
  show "checksum1_of s1 s2 = get_checksum1 w'"
    using roll_over_inv [OF assms(1) roll_inv_init assms(2)] by (rule roll_inv_checksum)
qed

theorem rolling_checksum_witness:
  "\<exists>s1 s2. roll_over [1, 2, 3] [250, 4] (get_checksum1 [1, 2, 3] AND 0xFFFF, drop_bit 16 (get_checksum1 [1, 2, 3])) =
     ([3, 250, 4], s1, s2) \<and> checksum1_of s1 s2 = get_checksum1 [3, 250, 4]"
proof -
  let ?st = "(get_checksum1 [1, 2, 3] AND 0xFFFF, drop_bit 16 (get_checksum1 [1, 2, 3]))"
  have "fst (roll_over [1, 2, 3] [250, 4] ?st) = [3, 250, 4]" by simp
  then obtain s1 s2 where "roll_over [1, 2, 3] [250, 4] ?st = ([3, 250, 4], s1, s2)"
    by (cases "roll_over [1, 2, 3] [250, 4] ?st") fastforce
  with rolling_checksum [of "[1, 2, 3]" "[250, 4]"] show ?thesis by auto
qed



text \<open>C21: The sums head computed for any file the protocol can carry is one that read_sum_head
  accepts, and it describes the file exactly: count blocks of blength bytes, the last of them
  of remainder bytes, add up to the length of the file.\<close>

theorem sum_sizes_fit:
  assumes "0 \<le> len" and "len < 2 ^ 62" and "0 \<le> bs"
    and "bs \<le> (if pv < 30 then OLD_MAX_BLOCK_SIZE else MAX_BLOCK_SIZE)"
    and "0 \<le> csl" and "csl \<le> SUM_LENGTH" and "s = sum_sizes_sqroot pv csl bs len" and "0 \<le> s_count s"
  shows "sum_head_ok pv s \<and> 0 < s_blength s \<and> s_remainder s < s_blength s \<and>
    len = s_count s * s_blength s - (if s_remainder s \<noteq> 0 then s_blength s - s_remainder s else 0)"
  using sum_sizes_ok [OF assms] by auto

theorem sum_sizes_fit_witness:
  "sum_head_ok 31 (sum_sizes_sqroot 31 2 0 1000000)"
proof -
  have "s_count (sum_sizes_sqroot 31 2 0 1000000) = 1000" by code_simp
  then show ?thesis
    using sum_sizes_fit [of 1000000 0 31 2 "sum_sizes_sqroot 31 2 0 1000000"]
    by (simp add: MAX_BLOCK_SIZE_def SUM_LENGTH_def)
qed

section \<open>Reading and writing files\<close>

text \<open>C4: map_ptr returns the bytes of the file. With a read(2) that returns any non-empty prefix of
  what it is asked for, and whatever the window held before, the pointer shows exactly the bytes
  asked for, zeros past the end; the window stays consistent, and no error is recorded
  when the request lies inside the file and fits the window.\<close>

theorem map_ptr_reads:
  assumes "reads_file F rd" and "\<And>pos. 0 \<le> pos \<Longrightarrow> sk pos = pos" and "map_inv F m"
    and "0 < len" and "0 \<le> offset"
  shows "\<exists>m'. map_ptr rd sk junk m offset len = Inr (Some (file_bytes F offset len), m') \<and> map_inv F m' \<and>
    (file_size m = int (length F) \<longrightarrow> offset + len \<le> int (length F) \<longrightarrow>
     len + ALIGNED_OVERSHOOT offset \<le> def_window_size m \<longrightarrow> unmap_file m' = unmap_file m)"
  using map_ptr_spec [OF assms, of junk] by (auto simp: unmap_file_def)

theorem map_ptr_reads_witness:
  "\<exists>m'. map_ptr (\<lambda>pos n. Inr (take 1 (drop (nat pos) [10, 20, 30]))) (\<lambda>p. p) 0 (map_file 3 1024 0) 1 2 =
     Inr (Some [20, 30], m')"
proof -
  have "reads_file [10, 20, 30] (\<lambda>pos n. Inr (take 1 (drop (nat pos) [10, 20, 30])))"
    unfolding reads_file_def by (auto intro!: exI [of _ "1 :: nat"])
  moreover have "file_bytes [10, 20, 30] 1 2 = [20, 30]" by code_simp
  ultimately show ?thesis
    using map_ptr_reads [of "[10, 20, 30]" _ "\<lambda>p. p" "map_file 3 1024 0" 2 1 0] map_inv_map_file by fastforce
qed

text \<open>C6: Buffered writing loses nothing: when a sequence of write_file calls has reported every byte
  taken and the final flush has not failed, the file is the old content with all the data
  written from the old position on, however write(2) split or interrupted the transfers.\<close>

theorem buffered_write_exact:
  assumes "buf_inv st" and "write_all False offset ds st = Some (offset', st1)"
    and "flush_write_file st1 = (r, st2)" and "0 \<le> r"
  shows "f_content st2 = patch (vcontent st) (vpos st) (concat ds) \<and>
    f_pos st2 = vpos st + int (length (concat ds)) \<and> wf_writeBufCnt st2 = 0"
  using write_all_buffered [OF assms(2,1)] flush_write_file_spec [OF assms(3,4)] by auto

definition demo_wfile :: wfile where
  "demo_wfile = \<lparr>f_content = [], f_pos = 0, f_script = [WIntr, WCount 1], sparse_seek = 0, sparse_past_write = 0,
     wf_writeBuf = [], wf_writeBufCnt = 0\<rparr>"

theorem buffered_write_exact_witness:
  "\<exists>st1 st2. write_all False 0 [[1, 2], [3]] demo_wfile = Some (3, st1) \<and> flush_write_file st1 = (2, st2) \<and>
     f_content st2 = [1, 2, 3]"
proof -
  define st1 where "st1 = demo_wfile\<lparr>wf_writeBuf := [1, 2, 3], wf_writeBufCnt := 3\<rparr>"
  have w: "write_all False 0 [[1, 2], [3]] demo_wfile = Some (3, st1)"
    by (simp add: write_file_def write_file_loop.simps demo_wfile_def st1_def store_def wf_writeBufSize_def WRITE_SIZE_def)
  have "fst (flush_write_file st1) = 2"
    by (simp add: st1_def demo_wfile_def flush_write_file_def flush_loop.simps sys_write_def put_bytes_def write_at_def)
  then obtain st2 where f: "flush_write_file st1 = (2, st2)" by (cases "flush_write_file st1") auto
  have "buf_inv demo_wfile" by (simp add: buf_inv_def demo_wfile_def)
  from buffered_write_exact [OF this w f] have "f_content st2 = [1, 2, 3]"
    by (simp add: demo_wfile_def vcontent_def vpos_def patch_def write_at_def)
  with w f show ?thesis by blast
qed

text \<open>C7: Buffered writing succeeds whenever no write(2) fails: interrupted and short writes are
  retried until everything is taken, and write_file reports the full length.\<close>

theorem buffered_write_completes:
  assumes "no_failure st" and "wf_writeBufCnt st \<le> wf_writeBufSize"
  shows "fst (write_file False pl us offset buf st) = int (length buf)"
  using write_file_loop_succeeds [OF assms, of 0] by (simp add: write_file_def)

theorem buffered_write_completes_witness:
  "fst (write_file False 0 False 0 (replicate 600000 7) demo_wfile) = 600000"
  using buffered_write_completes [of demo_wfile 0 False 0 "replicate 600000 7"]
  by (simp add: no_failure_def demo_wfile_def)



section \<open>Names from the other side\<close>



text \<open>C9: unsafe_symlink decides what its comment promises: a link in \<open>src\<close> is safe exactly when
  its target is relative and, followed component by component from the link's directory, never
  leaves the top of the tree.\<close>

theorem unsafe_symlink_decides:
  assumes "NUL \<notin> set dest" and "src \<noteq> []" and "NUL \<notin> set src" and "at src 0 \<noteq> CHR ''/''"
    and "last src \<noteq> CHR ''/''" and "''..'' \<notin> set (path_comps src)"
  shows "unsafe_symlink dest src \<longleftrightarrow> dest = [] \<or> at dest 0 = CHR ''/'' \<or>
    \<not> stays_inside (int (length (filter (\<lambda>c. c \<noteq> ''.'') (butlast (path_comps src))))) (path_comps dest)"
proof -
  have "src_margin src 0 = int (length (filter (\<lambda>c. c \<noteq> ''.'') (butlast (path_comps src))))"
    using src_margin_dirs [of src 0] assms by simp
  moreover have "at dest 0 = NUL \<longleftrightarrow> dest = []" using assms(1) by (cases dest) auto
  ultimately show ?thesis
    using dest_escapes_stays [of dest "src_margin src 0"] assms(1) by (auto simp: unsafe_symlink_def)
qed

theorem unsafe_symlink_decides_witness:
  "\<not> unsafe_symlink ''../c/d'' ''a/b'' \<and> unsafe_symlink ''../../d'' ''a/b''"
proof -
  have c: "NUL \<notin> set ''../c/d''" "NUL \<notin> set ''../../d''" "''a/b'' \<noteq> []" "NUL \<notin> set ''a/b''" "at ''a/b'' 0 \<noteq> CHR ''/''"
    "last ''a/b'' \<noteq> CHR ''/''" "''..'' \<notin> set (path_comps ''a/b'')" by code_simp+
  have e: "stays_inside (int (length (filter (\<lambda>c. c \<noteq> ''.'') (butlast (path_comps ''a/b''))))) (path_comps ''../c/d'')"
    "\<not> stays_inside (int (length (filter (\<lambda>c. c \<noteq> ''.'') (butlast (path_comps ''a/b''))))) (path_comps ''../../d'')"
    "at ''../c/d'' 0 \<noteq> CHR ''/''" by code_simp+
  show ?thesis
    using unsafe_symlink_decides [OF c(1) c(3-7)] unsafe_symlink_decides [OF c(2) c(3-7)] e by simp
qed

end
